(* ===== verification/Prelude.thy ===== *)
theory Prelude
  imports Main "HOL-Library.Word"
begin

text \<open>
  Shared vocabulary of the development: the machine integers of the C code, the result of
  a C function that may leave the normal path, and little-endian loads and stores on byte
  memory, with the lemmas the components share.
\<close>

unbundle bit_operations_syntax

section \<open>Machine integers\<close>

type_synonym u8 = "8 word"
type_synonym u16 = "16 word"
type_synonym u32 = "32 word"
type_synonym u64 = "64 word"

lemma unat_word_of_nat: "n < 2 ^ LENGTH('a) \<Longrightarrow> unat (word_of_nat n :: 'a::len word) = n"
  by (simp add: unsigned_of_nat take_bit_nat_eq_self)

text \<open>\<open>(int) n\<close> for a \<open>size_t\<close> or \<open>unsigned\<close> value, and the greatest \<open>int\<close>.\<close>

definition INT_MAX :: int where "INT_MAX = 2 ^ 31 - 1"

definition to_int :: "nat \<Rightarrow> int" where "to_int n = signed_take_bit 31 (int n)"

lemma to_int_small: "n < 2 ^ 31 \<Longrightarrow> to_int n = int n"
  by (simp add: to_int_def signed_take_bit_int_eq_self)

section \<open>Results of C functions\<close>

text \<open>
  A C function of the repository returns normally (\<open>Ok\<close>), leaves the process through
  \<open>exit(code)\<close> (\<open>Exit\<close>), stops at a failed \<open>assert\<close> (\<open>Abort\<close>), waits
  forever for a spin lock it already holds (\<open>Hang\<close>), or runs into undefined behaviour:
  an access outside an array, a null pointer, a division by zero (\<open>Undef\<close>).
\<close>

datatype 'a outcome = Ok 'a | Exit int | Abort | Hang | Undef

named_theorems outcome_simps
  \<comment> \<open>rewriting a sequence of C statements whose first part is known\<close>

fun bind_o :: "'a outcome \<Rightarrow> ('a \<Rightarrow> 'b outcome) \<Rightarrow> 'b outcome" where
  "bind_o (Ok x) k = k x"
| "bind_o (Exit c) k = Exit c"
| "bind_o Abort k = Abort"
| "bind_o Hang k = Hang"
| "bind_o Undef k = Undef"

text \<open>Guards: \<open>assert(b)\<close> of C, and an access that is defined only when \<open>b\<close> holds.\<close>

definition assert_o :: "bool \<Rightarrow> unit outcome" where
  "assert_o b = (if b then Ok () else Abort)"

definition defined_o :: "bool \<Rightarrow> unit outcome" where
  "defined_o b = (if b then Ok () else Undef)"

lemma assert_o_True [simp, outcome_simps]: "assert_o True = Ok ()"
  by (simp add: assert_o_def)

lemma assert_o_False [simp, outcome_simps]: "assert_o False = Abort"
  by (simp add: assert_o_def)

lemma defined_o_True [simp, outcome_simps]: "defined_o True = Ok ()"
  by (simp add: defined_o_def)

lemma defined_o_False [simp, outcome_simps]: "defined_o False = Undef"
  by (simp add: defined_o_def)

lemma bind_defined [simp, outcome_simps]: "b \<Longrightarrow> bind_o (defined_o b) k = k ()"
  by simp

lemma bind_assert [simp, outcome_simps]: "b \<Longrightarrow> bind_o (assert_o b) k = k ()"
  by simp

lemma bind_o_assoc: "bind_o (bind_o m f) g = bind_o m (\<lambda>x. bind_o (f x) g)"
  by (cases m) auto

lemma bind_o_Ok_right [simp]: "bind_o m Ok = m"
  by (cases m) auto

lemma bind_o_eq_Ok:
  "bind_o m k = Ok y \<longleftrightarrow> (\<exists>x. m = Ok x \<and> k x = Ok y)"
  by (cases m) auto

lemma bind_o_cong [fundef_cong]:
  "m = m' \<Longrightarrow> (\<And>x. m' = Ok x \<Longrightarrow> k x = k' x) \<Longrightarrow> bind_o m k = bind_o m' k'"
  by (cases m') auto

lemma bind_o_eq_OkE:
  assumes "bind_o m k = Ok y"
  obtains x where "m = Ok x" and "k x = Ok y"
  using assms by (auto simp: bind_o_eq_Ok)

lemma assert_o_eq_Ok [simp]: "assert_o b = Ok u \<longleftrightarrow> b"
  by (cases b) auto

lemma defined_o_eq_Ok [simp]: "defined_o b = Ok u \<longleftrightarrow> b"
  by (cases b) auto

text \<open>\<open>i++\<close> on an \<open>int\<close>, which must not overflow.\<close>

definition incr_int :: "int \<Rightarrow> int outcome" where
  "incr_int i = (if i < INT_MAX then Ok (i + 1) else Undef)"

lemma incr_int_ok [simp, outcome_simps]: "i < INT_MAX \<Longrightarrow> incr_int i = Ok (i + 1)"
  by (simp add: incr_int_def)

fun is_ok :: "'a outcome \<Rightarrow> bool" where
  "is_ok (Ok _) = True"
| "is_ok _ = False"

lemma is_ok_iff: "is_ok m \<longleftrightarrow> (\<exists>x. m = Ok x)"
  by (cases m) auto

section \<open>Byte memory\<close>

text \<open>
  A C byte array is a function from offsets to bytes; its bounds are the business of the
  code that owns it. Multi-byte fields are little-endian, as on the x86 targets of the
  repository.
\<close>

type_synonym bytes = "nat \<Rightarrow> u8"

fun load_le :: "nat \<Rightarrow> bytes \<Rightarrow> nat \<Rightarrow> nat" where
  "load_le 0 m a = 0"
| "load_le (Suc n) m a = unat (m a) + 256 * load_le n m (Suc a)"

definition store_le :: "nat \<Rightarrow> nat \<Rightarrow> bytes \<Rightarrow> nat \<Rightarrow> bytes" where
  "store_le n v m a =
     (\<lambda>i. if a \<le> i \<and> i < a + n then word_of_nat (v div 256 ^ (i - a)) else m i)"

definition memset :: "bytes \<Rightarrow> nat \<Rightarrow> u8 \<Rightarrow> nat \<Rightarrow> bytes" where
  "memset m a b n = (\<lambda>i. if a \<le> i \<and> i < a + n then b else m i)"

text \<open>\<open>copy_bytes dst a src b n\<close>: \<open>n\<close> bytes of \<open>src\<close> from \<open>b\<close>, written to \<open>dst\<close> at \<open>a\<close>.\<close>

definition copy_bytes :: "bytes \<Rightarrow> nat \<Rightarrow> bytes \<Rightarrow> nat \<Rightarrow> nat \<Rightarrow> bytes" where
  "copy_bytes dst a src b n = (\<lambda>i. if a \<le> i \<and> i < a + n then src (b + (i - a)) else dst i)"

lemma load_le_cong:
  "(\<And>i. a \<le> i \<Longrightarrow> i < a + n \<Longrightarrow> m i = m' (i + d)) \<Longrightarrow> load_le n m a = load_le n m' (a + d)"
proof (induction n arbitrary: a)
  case 0
  then show ?case by simp
next
  case (Suc n)
  have "load_le n m (Suc a) = load_le n m' (Suc a + d)"
    using Suc.prems by (intro Suc.IH) auto
  with Suc.prems[of a] show ?case by simp
qed

lemma load_le_eq:
  assumes "\<And>i. a \<le> i \<Longrightarrow> i < a + n \<Longrightarrow> m i = m' i"
  shows "load_le n m a = load_le n m' a"
proof -
  have "load_le n m a = load_le n m' (a + 0)"
    using assms by (intro load_le_cong) simp
  then show ?thesis by simp
qed

lemma load_le_bound: "load_le n m a < 256 ^ n"
proof (induction n arbitrary: a)
  case 0
  then show ?case by simp
next
  case (Suc n)
  have "unat (m a) < 256" using unsigned_less[of "m a", where ?'a = nat] by simp
  moreover have "Suc (load_le n m (Suc a)) * 256 \<le> 256 ^ n * 256"
    using Suc.IH[of "Suc a"] by (intro mult_le_mono1) simp
  ultimately show ?case by simp
qed

lemma load_store_same: "load_le n (store_le n v m a) a = v mod 256 ^ n"
proof (induction n arbitrary: v m a)
  case 0
  then show ?case by simp
next
  case (Suc n)
  have "load_le n (store_le (Suc n) v m a) (Suc a) = load_le n (store_le n (v div 256) m (Suc a)) (Suc a)"
  proof (rule load_le_eq)
    fix i assume "Suc a \<le> i" and "i < Suc a + n"
    then have "i - a = Suc (i - Suc a)" by simp
    with \<open>Suc a \<le> i\<close> \<open>i < Suc a + n\<close>
    show "store_le (Suc n) v m a i = store_le n (v div 256) m (Suc a) i"
      by (simp add: store_le_def div_mult2_eq)
  qed
  then have "load_le (Suc n) (store_le (Suc n) v m a) a = v mod 256 + 256 * (v div 256 mod 256 ^ n)"
    by (simp add: Suc.IH) (simp add: store_le_def unat_of_nat take_bit_eq_mod)
  then show ?case by (simp add: mod_mult2_eq)
qed

lemma load_store_other:
  "a + n \<le> b \<or> b + k \<le> a \<Longrightarrow> load_le n (store_le k v m b) a = load_le n m a"
  by (rule load_le_eq) (auto simp: store_le_def)

lemma load_memset_other:
  "a + n \<le> b \<or> b + k \<le> a \<Longrightarrow> load_le n (memset m b c k) a = load_le n m a"
  by (rule load_le_eq) (auto simp: memset_def)

lemma load_copy_other:
  "a + n \<le> b \<or> b + k \<le> a \<Longrightarrow> load_le n (copy_bytes m b src c k) a = load_le n m a"
  by (rule load_le_eq) (auto simp: copy_bytes_def)

lemma load_copy_inside:
  assumes "b \<le> a" and "a + n \<le> b + k"
  shows "load_le n (copy_bytes m b src c k) a = load_le n src (c + (a - b))"
proof -
  have "load_le n (copy_bytes m b src c k) (b + j) = load_le n src (c + j)"
    if "j + n \<le> k" for j
    using that
  proof (induction n arbitrary: j)
    case 0
    then show ?case by simp
  next
    case (Suc n)
    from Suc.IH[of "Suc j"] Suc.prems show ?case by (simp add: copy_bytes_def)
  qed
  from this[of "a - b"] assms show ?thesis by simp
qed

lemma store_le_outside [simp]: "\<not> (a \<le> i \<and> i < a + n) \<Longrightarrow> store_le n v m a i = m i"
  by (auto simp: store_le_def)

section \<open>Transition systems with an invariant\<close>

text \<open>
  The contract between a component's steps and its invariant: the start states satisfy the
  invariant and every step keeps it. Every reachable state then satisfies it.
\<close>

locale invariant_system =
  fixes start :: "'s \<Rightarrow> bool"
    and step :: "'s \<Rightarrow> 's \<Rightarrow> bool"
    and inv :: "'s \<Rightarrow> bool"
  assumes start_inv: "start s \<Longrightarrow> inv s"
    and step_inv: "step s t \<Longrightarrow> inv s \<Longrightarrow> inv t"
begin

lemma steps_inv: "step\<^sup>*\<^sup>* s t \<Longrightarrow> inv s \<Longrightarrow> inv t"
  by (induction rule: rtranclp_induct) (auto intro: step_inv)

lemma reachable_inv: "start s \<Longrightarrow> step\<^sup>*\<^sup>* s t \<Longrightarrow> inv t"
  by (blast intro: start_inv steps_inv)

end

lemmas load_store_simps = load_store_same load_store_other load_memset_other load_copy_other

end
