(* ===== verification/Interceptor.thy ===== *)
theory Interceptor
  imports Prelude
begin

text \<open>
  The kernel module of \<^verbatim>\<open>a1/starter_code/starter_code/interceptor.c\<close>: the table of
  intercepted system calls, the lists of monitored pids, the command system call
  \<open>my_syscall\<close>, the exit hook and the interceptor, module load and unload.

  The kernel the module is loaded into is not part of the repository. Its constants
  (\<open>NR_syscalls\<close>, \<open>__NR_exit_group\<close>) are the record \<open>kernel\<close>, what it tells about the
  running process is the record \<open>caller\<close>, and the functions its system call table holds are
  opaque numbers (\<open>Kernel n\<close>). Kernel primitives the module calls are modelled by what they
  do to the module's data: \<open>list_add\<close> puts an element at the front of a list, \<open>spin_lock\<close>
  waits forever on a lock already held in the same run, a store to the system call table
  faults unless the page is writable.
\<close>

section \<open>State\<close>

datatype handler = Kernel nat | Interceptor | My_syscall | My_exit_group

text \<open>\<open>mytable\<close>, one row per system call; \<open>my_list\<close> holds the pids from the head on.\<close>

record krow =
  fn :: handler
  intercepted :: int
  monitored :: int
  listcount :: int
  my_list :: "int list"

text \<open>A line written by \<open>log_message\<close>: pid, system call and the six register arguments.\<close>

datatype log_entry = Log int u32 "u32 list"

text \<open>
  \<open>sct_pte\<close> is the page table entry that \<open>lookup_address\<close> finds for the system call table.
\<close>

record kmod =
  table :: "nat \<Rightarrow> krow"
  sys_call_table :: "nat \<Rightarrow> handler"
  sct_pte :: u64
  pidlist_lock :: bool
  calltable_lock :: bool
  orig_exit_group :: handler
  orig_custom_syscall :: handler
  klog :: "log_entry list"

record kernel =
  NR_syscalls :: nat
  NR_exit_group :: nat

text \<open>
  \<open>proc_uid p\<close> is the owner of the process with pid \<open>p\<close>, \<open>None\<close> when
  \<open>pid_task(find_vpid(p), PIDTYPE_PID)\<close> is NULL; \<open>kmalloc_ok\<close> tells whether \<open>kmalloc\<close>
  returns memory during the call.
\<close>

record caller =
  current_pid :: int
  current_uid :: nat
  proc_uid :: "int \<Rightarrow> nat option"
  kmalloc_ok :: bool

text \<open>The registers of \<open>struct pt_regs\<close> that the interceptor reads.\<close>

record pt_regs =
  ax :: u32
  bx :: u32
  cx :: u32
  dx :: u32
  si :: u32
  di :: u32
  bp :: u32

section \<open>Constants\<close>

definition REQUEST_SYSCALL_INTERCEPT :: int where "REQUEST_SYSCALL_INTERCEPT = 1"
definition REQUEST_SYSCALL_RELEASE :: int where "REQUEST_SYSCALL_RELEASE = 2"
definition REQUEST_START_MONITORING :: int where "REQUEST_START_MONITORING = 3"
definition REQUEST_STOP_MONITORING :: int where "REQUEST_STOP_MONITORING = 4"
definition MY_CUSTOM_SYSCALL :: nat where "MY_CUSTOM_SYSCALL = 0"

definition EPERM :: int where "EPERM = 1"
definition ENOMEM :: int where "ENOMEM = 12"
definition EBUSY :: int where "EBUSY = 16"
definition EINVAL :: int where "EINVAL = 22"

definition PAGE_RW :: u64 where "PAGE_RW = 2"

lemmas request_defs = REQUEST_SYSCALL_INTERCEPT_def REQUEST_SYSCALL_RELEASE_def
  REQUEST_START_MONITORING_def REQUEST_STOP_MONITORING_def

lemmas errno_defs = EPERM_def ENOMEM_def EBUSY_def EINVAL_def

section \<open>System call table and locks\<close>

definition set_addr_rw :: "kmod \<Rightarrow> kmod" where
  "set_addr_rw s =
     (if sct_pte s AND NOT PAGE_RW \<noteq> 0 then s\<lparr>sct_pte := sct_pte s OR PAGE_RW\<rparr> else s)"

definition set_addr_ro :: "kmod \<Rightarrow> kmod" where
  "set_addr_ro s = s\<lparr>sct_pte := sct_pte s AND NOT PAGE_RW\<rparr>"

text \<open>A store to \<open>sys_call_table[n]\<close>: a fault while the page is read-only.\<close>

definition write_sct :: "nat \<Rightarrow> handler \<Rightarrow> kmod \<Rightarrow> kmod outcome" where
  "write_sct n h s =
     (if sct_pte s AND PAGE_RW = 0 then Undef
      else Ok (s\<lparr>sys_call_table := (sys_call_table s)(n := h)\<rparr>))"

definition lock_pidlist :: "kmod \<Rightarrow> kmod outcome" where
  "lock_pidlist s = (if pidlist_lock s then Hang else Ok (s\<lparr>pidlist_lock := True\<rparr>))"

definition unlock_pidlist :: "kmod \<Rightarrow> kmod" where
  "unlock_pidlist s = s\<lparr>pidlist_lock := False\<rparr>"

definition lock_calltable :: "kmod \<Rightarrow> kmod outcome" where
  "lock_calltable s = (if calltable_lock s then Hang else Ok (s\<lparr>calltable_lock := True\<rparr>))"

definition unlock_calltable :: "kmod \<Rightarrow> kmod" where
  "unlock_calltable s = s\<lparr>calltable_lock := False\<rparr>"

section \<open>Operations on the lists of monitored pids\<close>

definition get_row :: "kmod \<Rightarrow> nat \<Rightarrow> krow" where
  "get_row s n = table s n"

definition put_row :: "nat \<Rightarrow> krow \<Rightarrow> kmod \<Rightarrow> kmod" where
  "put_row n r s = s\<lparr>table := (table s)(n := r)\<rparr>"

definition add_pid_sysc :: "caller \<Rightarrow> int \<Rightarrow> nat \<Rightarrow> kmod \<Rightarrow> int \<times> kmod" where
  "add_pid_sysc c pid sysc s =
     (if \<not> kmalloc_ok c then (- ENOMEM, s)
      else let r = get_row s sysc in
        (0, put_row sysc (r\<lparr>my_list := pid # my_list r, listcount := listcount r + 1\<rparr>) s))"

text \<open>The list with its first entry for \<open>pid\<close> unlinked, \<open>None\<close> when there is no such entry.\<close>

fun unlink_pid :: "int \<Rightarrow> int list \<Rightarrow> int list option" where
  "unlink_pid pid [] = None"
| "unlink_pid pid (x # xs) =
     (if x = pid then Some xs else map_option (\<lambda>ys. x # ys) (unlink_pid pid xs))"

text \<open>\<open>listcount--\<close>, and monitoring stops with the last pid unless all pids are monitored.\<close>

definition drop_count :: "krow \<Rightarrow> krow" where
  "drop_count r =
     (let r1 = r\<lparr>listcount := listcount r - 1\<rparr> in
      if listcount r1 = 0 \<and> monitored r1 = 1 then r1\<lparr>monitored := 0\<rparr> else r1)"

definition del_pid_sysc :: "int \<Rightarrow> nat \<Rightarrow> kmod \<Rightarrow> int \<times> kmod" where
  "del_pid_sysc pid sysc s =
     (let r = get_row s sysc in
      case unlink_pid pid (my_list r) of
        None \<Rightarrow> (- EINVAL, s)
      | Some xs \<Rightarrow> (0, put_row sysc (drop_count (r\<lparr>my_list := xs\<rparr>)) s))"

text \<open>
  One row of \<open>del_pid\<close>: \<open>list_for_each_safe\<close> over the row's list, \<open>kept\<close> being the entries
  passed so far (last one first) and \<open>ispid\<close> the flag of the C code.
\<close>

fun del_pid_row :: "int \<Rightarrow> int list \<Rightarrow> int list \<Rightarrow> krow \<Rightarrow> bool \<Rightarrow> krow \<times> bool" where
  "del_pid_row pid kept [] r ispid = (r\<lparr>my_list := rev kept\<rparr>, ispid)"
| "del_pid_row pid kept (x # xs) r ispid =
     (if x = pid then del_pid_row pid kept xs (drop_count r) True
      else del_pid_row pid (x # kept) xs r ispid)"

fun del_pid_rows :: "int \<Rightarrow> nat list \<Rightarrow> kmod \<Rightarrow> bool \<Rightarrow> kmod \<times> bool" where
  "del_pid_rows pid [] s ispid = (s, ispid)"
| "del_pid_rows pid (n # ns) s ispid =
     (let (r, ispid') = del_pid_row pid [] (my_list (get_row s n)) (get_row s n) ispid
      in del_pid_rows pid ns (put_row n r s) ispid')"

definition del_pid :: "kernel \<Rightarrow> int \<Rightarrow> kmod \<Rightarrow> int \<times> kmod" where
  "del_pid k pid s =
     (let (s', ispid) = del_pid_rows pid [1..<NR_syscalls k] s False
      in (if ispid then 0 else -1, s'))"

definition destroy_list :: "nat \<Rightarrow> kmod \<Rightarrow> kmod" where
  "destroy_list sysc s =
     put_row sysc ((get_row s sysc)\<lparr>my_list := [], listcount := 0, monitored := 0\<rparr>) s"

text \<open>\<open>check_pid_from_list\<close> dereferences both task pointers.\<close>

definition check_pid_from_list :: "caller \<Rightarrow> int \<Rightarrow> int \<Rightarrow> int outcome" where
  "check_pid_from_list c pid1 pid2 =
     (case (proc_uid c pid1, proc_uid c pid2) of
        (Some u1, Some u2) \<Rightarrow> Ok (if u1 \<noteq> u2 then - EPERM else 0)
      | _ \<Rightarrow> Undef)"

fun check_pid_monitored :: "int list \<Rightarrow> int \<Rightarrow> bool" where
  "check_pid_monitored [] pid = False"
| "check_pid_monitored (x # xs) pid = (if x = pid then True else check_pid_monitored xs pid)"

section \<open>Checks of the command system call\<close>

definition is_valid_cmd :: "int \<Rightarrow> bool" where
  "is_valid_cmd cmd =
     (cmd = REQUEST_START_MONITORING \<or> cmd = REQUEST_STOP_MONITORING \<or>
      cmd = REQUEST_SYSCALL_INTERCEPT \<or> cmd = REQUEST_SYSCALL_RELEASE)"

definition is_valid_syscall :: "kernel \<Rightarrow> int \<Rightarrow> bool" where
  "is_valid_syscall k sysc =
     (sysc \<ge> 0 \<and> sysc \<le> int (NR_syscalls k) \<and> sysc \<noteq> int MY_CUSTOM_SYSCALL)"

definition is_valid_pid :: "caller \<Rightarrow> int \<Rightarrow> bool" where
  "is_valid_pid c pid =
     (if pid < 0 then False
      else if pid = 0 then True
      else if pid > 0 then proc_uid c pid \<noteq> None
      else True)"

definition is_root :: "caller \<Rightarrow> bool" where
  "is_root c = (current_uid c = 0)"

definition has_permissions :: "caller \<Rightarrow> int \<Rightarrow> int \<Rightarrow> bool outcome" where
  "has_permissions c cmd pid =
     (if is_root c then Ok True
      else if cmd = REQUEST_START_MONITORING \<or> cmd = REQUEST_STOP_MONITORING then
        (if pid = 0 then Ok False
         else bind_o (check_pid_from_list c pid (current_pid c)) (\<lambda>r. Ok (r = 0)))
      else Ok False)"

definition is_pid_monitored :: "int \<Rightarrow> nat \<Rightarrow> kmod \<Rightarrow> bool" where
  "is_pid_monitored pid n s =
     (let r = get_row s n in
      if monitored r = 0 then False
      else if monitored r = 1 then check_pid_monitored (my_list r) pid
      else if monitored r = 2 then \<not> check_pid_monitored (my_list r) pid
      else False)"

definition is_context_correct :: "int \<Rightarrow> nat \<Rightarrow> int \<Rightarrow> kmod \<Rightarrow> bool" where
  "is_context_correct cmd n pid s =
     (let r = get_row s n in
      if cmd = REQUEST_SYSCALL_RELEASE \<and> intercepted r = 0 then False
      else if cmd = REQUEST_STOP_MONITORING then
        (if pid = 0 then monitored r \<noteq> 0
         else if \<not> is_pid_monitored pid n s then False
         else if intercepted r = 0 then False
         else True)
      else True)"

definition is_busy :: "int \<Rightarrow> nat \<Rightarrow> int \<Rightarrow> kmod \<Rightarrow> bool" where
  "is_busy cmd n pid s =
     (let r = get_row s n in
      if cmd = REQUEST_SYSCALL_INTERCEPT \<and> intercepted r \<noteq> 0 then True
      else if cmd = REQUEST_START_MONITORING then
        (if pid = 0 \<and> monitored r = 2 \<and> listcount r = 0 then True
         else if is_pid_monitored pid n s then True
         else False)
      else False)"

section \<open>The four command handlers\<close>

text \<open>Replacing one entry of the system call table, as both handlers do it.\<close>

definition patch_call :: "nat \<Rightarrow> handler \<Rightarrow> kmod \<Rightarrow> kmod outcome" where
  "patch_call n h s =
     bind_o (lock_calltable s) (\<lambda>s1.
     bind_o (write_sct n h (set_addr_rw s1)) (\<lambda>s2.
     Ok (unlock_calltable (set_addr_ro s2))))"

definition handle_syscall_intercept :: "nat \<Rightarrow> kmod \<Rightarrow> (int \<times> kmod) outcome" where
  "handle_syscall_intercept n s =
     (let s1 = put_row n ((get_row s n)\<lparr>intercepted := 1, fn := sys_call_table s n\<rparr>) s
      in bind_o (patch_call n Interceptor s1) (\<lambda>s2. Ok (0, s2)))"

definition handle_syscall_release :: "nat \<Rightarrow> kmod \<Rightarrow> (int \<times> kmod) outcome" where
  "handle_syscall_release n s =
     (let s1 = put_row n ((get_row s n)\<lparr>intercepted := 0\<rparr>) s
      in bind_o (patch_call n (fn (get_row s1 n)) s1) (\<lambda>s2. Ok (0, s2)))"

definition handle_start_monitoring :: "caller \<Rightarrow> nat \<Rightarrow> int \<Rightarrow> kmod \<Rightarrow> int \<times> kmod" where
  "handle_start_monitoring c n pid s =
     (if pid = 0 then
        let s1 = destroy_list n s in (0, put_row n ((get_row s1 n)\<lparr>monitored := 2\<rparr>) s1)
      else if monitored (get_row s n) = 2 then del_pid_sysc pid n s
      else if monitored (get_row s n) = 1 \<or> monitored (get_row s n) = 0 then
        let (status, s1) = add_pid_sysc c pid n s in
        (status,
         if status = 0 then put_row n ((get_row s1 n)\<lparr>monitored := 1\<rparr>) s1 else s1)
      else (0, s))"

definition handle_stop_monitoring :: "caller \<Rightarrow> nat \<Rightarrow> int \<Rightarrow> kmod \<Rightarrow> int \<times> kmod" where
  "handle_stop_monitoring c n pid s =
     (if pid = 0 then
        let s1 = destroy_list n s in (0, put_row n ((get_row s1 n)\<lparr>monitored := 0\<rparr>) s1)
      else if monitored (get_row s n) = 2 then add_pid_sysc c pid n s
      else del_pid_sysc pid n s)"

definition dispatch_cmd ::
    "caller \<Rightarrow> int \<Rightarrow> nat \<Rightarrow> int \<Rightarrow> kmod \<Rightarrow> (int \<times> kmod) outcome" where
  "dispatch_cmd c cmd n pid s =
     (if cmd = REQUEST_SYSCALL_INTERCEPT then handle_syscall_intercept n s
      else if cmd = REQUEST_SYSCALL_RELEASE then handle_syscall_release n s
      else if cmd = REQUEST_START_MONITORING then Ok (handle_start_monitoring c n pid s)
      else if cmd = REQUEST_STOP_MONITORING then Ok (handle_stop_monitoring c n pid s)
      else Ok (1, s))"

text \<open>
  \<open>my_syscall\<close>: the checks in the order of the C code, each leaving its error code; the
  index \<open>nat sysc\<close> is used only once \<open>sysc\<close> is known to be valid.
\<close>

definition my_syscall ::
    "kernel \<Rightarrow> caller \<Rightarrow> int \<Rightarrow> int \<Rightarrow> int \<Rightarrow> kmod \<Rightarrow> (int \<times> kmod) outcome" where
  "my_syscall k c cmd sysc pid s0 =
     bind_o (lock_pidlist s0) (\<lambda>s.
     bind_o
       (if \<not> is_valid_cmd cmd \<or> \<not> is_valid_syscall k sysc \<or> \<not> is_valid_pid c pid
        then Ok (- EINVAL, s)
        else bind_o (has_permissions c cmd pid) (\<lambda>permitted.
          if \<not> permitted then Ok (- EPERM, s)
          else if \<not> is_context_correct cmd (nat sysc) pid s then Ok (- EINVAL, s)
          else if is_busy cmd (nat sysc) pid s then Ok (- EBUSY, s)
          else dispatch_cmd c cmd (nat sysc) pid s))
       (\<lambda>(result, s'). Ok (result, unlock_pidlist s')))"

section \<open>The interceptor and the exit hook\<close>

text \<open>The result names the function the interceptor returns through, with its registers.\<close>

definition interceptor ::
    "kernel \<Rightarrow> caller \<Rightarrow> pt_regs \<Rightarrow> kmod \<Rightarrow> ((handler \<times> pt_regs) \<times> kmod) outcome" where
  "interceptor k c reg s =
     (let n = unat (ax reg) in
      bind_o (defined_o (n \<le> NR_syscalls k)) (\<lambda>_.
      let s1 =
        (if is_pid_monitored (current_pid c) n s
         then s\<lparr>klog := klog s @ [Log (current_pid c) (ax reg)
                  [bx reg, cx reg, dx reg, si reg, di reg, bp reg]]\<rparr>
         else s)
      in Ok ((fn (get_row s n), reg), s1)))"

text \<open>\<open>my_exit_group\<close> returns the original handler it goes on to call.\<close>

definition my_exit_group :: "kernel \<Rightarrow> caller \<Rightarrow> kmod \<Rightarrow> (handler \<times> kmod) outcome" where
  "my_exit_group k c s0 =
     bind_o (lock_pidlist s0) (\<lambda>s.
     let s' = unlock_pidlist (snd (del_pid k (current_pid c) s))
     in Ok (orig_exit_group s', s'))"

section \<open>Loading and unloading the module\<close>

definition init_row :: "nat \<Rightarrow> kmod \<Rightarrow> kmod" where
  "init_row i s =
     put_row i \<lparr>fn = sys_call_table s i, intercepted = 0, monitored = 0, listcount = 0,
                my_list = []\<rparr> s"

definition init_function :: "kernel \<Rightarrow> kmod \<Rightarrow> (int \<times> kmod) outcome" where
  "init_function k s0 =
     bind_o (lock_calltable s0) (\<lambda>s1.
     let s2 = set_addr_rw s1;
         s3 = s2\<lparr>orig_custom_syscall := sys_call_table s2 MY_CUSTOM_SYSCALL,
                 orig_exit_group := sys_call_table s2 (NR_exit_group k)\<rparr> in
     bind_o (write_sct MY_CUSTOM_SYSCALL My_syscall s3) (\<lambda>s4.
     bind_o (write_sct (NR_exit_group k) My_exit_group s4) (\<lambda>s5.
     bind_o (lock_pidlist (set_addr_ro s5)) (\<lambda>s6.
     let s7 = fold init_row [0..<NR_syscalls k + 1] s6
     in Ok (0, unlock_calltable (unlock_pidlist s7))))))"

text \<open>One turn of the loop of \<open>exit_function\<close>.\<close>

definition restore_row :: "nat \<Rightarrow> kmod \<Rightarrow> kmod outcome" where
  "restore_row i s =
     bind_o (write_sct i (fn (get_row s i)) s) (\<lambda>s1. Ok (destroy_list i s1))"

fun restore_rows :: "nat list \<Rightarrow> kmod \<Rightarrow> kmod outcome" where
  "restore_rows [] s = Ok s"
| "restore_rows (i # is) s = bind_o (restore_row i s) (restore_rows is)"

definition exit_function :: "kernel \<Rightarrow> kmod \<Rightarrow> kmod outcome" where
  "exit_function k s0 =
     bind_o (lock_calltable s0) (\<lambda>s1.
     bind_o (lock_pidlist (set_addr_rw s1)) (\<lambda>s2.
     bind_o (restore_rows [0..<NR_syscalls k + 1] s2) (\<lambda>s3.
     bind_o (write_sct MY_CUSTOM_SYSCALL (orig_custom_syscall s3) s3) (\<lambda>s4.
     bind_o (write_sct (NR_exit_group k) (orig_exit_group s4) s4) (\<lambda>s5.
     Ok (unlock_calltable (set_addr_ro (unlock_pidlist s5))))))))"

end
