(* ===== verification/Interceptor_Inv.thy ===== *)
theory Interceptor_Inv
  imports Interceptor
begin

text \<open>
  What the operations of the module keep true. A row of the table stands for a set of
  monitored pids (\<open>row_pids\<close>): none, the listed ones, or all but the listed ones. The
  row invariant ties the flag, the counter and the list together; the module invariant
  relates the two tables to the system call table found at load time.
\<close>

section \<open>Rows\<close>

definition row_inv :: "krow \<Rightarrow> bool" where
  "row_inv r \<longleftrightarrow>
     monitored r \<in> {0, 1, 2} \<and> listcount r = int (length (my_list r)) \<and>
     distinct (my_list r) \<and> (\<forall>p \<in> set (my_list r). 0 < p) \<and>
     (monitored r = 0 \<longrightarrow> my_list r = []) \<and> (monitored r = 1 \<longrightarrow> my_list r \<noteq> [])"

definition row_pids :: "krow \<Rightarrow> int set" where
  "row_pids r =
     (if monitored r = 1 then set (my_list r)
      else if monitored r = 2 then - set (my_list r) else {})"

lemma row_inv_mon: "row_inv r \<Longrightarrow> monitored r = 0 \<or> monitored r = 1 \<or> monitored r = 2"
  by (auto simp: row_inv_def)

lemma row_pids_other [simp]:
  "row_pids (r\<lparr>intercepted := i\<rparr>) = row_pids r" "row_pids (r\<lparr>fn := h\<rparr>) = row_pids r"
  by (simp_all add: row_pids_def)

lemma row_inv_other [simp]:
  "row_inv (r\<lparr>intercepted := i\<rparr>) = row_inv r" "row_inv (r\<lparr>fn := h\<rparr>) = row_inv r"
  by (simp_all add: row_inv_def)

lemma check_pid_monitored_iff [simp]: "check_pid_monitored xs pid \<longleftrightarrow> pid \<in> set xs"
  by (induction xs) auto

lemma is_pid_monitored_iff:
  "row_inv (table s n) \<Longrightarrow> is_pid_monitored pid n s \<longleftrightarrow> pid \<in> row_pids (table s n)"
  by (auto simp: is_pid_monitored_def get_row_def row_pids_def row_inv_def Let_def)

lemma row_pids_0_iff: "row_inv r \<Longrightarrow> 0 \<in> row_pids r \<longleftrightarrow> monitored r = 2"
  by (auto simp: row_pids_def row_inv_def)

lemma row_pids_empty_iff: "row_inv r \<Longrightarrow> row_pids r = {} \<longleftrightarrow> monitored r = 0"
  by (auto simp: row_pids_def row_inv_def Compl_eq_Diff_UNIV)

lemma unlink_pid_None [simp]: "unlink_pid pid xs = None \<longleftrightarrow> pid \<notin> set xs"
  by (induction xs) auto

lemma unlink_pid_SomeD: "unlink_pid pid xs = Some ys \<Longrightarrow> pid \<in> set xs"
  by (induction xs arbitrary: ys) (auto split: if_splits)

lemma unlink_pid_in: "pid \<in> set xs \<Longrightarrow> \<exists>ys. unlink_pid pid xs = Some ys"
  by (induction xs) auto

lemma unlink_pid_Some:
  "unlink_pid pid xs = Some ys \<Longrightarrow> distinct xs \<Longrightarrow>
     distinct ys \<and> set ys = set xs - {pid} \<and> length xs = Suc (length ys)"
  by (induction xs arbitrary: ys) (auto split: if_splits)

lemma drop_count_sel [simp]:
  "my_list (drop_count r) = my_list r" "fn (drop_count r) = fn r"
  "intercepted (drop_count r) = intercepted r" "listcount (drop_count r) = listcount r - 1"
  by (simp_all add: drop_count_def Let_def)

lemma drop_count_monitored:
  "monitored (drop_count r) = (if listcount r = 1 \<and> monitored r = 1 then 0 else monitored r)"
  by (simp add: drop_count_def Let_def)

text \<open>The four ways the module changes a row, each with the set of pids that results.\<close>

lemma row_add:
  assumes "row_inv r" and "pid \<notin> set (my_list r)" and "0 < pid"
  shows "row_inv (r\<lparr>my_list := pid # my_list r, listcount := listcount r + 1,
                    monitored := if monitored r = 2 then 2 else 1\<rparr>)"
  using assms by (auto simp: row_inv_def)

lemma row_remove:
  assumes inv: "row_inv r" and ys: "unlink_pid pid (my_list r) = Some ys"
  shows "row_inv (drop_count (r\<lparr>my_list := ys\<rparr>))"
    and "row_pids (drop_count (r\<lparr>my_list := ys\<rparr>)) =
           (if monitored r = 2 then insert pid (row_pids r) else row_pids r - {pid})"
proof -
  from inv have d: "distinct (my_list r)" by (simp add: row_inv_def)
  note facts = unlink_pid_Some[OF ys d]
  have mem: "pid \<in> set (my_list r)" using ys unlink_pid_None[of pid "my_list r"] by auto
  then have m: "monitored r = 1 \<or> monitored r = 2" using inv by (auto simp: row_inv_def)
  show "row_inv (drop_count (r\<lparr>my_list := ys\<rparr>))"
    using inv facts m by (auto simp: row_inv_def drop_count_monitored)
  have "monitored r = 1 \<Longrightarrow> listcount r = 1 \<Longrightarrow> set (my_list r) = {pid}"
    using inv mem facts by (cases ys) (auto simp: row_inv_def)
  with m facts mem show "row_pids (drop_count (r\<lparr>my_list := ys\<rparr>)) =
           (if monitored r = 2 then insert pid (row_pids r) else row_pids r - {pid})"
    by (auto simp: row_pids_def drop_count_monitored)
qed

lemma del_pid_row_notin:
  "pid \<notin> set xs \<Longrightarrow> del_pid_row pid kept xs r b = (r\<lparr>my_list := rev kept @ xs\<rparr>, b)"
  by (induction pid kept xs r b rule: del_pid_row.induct) auto

lemma del_pid_row_in:
  "distinct xs \<Longrightarrow> pid \<in> set xs \<Longrightarrow>
     \<exists>ys. unlink_pid pid xs = Some ys \<and>
          del_pid_row pid kept xs r b = ((drop_count r)\<lparr>my_list := rev kept @ ys\<rparr>, True)"
proof (induction pid kept xs r b rule: del_pid_row.induct)
  case (1 pid kept r b)
  then show ?case by simp
next
  case (2 pid kept x xs r b)
  then show ?case by (auto simp: del_pid_row_notin)
qed

text \<open>A row of \<open>del_pid\<close> does what \<open>del_pid_sysc\<close> does, or nothing.\<close>

lemma del_pid_row_eq:
  assumes "row_inv r"
  shows "del_pid_row pid [] (my_list r) r b =
     (case unlink_pid pid (my_list r) of
        None \<Rightarrow> (r, b) | Some ys \<Rightarrow> (drop_count (r\<lparr>my_list := ys\<rparr>), True))"
proof (cases "pid \<in> set (my_list r)")
  case True
  with assms obtain ys where "unlink_pid pid (my_list r) = Some ys"
    and "del_pid_row pid [] (my_list r) r b = ((drop_count r)\<lparr>my_list := ys\<rparr>, True)"
    using del_pid_row_in[of "my_list r" pid "[]" r b] by (auto simp: row_inv_def)
  then show ?thesis by (simp add: drop_count_def Let_def)
next
  case False
  then have none: "unlink_pid pid (my_list r) = None" by simp
  from False show ?thesis by (subst none) (simp add: del_pid_row_notin)
qed

section \<open>Small facts on the state\<close>

lemma put_row_sel [simp]:
  "table (put_row n r s) = (table s)(n := r)"
  "sys_call_table (put_row n r s) = sys_call_table s" "sct_pte (put_row n r s) = sct_pte s"
  "pidlist_lock (put_row n r s) = pidlist_lock s"
  "calltable_lock (put_row n r s) = calltable_lock s"
  "orig_exit_group (put_row n r s) = orig_exit_group s"
  "orig_custom_syscall (put_row n r s) = orig_custom_syscall s"
  "klog (put_row n r s) = klog s"
  by (simp_all add: put_row_def)

lemma put_row_put_row [simp]: "put_row n r (put_row n r' s) = put_row n r s"
  by (simp add: put_row_def)

lemma put_row_same [simp]: "put_row n (table s n) s = s"
  by (simp add: put_row_def)

lemma get_row_eq [simp]: "get_row s n = table s n"
  by (simp add: get_row_def)

text \<open>A page table entry that is present and read-only, as the module leaves it.\<close>

definition page_ro :: "u64 \<Rightarrow> bool" where
  "page_ro p \<longleftrightarrow> p AND PAGE_RW = 0 \<and> p \<noteq> 0"

lemma PAGE_RW_bit: "bit PAGE_RW n \<longleftrightarrow> n = 1"
  by (auto simp: PAGE_RW_def bit_2_iff possible_bit_word)

lemma pte_rw_bits:
  "(p OR PAGE_RW) AND PAGE_RW = PAGE_RW"
  "p AND PAGE_RW = 0 \<Longrightarrow> (p OR PAGE_RW) AND NOT PAGE_RW = p"
  "p AND PAGE_RW = 0 \<Longrightarrow> p AND NOT PAGE_RW = p"
proof -
  assume "p AND PAGE_RW = 0"
  then have "\<not> bit (p AND PAGE_RW) 1" by simp
  then have "\<not> bit p 1" by (simp add: bit_and_iff PAGE_RW_bit)
  then show "(p OR PAGE_RW) AND NOT PAGE_RW = p" "p AND NOT PAGE_RW = p"
    by (auto intro!: bit_word_eqI simp: bit_and_iff bit_or_iff bit_not_iff PAGE_RW_bit)
qed (auto intro!: bit_word_eqI simp: bit_and_iff bit_or_iff)

lemma page_ro_rw:
  assumes "page_ro (sct_pte s)"
  shows "set_addr_rw s = s\<lparr>sct_pte := sct_pte s OR PAGE_RW\<rparr>"
    and "sct_pte (set_addr_rw s) AND PAGE_RW \<noteq> 0"
    and "(sct_pte s OR PAGE_RW) AND NOT PAGE_RW = sct_pte s"
proof -
  have rw: "PAGE_RW \<noteq> 0" by (simp add: PAGE_RW_def)
  from assms have p: "sct_pte s AND PAGE_RW = 0" "sct_pte s \<noteq> 0"
    by (simp_all add: page_ro_def)
  then show rws: "set_addr_rw s = s\<lparr>sct_pte := sct_pte s OR PAGE_RW\<rparr>"
    by (simp add: set_addr_rw_def pte_rw_bits)
  show "sct_pte (set_addr_rw s) AND PAGE_RW \<noteq> 0"
    using rw by (simp add: rws pte_rw_bits)
  show "(sct_pte s OR PAGE_RW) AND NOT PAGE_RW = sct_pte s"
    using p by (simp add: pte_rw_bits)
qed

lemma patch_call_ok:
  assumes "page_ro (sct_pte s)" and "\<not> calltable_lock s"
  shows "patch_call n h s = Ok (s\<lparr>sys_call_table := (sys_call_table s)(n := h)\<rparr>)"
  using page_ro_rw[of "s\<lparr>calltable_lock := True\<rparr>"] assms
  by (simp add: patch_call_def lock_calltable_def write_sct_def set_addr_ro_def
      unlock_calltable_def)

end
