(* ===== verification/Interceptor_Spec.thy ===== *)
theory Interceptor_Spec
  imports Interceptor_Inv
begin

text \<open>
  What the module promises: a set of intercepted system calls and, for each system call, a
  set of monitored pids; \<open>spec_syscall\<close> is the effect of a command on these two. The
  command system call refines it, the module invariant holds in every reachable state, and
  unloading gives the kernel its system call table back.
\<close>

section \<open>Abstract state and abstract command\<close>

type_synonym monitor = "nat set \<times> (nat \<Rightarrow> int set)"

definition permitted :: "caller \<Rightarrow> int \<Rightarrow> int \<Rightarrow> bool" where
  "permitted c cmd pid \<longleftrightarrow>
     current_uid c = 0 \<or>
     cmd \<in> {REQUEST_START_MONITORING, REQUEST_STOP_MONITORING} \<and> pid \<noteq> 0 \<and>
       proc_uid c pid = proc_uid c (current_pid c)"

definition spec_start :: "caller \<Rightarrow> nat \<Rightarrow> int \<Rightarrow> monitor \<Rightarrow> int \<times> monitor" where
  "spec_start c n pid = (\<lambda>(I, M).
     if pid \<in> M n then (- EBUSY, (I, M))
     else if pid = 0 then (0, (I, M(n := UNIV)))
     else if 0 \<notin> M n \<and> \<not> kmalloc_ok c then (- ENOMEM, (I, M))
     else (0, (I, M(n := insert pid (M n)))))"

definition spec_stop :: "caller \<Rightarrow> nat \<Rightarrow> int \<Rightarrow> monitor \<Rightarrow> int \<times> monitor" where
  "spec_stop c n pid = (\<lambda>(I, M).
     if pid = 0 then (if M n = {} then (- EINVAL, (I, M)) else (0, (I, M(n := {}))))
     else if pid \<notin> M n \<or> n \<notin> I then (- EINVAL, (I, M))
     else if 0 \<in> M n \<and> \<not> kmalloc_ok c then (- ENOMEM, (I, M))
     else (0, (I, M(n := M n - {pid}))))"

definition spec_syscall ::
    "kernel \<Rightarrow> caller \<Rightarrow> int \<Rightarrow> int \<Rightarrow> int \<Rightarrow> monitor \<Rightarrow> int \<times> monitor" where
  "spec_syscall k c cmd sysc pid = (\<lambda>(I, M).
     let n = nat sysc in
     if \<not> is_valid_cmd cmd \<or> \<not> is_valid_syscall k sysc \<or> \<not> is_valid_pid c pid
     then (- EINVAL, (I, M))
     else if \<not> permitted c cmd pid then (- EPERM, (I, M))
     else if cmd = REQUEST_SYSCALL_INTERCEPT then
       (if n \<in> I then (- EBUSY, (I, M)) else (0, (insert n I, M)))
     else if cmd = REQUEST_SYSCALL_RELEASE then
       (if n \<notin> I then (- EINVAL, (I, M)) else (0, (I - {n}, M)))
     else if cmd = REQUEST_START_MONITORING then spec_start c n pid (I, M)
     else spec_stop c n pid (I, M))"

definition abs_mod :: "kernel \<Rightarrow> kmod \<Rightarrow> monitor" where
  "abs_mod k s =
     ({n. n \<le> NR_syscalls k \<and> intercepted (table s n) \<noteq> 0},
      (\<lambda>n. if n \<le> NR_syscalls k then row_pids (table s n) else {}))"

section \<open>The module invariant\<close>

text \<open>The table the module works on: the kernel's, with the module's two hooks in place.\<close>

definition base_call :: "kernel \<Rightarrow> (nat \<Rightarrow> handler) \<Rightarrow> nat \<Rightarrow> handler" where
  "base_call k orig n =
     (if n = NR_exit_group k then My_exit_group
      else if n = MY_CUSTOM_SYSCALL then My_syscall else orig n)"

definition row_ok :: "kernel \<Rightarrow> (nat \<Rightarrow> handler) \<Rightarrow> kmod \<Rightarrow> nat \<Rightarrow> bool" where
  "row_ok k orig s n \<longleftrightarrow>
     row_inv (table s n) \<and> fn (table s n) = base_call k orig n \<and>
     sys_call_table s n =
       (if intercepted (table s n) \<noteq> 0 then Interceptor else base_call k orig n)"

definition mod_core :: "kernel \<Rightarrow> (nat \<Rightarrow> handler) \<Rightarrow> kmod \<Rightarrow> bool" where
  "mod_core k orig s \<longleftrightarrow>
     (\<forall>n \<le> NR_syscalls k. row_ok k orig s n) \<and>
     (\<forall>n > NR_syscalls k. sys_call_table s n = orig n) \<and>
     orig_custom_syscall s = orig MY_CUSTOM_SYSCALL \<and>
     orig_exit_group s = orig (NR_exit_group k) \<and>
     page_ro (sct_pte s) \<and> \<not> calltable_lock s"

definition mod_inv :: "kernel \<Rightarrow> (nat \<Rightarrow> handler) \<Rightarrow> kmod \<Rightarrow> bool" where
  "mod_inv k orig s \<longleftrightarrow> mod_core k orig s \<and> \<not> pidlist_lock s"

definition kernel_ok :: "kernel \<Rightarrow> bool" where
  "kernel_ok k \<longleftrightarrow> 0 < NR_exit_group k \<and> NR_exit_group k < NR_syscalls k"

definition caller_ok :: "caller \<Rightarrow> bool" where
  "caller_ok c \<longleftrightarrow> 0 < current_pid c \<and> proc_uid c (current_pid c) \<noteq> None"

lemma lock_irrelevant [simp]:
  "mod_core k orig (s\<lparr>pidlist_lock := b\<rparr>) = mod_core k orig s"
  "abs_mod k (s\<lparr>pidlist_lock := b\<rparr>) = abs_mod k s"
  by (simp_all add: mod_core_def row_ok_def abs_mod_def cong: if_cong)

lemma mod_core_row: "mod_core k orig s \<Longrightarrow> n \<le> NR_syscalls k \<Longrightarrow> row_inv (table s n)"
  by (simp add: mod_core_def row_ok_def)

text \<open>Changing what one row monitors.\<close>

lemma put_row_core:
  assumes "mod_core k orig s" and "row_inv r" and "fn r = fn (table s n)"
    and "intercepted r = intercepted (table s n)"
  shows "mod_core k orig (put_row n r s)"
  using assms by (auto simp: mod_core_def row_ok_def)

lemma put_row_abs:
  assumes "n \<le> NR_syscalls k" and "intercepted r = intercepted (table s n)"
    and "abs_mod k s = (I, M)"
  shows "abs_mod k (put_row n r s) = (I, M(n := row_pids r))"
  using assms by (auto simp: abs_mod_def intro!: ext split: if_splits)

section \<open>The handlers\<close>

lemma start_refines:
  assumes core: "mod_core k orig s" and n: "n \<le> NR_syscalls k" and pid: "0 \<le> pid"
    and busy: "\<not> is_busy REQUEST_START_MONITORING n pid s"
    and run: "handle_start_monitoring c n pid s = (r, s')"
  shows "mod_core k orig s' \<and> (r, abs_mod k s') = spec_start c n pid (abs_mod k s)"
proof -
  obtain I M where IM: "abs_mod k s = (I, M)" by (cases "abs_mod k s")
  note inv = mod_core_row[OF core n]
  have Mn: "M n = row_pids (table s n)" using IM n by (auto simp: abs_mod_def)
  have free: "pid \<notin> M n"
    using busy is_pid_monitored_iff[OF inv, of pid]
    by (auto simp: is_busy_def Let_def Mn request_defs split: if_splits)
  consider "pid = 0" | "pid \<noteq> 0" "monitored (table s n) = 2"
    | "pid \<noteq> 0" "monitored (table s n) \<noteq> 2" by blast
  then show ?thesis
  proof cases
    case 1
    let ?r = "(table s n)\<lparr>my_list := [], listcount := 0, monitored := 2\<rparr>"
    from run 1 have "r = 0" and s': "s' = put_row n ?r s"
      by (auto simp: handle_start_monitoring_def destroy_list_def Let_def)
    moreover have "row_inv ?r" "row_pids ?r = UNIV"
      by (simp_all add: row_inv_def row_pids_def)
    ultimately show ?thesis
      using put_row_core[OF core, of ?r n] put_row_abs[OF n _ IM, of ?r] free 1 IM
      by (simp add: spec_start_def)
  next
    case 2
    then have "pid \<in> set (my_list (table s n))"
      using free inv by (auto simp: Mn row_pids_def)
    then obtain ys where ys: "unlink_pid pid (my_list (table s n)) = Some ys"
      using unlink_pid_in by blast
    let ?r = "drop_count ((table s n)\<lparr>my_list := ys\<rparr>)"
    from run 2 ys have "r = 0" and s': "s' = put_row n ?r s"
      by (auto simp: handle_start_monitoring_def del_pid_sysc_def Let_def)
    with row_remove[OF inv ys] put_row_core[OF core, of ?r n] put_row_abs[OF n _ IM, of ?r]
      2 free IM row_pids_0_iff[OF inv]
    show ?thesis by (simp add: spec_start_def Mn)
  next
    case 3
    show ?thesis
    proof (cases "kmalloc_ok c")
      case True
      let ?r = "(table s n)\<lparr>my_list := pid # my_list (table s n),
                   listcount := listcount (table s n) + 1, monitored := 1\<rparr>"
      from run 3 True row_inv_mon[OF inv] have "r = 0" and s': "s' = put_row n ?r s"
        by (auto simp: handle_start_monitoring_def add_pid_sysc_def Let_def)
      moreover have "pid \<notin> set (my_list (table s n))"
        using free 3 inv by (auto simp: Mn row_pids_def row_inv_def)
      then have "row_inv ?r" "row_pids ?r = insert pid (row_pids (table s n))"
        using row_add[OF inv, of pid] 3 pid inv by (auto simp: row_pids_def row_inv_def)
      ultimately show ?thesis
        using put_row_core[OF core, of ?r n] put_row_abs[OF n _ IM, of ?r] free 3 IM True
        by (simp add: spec_start_def Mn)
    next
      case False
      with run 3 row_inv_mon[OF inv] have "r = - ENOMEM" "s' = s"
        by (auto simp: handle_start_monitoring_def add_pid_sysc_def ENOMEM_def)
      with core False free 3 IM row_pids_0_iff[OF inv] show ?thesis
        by (simp add: spec_start_def Mn)
    qed
  qed
qed

lemma stop_refines:
  assumes core: "mod_core k orig s" and n: "n \<le> NR_syscalls k" and pid: "0 \<le> pid"
    and ctx: "is_context_correct REQUEST_STOP_MONITORING n pid s"
    and run: "handle_stop_monitoring c n pid s = (r, s')"
  shows "mod_core k orig s' \<and> (r, abs_mod k s') = spec_stop c n pid (abs_mod k s)"
proof -
  obtain I M where IM: "abs_mod k s = (I, M)" by (cases "abs_mod k s")
  note inv = mod_core_row[OF core n]
  have Mn: "M n = row_pids (table s n)" and In: "n \<in> I \<longleftrightarrow> intercepted (table s n) \<noteq> 0"
    using IM n by (auto simp: abs_mod_def)
  have mon: "if pid = 0 then M n \<noteq> {} else pid \<in> M n \<and> n \<in> I"
    using ctx is_pid_monitored_iff[OF inv, of pid] row_pids_empty_iff[OF inv]
    by (auto simp: is_context_correct_def Let_def Mn In request_defs split: if_splits)
  consider "pid = 0" | "pid \<noteq> 0" "monitored (table s n) = 2"
    | "pid \<noteq> 0" "monitored (table s n) \<noteq> 2" by blast
  then show ?thesis
  proof cases
    case 1
    let ?r = "(table s n)\<lparr>my_list := [], listcount := 0, monitored := 0\<rparr>"
    from run 1 have "r = 0" and s': "s' = put_row n ?r s"
      by (auto simp: handle_stop_monitoring_def destroy_list_def Let_def)
    moreover have "row_inv ?r" "row_pids ?r = {}"
      by (simp_all add: row_inv_def row_pids_def)
    ultimately show ?thesis
      using put_row_core[OF core, of ?r n] put_row_abs[OF n _ IM, of ?r] mon 1 IM
      by (simp add: spec_stop_def)
  next
    case 2
    then have 0: "0 \<in> M n" using row_pids_0_iff[OF inv] by (simp add: Mn)
    show ?thesis
    proof (cases "kmalloc_ok c")
      case True
      let ?r = "(table s n)\<lparr>my_list := pid # my_list (table s n),
                   listcount := listcount (table s n) + 1\<rparr>"
      from run 2 True have "r = 0" and s': "s' = put_row n ?r s"
        by (auto simp: handle_stop_monitoring_def add_pid_sysc_def Let_def)
      moreover have "row_inv ?r" "row_pids ?r = row_pids (table s n) - {pid}"
        using row_add[OF inv, of pid] 2 pid inv mon
        by (auto simp: row_pids_def row_inv_def Mn)
      ultimately show ?thesis
        using put_row_core[OF core, of ?r n] put_row_abs[OF n _ IM, of ?r] mon 0 2 IM True
        by (simp add: spec_stop_def Mn)
    next
      case False
      with run 2 have "r = - ENOMEM" "s' = s"
        by (auto simp: handle_stop_monitoring_def add_pid_sysc_def)
      with core False mon 0 2 IM show ?thesis by (simp add: spec_stop_def)
    qed
  next
    case 3
    then have 0: "0 \<notin> M n" using row_pids_0_iff[OF inv] by (simp add: Mn)
    have "pid \<in> set (my_list (table s n))"
      using mon 3 by (auto simp: Mn row_pids_def split: if_splits)
    then obtain ys where ys: "unlink_pid pid (my_list (table s n)) = Some ys"
      using unlink_pid_in by blast
    let ?r = "drop_count ((table s n)\<lparr>my_list := ys\<rparr>)"
    from run 3 ys have "r = 0" and s': "s' = put_row n ?r s"
      by (auto simp: handle_stop_monitoring_def del_pid_sysc_def Let_def)
    with row_remove[OF inv ys] put_row_core[OF core, of ?r n] put_row_abs[OF n _ IM, of ?r]
      3 mon 0 IM
    show ?thesis by (simp add: spec_stop_def Mn)
  qed
qed

lemma intercept_refines:
  assumes core: "mod_core k orig s" and n: "n \<le> NR_syscalls k"
    and "intercepted (table s n) = 0" and IM: "abs_mod k s = (I, M)"
  shows "\<exists>s'. handle_syscall_intercept n s = Ok (0, s') \<and> mod_core k orig s' \<and>
           pidlist_lock s' = pidlist_lock s \<and> abs_mod k s' = (insert n I, M)"
proof -
  let ?s1 = "put_row n ((table s n)\<lparr>intercepted := 1, fn := sys_call_table s n\<rparr>) s"
  have "handle_syscall_intercept n s =
          Ok (0, ?s1\<lparr>sys_call_table := (sys_call_table s)(n := Interceptor)\<rparr>)"
    using core by (simp add: handle_syscall_intercept_def patch_call_ok mod_core_def)
  moreover have "mod_core k orig (?s1\<lparr>sys_call_table := (sys_call_table s)(n := Interceptor)\<rparr>)"
    using core assms(2,3) by (auto simp: mod_core_def row_ok_def row_inv_def)
  ultimately show ?thesis
    using n IM by (auto simp: abs_mod_def intro!: ext split: if_splits)
qed

lemma release_refines:
  assumes core: "mod_core k orig s" and n: "n \<le> NR_syscalls k" and IM: "abs_mod k s = (I, M)"
  shows "\<exists>s'. handle_syscall_release n s = Ok (0, s') \<and> mod_core k orig s' \<and>
           pidlist_lock s' = pidlist_lock s \<and> abs_mod k s' = (I - {n}, M)"
proof -
  let ?s1 = "put_row n ((table s n)\<lparr>intercepted := 0\<rparr>) s"
  have "handle_syscall_release n s =
          Ok (0, ?s1\<lparr>sys_call_table := (sys_call_table s)(n := fn (table s n))\<rparr>)"
    using core by (simp add: handle_syscall_release_def patch_call_ok mod_core_def)
  moreover have "mod_core k orig (?s1\<lparr>sys_call_table := (sys_call_table s)(n := fn (table s n))\<rparr>)"
    using core n by (auto simp: mod_core_def row_ok_def row_inv_def)
  ultimately show ?thesis
    using n IM by (auto simp: abs_mod_def intro!: ext split: if_splits)
qed

section \<open>The command system call\<close>

lemma has_permissions_ok:
  assumes "caller_ok c" and "is_valid_pid c pid" and "is_valid_cmd cmd"
  shows "has_permissions c cmd pid = Ok (permitted c cmd pid)"
  using assms
  by (auto simp: has_permissions_def permitted_def is_root_def check_pid_from_list_def
      caller_ok_def is_valid_pid_def EPERM_def split: if_splits)

text \<open>Past the checks, each command does what the specification says.\<close>

lemma dispatch_refines:
  assumes core: "mod_core k orig s" and n: "n \<le> NR_syscalls k" and pid: "0 \<le> pid"
    and cmd: "is_valid_cmd cmd"
    and ctx: "is_context_correct cmd n pid s" and busy: "\<not> is_busy cmd n pid s"
  shows "\<exists>r s'. dispatch_cmd c cmd n pid s = Ok (r, s') \<and> mod_core k orig s' \<and>
           (r, abs_mod k s') =
             (let (I, M) = abs_mod k s in
              if cmd = REQUEST_SYSCALL_INTERCEPT then (0, (insert n I, M))
              else if cmd = REQUEST_SYSCALL_RELEASE then (0, (I - {n}, M))
              else if cmd = REQUEST_START_MONITORING then spec_start c n pid (I, M)
              else spec_stop c n pid (I, M))"
proof -
  obtain I M where IM: "abs_mod k s = (I, M)" by (cases "abs_mod k s")
  consider "cmd = REQUEST_SYSCALL_INTERCEPT" | "cmd = REQUEST_SYSCALL_RELEASE"
    | "cmd = REQUEST_START_MONITORING" | "cmd = REQUEST_STOP_MONITORING"
    using cmd by (auto simp: is_valid_cmd_def)
  then show ?thesis
  proof cases
    case 1
    with busy have "intercepted (table s n) = 0" by (simp add: is_busy_def Let_def split: if_splits)
    from intercept_refines[OF core n this IM] 1 IM show ?thesis
      by (auto simp: dispatch_cmd_def)
  next
    case 2
    with release_refines[OF core n IM] IM show ?thesis
      by (auto simp: dispatch_cmd_def request_defs)
  next
    case 3
    obtain r s' where run: "handle_start_monitoring c n pid s = (r, s')"
      by (cases "handle_start_monitoring c n pid s")
    from start_refines[OF core n pid _ run] busy 3 run IM show ?thesis
      by (simp add: dispatch_cmd_def request_defs)
  next
    case 4
    obtain r s' where run: "handle_stop_monitoring c n pid s = (r, s')"
      by (cases "handle_stop_monitoring c n pid s")
    from stop_refines[OF core n pid _ run] ctx 4 run IM show ?thesis
      by (simp add: dispatch_cmd_def request_defs)
  qed
qed

text \<open>A command the context or busy check turns down changes nothing in the specification.\<close>

lemma refused_spec:
  assumes core: "mod_core k orig s" and n: "n \<le> NR_syscalls k" and IM: "abs_mod k s = (I, M)"
    and pid: "0 \<le> pid" and cmd: "is_valid_cmd cmd"
  shows "\<not> is_context_correct cmd n pid s \<longleftrightarrow>
           cmd = REQUEST_SYSCALL_RELEASE \<and> n \<notin> I \<or>
           cmd = REQUEST_STOP_MONITORING \<and>
             (if pid = 0 then M n = {} else pid \<notin> M n \<or> n \<notin> I)"
    and "is_busy cmd n pid s \<longleftrightarrow>
           cmd = REQUEST_SYSCALL_INTERCEPT \<and> n \<in> I \<or>
           cmd = REQUEST_START_MONITORING \<and> pid \<in> M n"
proof -
  note inv = mod_core_row[OF core n]
  have Mn: "M n = row_pids (table s n)" and In: "n \<in> I \<longleftrightarrow> intercepted (table s n) \<noteq> 0"
    using IM n by (auto simp: abs_mod_def)
  note mon = is_pid_monitored_iff[OF inv, of pid]
  show "\<not> is_context_correct cmd n pid s \<longleftrightarrow>
           cmd = REQUEST_SYSCALL_RELEASE \<and> n \<notin> I \<or>
           cmd = REQUEST_STOP_MONITORING \<and>
             (if pid = 0 then M n = {} else pid \<notin> M n \<or> n \<notin> I)"
    using mon row_pids_empty_iff[OF inv]
    by (auto simp: is_context_correct_def Let_def Mn In request_defs)
  show "is_busy cmd n pid s \<longleftrightarrow>
           cmd = REQUEST_SYSCALL_INTERCEPT \<and> n \<in> I \<or>
           cmd = REQUEST_START_MONITORING \<and> pid \<in> M n"
    using mon row_pids_0_iff[OF inv]
    by (auto simp: is_busy_def Let_def Mn In request_defs)
qed

lemma my_syscall_spec:
  assumes inv: "mod_inv k orig s" and c: "caller_ok c"
  shows "\<exists>r s'. my_syscall k c cmd sysc pid s = Ok (r, s') \<and> mod_inv k orig s' \<and>
           (r, abs_mod k s') = spec_syscall k c cmd sysc pid (abs_mod k s)"
proof -
  let ?s = "s\<lparr>pidlist_lock := True\<rparr>"
  let ?n = "nat sysc"
  obtain I M where IM: "abs_mod k s = (I, M)" by (cases "abs_mod k s")
  from inv have core: "mod_core k orig ?s" and lock: "lock_pidlist s = Ok ?s"
    and same: "unlock_pidlist ?s = s"
    by (simp_all add: mod_inv_def lock_pidlist_def unlock_pidlist_def)
  have IM': "abs_mod k ?s = (I, M)" using IM by simp
  show ?thesis
  proof (cases "is_valid_cmd cmd \<and> is_valid_syscall k sysc \<and> is_valid_pid c pid")
    case False
    then show ?thesis
      using inv by (auto simp: my_syscall_def lock same IM spec_syscall_def Let_def)
  next
    case True
    then have n: "?n \<le> NR_syscalls k" and pid: "0 \<le> pid" and cmd: "is_valid_cmd cmd"
      by (auto simp: is_valid_syscall_def is_valid_pid_def split: if_splits)
    have perm: "has_permissions c cmd pid = Ok (permitted c cmd pid)"
      using has_permissions_ok c True by blast
    note ref = refused_spec[OF core n IM' pid cmd]
    have run: "my_syscall k c cmd sysc pid s =
        bind_o (if \<not> permitted c cmd pid then Ok (- EPERM, ?s)
                else if \<not> is_context_correct cmd ?n pid ?s then Ok (- EINVAL, ?s)
                else if is_busy cmd ?n pid ?s then Ok (- EBUSY, ?s)
                else dispatch_cmd c cmd ?n pid ?s)
          (\<lambda>(result, s'). Ok (result, unlock_pidlist s'))"
      using True by (simp add: my_syscall_def lock perm)
    consider "\<not> permitted c cmd pid"
      | "permitted c cmd pid" "\<not> is_context_correct cmd ?n pid ?s"
      | "permitted c cmd pid" "is_context_correct cmd ?n pid ?s" "is_busy cmd ?n pid ?s"
      | "permitted c cmd pid \<and> is_context_correct cmd ?n pid ?s \<and> \<not> is_busy cmd ?n pid ?s"
      by blast
    then show ?thesis
    proof cases
      case 1
      with True inv show ?thesis
        by (simp add: run same IM spec_syscall_def Let_def)
    next
      case 2
      with True inv ref(1) show ?thesis
        by (auto simp: run same IM spec_syscall_def Let_def spec_stop_def request_defs)
    next
      case 3
      with True inv ref(2) show ?thesis
        by (auto simp: run same IM spec_syscall_def Let_def spec_start_def request_defs)
    next
      case ok: 4
      from dispatch_refines[OF core n pid cmd, of c] ok obtain r s'
        where d: "dispatch_cmd c cmd ?n pid ?s = Ok (r, s')" "mod_core k orig s'"
          "(r, abs_mod k s') = (let (I, M) = abs_mod k ?s in
              if cmd = REQUEST_SYSCALL_INTERCEPT then (0, (insert ?n I, M))
              else if cmd = REQUEST_SYSCALL_RELEASE then (0, (I - {?n}, M))
              else if cmd = REQUEST_START_MONITORING then spec_start c ?n pid (I, M)
              else spec_stop c ?n pid (I, M))" by blast
      have "(r, abs_mod k (unlock_pidlist s')) = spec_syscall k c cmd sysc pid (abs_mod k s)"
        using d(3) ok True ref
        by (simp add: IM spec_syscall_def Let_def unlock_pidlist_def)
      moreover have "my_syscall k c cmd sysc pid s = Ok (r, unlock_pidlist s')"
        using ok d(1) by (simp add: run)
      moreover have "mod_inv k orig (unlock_pidlist s')"
        using d(2) by (simp add: mod_inv_def unlock_pidlist_def)
      ultimately show ?thesis by blast
    qed
  qed
qed

end
