(* ===== verification/Interceptor_Life.thy ===== *)
theory Interceptor_Life
  imports Interceptor_Spec
begin

text \<open>
  The life of the module: loading establishes the invariant, every call keeps it, a process
  that exits leaves the lists, the interceptor logs the monitored pids and calls the original
  function, and unloading restores the kernel's system call table.
\<close>

section \<open>Loading\<close>

text \<open>The kernel before the module is loaded: locks free, the table page read-only.\<close>

definition pristine :: "(nat \<Rightarrow> handler) \<Rightarrow> kmod \<Rightarrow> bool" where
  "pristine orig s \<longleftrightarrow>
     sys_call_table s = orig \<and> page_ro (sct_pte s) \<and>
     \<not> pidlist_lock s \<and> \<not> calltable_lock s"

definition fresh_row :: "handler \<Rightarrow> krow" where
  "fresh_row h = \<lparr>fn = h, intercepted = 0, monitored = 0, listcount = 0, my_list = []\<rparr>"

lemma fresh_row_facts [simp]:
  "row_inv (fresh_row h)" "row_pids (fresh_row h) = {}" "fn (fresh_row h) = h"
  "intercepted (fresh_row h) = 0"
  by (simp_all add: fresh_row_def row_inv_def row_pids_def)

lemma fold_init_row:
  "fold init_row ns s =
     s\<lparr>table := (\<lambda>i. if i \<in> set ns then fresh_row (sys_call_table s i) else table s i)\<rparr>"
  by (induction ns arbitrary: s)
     (auto simp: init_row_def put_row_def fresh_row_def fun_eq_iff intro!: kmod.equality)

lemma fold_init_all:
  "fold init_row [0..<Suc n] s =
     s\<lparr>table := (\<lambda>i. if i \<le> n then fresh_row (sys_call_table s i) else table s i)\<rparr>"
  by (simp only: fold_init_row set_upt) (simp add: less_Suc_eq_le)

lemma kernel_ok_neq: "kernel_ok k \<Longrightarrow> NR_exit_group k \<noteq> MY_CUSTOM_SYSCALL"
  by (simp add: kernel_ok_def MY_CUSTOM_SYSCALL_def)

lemma init_function_loads:
  assumes "kernel_ok k" and "pristine orig s"
  shows "\<exists>s'. init_function k s = Ok (0, s') \<and> mod_inv k orig s' \<and>
           abs_mod k s' = ({}, \<lambda>_. {}) \<and>
           sys_call_table s' = base_call k orig \<and> klog s' = klog s"
proof -
  let ?sct = "base_call k orig"
  let ?s' = "s\<lparr>orig_custom_syscall := orig MY_CUSTOM_SYSCALL,
               orig_exit_group := orig (NR_exit_group k), sys_call_table := ?sct,
               table := (\<lambda>i. if i \<le> NR_syscalls k then fresh_row (?sct i) else table s i)\<rparr>"
  note neq = kernel_ok_neq[OF assms(1)]
  have ro: "page_ro (sct_pte (s\<lparr>calltable_lock := True\<rparr>))" using assms(2) by (simp add: pristine_def)
  have tab: "orig(MY_CUSTOM_SYSCALL := My_syscall, NR_exit_group k := My_exit_group) = ?sct"
    using neq by (auto simp: base_call_def)
  have "init_function k s = Ok (0, ?s')"
    using assms(2) page_ro_rw[OF ro] neq
    by (auto simp: init_function_def lock_calltable_def lock_pidlist_def pristine_def Let_def
        write_sct_def set_addr_ro_def fold_init_all unlock_calltable_def unlock_pidlist_def
        tab[symmetric] simp del: upt_Suc fun_upd_apply cong: if_cong intro!: kmod.equality)
  moreover have "mod_inv k orig ?s'"
    using assms by (auto simp: mod_inv_def mod_core_def row_ok_def pristine_def base_call_def
        kernel_ok_def MY_CUSTOM_SYSCALL_def)
  moreover have "abs_mod k ?s' = ({}, \<lambda>_. {})"
    by (auto simp: abs_mod_def intro!: ext split: if_splits)
  ultimately show ?thesis by auto
qed

section \<open>Unloading\<close>

definition cleared :: "krow \<Rightarrow> krow" where
  "cleared r = r\<lparr>my_list := [], listcount := 0, monitored := 0\<rparr>"

text \<open>The loop of \<open>exit_function\<close> while the page is writable.\<close>

lemma restore_rows_ok:
  "sct_pte s AND PAGE_RW \<noteq> 0 \<Longrightarrow> distinct ns \<Longrightarrow>
   restore_rows ns s = Ok (s\<lparr>
     sys_call_table := (\<lambda>n. if n \<in> set ns then fn (table s n) else sys_call_table s n),
     table := (\<lambda>n. if n \<in> set ns then cleared (table s n) else table s n)\<rparr>)"
proof (induction ns arbitrary: s)
  case Nil
  then show ?case by simp
next
  case (Cons i ns)
  let ?s1 = "s\<lparr>sys_call_table := (sys_call_table s)(i := fn (table s i)),
               table := (table s)(i := cleared (table s i))\<rparr>"
  have "restore_row i s = Ok ?s1"
    using Cons.prems
    by (simp add: restore_row_def write_sct_def destroy_list_def put_row_def cleared_def)
  with Cons show ?case by (auto intro!: kmod.equality ext)
qed

lemma restore_all_ok:
  "sct_pte s AND PAGE_RW \<noteq> 0 \<Longrightarrow>
   restore_rows [0..<Suc m] s = Ok (s\<lparr>
     sys_call_table := (\<lambda>n. if n \<le> m then fn (table s n) else sys_call_table s n),
     table := (\<lambda>n. if n \<le> m then cleared (table s n) else table s n)\<rparr>)"
  by (subst restore_rows_ok) (auto simp: less_Suc_eq_le simp del: upt_Suc cong: if_cong)

lemma exit_function_restores:
  assumes k: "kernel_ok k" and inv: "mod_inv k orig s"
  shows "\<exists>s'. exit_function k s = Ok s' \<and> pristine orig s' \<and>
           (\<forall>n \<le> NR_syscalls k. my_list (table s' n) = [])"
proof -
  let ?m = "NR_syscalls k"
  have ro: "page_ro (sct_pte (s\<lparr>calltable_lock := True\<rparr>))"
    using inv by (simp add: mod_inv_def mod_core_def)
  let ?s2 = "s\<lparr>calltable_lock := True, sct_pte := sct_pte s OR PAGE_RW, pidlist_lock := True\<rparr>"
  let ?s3 = "?s2\<lparr>
     sys_call_table := (\<lambda>n. if n \<le> ?m then fn (table s n) else sys_call_table s n),
     table := (\<lambda>n. if n \<le> ?m then cleared (table s n) else table s n)\<rparr>"
  have rows: "restore_rows [0..<Suc ?m] ?s2 = Ok ?s3"
    using restore_all_ok[of ?s2 ?m] page_ro_rw[OF ro] by (simp del: upt_Suc cong: if_cong)
  let ?s' = "?s3\<lparr>sys_call_table := (sys_call_table ?s3)(MY_CUSTOM_SYSCALL := orig MY_CUSTOM_SYSCALL,
       NR_exit_group k := orig (NR_exit_group k)), pidlist_lock := False,
       sct_pte := sct_pte s, calltable_lock := False\<rparr>"
  have "exit_function k s = Ok ?s'"
    using inv rows page_ro_rw[OF ro]
    by (simp add: exit_function_def lock_calltable_def lock_pidlist_def mod_inv_def mod_core_def
        write_sct_def set_addr_ro_def unlock_calltable_def unlock_pidlist_def del: upt_Suc cong: if_cong)
  moreover have "sys_call_table ?s' n = orig n" for n
    using inv k by (auto simp: mod_inv_def mod_core_def row_ok_def base_call_def simp del: upt_Suc)
  moreover have "page_ro (sct_pte ?s')"
    using inv by (simp add: mod_inv_def mod_core_def)
  ultimately show ?thesis
    by (intro exI[of _ ?s']) (auto simp: pristine_def cleared_def simp del: upt_Suc)
qed

section \<open>The exit hook\<close>

definition exit_row :: "int \<Rightarrow> krow \<Rightarrow> krow" where
  "exit_row pid r =
     (case unlink_pid pid (my_list r) of None \<Rightarrow> r | Some ys \<Rightarrow> drop_count (r\<lparr>my_list := ys\<rparr>))"

lemma exit_row_sel [simp]: "fn (exit_row pid r) = fn r" "intercepted (exit_row pid r) = intercepted r"
  by (simp_all add: exit_row_def split: option.splits)

lemma exit_row_inv: "row_inv r \<Longrightarrow> row_inv (exit_row pid r)"
  by (auto simp: exit_row_def row_remove split: option.splits)

lemma exit_row_gone: "row_inv r \<Longrightarrow> pid \<notin> set (my_list (exit_row pid r))"
  using unlink_pid_Some[of pid "my_list r"] unlink_pid_None[of pid "my_list r"]
  by (auto simp: exit_row_def row_inv_def split: option.splits)

lemma exit_row_pids:
  "row_inv r \<Longrightarrow> row_pids (exit_row pid r) =
     (if monitored r = 2 then insert pid (row_pids r) else row_pids r - {pid})"
  using row_remove(2)[of r pid] unlink_pid_None[of pid "my_list r"]
  by (auto simp: exit_row_def row_pids_def split: option.splits)

lemma del_pid_rows_eq:
  assumes "distinct ns" and "\<And>n. n \<in> set ns \<Longrightarrow> row_inv (table s n)"
  shows "del_pid_rows pid ns s b =
     (s\<lparr>table := (\<lambda>n. if n \<in> set ns then exit_row pid (table s n) else table s n)\<rparr>,
      b \<or> (\<exists>n \<in> set ns. pid \<in> set (my_list (table s n))))"
  using assms
proof (induction ns arbitrary: s b)
  case Nil
  then show ?case by simp
next
  case (Cons n ns)
  have row: "del_pid_row pid [] (my_list (table s n)) (table s n) b =
      (exit_row pid (table s n), b \<or> pid \<in> set (my_list (table s n)))"
    using Cons.prems(2)[of n] unlink_pid_SomeD
    by (auto simp: del_pid_row_eq exit_row_def split: option.splits)
  let ?s = "put_row n (exit_row pid (table s n)) s"
  have "del_pid_rows pid (n # ns) s b =
          del_pid_rows pid ns ?s (b \<or> pid \<in> set (my_list (table s n)))"
    by (simp add: row)
  also have "\<dots> = (?s\<lparr>table := (\<lambda>m. if m \<in> set ns then exit_row pid (table ?s m) else table ?s m)\<rparr>,
      (b \<or> pid \<in> set (my_list (table s n))) \<or> (\<exists>m \<in> set ns. pid \<in> set (my_list (table ?s m))))"
    using Cons.prems by (intro Cons.IH) auto
  also have "\<dots> = (s\<lparr>table := (\<lambda>m. if m \<in> set (n # ns) then exit_row pid (table s m) else table s m)\<rparr>,
      b \<or> (\<exists>m \<in> set (n # ns). pid \<in> set (my_list (table s m))))"
    using Cons.prems(1) by (auto simp: put_row_def intro!: kmod.equality ext)
  finally show ?case .
qed

text \<open>
  The rows the exit hook visits: \<open>1 \<le> n < NR_syscalls\<close>. Row \<open>NR_syscalls\<close>, which the command
  system call accepts, is not among them.
\<close>

lemma my_exit_group_eq:
  assumes inv: "mod_inv k orig s"
  shows "my_exit_group k c s = Ok (orig (NR_exit_group k),
     s\<lparr>table := (\<lambda>n. if 1 \<le> n \<and> n < NR_syscalls k then exit_row (current_pid c) (table s n)
                      else table s n)\<rparr>)"
proof -
  have "del_pid_rows (current_pid c) [1..<NR_syscalls k] (s\<lparr>pidlist_lock := True\<rparr>) False =
     (s\<lparr>pidlist_lock := True,
        table := (\<lambda>n. if n \<in> set [1..<NR_syscalls k]
           then exit_row (current_pid c) (table (s\<lparr>pidlist_lock := True\<rparr>) n)
           else table (s\<lparr>pidlist_lock := True\<rparr>) n)\<rparr>,
      False \<or> (\<exists>n \<in> set [1..<NR_syscalls k].
         current_pid c \<in> set (my_list (table (s\<lparr>pidlist_lock := True\<rparr>) n))))"
    using inv by (intro del_pid_rows_eq) (auto simp: mod_inv_def mod_core_def row_ok_def)
  with inv show ?thesis
    by (simp add: my_exit_group_def lock_pidlist_def mod_inv_def mod_core_def del_pid_def
        unlock_pidlist_def Let_def cong: if_cong)
qed

lemma my_exit_group_inv:
  assumes "mod_inv k orig s" and "my_exit_group k c s = Ok (h, s')"
  shows "mod_inv k orig s'"
  using assms my_exit_group_eq[OF assms(1), of c]
  by (auto simp: mod_inv_def mod_core_def row_ok_def exit_row_inv split: if_splits)

section \<open>The interceptor\<close>

lemma interceptor_eq:
  assumes inv: "mod_inv k orig s" and n: "unat (ax reg) \<le> NR_syscalls k"
  shows "interceptor k c reg s =
     Ok ((base_call k orig (unat (ax reg)), reg),
       if current_pid c \<in> snd (abs_mod k s) (unat (ax reg))
       then s\<lparr>klog := klog s @ [Log (current_pid c) (ax reg)
              [bx reg, cx reg, dx reg, si reg, di reg, bp reg]]\<rparr>
       else s)"
proof -
  from inv n have "row_inv (table s (unat (ax reg)))"
    and "fn (table s (unat (ax reg))) = base_call k orig (unat (ax reg))"
    by (auto simp: mod_inv_def mod_core_def row_ok_def)
  with n show ?thesis
    by (simp add: interceptor_def Let_def abs_mod_def is_pid_monitored_iff)
qed

section \<open>Reachable states\<close>

text \<open>What happens to a loaded module: commands, exits of processes, intercepted calls.\<close>

inductive mod_step :: "kernel \<Rightarrow> kmod \<Rightarrow> kmod \<Rightarrow> bool" for k where
  command: "caller_ok c \<Longrightarrow> my_syscall k c cmd sysc pid s = Ok (r, s') \<Longrightarrow> mod_step k s s'"
| process_exit: "my_exit_group k c s = Ok (h, s') \<Longrightarrow> mod_step k s s'"
| call: "unat (ax reg) \<le> NR_syscalls k \<Longrightarrow> interceptor k c reg s = Ok (h, s') \<Longrightarrow> mod_step k s s'"

inductive_cases mod_stepE: "mod_step k s t"

definition just_loaded :: "kernel \<Rightarrow> (nat \<Rightarrow> handler) \<Rightarrow> kmod \<Rightarrow> bool" where
  "just_loaded k orig s \<longleftrightarrow>
     kernel_ok k \<and> (\<exists>s0. pristine orig s0 \<and> init_function k s0 = Ok (0, s))"

lemma klog_irrelevant [simp]: "mod_inv k orig (s\<lparr>klog := l\<rparr>) = mod_inv k orig s"
  by (simp add: mod_inv_def mod_core_def row_ok_def)

lemma mod_step_inv: "mod_step k s t \<Longrightarrow> mod_inv k orig s \<Longrightarrow> mod_inv k orig t"
proof (induction rule: mod_step.induct)
  case (command c cmd sysc pid s r s')
  with my_syscall_spec[of k orig s c cmd sysc pid] show ?case by auto
next
  case (process_exit c s h s')
  then show ?case using my_exit_group_inv by blast
next
  case (call reg c s h s')
  with interceptor_eq[of k orig s reg c] show ?case by (auto split: if_splits)
qed

interpretation module: invariant_system "just_loaded k orig" "mod_step k" "mod_inv k orig" for k orig
proof
  fix s assume "just_loaded k orig s"
  then obtain s0 where "kernel_ok k" "pristine orig s0" "init_function k s0 = Ok (0, s)"
    by (auto simp: just_loaded_def)
  with init_function_loads[of k orig s0] show "mod_inv k orig s" by auto
qed (rule mod_step_inv)

end
