(* ===== verification/Interceptor_Locks.thy ===== *)
theory Interceptor_Locks
  imports Interceptor_Life
begin

text \<open>
  The two spin locks of the module under concurrent callers. Each entry point is reduced to
  the lock operations it performs, in the order of the code; any number of threads run entry
  points and interleave at each lock operation. Commands and exit hooks cannot deadlock
  among themselves. The order is inverted between a command that patches the system call
  table and loading or unloading the module.
\<close>

section \<open>Lock programs\<close>

datatype lk = Pidlist | Calltable

datatype lock_op = Acq lk | Rel lk

text \<open>
  The entry points. \<open>Patch_cmd\<close> is a command that reaches \<open>handle_syscall_intercept\<close> or
  \<open>handle_syscall_release\<close>, \<open>List_cmd\<close> one that is refused or changes a pid list only.
\<close>

datatype entry_point = Patch_cmd | List_cmd | Exit_hook | Load | Unload

definition patch_handler_locks :: "lock_op list" where
  [simp]: "patch_handler_locks = [Acq Calltable, Rel Calltable]"

definition my_syscall_locks :: "lock_op list \<Rightarrow> lock_op list" where
  [simp]: "my_syscall_locks handler = [Acq Pidlist] @ handler @ [Rel Pidlist]"

definition my_exit_group_locks :: "lock_op list" where
  [simp]: "my_exit_group_locks = [Acq Pidlist, Rel Pidlist]"

definition init_function_locks :: "lock_op list" where
  [simp]: "init_function_locks = [Acq Calltable, Acq Pidlist, Rel Pidlist, Rel Calltable]"

definition exit_function_locks :: "lock_op list" where
  [simp]: "exit_function_locks = [Acq Calltable, Acq Pidlist, Rel Pidlist, Rel Calltable]"

fun lock_program :: "entry_point \<Rightarrow> lock_op list" where
  "lock_program Patch_cmd = my_syscall_locks patch_handler_locks"
| "lock_program List_cmd = my_syscall_locks []"
| "lock_program Exit_hook = my_exit_group_locks"
| "lock_program Load = init_function_locks"
| "lock_program Unload = exit_function_locks"

text \<open>What each thread has left to do, and who holds each lock.\<close>

record lock_state =
  todo :: "nat \<Rightarrow> lock_op list"
  holder :: "lk \<Rightarrow> nat option"

definition lock_start :: "(nat \<Rightarrow> entry_point option) \<Rightarrow> lock_state" where
  "lock_start prog =
     \<lparr>todo = (\<lambda>i. case prog i of None \<Rightarrow> [] | Some e \<Rightarrow> lock_program e), holder = (\<lambda>_. None)\<rparr>"

inductive lock_step :: "lock_state \<Rightarrow> lock_state \<Rightarrow> bool" where
  acquire: "todo s i = Acq l # ops \<Longrightarrow> holder s l = None \<Longrightarrow>
     lock_step s (s\<lparr>todo := (todo s)(i := ops), holder := (holder s)(l := Some i)\<rparr>)"
| release: "todo s i = Rel l # ops \<Longrightarrow>
     lock_step s (s\<lparr>todo := (todo s)(i := ops), holder := (holder s)(l := None)\<rparr>)"

inductive_simps lock_step_iff: "lock_step s t"

definition all_done :: "lock_state \<Rightarrow> bool" where
  "all_done s \<longleftrightarrow> (\<forall>i. todo s i = [])"

definition deadlocked :: "lock_state \<Rightarrow> bool" where
  "deadlocked s \<longleftrightarrow> \<not> all_done s \<and> (\<forall>t. \<not> lock_step s t)"

section \<open>Commands and exit hooks follow one order\<close>

text \<open>Where a thread can be, with the locks it holds there.\<close>

definition at_point :: "lock_op list \<Rightarrow> bool \<Rightarrow> bool \<Rightarrow> bool" where
  "at_point ops p c \<longleftrightarrow>
     (ops, p, c) \<in>
       {([], False, False),
        ([Acq Pidlist, Acq Calltable, Rel Calltable, Rel Pidlist], False, False),
        ([Acq Pidlist, Rel Pidlist], False, False),
        ([Acq Calltable, Rel Calltable, Rel Pidlist], True, False),
        ([Rel Calltable, Rel Pidlist], True, True),
        ([Rel Pidlist], True, False)}"

definition ordered_inv :: "lock_state \<Rightarrow> bool" where
  "ordered_inv s \<longleftrightarrow>
     (\<forall>i. at_point (todo s i) (holder s Pidlist = Some i) (holder s Calltable = Some i))"

definition runtime_start :: "lock_state \<Rightarrow> bool" where
  "runtime_start s \<longleftrightarrow>
     (\<exists>prog. s = lock_start prog \<and> (\<forall>i. prog i \<notin> {Some Load, Some Unload}))"

lemma runtime_start_inv: "runtime_start s \<Longrightarrow> ordered_inv s"
proof -
  assume "runtime_start s"
  then obtain prog where s: "s = lock_start prog" and rt: "\<forall>i. prog i \<notin> {Some Load, Some Unload}"
    by (auto simp: runtime_start_def)
  have "at_point (todo s i) False False" for i
  proof (cases "prog i")
    case None
    then show ?thesis by (simp add: s lock_start_def at_point_def)
  next
    case (Some e)
    with rt[THEN spec, of i] show ?thesis
      by (cases e) (auto simp: s lock_start_def at_point_def)
  qed
  then show "ordered_inv s" by (simp add: ordered_inv_def) (simp add: s lock_start_def)
qed

lemma lock_step_inv: "lock_step s t \<Longrightarrow> ordered_inv s \<Longrightarrow> ordered_inv t"
proof (induction rule: lock_step.induct)
  case (acquire s i l ops)
  from acquire.prems have at: "at_point (todo s i) (holder s Pidlist = Some i) (holder s Calltable = Some i)"
    by (simp add: ordered_inv_def)
  show ?case unfolding ordered_inv_def
  proof
    fix j
    show "at_point (todo (s\<lparr>todo := (todo s)(i := ops), holder := (holder s)(l := Some i)\<rparr>) j)
      (holder (s\<lparr>todo := (todo s)(i := ops), holder := (holder s)(l := Some i)\<rparr>) Pidlist = Some j)
      (holder (s\<lparr>todo := (todo s)(i := ops), holder := (holder s)(l := Some i)\<rparr>) Calltable = Some j)"
    proof (cases "j = i")
      case True
      with at acquire.hyps show ?thesis by (cases l) (auto simp: at_point_def)
    next
      case False
      with acquire.prems[unfolded ordered_inv_def, THEN spec, of j] acquire.hyps
      show ?thesis by (cases l) auto
    qed
  qed
next
  case (release s i l ops)
  from release.prems have at: "at_point (todo s i) (holder s Pidlist = Some i) (holder s Calltable = Some i)"
    by (simp add: ordered_inv_def)
  then have own: "holder s l = Some i"
    using release.hyps by (cases l) (auto simp: at_point_def)
  show ?case unfolding ordered_inv_def
  proof
    fix j
    show "at_point (todo (s\<lparr>todo := (todo s)(i := ops), holder := (holder s)(l := None)\<rparr>) j)
      (holder (s\<lparr>todo := (todo s)(i := ops), holder := (holder s)(l := None)\<rparr>) Pidlist = Some j)
      (holder (s\<lparr>todo := (todo s)(i := ops), holder := (holder s)(l := None)\<rparr>) Calltable = Some j)"
    proof (cases "j = i")
      case True
      with at release.hyps show ?thesis by (cases l) (auto simp: at_point_def)
    next
      case False
      with release.prems[unfolded ordered_inv_def, THEN spec, of j] own
      show ?thesis by (cases l) auto
    qed
  qed
qed

interpretation locks: invariant_system runtime_start lock_step ordered_inv
  by unfold_locales (rule runtime_start_inv, assumption, rule lock_step_inv)

lemma enabled_release: "todo s i = Rel l # ops \<Longrightarrow> \<exists>t. lock_step s t"
  by (blast intro: lock_step.release)

lemma enabled_acquire: "todo s i = Acq l # ops \<Longrightarrow> holder s l = None \<Longrightarrow> \<exists>t. lock_step s t"
  by (blast intro: lock_step.acquire)

lemma ordered_progress:
  assumes inv: "ordered_inv s" and "\<not> all_done s"
  shows "\<exists>t. lock_step s t"
proof -
  have at: "at_point (todo s i) (holder s Pidlist = Some i) (holder s Calltable = Some i)" for i
    using inv by (simp add: ordered_inv_def)
  consider (calltable) i where "holder s Calltable = Some i"
    | (pidlist) i where "holder s Calltable = None" "holder s Pidlist = Some i"
    | (free) "holder s Calltable = None" "holder s Pidlist = None" by fastforce
  then show ?thesis
  proof cases
    case calltable
    with at[of i] show ?thesis by (auto simp: at_point_def intro: enabled_release)
  next
    case pidlist
    with at[of i] show ?thesis
      by (auto simp: at_point_def intro: enabled_release enabled_acquire)
  next
    case free
    from assms(2) obtain i where "todo s i \<noteq> []" by (auto simp: all_done_def)
    with at[of i] free show ?thesis by (auto simp: at_point_def intro: enabled_acquire)
  qed
qed

section \<open>Loading and unloading invert the order\<close>

text \<open>A command on thread 0 and an unload on thread 1, each holding the lock the other wants.\<close>

definition inverted :: lock_state where
  "inverted =
     \<lparr>todo = (\<lambda>_. [])(0 := [Acq Calltable, Rel Calltable, Rel Pidlist],
                       1 := [Acq Pidlist, Rel Pidlist, Rel Calltable]),
      holder = (\<lambda>_. None)(Pidlist := Some 0, Calltable := Some 1)\<rparr>"

definition cmd_against :: "entry_point \<Rightarrow> nat \<Rightarrow> entry_point option" where
  "cmd_against e = (\<lambda>_. None)(0 := Some Patch_cmd, 1 := Some e)"

lemma inverted_deadlocked: "deadlocked inverted"
proof -
  have "\<not> lock_step inverted t" for t
    by (auto simp: lock_step_iff inverted_def split: if_splits)
  moreover have "\<not> all_done inverted"
    by (auto simp: all_done_def inverted_def intro!: exI[of _ 0])
  ultimately show ?thesis by (simp add: deadlocked_def)
qed

lemma inverted_reachable:
  assumes "e = Load \<or> e = Unload"
  shows "lock_step\<^sup>*\<^sup>* (lock_start (cmd_against e)) inverted"
proof -
  let ?s = "lock_start (cmd_against e)"
  let ?s1 = "?s\<lparr>todo := (todo ?s)(0 := [Acq Calltable, Rel Calltable, Rel Pidlist]),
               holder := (holder ?s)(Pidlist := Some 0)\<rparr>"
  have "lock_step ?s ?s1"
    by (rule lock_step.acquire) (simp_all add: lock_start_def cmd_against_def)
  moreover have "lock_step ?s1 (?s1\<lparr>todo := (todo ?s1)(1 := [Acq Pidlist, Rel Pidlist, Rel Calltable]),
               holder := (holder ?s1)(Calltable := Some 1)\<rparr>)"
    using assms by (intro lock_step.acquire) (auto simp: lock_start_def cmd_against_def)
  moreover have "?s1\<lparr>todo := (todo ?s1)(1 := [Acq Pidlist, Rel Pidlist, Rel Calltable]),
               holder := (holder ?s1)(Calltable := Some 1)\<rparr> = inverted"
    by (auto simp: lock_start_def cmd_against_def inverted_def intro!: lock_state.equality ext)
  ultimately show ?thesis
    by (metis (no_types) converse_rtranclp_into_rtranclp rtranclp.rtrancl_refl)
qed

end
