(* ===== verification/Interceptor_Props.thy ===== *)
theory Interceptor_Props
  imports Interceptor_Locks
begin

text \<open>
  The properties of the kernel module, each with a run on a small kernel of eight system
  calls, exit hook 3, on which a root process (pid 7) and two processes of user 1000 (pids
  20 and 21) live.
\<close>

section \<open>A small kernel for the witnesses\<close>

definition ex_kernel :: kernel where
  "ex_kernel = \<lparr>NR_syscalls = 8, NR_exit_group = 3\<rparr>"

definition ex_uid :: "int \<Rightarrow> nat option" where
  "ex_uid = (\<lambda>_. None)(7 := Some 0, 20 := Some 1000, 21 := Some 1000)"

definition ex_root :: caller where
  "ex_root = \<lparr>current_pid = 7, current_uid = 0, proc_uid = ex_uid, kmalloc_ok = True\<rparr>"

definition ex_user :: caller where
  "ex_user = \<lparr>current_pid = 20, current_uid = 1000, proc_uid = ex_uid, kmalloc_ok = True\<rparr>"

definition ex_orig :: "nat \<Rightarrow> handler" where
  "ex_orig = (\<lambda>n. Kernel n)"

definition ex_before :: kmod where
  "ex_before = \<lparr>table = (\<lambda>_. fresh_row (Kernel 0)), sys_call_table = ex_orig, sct_pte = 1,
     pidlist_lock = False, calltable_lock = False, orig_exit_group = Kernel 0,
     orig_custom_syscall = Kernel 0, klog = []\<rparr>"

text \<open>The loaded module with \<open>r\<close> as row 5, intercepted when \<open>r\<close> says so, and row 8.\<close>

definition ex_state :: "krow \<Rightarrow> krow \<Rightarrow> kmod" where
  "ex_state r5 r8 = ex_before\<lparr>
     table := (\<lambda>n. fresh_row (base_call ex_kernel ex_orig n))(5 := r5, 8 := r8),
     sys_call_table := (base_call ex_kernel ex_orig)
       (5 := if intercepted r5 \<noteq> 0 then Interceptor else Kernel 5,
        8 := if intercepted r8 \<noteq> 0 then Interceptor else Kernel 8),
     orig_exit_group := Kernel 3, orig_custom_syscall := Kernel 0\<rparr>"

definition ex_row :: "nat \<Rightarrow> int \<Rightarrow> int list \<Rightarrow> krow" where
  "ex_row n m ps = \<lparr>fn = Kernel n, intercepted = 1, monitored = m,
     listcount = int (length ps), my_list = ps\<rparr>"

lemmas ex_defs = ex_kernel_def ex_orig_def base_call_def MY_CUSTOM_SYSCALL_def

lemma ex_kernel_ok: "kernel_ok ex_kernel"
  by (simp add: kernel_ok_def ex_kernel_def)

lemma ex_before_pristine: "pristine ex_orig ex_before"
  by (simp add: pristine_def ex_before_def page_ro_def PAGE_RW_def)

lemma ex_callers_ok: "caller_ok ex_root" "caller_ok ex_user"
  by (simp_all add: caller_ok_def ex_root_def ex_user_def ex_uid_def)

lemma ex_state_inv:
  assumes "row_inv r5" and "fn r5 = Kernel 5" and "row_inv r8" and "fn r8 = Kernel 8"
  shows "mod_inv ex_kernel ex_orig (ex_state r5 r8)"
  using assms
  by (auto simp: mod_inv_def mod_core_def row_ok_def ex_state_def ex_before_def ex_defs
      page_ro_def PAGE_RW_def)

lemma ex_row_inv:
  "distinct ps \<Longrightarrow> \<forall>p \<in> set ps. 0 < p \<Longrightarrow> m = 2 \<or> (m = 1 \<and> ps \<noteq> []) \<Longrightarrow> row_inv (ex_row n m ps)"
  by (auto simp: row_inv_def ex_row_def)

lemma ex_row_fn [simp]: "fn (ex_row n m ps) = Kernel n"
  by (simp add: ex_row_def)

lemma ex_kernel_sel [simp]: "NR_syscalls ex_kernel = 8" "NR_exit_group ex_kernel = 3"
  by (simp_all add: ex_kernel_def)

lemma ex_row_pids:
  "row_pids (ex_row n 1 ps) = set ps" "row_pids (ex_row n 2 ps) = - set ps"
  by (simp_all add: ex_row_def row_pids_def)

lemma ex_abs:
  "abs_mod ex_kernel (ex_state (ex_row 5 m ps) (ex_row 8 m' ps')) =
     ({5, 8}, (\<lambda>_. {})(5 := row_pids (ex_row 5 m ps), 8 := row_pids (ex_row 8 m' ps')))"
  by (auto simp: abs_mod_def ex_state_def ex_row_def intro!: ext split: if_splits)

lemma ex_black: "mod_inv ex_kernel ex_orig (ex_state (ex_row 5 2 [20]) (ex_row 8 1 [20]))"
  by (rule ex_state_inv) (simp_all add: ex_row_inv)

lemma ex_listed: "mod_inv ex_kernel ex_orig (ex_state (ex_row 5 1 [21, 20]) (ex_row 8 1 [20]))"
  by (rule ex_state_inv) (simp_all add: ex_row_inv)

section \<open>Properties\<close>

text \<open>C7: refinement. In every state that keeps the module invariant, the command system call
  returns, keeps the invariant (both locks free again, the system call table page read-only
  again), and its result code and its effect on the intercepted calls and on the set of
  monitored pids of every call are those of the abstract command, whichever of the four
  commands, whatever its arguments and whether or not memory runs out.\<close>

theorem my_syscall_refines:
  assumes "mod_inv k orig s" and "caller_ok c"
  shows "\<exists>r s'. my_syscall k c cmd sysc pid s = Ok (r, s') \<and> mod_inv k orig s' \<and>
           (r, abs_mod k s') = spec_syscall k c cmd sysc pid (abs_mod k s)"
  using assms by (rule my_syscall_spec)

theorem my_syscall_refines_witness:
  "\<exists>r s'. my_syscall ex_kernel ex_user REQUEST_STOP_MONITORING 5 21
            (ex_state (ex_row 5 1 [21, 20]) (ex_row 8 1 [20])) = Ok (r, s') \<and> r = 0 \<and>
          snd (abs_mod ex_kernel s') 5 = {20}"
proof -
  let ?s = "ex_state (ex_row 5 1 [21, 20]) (ex_row 8 1 [20])"
  obtain r s' where run: "my_syscall ex_kernel ex_user REQUEST_STOP_MONITORING 5 21 ?s = Ok (r, s')"
    and spec: "(r, abs_mod ex_kernel s') =
      spec_syscall ex_kernel ex_user REQUEST_STOP_MONITORING 5 21 (abs_mod ex_kernel ?s)"
    using my_syscall_refines[OF ex_listed ex_callers_ok(2),
        of REQUEST_STOP_MONITORING 5 21] by blast
  have "r = 0 \<and> snd (abs_mod ex_kernel s') 5 = {20}"
    using spec by (cases "abs_mod ex_kernel s'")
      (auto simp: ex_abs ex_row_pids spec_syscall_def is_valid_cmd_def is_valid_syscall_def
        is_valid_pid_def permitted_def spec_stop_def request_defs ex_user_def ex_uid_def
        MY_CUSTOM_SYSCALL_def)
  then show ?thesis using run by auto
qed

text \<open>C8: roundtrip. Whatever commands, process exits and intercepted calls happen between
  loading the module and unloading it, unloading returns, gives the kernel exactly the system
  call table it had before, leaves the page read-only and both locks free, and empties the
  list of monitored pids of every row.\<close>

theorem load_unload_restores:
  assumes "just_loaded k orig s" and "(mod_step k)\<^sup>*\<^sup>* s t"
  shows "\<exists>u. exit_function k t = Ok u \<and> pristine orig u \<and>
           (\<forall>n \<le> NR_syscalls k. my_list (table u n) = [])"
proof -
  from assms have "mod_inv k orig t" by (rule module.reachable_inv)
  moreover from assms(1) have "kernel_ok k" by (simp add: just_loaded_def)
  ultimately show ?thesis by (rule exit_function_restores[rotated])
qed

theorem load_unload_restores_witness:
  "\<exists>s t u. just_loaded ex_kernel ex_orig s \<and> mod_step ex_kernel s t \<and>
     abs_mod ex_kernel t \<noteq> abs_mod ex_kernel s \<and>
     exit_function ex_kernel t = Ok u \<and> sys_call_table u = ex_orig"
proof -
  obtain s where s: "just_loaded ex_kernel ex_orig s" and inv: "mod_inv ex_kernel ex_orig s"
    and abs: "abs_mod ex_kernel s = ({}, \<lambda>_. {})"
    using init_function_loads[OF ex_kernel_ok ex_before_pristine]
    by (auto simp: just_loaded_def ex_kernel_ok intro: ex_before_pristine)
  obtain r t where t: "my_syscall ex_kernel ex_root REQUEST_SYSCALL_INTERCEPT 5 0 s = Ok (r, t)"
    and spec: "(r, abs_mod ex_kernel t) =
      spec_syscall ex_kernel ex_root REQUEST_SYSCALL_INTERCEPT 5 0 (abs_mod ex_kernel s)"
    using my_syscall_spec[OF inv ex_callers_ok(1)] by blast
  have "abs_mod ex_kernel t = ({5}, \<lambda>_. {})"
    using spec by (simp add: abs spec_syscall_def is_valid_cmd_def is_valid_syscall_def
        is_valid_pid_def permitted_def request_defs ex_root_def MY_CUSTOM_SYSCALL_def)
  moreover have step: "mod_step ex_kernel s t"
    using mod_step.command[OF ex_callers_ok(1) t] .
  moreover obtain u where "exit_function ex_kernel t = Ok u" "pristine ex_orig u"
    using load_unload_restores[OF s r_into_rtranclp[of "mod_step ex_kernel", OF step]] by blast
  ultimately show ?thesis
    using s abs by (intro exI[of _ s] exI[of _ t] exI[of _ u]) (simp add: pristine_def)
qed

text \<open>C22: functional. An intercepted call is passed on to the function the table held before,
  with the caller's registers, and it is logged, with the pid, the call number and the six
  arguments, exactly when the caller's pid is one of those monitored for that call; nothing
  else changes.\<close>

theorem interceptor_logs_monitored:
  assumes "mod_inv k orig s" and "unat (ax reg) \<le> NR_syscalls k"
  shows "interceptor k c reg s =
     Ok ((base_call k orig (unat (ax reg)), reg),
       if current_pid c \<in> snd (abs_mod k s) (unat (ax reg))
       then s\<lparr>klog := klog s @ [Log (current_pid c) (ax reg)
              [bx reg, cx reg, dx reg, si reg, di reg, bp reg]]\<rparr>
       else s)"
  using assms by (rule interceptor_eq)

definition ex_regs :: pt_regs where
  "ex_regs = \<lparr>ax = 5, bx = 1, cx = 2, dx = 3, si = 4, di = 5, bp = 6\<rparr>"

theorem interceptor_logs_monitored_witness:
  "\<exists>s'. interceptor ex_kernel ex_root ex_regs (ex_state (ex_row 5 2 [20]) (ex_row 8 1 [20]))
          = Ok ((Kernel 5, ex_regs), s') \<and> klog s' = [Log 7 5 [1, 2, 3, 4, 5, 6]]"
proof -
  have "unat (ax ex_regs) \<le> NR_syscalls ex_kernel"
    by (simp add: ex_regs_def ex_kernel_def)
  from interceptor_logs_monitored[OF ex_black this, of ex_root] show ?thesis
    by (auto simp: abs_mod_def ex_state_def ex_before_def ex_row_def row_pids_def ex_root_def
        ex_regs_def ex_defs)
qed

text \<open>C23: functional. When a process exits, the hook hands over to the original exit call
  after taking the pid out of the list of every call from 1 to \<open>NR_syscalls - 1\<close>; for a call
  that monitored chosen pids the pid is no longer monitored, no other pid is affected, and
  the invariant still holds.\<close>

theorem exit_hook_forgets_pid:
  assumes "mod_inv k orig s"
  shows "\<exists>s'. my_exit_group k c s = Ok (orig (NR_exit_group k), s') \<and> mod_inv k orig s' \<and>
     (\<forall>n. 1 \<le> n \<and> n < NR_syscalls k \<longrightarrow>
        current_pid c \<notin> set (my_list (table s' n)) \<and>
        snd (abs_mod k s') n =
          (if monitored (table s n) = 2 then insert (current_pid c) (snd (abs_mod k s) n)
           else snd (abs_mod k s) n - {current_pid c}))"
proof -
  have "row_inv (table s n)" if "n \<le> NR_syscalls k" for n
    using assms that by (simp add: mod_inv_def mod_core_def row_ok_def)
  with my_exit_group_eq[OF assms, of c] my_exit_group_inv[OF assms, of c] show ?thesis
    by (auto simp: abs_mod_def exit_row_pids exit_row_gone)
qed

theorem exit_hook_forgets_pid_witness:
  "\<exists>s'. my_exit_group ex_kernel ex_user (ex_state (ex_row 5 1 [21, 20]) (ex_row 8 1 [20]))
          = Ok (Kernel 3, s') \<and> 20 \<notin> set (my_list (table s' 5))"
  using exit_hook_forgets_pid[OF ex_listed, of ex_user]
  by (auto simp: ex_kernel_def ex_orig_def ex_user_def)

text \<open>C24: safety. A pid monitored for the system call number \<open>NR_syscalls\<close>, which the command
  system call accepts as valid, is still on that list after its process has exited: the hook
  never visits the last row of the table.\<close>

theorem exit_hook_skips_last_row:
  assumes "mod_inv k orig s" and "my_exit_group k c s = Ok (h, s')"
  shows "is_valid_syscall k (int (NR_syscalls k)) = (NR_syscalls k \<noteq> MY_CUSTOM_SYSCALL) \<and>
         table s' (NR_syscalls k) = table s (NR_syscalls k)"
  using assms(2) my_exit_group_eq[OF assms(1), of c] by (auto simp: is_valid_syscall_def)

theorem exit_hook_skips_last_row_witness:
  "\<exists>h s'. my_exit_group ex_kernel ex_user (ex_state (ex_row 5 1 [21, 20]) (ex_row 8 1 [20]))
            = Ok (h, s') \<and> current_pid ex_user \<in> set (my_list (table s' 8))"
proof -
  let ?s = "ex_state (ex_row 5 1 [21, 20]) (ex_row 8 1 [20])"
  obtain h s' where run: "my_exit_group ex_kernel ex_user ?s = Ok (h, s')"
    using my_exit_group_eq[OF ex_listed] by blast
  from exit_hook_skips_last_row[OF ex_listed run] run show ?thesis
    by (auto simp: ex_state_def ex_row_def ex_kernel_def ex_user_def)
qed

text \<open>C25: error. While all pids but some are monitored for a call, root's request to monitor
  all pids is refused with \<open>-EBUSY\<close> and changes nothing, so the exempted pids stay
  unmonitored; the code's own test for this case asks for an empty list.\<close>

theorem start_all_refused_with_exemptions:
  assumes "mod_inv k orig s" and "caller_ok c" and "current_uid c = 0"
    and "is_valid_syscall k (int n)" and "monitored (table s n) = 2"
  shows "\<exists>s'. my_syscall k c REQUEST_START_MONITORING (int n) 0 s = Ok (- EBUSY, s') \<and>
           abs_mod k s' = abs_mod k s"
proof -
  obtain I M where IM: "abs_mod k s = (I, M)" by (cases "abs_mod k s")
  from assms(4) have n: "n \<le> NR_syscalls k" by (simp add: is_valid_syscall_def)
  with assms(1) have "row_inv (table s n)" by (simp add: mod_inv_def mod_core_def row_ok_def)
  with assms(5) n IM have "0 \<in> M n" by (auto simp: abs_mod_def row_pids_0_iff)
  then have "spec_syscall k c REQUEST_START_MONITORING (int n) 0 (abs_mod k s) =
      (- EBUSY, abs_mod k s)"
    using assms(3,4) by (simp add: IM spec_syscall_def is_valid_cmd_def is_valid_pid_def
        permitted_def spec_start_def request_defs)
  with my_syscall_spec[OF assms(1,2), of REQUEST_START_MONITORING "int n" 0]
  show ?thesis by auto
qed

theorem start_all_refused_with_exemptions_witness:
  "20 \<notin> snd (abs_mod ex_kernel (ex_state (ex_row 5 2 [20]) (ex_row 8 1 [20]))) 5 \<and>
   (\<exists>s'. my_syscall ex_kernel ex_root REQUEST_START_MONITORING (int 5) 0
      (ex_state (ex_row 5 2 [20]) (ex_row 8 1 [20])) = Ok (- EBUSY, s'))"
proof -
  let ?s = "ex_state (ex_row 5 2 [20]) (ex_row 8 1 [20])"
  have "is_valid_syscall ex_kernel (int 5)" "monitored (table ?s 5) = 2" "current_uid ex_root = 0"
    by (simp_all add: is_valid_syscall_def ex_kernel_def MY_CUSTOM_SYSCALL_def ex_state_def
        ex_row_def ex_root_def)
  from start_all_refused_with_exemptions[OF ex_black ex_callers_ok(1) this(3,1,2)] show ?thesis
    by (auto simp: ex_abs ex_row_pids)
qed

text \<open>C26: safety. A caller who is not root never changes which calls are intercepted, and can
  change the monitoring of one pid only, the one it named, which must belong to its own user.\<close>

theorem non_root_confined:
  assumes "mod_inv k orig s" and "caller_ok c" and "current_uid c \<noteq> 0"
    and "my_syscall k c cmd sysc pid s = Ok (r, s')"
  shows "fst (abs_mod k s') = fst (abs_mod k s) \<and>
     (\<forall>n p. (p \<in> snd (abs_mod k s') n) \<noteq> (p \<in> snd (abs_mod k s) n) \<longrightarrow>
        p = pid \<and> n = nat sysc \<and> proc_uid c p = proc_uid c (current_pid c))"
proof -
  obtain I M where IM: "abs_mod k s = (I, M)" by (cases "abs_mod k s")
  from my_syscall_spec[OF assms(1,2), of cmd sysc pid] assms(4)
  have "(r, abs_mod k s') = spec_syscall k c cmd sysc pid (I, M)" by (simp add: IM)
  with assms(3) show ?thesis
    by (auto simp: IM spec_syscall_def Let_def permitted_def spec_start_def spec_stop_def
        request_defs split: if_splits)
qed

theorem non_root_confined_witness:
  "\<exists>r s'. my_syscall ex_kernel ex_user REQUEST_START_MONITORING 5 20
      (ex_state (ex_row 5 2 [20]) (ex_row 8 1 [20])) = Ok (r, s') \<and>
    fst (abs_mod ex_kernel s') = {5, 8}"
proof -
  let ?s = "ex_state (ex_row 5 2 [20]) (ex_row 8 1 [20])"
  obtain r s' where run: "my_syscall ex_kernel ex_user REQUEST_START_MONITORING 5 20 ?s = Ok (r, s')"
    using my_syscall_spec[OF ex_black ex_callers_ok(2)] by blast
  have "current_uid ex_user \<noteq> 0" by (simp add: ex_user_def)
  from non_root_confined[OF ex_black ex_callers_ok(2) this run] run show ?thesis
    by (simp add: ex_abs)
qed

text \<open>C27: liveness. However many threads run commands and exit hooks at once, as long as one
  of them has not finished, one of them can proceed: the two locks are always taken in the
  same order.\<close>

theorem runtime_deadlock_free:
  assumes "runtime_start s" and "lock_step\<^sup>*\<^sup>* s t"
  shows "\<not> deadlocked t"
  using ordered_progress[OF locks.reachable_inv[OF assms]] by (auto simp: deadlocked_def)

theorem runtime_deadlock_free_witness:
  "runtime_start (lock_start (\<lambda>_. Some Patch_cmd)) \<and>
   \<not> deadlocked (lock_start (\<lambda>_. Some Patch_cmd))"
proof -
  have "runtime_start (lock_start (\<lambda>_. Some Patch_cmd))"
    by (auto simp: runtime_start_def)
  with runtime_deadlock_free[OF this rtranclp.rtrancl_refl] show ?thesis by simp
qed

text \<open>C28: safety. Loading and unloading take the locks in the opposite order: a command that
  patches the system call table can deadlock with either of them.\<close>

theorem load_unload_can_deadlock:
  "(\<exists>t. lock_step\<^sup>*\<^sup>* (lock_start (cmd_against Unload)) t \<and> deadlocked t) \<and>
   (\<exists>t. lock_step\<^sup>*\<^sup>* (lock_start (cmd_against Load)) t \<and> deadlocked t)"
  using inverted_reachable inverted_deadlocked by blast

end
