(* ===== verification/Bitmap.thy ===== *)
theory Bitmap
  imports Prelude
begin

text \<open>
  The bitmap that manages the slots of the swap file (\<^verbatim>\<open>a2/starter/swap.c\<close>, lines 18 to
  132): the number of bits, and an array of 32-bit words. All arithmetic is 32-bit unsigned,
  as in the code, so the rounding up of \<open>DIVROUNDUP\<close> wraps for sizes above \<open>2^32 - 32\<close>.
  The locale \<open>slot_allocator\<close> states what the swap code relies on.
\<close>

section \<open>The C operations\<close>

record bitmap =
  nbits :: u32
  words_of :: "u32 list"

definition BITS_PER_WORD :: u32 where
  "BITS_PER_WORD = 32"

definition WORD_ALLBITS :: u32 where
  "WORD_ALLBITS = 0xffffffff"

definition DIVROUNDUP :: "u32 \<Rightarrow> u32 \<Rightarrow> u32" where
  "DIVROUNDUP a b = (a + b - 1) div b"

definition mask_of :: "nat \<Rightarrow> u32" where
  "mask_of j = push_bit j 1"

text \<open>The loop that marks bits \<open>j\<close>, \<open>j + 1\<close>, ... of the last word, \<open>n\<close> of them.\<close>

fun mark_loop :: "nat \<Rightarrow> nat \<Rightarrow> u32 \<Rightarrow> u32" where
  "mark_loop 0 j w = w"
| "mark_loop (Suc n) j w = mark_loop n (Suc j) (w OR mask_of j)"

text \<open>\<open>mem_ok\<close> says whether the two \<open>malloc\<close> calls succeed; NULL is \<open>None\<close>.\<close>

definition bitmap_create :: "bool \<Rightarrow> u32 \<Rightarrow> bitmap option outcome" where
  "bitmap_create mem_ok n =
     (let words = DIVROUNDUP n BITS_PER_WORD in
      if \<not> mem_ok then Ok None
      else
        let v = replicate (unat words) (0 :: u32) in
        if words > n div BITS_PER_WORD then
          let ix = words - 1; overbits = n - ix * BITS_PER_WORD in
          bind_o (assert_o (n div BITS_PER_WORD = words - 1)) (\<lambda>_.
          bind_o (assert_o (overbits > 0 \<and> overbits < BITS_PER_WORD)) (\<lambda>_.
          Ok (Some \<lparr>nbits = n,
            words_of = v[unat ix := mark_loop (32 - unat overbits) (unat overbits) (v ! unat ix)]\<rparr>)))
        else Ok (Some \<lparr>nbits = n, words_of = v\<rparr>))"

text \<open>The inner loop of \<open>bitmap_alloc\<close>: the first clear bit from \<open>offset\<close> on.\<close>

fun offset_loop :: "nat \<Rightarrow> nat \<Rightarrow> u32 \<Rightarrow> nat option" where
  "offset_loop 0 offset w = None"
| "offset_loop (Suc n) offset w =
     (if w AND mask_of offset = 0 then Some offset else offset_loop n (Suc offset) w)"

fun alloc_loop :: "nat \<Rightarrow> nat \<Rightarrow> bitmap \<Rightarrow> (u32 option \<times> bitmap) outcome" where
  "alloc_loop 0 ix b = Ok (None, b)"
| "alloc_loop (Suc n) ix b =
     (if ix < length (words_of b) then
        (if words_of b ! ix \<noteq> WORD_ALLBITS then
           (case offset_loop 32 0 (words_of b ! ix) of
              Some offset \<Rightarrow>
                let index = word_of_nat ix * BITS_PER_WORD + word_of_nat offset in
                bind_o (assert_o (index < nbits b)) (\<lambda>_.
                Ok (Some index,
                    b\<lparr>words_of := (words_of b)[ix := (words_of b ! ix) OR mask_of offset]\<rparr>))
            | None \<Rightarrow> Abort)
         else alloc_loop n (Suc ix) b)
      else Undef)"

text \<open>Returns the index when the code returns 0, \<open>None\<close> when it returns 1.\<close>

definition bitmap_alloc :: "bitmap \<Rightarrow> (u32 option \<times> bitmap) outcome" where
  "bitmap_alloc b = alloc_loop (unat (DIVROUNDUP (nbits b) BITS_PER_WORD)) 0 b"

definition bitmap_translate :: "u32 \<Rightarrow> nat \<times> u32" where
  "bitmap_translate bitno =
     (unat (bitno div BITS_PER_WORD), mask_of (unat (bitno mod BITS_PER_WORD)))"

definition bitmap_mark :: "bitmap \<Rightarrow> u32 \<Rightarrow> bitmap outcome" where
  "bitmap_mark b index =
     bind_o (assert_o (index < nbits b)) (\<lambda>_.
     let (ix, mask) = bitmap_translate index in
     bind_o (defined_o (ix < length (words_of b))) (\<lambda>_.
     bind_o (assert_o (words_of b ! ix AND mask = 0)) (\<lambda>_.
     Ok (b\<lparr>words_of := (words_of b)[ix := words_of b ! ix OR mask]\<rparr>))))"

definition bitmap_unmark :: "bitmap \<Rightarrow> u32 \<Rightarrow> bitmap outcome" where
  "bitmap_unmark b index =
     bind_o (assert_o (index < nbits b)) (\<lambda>_.
     let (ix, mask) = bitmap_translate index in
     bind_o (defined_o (ix < length (words_of b))) (\<lambda>_.
     bind_o (assert_o (words_of b ! ix AND mask \<noteq> 0)) (\<lambda>_.
     Ok (b\<lparr>words_of := (words_of b)[ix := words_of b ! ix AND NOT mask]\<rparr>))))"

definition bitmap_isset :: "bitmap \<Rightarrow> u32 \<Rightarrow> u32 outcome" where
  "bitmap_isset b index =
     (let (ix, mask) = bitmap_translate index in
      bind_o (defined_o (ix < length (words_of b))) (\<lambda>_.
      Ok (words_of b ! ix AND mask)))"

section \<open>Division by the word size\<close>

lemma split32:
  fixes n :: nat
  obtains q r where "n = 32 * q + r" "r < 32" "n div 32 = q" "n mod 32 = r"
  by (metis mod_less_divisor mult_div_mod_eq zero_less_numeral)

lemma roundup32:
  fixes n :: nat
  shows "(n + 31) div 32 = (if n mod 32 = 0 then n div 32 else Suc (n div 32))"
proof -
  obtain q r where n: "n = 32 * q + r" "r < 32" "n div 32 = q" "n mod 32 = r" by (rule split32)
  show ?thesis
  proof (cases r)
    case 0
    with n show ?thesis by simp
  next
    case (Suc k)
    have "n + 31 = 32 * Suc q + k" using n(1) Suc by simp
    then have "(n + 31) div 32 = Suc q" using n(2) Suc by simp
    with n Suc show ?thesis by simp
  qed
qed

lemma below32:
  fixes i n :: nat
  shows "i div 32 < n div 32 \<Longrightarrow> i < n"
    and "i < n \<Longrightarrow> n mod 32 = 0 \<Longrightarrow> i div 32 < n div 32"
    and "i < n \<Longrightarrow> i < 32 * Suc (n div 32)"
    and "i < 32 * Suc (n div 32) \<Longrightarrow> i div 32 \<noteq> n div 32 \<Longrightarrow> i div 32 < n div 32"
    and "i div 32 = n div 32 \<Longrightarrow> n \<le> i \<longleftrightarrow> n mod 32 \<le> i mod 32"
proof -
  obtain q r where n: "n = 32 * q + r" "r < 32" "n div 32 = q" "n mod 32 = r" by (rule split32)
  obtain p s where i: "i = 32 * p + s" "s < 32" "i div 32 = p" "i mod 32 = s" by (rule split32)
  show "i div 32 < n div 32 \<Longrightarrow> i < n" using n i by linarith
  show "i < n \<Longrightarrow> n mod 32 = 0 \<Longrightarrow> i div 32 < n div 32" using n i by linarith
  show "i < n \<Longrightarrow> i < 32 * Suc (n div 32)" using n i unfolding n(3) by simp
  show "i < 32 * Suc (n div 32) \<Longrightarrow> i div 32 \<noteq> n div 32 \<Longrightarrow> i div 32 < n div 32" using n i unfolding n(3) i(3) by simp
  show "i div 32 = n div 32 \<Longrightarrow> n \<le> i \<longleftrightarrow> n mod 32 \<le> i mod 32" using n i by linarith
qed

section \<open>Bits of words\<close>

lemma bit_mask_of: "bit (mask_of j) k \<longleftrightarrow> j = k \<and> k < 32"
  by (auto simp: mask_of_def bit_simps)

lemma and_mask_of: "j < 32 \<Longrightarrow> w AND mask_of j = 0 \<longleftrightarrow> \<not> bit w j"
  using bit_eq_iff[of "w AND mask_of j" 0] by (auto simp: bit_simps bit_mask_of)

lemma bit_or_mask: "j < 32 \<Longrightarrow> bit (w OR mask_of j) k \<longleftrightarrow> bit w k \<or> k = j"
  by (auto simp: bit_simps bit_mask_of)

lemma bit_clear_mask:
  fixes w :: u32
  shows "j < 32 \<Longrightarrow> bit (w AND NOT (mask_of j)) k \<longleftrightarrow> bit w k \<and> k \<noteq> j"
  by (auto simp: bit_simps bit_mask_of dest: bit_imp_le_length)

lemma bit_mark_loop: "j + n \<le> 32 \<Longrightarrow> bit (mark_loop n j w) k \<longleftrightarrow> bit w k \<or> j \<le> k \<and> k < j + n"
  by (induction n j w rule: mark_loop.induct) (auto simp: bit_or_mask)

lemma all_bits: "w = WORD_ALLBITS \<longleftrightarrow> (\<forall>k < 32. bit w k)"
proof -
  have "bit WORD_ALLBITS k" if "k < 32" for k
  proof -
    have all: "WORD_ALLBITS = - 1" by (simp add: WORD_ALLBITS_def)
    show ?thesis unfolding all using that by simp
  qed
  then show ?thesis by (auto intro!: bit_word_eqI)
qed

lemma offset_loop_spec:
  "offset + n \<le> 32 \<Longrightarrow>
   (case offset_loop n offset w of
      None \<Rightarrow> \<forall>k. offset \<le> k \<and> k < offset + n \<longrightarrow> bit w k
    | Some k \<Rightarrow> offset \<le> k \<and> k < offset + n \<and> \<not> bit w k \<and> (\<forall>i. offset \<le> i \<and> i < k \<longrightarrow> bit w i))"
proof (induction n offset w rule: offset_loop.induct)
  case (2 n offset w)
  show ?case
  proof (cases "w AND mask_of offset = 0")
    case True
    with 2 show ?thesis by (auto simp: and_mask_of)
  next
    case False
    have step: "offset \<le> i \<longleftrightarrow> i = offset \<or> Suc offset \<le> i" for i by auto
    from False 2 show ?thesis
      by (auto simp: and_mask_of step split: option.splits)
  qed
qed auto

section \<open>Invariant: the set of used slots\<close>

definition bm_bit :: "bitmap \<Rightarrow> nat \<Rightarrow> bool" where
  "bm_bit b i = bit (words_of b ! (i div 32)) (i mod 32)"

definition bm_used :: "bitmap \<Rightarrow> nat set" where
  "bm_used b = {i. i < unat (nbits b) \<and> bm_bit b i}"

text \<open>Sizes that do not wrap, the array of the right length, and the bits past the end set.\<close>

definition bm_inv :: "bitmap \<Rightarrow> bool" where
  "bm_inv b \<longleftrightarrow>
     unat (nbits b) \<le> 2 ^ 32 - 32 \<and>
     length (words_of b) = (unat (nbits b) + 31) div 32 \<and>
     (\<forall>i. unat (nbits b) \<le> i \<and> i < 32 * length (words_of b) \<longrightarrow> bm_bit b i)"

lemma unat_BITS_PER_WORD: "unat BITS_PER_WORD = 32"
  by (simp add: BITS_PER_WORD_def)

lemma unat_DIVROUNDUP:
  "unat n \<le> 2 ^ 32 - 32 \<Longrightarrow> unat (DIVROUNDUP n BITS_PER_WORD) = (unat n + 31) div 32"
proof -
  assume "unat n \<le> 2 ^ 32 - 32"
  then have "unat (n + 31) = unat n + 31" by (simp add: unat_word_ariths)
  moreover have "n + BITS_PER_WORD - 1 = n + 31" by (simp add: BITS_PER_WORD_def)
  ultimately show ?thesis by (simp only: DIVROUNDUP_def unat_div unat_BITS_PER_WORD)
qed

lemma unat_div_BPW: "unat (n div BITS_PER_WORD) = unat n div 32"
  by (simp only: unat_div unat_BITS_PER_WORD)

lemma unat_mod_BPW: "unat (n mod BITS_PER_WORD) = unat n mod 32"
  by (simp only: unat_mod unat_BITS_PER_WORD)

text \<open>Setting bit \<open>i\<close> of the array is insertion into the set of used slots.\<close>

lemma bm_set_bit:
  assumes len: "i < 32 * length (words_of b)"
  defines "b' \<equiv> b\<lparr>words_of := (words_of b)[i div 32 := words_of b ! (i div 32) OR mask_of (i mod 32)]\<rparr>"
  shows "k < 32 * length (words_of b) \<Longrightarrow> bm_bit b' k \<longleftrightarrow> bm_bit b k \<or> k = i"
proof -
  assume k: "k < 32 * length (words_of b)"
  have i: "i div 32 < length (words_of b)" "k div 32 < length (words_of b)" using len k by auto
  have "k = i \<longleftrightarrow> k div 32 = i div 32 \<and> k mod 32 = i mod 32"
    by (metis div_mult_mod_eq)
  with i show ?thesis
    by (auto simp: bm_bit_def b'_def nth_list_update bit_or_mask)
qed

lemma bm_clear_bit:
  assumes len: "i < 32 * length (words_of b)"
  defines "b' \<equiv> b\<lparr>words_of := (words_of b)[i div 32 := words_of b ! (i div 32) AND NOT (mask_of (i mod 32))]\<rparr>"
  shows "k < 32 * length (words_of b) \<Longrightarrow> bm_bit b' k \<longleftrightarrow> bm_bit b k \<and> k \<noteq> i"
proof -
  assume k: "k < 32 * length (words_of b)"
  have i: "i div 32 < length (words_of b)" "k div 32 < length (words_of b)" using len k by auto
  have "k = i \<longleftrightarrow> k div 32 = i div 32 \<and> k mod 32 = i mod 32"
    by (metis div_mult_mod_eq)
  with i show ?thesis
    by (auto simp: bm_bit_def b'_def nth_list_update bit_clear_mask)
qed

section \<open>The operations\<close>

lemma bm_slot_len:
  assumes "bm_inv b" and "i < unat (nbits b)"
  shows "i < 32 * length (words_of b)"
  using assms by (auto simp: bm_inv_def)

lemma bm_inv_set_bit:
  assumes inv: "bm_inv b" and i: "i < unat (nbits b)"
  defines "b' \<equiv> b\<lparr>words_of := (words_of b)[i div 32 := words_of b ! (i div 32) OR mask_of (i mod 32)]\<rparr>"
  shows "bm_inv b'" and "bm_used b' = insert i (bm_used b)" and "nbits b' = nbits b"
proof -
  note upd = bm_set_bit[OF bm_slot_len[OF inv i], folded b'_def]
  have len: "length (words_of b') = length (words_of b)" and nb: "nbits b' = nbits b"
    by (auto simp: b'_def)
  show "bm_inv b'" using inv upd by (simp add: bm_inv_def len nb)
  show "nbits b' = nbits b" by (rule nb)
  have "k < unat (nbits b) \<Longrightarrow> bm_bit b' k \<longleftrightarrow> bm_bit b k \<or> k = i" for k
    using upd bm_slot_len[OF inv] by blast
  then show "bm_used b' = insert i (bm_used b)" using i by (auto simp: bm_used_def nb)
qed

lemma bm_inv_clear_bit:
  assumes inv: "bm_inv b" and i: "i < unat (nbits b)"
  defines "b' \<equiv> b\<lparr>words_of := (words_of b)[i div 32 := words_of b ! (i div 32) AND NOT (mask_of (i mod 32))]\<rparr>"
  shows "bm_inv b'" and "bm_used b' = bm_used b - {i}" and "nbits b' = nbits b"
proof -
  note upd = bm_clear_bit[OF bm_slot_len[OF inv i], folded b'_def]
  have len: "length (words_of b') = length (words_of b)" and nb: "nbits b' = nbits b"
    by (auto simp: b'_def)
  show "bm_inv b'" using inv upd i by (auto simp: bm_inv_def len nb)
  show "nbits b' = nbits b" by (rule nb)
  have "k < unat (nbits b) \<Longrightarrow> bm_bit b' k \<longleftrightarrow> bm_bit b k \<and> k \<noteq> i" for k
    using upd bm_slot_len[OF inv] by blast
  then show "bm_used b' = bm_used b - {i}" using i by (auto simp: bm_used_def nb)
qed

text \<open>Creation: no slot is used.\<close>

lemma create_whole:
  assumes n: "unat n \<le> 2 ^ 32 - 32" and m: "unat n mod 32 = 0"
  shows "bitmap_create True n = Ok (Some \<lparr>nbits = n, words_of = replicate (unat n div 32) 0\<rparr>)"
proof -
  have "(unat n + 31) div 32 = unat n div 32" using m by (simp add: roundup32)
  then have w: "unat (DIVROUNDUP n BITS_PER_WORD) = unat n div 32"
    using unat_DIVROUNDUP[OF n] by simp
  then have "\<not> DIVROUNDUP n BITS_PER_WORD > n div BITS_PER_WORD"
    by (simp only: word_less_nat_alt unat_div_BPW)
  with w show ?thesis by (simp add: bitmap_create_def Let_def)
qed

lemma create_part:
  assumes n: "unat n \<le> 2 ^ 32 - 32" and m: "unat n mod 32 \<noteq> 0"
  shows "bitmap_create True n = Ok (Some \<lparr>nbits = n,
    words_of = (replicate (Suc (unat n div 32)) 0)[unat n div 32 := mark_loop (32 - unat n mod 32) (unat n mod 32) 0]\<rparr>)"
proof -
  let ?w = "DIVROUNDUP n BITS_PER_WORD"
  let ?q = "unat n div 32"
  have "(unat n + 31) div 32 = Suc ?q" using m by (simp add: roundup32)
  then have w: "unat ?w = Suc ?q" using unat_DIVROUNDUP[OF n] by simp
  then have gt: "?w > n div BITS_PER_WORD" by (simp add: word_less_nat_alt unat_div_BPW)
  have "1 \<le> ?w" using w by (simp add: word_le_nat_alt)
  then have ix: "unat (?w - 1) = ?q" using w by (simp add: unat_sub)
  have prod: "unat ((?w - 1) * BITS_PER_WORD) = ?q * 32"
  proof -
    have "?q * 32 \<le> unat n" by (rule div_times_less_eq_dividend)
    then have "?q * 32 < 2 ^ 32" using n by simp
    then show ?thesis by (simp add: unat_word_ariths unat_BITS_PER_WORD ix)
  qed
  then have "(?w - 1) * BITS_PER_WORD \<le> n" by (simp add: word_le_nat_alt)
  then have "unat (n - (?w - 1) * BITS_PER_WORD) = unat n - ?q * 32"
    using prod by (simp only: unat_sub)
  then have over: "unat (n - (?w - 1) * BITS_PER_WORD) = unat n mod 32"
    by (simp add: minus_div_mult_eq_mod)
  have "unat (n div BITS_PER_WORD) = unat (?w - 1)" by (simp only: ix unat_div_BPW)
  then have a1: "n div BITS_PER_WORD = ?w - 1" by (simp only: word_unat_eq_iff)
  have a2: "n - (?w - 1) * BITS_PER_WORD > 0" "n - (?w - 1) * BITS_PER_WORD < BITS_PER_WORD"
    using over m by (simp_all add: word_less_nat_alt unat_BITS_PER_WORD)
  show ?thesis
    unfolding bitmap_create_def Let_def w ix over using gt a1 a2 by (simp del: replicate_Suc)
qed

lemma bitmap_create_ok:
  assumes n: "unat n \<le> 2 ^ 32 - 32"
  shows "\<exists>b. bitmap_create True n = Ok (Some b) \<and> bm_inv b \<and> bm_used b = {} \<and> nbits b = n"
proof (cases "unat n mod 32 = 0")
  case True
  let ?b = "\<lparr>nbits = n, words_of = replicate (unat n div 32) 0\<rparr>"
  have "(unat n + 31) div 32 = unat n div 32" "32 * (unat n div 32) = unat n"
    using True roundup32[of "unat n"] by auto
  then have "bm_inv ?b" using n by (auto simp: bm_inv_def)
  moreover have "\<not> bm_bit ?b i" if "i < unat n" for i
  proof -
    have "i div 32 < unat n div 32" by (rule below32(2)[OF that True])
    then show ?thesis by (simp add: bm_bit_def)
  qed
  ultimately show ?thesis using create_whole[OF n True] by (simp add: bm_used_def)
next
  case False
  let ?q = "unat n div 32"
  let ?ml = "mark_loop (32 - unat n mod 32) (unat n mod 32) 0"
  define ws where "ws = (replicate (Suc ?q) 0)[?q := ?ml]"
  have len: "length ws = Suc ?q" by (simp only: ws_def length_list_update length_replicate)
  have at: "ws ! ?q = ?ml" "\<And>j. j < ?q \<Longrightarrow> ws ! j = 0"
    by (simp_all add: ws_def del: replicate_Suc)
  let ?b = "\<lparr>nbits = n, words_of = ws\<rparr>"
  have up: "(unat n + 31) div 32 = Suc ?q" using False by (simp add: roundup32)
  have bits: "bm_bit ?b i \<longleftrightarrow> unat n \<le> i" if "i < 32 * Suc ?q" for i
  proof (cases "i div 32 = ?q")
    case True
    then have "unat n \<le> i \<longleftrightarrow> unat n mod 32 \<le> i mod 32" by (rule below32(5))
    moreover have "bm_bit ?b i = bit ?ml (i mod 32)"
      using True at(1) by (simp add: bm_bit_def)
    ultimately show ?thesis by (simp add: bit_mark_loop)
  next
    case False
    with that have lt: "i div 32 < ?q" by (intro below32(4))
    then have "i < unat n" by (rule below32(1))
    moreover have "\<not> bm_bit ?b i"
      using at(2)[OF lt] by (simp add: bm_bit_def)
    ultimately show ?thesis by simp
  qed
  have "bm_inv ?b" using n up len bits by (auto simp: bm_inv_def)
  moreover have "bm_used ?b = {}"
  proof -
    have "\<not> bm_bit ?b i" if "i < unat n" for i
    proof -
      have "i < 32 * Suc ?q" using that by (rule below32(3))
      with bits[of i] that show ?thesis by simp
    qed
    then show ?thesis by (simp add: bm_used_def)
  qed
  ultimately show ?thesis using create_part[OF n False, folded ws_def] by simp
qed

text \<open>Allocation: the least free slot, or none when every slot is used.\<close>

lemma alloc_loop_spec:
  assumes inv: "bm_inv b" and n: "ix + n = length (words_of b)"
    and full: "\<forall>i < 32 * ix. bm_bit b i"
  shows "(alloc_loop n ix b = Ok (None, b) \<and> (\<forall>i < unat (nbits b). bm_bit b i)) \<or>
         (\<exists>i b'. alloc_loop n ix b = Ok (Some (word_of_nat i), b') \<and> i < unat (nbits b) \<and>
            \<not> bm_bit b i \<and> (\<forall>k < i. bm_bit b k) \<and>
            b' = b\<lparr>words_of := (words_of b)[i div 32 := words_of b ! (i div 32) OR mask_of (i mod 32)]\<rparr>)"
  using n full
proof (induction n arbitrary: ix)
  case 0
  then show ?case using bm_slot_len[OF inv] by auto
next
  case (Suc n)
  let ?w = "words_of b ! ix"
  have ix: "ix < length (words_of b)" using Suc.prems(1) by simp
  have split: "k < 32 * Suc ix \<longleftrightarrow> k < 32 * ix \<or> (\<exists>j < 32. k = 32 * ix + j)" for k
    by presburger
  have at: "bm_bit b (32 * ix + j) = bit ?w j" if "j < 32" for j
    using that by (simp add: bm_bit_def)
  show ?case
  proof (cases "?w = WORD_ALLBITS")
    case True
    then have "\<forall>k < 32 * Suc ix. bm_bit b k"
      unfolding split using Suc.prems(2) at by (auto simp: all_bits)
    then show ?thesis using Suc.IH[of "Suc ix"] Suc.prems(1) True ix by simp
  next
    case False
    then obtain k where "k < 32" "\<not> bit ?w k" by (auto simp: all_bits)
    with offset_loop_spec[of 0 32 ?w] obtain j where j: "offset_loop 32 0 ?w = Some j" "j < 32"
      "\<not> bit ?w j" "\<forall>i < j. bit ?w i" by (auto split: option.splits)
    let ?i = "32 * ix + j"
    have free: "\<not> bm_bit b ?i" using j at by simp
    have below: "\<forall>k < ?i. bm_bit b k"
    proof (intro allI impI)
      fix k assume "k < ?i"
      then consider "k < 32 * ix" | m where "m < j" "k = 32 * ix + m"
        by (metis add_less_cancel_left le_add_diff_inverse linorder_not_less)
      then show "bm_bit b k" using Suc.prems(2) j at by cases auto
    qed
    have "?i < 32 * length (words_of b)" using ix j(2) by simp
    then have lt: "?i < unat (nbits b)" using inv free by (auto simp: bm_inv_def not_le[symmetric])
    have "(word_of_nat ix * BITS_PER_WORD + word_of_nat j :: u32) = word_of_nat ?i"
      by (simp add: BITS_PER_WORD_def mult.commute)
    moreover have "(word_of_nat ?i :: u32) < nbits b"
    proof -
      have "?i < 2 ^ LENGTH(32)" using lt unsigned_less[of "nbits b", where ?'a = nat] by linarith
      then have "unat (word_of_nat ?i :: u32) = ?i" by (rule unat_word_of_nat)
      with lt show ?thesis by (simp only: word_less_nat_alt)
    qed
    moreover have "?i div 32 = ix" "?i mod 32 = j" using j(2) by auto
    ultimately have "alloc_loop (Suc n) ix b = Ok (Some (word_of_nat ?i),
        b\<lparr>words_of := (words_of b)[?i div 32 := words_of b ! (?i div 32) OR mask_of (?i mod 32)]\<rparr>)"
      using False ix j(1) by simp
    then show ?thesis using lt free below by blast
  qed
qed

lemma bitmap_alloc_cases:
  assumes inv: "bm_inv b"
  shows "(bitmap_alloc b = Ok (None, b) \<and> bm_used b = {..< unat (nbits b)}) \<or>
         (\<exists>i b'. bitmap_alloc b = Ok (Some (word_of_nat i), b') \<and> i < unat (nbits b) \<and>
            i \<notin> bm_used b \<and> {..< i} \<subseteq> bm_used b \<and> bm_inv b' \<and>
            bm_used b' = insert i (bm_used b) \<and> nbits b' = nbits b)"
proof -
  have len: "unat (DIVROUNDUP (nbits b) BITS_PER_WORD) = length (words_of b)"
    using inv by (simp add: bm_inv_def unat_DIVROUNDUP)
  have all: "bm_used b = {..< unat (nbits b)}" if "\<forall>i < unat (nbits b). bm_bit b i"
    using that by (auto simp: bm_used_def)
  have below: "{..< i} \<subseteq> bm_used b" if "i < unat (nbits b)" "\<forall>k < i. bm_bit b k" for i
    using that by (auto simp: bm_used_def)
  have "0 + length (words_of b) = length (words_of b)" and "\<forall>i < 32 * 0. bm_bit b i" by auto
  from alloc_loop_spec[OF inv this] show ?thesis
    unfolding bitmap_alloc_def len
  proof (elim disjE exE conjE)
    fix i b'
    assume res: "alloc_loop (length (words_of b)) 0 b = Ok (Some (word_of_nat i), b')"
      and i: "i < unat (nbits b)" "\<not> bm_bit b i" "\<forall>k < i. bm_bit b k"
      and b': "b' = b\<lparr>words_of := (words_of b)[i div 32 := words_of b ! (i div 32) OR mask_of (i mod 32)]\<rparr>"
    have "i \<notin> bm_used b" using i(2) by (simp add: bm_used_def)
    with res i(1) below[OF i(1,3)] bm_inv_set_bit[OF inv i(1), folded b'] show
      "alloc_loop (length (words_of b)) 0 b = Ok (None, b) \<and> bm_used b = {..< unat (nbits b)} \<or>
       (\<exists>i b'. alloc_loop (length (words_of b)) 0 b = Ok (Some (word_of_nat i), b') \<and>
          i < unat (nbits b) \<and> i \<notin> bm_used b \<and> {..< i} \<subseteq> bm_used b \<and> bm_inv b' \<and>
          bm_used b' = insert i (bm_used b) \<and> nbits b' = nbits b)" by blast
  qed (auto simp: all)
qed

lemma bitmap_translate_eq: "bitmap_translate i = (unat i div 32, mask_of (unat i mod 32))"
  by (simp add: bitmap_translate_def unat_div_BPW unat_mod_BPW)

lemma bitmap_mark_eq:
  assumes inv: "bm_inv b"
  shows "bitmap_mark b i =
    (if unat i < unat (nbits b) \<and> unat i \<notin> bm_used b
     then Ok (b\<lparr>words_of := (words_of b)[unat i div 32 := words_of b ! (unat i div 32) OR mask_of (unat i mod 32)]\<rparr>)
     else Abort)"
proof (cases "unat i < unat (nbits b)")
  case True
  then have "unat i div 32 < length (words_of b)" using bm_slot_len[OF inv True] by auto
  with True show ?thesis
    by (simp add: bitmap_mark_def bitmap_translate_eq word_less_nat_alt and_mask_of bm_used_def bm_bit_def
        assert_o_def)
qed (simp add: bitmap_mark_def word_less_nat_alt)

lemma bitmap_unmark_eq:
  assumes inv: "bm_inv b"
  shows "bitmap_unmark b i =
    (if unat i \<in> bm_used b
     then Ok (b\<lparr>words_of := (words_of b)[unat i div 32 := words_of b ! (unat i div 32) AND NOT (mask_of (unat i mod 32))]\<rparr>)
     else Abort)"
proof (cases "unat i < unat (nbits b)")
  case True
  then have "unat i div 32 < length (words_of b)" using bm_slot_len[OF inv True] by auto
  with True show ?thesis
    by (simp add: bitmap_unmark_def bitmap_translate_eq word_less_nat_alt and_mask_of bm_used_def bm_bit_def
        assert_o_def)
qed (simp add: bitmap_unmark_def word_less_nat_alt bm_used_def)

lemma bitmap_mark_ok:
  assumes inv: "bm_inv b" and i: "unat i < unat (nbits b)" "unat i \<notin> bm_used b"
  shows "\<exists>b'. bitmap_mark b i = Ok b' \<and> bm_inv b' \<and> bm_used b' = insert (unat i) (bm_used b) \<and>
           nbits b' = nbits b"
  using bitmap_mark_eq[OF inv, of i] bm_inv_set_bit[OF inv i(1)] i by simp

lemma bitmap_unmark_ok:
  assumes inv: "bm_inv b" and i: "unat i \<in> bm_used b"
  shows "\<exists>b'. bitmap_unmark b i = Ok b' \<and> bm_inv b' \<and> bm_used b' = bm_used b - {unat i} \<and>
           nbits b' = nbits b"
proof -
  have "unat i < unat (nbits b)" using i by (simp add: bm_used_def)
  from bm_inv_clear_bit[OF inv this] show ?thesis using bitmap_unmark_eq[OF inv, of i] i by simp
qed

lemma bitmap_isset_eq:
  assumes inv: "bm_inv b" and i: "unat i < unat (nbits b)"
  shows "\<exists>r. bitmap_isset b i = Ok r \<and> (r \<noteq> 0 \<longleftrightarrow> unat i \<in> bm_used b)"
  using bm_slot_len[OF inv i] i
  by (auto simp: bitmap_isset_def bitmap_translate_eq and_mask_of bm_used_def bm_bit_def)

section \<open>The interface\<close>

text \<open>
  The least free slot is given out, or none is when all are used. As the swap code never
  frees a slot, the slots in use are always \<open>0, ..., k - 1\<close>.
\<close>

locale slot_allocator =
  fixes alloc_op :: "'b \<Rightarrow> (u32 option \<times> 'b) outcome"
    and used :: "'b \<Rightarrow> nat set"
    and capacity_of :: "'b \<Rightarrow> nat"
    and binv :: "'b \<Rightarrow> bool"
  assumes alloc_law: "binv b \<Longrightarrow>
      (alloc_op b = Ok (None, b) \<and> used b = {..< capacity_of b}) \<or>
      (\<exists>i b'. alloc_op b = Ok (Some (word_of_nat i), b') \<and> i < capacity_of b \<and>
         i \<notin> used b \<and> {..< i} \<subseteq> used b \<and> binv b' \<and>
         used b' = insert i (used b) \<and> capacity_of b' = capacity_of b)"
begin

lemma alloc_next:
  assumes inv: "binv b" and dense: "used b = {..< k}" and room: "k < capacity_of b"
  shows "\<exists>b'. alloc_op b = Ok (Some (word_of_nat k), b') \<and> binv b' \<and>
           used b' = {..< Suc k} \<and> capacity_of b' = capacity_of b"
proof -
  from alloc_law[OF inv] obtain i b' where i: "alloc_op b = Ok (Some (word_of_nat i), b')"
    "i \<notin> used b" "{..< i} \<subseteq> used b" "binv b'" "used b' = insert i (used b)"
    "capacity_of b' = capacity_of b"
    using dense room by (metis lessThan_eq_iff less_irrefl)
  from i(2,3) dense have "i = k" by auto
  with i dense show ?thesis by (auto simp: lessThan_Suc)
qed

lemma alloc_full:
  assumes "binv b" and "used b = {..< capacity_of b}"
  shows "alloc_op b = Ok (None, b)"
  using alloc_law[OF assms(1)] assms(2) by auto

end

interpretation bm: slot_allocator bitmap_alloc bm_used "\<lambda>b. unat (nbits b)" bm_inv
proof unfold_locales
  fix b assume "bm_inv b"
  from bitmap_alloc_cases[OF this] show
    "(bitmap_alloc b = Ok (None, b) \<and> bm_used b = {..< unat (nbits b)}) \<or>
     (\<exists>i b'. bitmap_alloc b = Ok (Some (word_of_nat i), b') \<and> i < unat (nbits b) \<and>
        i \<notin> bm_used b \<and> {..< i} \<subseteq> bm_used b \<and> bm_inv b' \<and>
        bm_used b' = insert i (bm_used b) \<and> unat (nbits b') = unat (nbits b))" by metis
qed

end
