(* ===== verification/Sim_State.thy ===== *)
theory Sim_State
  imports Bitmap
begin

text \<open>
  The state of the virtual memory simulator of \<^verbatim>\<open>a2/starter\<close>: the types and macros of
  \<^verbatim>\<open>pagetable.h\<close> and \<^verbatim>\<open>sim.h\<close> and the global variables of \<^verbatim>\<open>pagetable.c\<close>,
  \<^verbatim>\<open>swap.c\<close> and \<^verbatim>\<open>sim.c\<close>. Pointers to page table entries are pairs of a
  directory index and a table index; a page directory entry is \<open>None\<close> (its valid bit is clear) or
  the table it points to.
\<close>

section \<open>Constants and macros\<close>

definition PAGE_SHIFT :: nat where "PAGE_SHIFT = 12"
definition PGDIR_SHIFT :: nat where "PGDIR_SHIFT = 24"
definition PG_VALID :: u32 where "PG_VALID = 0x1"
definition PG_DIRTY :: u32 where "PG_DIRTY = 0x2"
definition PG_REF :: u32 where "PG_REF = 0x4"
definition PG_ONSWAP :: u32 where "PG_ONSWAP = 0x8"
definition INVALID_SWAP :: int where "INVALID_SWAP = -1"
definition PTRS_PER_PGDIR :: nat where "PTRS_PER_PGDIR = 4096"
definition PTRS_PER_PGTBL :: nat where "PTRS_PER_PGTBL = 4096"
definition SIMPAGESIZE :: nat where "SIMPAGESIZE = 16"

text \<open>\<open>PGDIR_INDEX\<close> is stored in an \<open>unsigned\<close>: the upper bits of the shifted address are lost.\<close>

definition PGDIR_INDEX :: "u64 \<Rightarrow> u32" where
  "PGDIR_INDEX x = ucast (drop_bit PGDIR_SHIFT x)"

definition PGTBL_INDEX :: "u64 \<Rightarrow> u32" where
  "PGTBL_INDEX x = ucast (drop_bit PAGE_SHIFT x AND (word_of_nat PTRS_PER_PGTBL - 1))"

section \<open>The global variables\<close>

record pte =
  frame :: u32
  swap_off :: int

type_synonym pte_ref = "nat \<times> nat"

record cframe =
  in_use :: bool
  pte_ptr :: "pte_ref option"
  page :: u32

text \<open>
  \<open>file_limit\<close> is the size the file system lets the swap file grow to, and \<open>tables_left\<close> the
  number of second-level tables the heap has room for: what \<open>write\<close> and \<open>posix_memalign\<close>
  depend on. The counters are C ints: they are only changed by \<open>incr_int\<close>.
\<close>

record core =
  memsize :: nat
  coremap :: "cframe list"
  pgdir :: "nat \<Rightarrow> (nat \<Rightarrow> pte) option"
  physmem :: bytes
  swapmap :: bitmap
  swapfile :: bytes
  file_size :: nat
  file_limit :: nat
  tables_left :: nat
  hit_count :: int
  miss_count :: int
  ref_count :: int
  evict_clean_count :: int
  evict_dirty_count :: int

definition pte_valid :: "pte \<Rightarrow> bool" where "pte_valid e \<longleftrightarrow> frame e AND PG_VALID \<noteq> 0"
definition pte_dirty :: "pte \<Rightarrow> bool" where "pte_dirty e \<longleftrightarrow> frame e AND PG_DIRTY \<noteq> 0"
definition pte_refd :: "pte \<Rightarrow> bool" where "pte_refd e \<longleftrightarrow> frame e AND PG_REF \<noteq> 0"
definition pte_onswap :: "pte \<Rightarrow> bool" where "pte_onswap e \<longleftrightarrow> frame e AND PG_ONSWAP \<noteq> 0"

text \<open>\<open>p->frame >> PAGE_SHIFT\<close>.\<close>

definition frame_no :: "pte \<Rightarrow> nat" where
  "frame_no e = unat (drop_bit PAGE_SHIFT (frame e))"

text \<open>Reading and writing the entry a pointer leads to.\<close>

definition get_pte :: "'z core_scheme \<Rightarrow> pte_ref \<Rightarrow> pte outcome" where
  "get_pte s r =
     (case pgdir s (fst r) of
        Some tb \<Rightarrow> bind_o (defined_o (snd r < PTRS_PER_PGTBL)) (\<lambda>_. Ok (tb (snd r)))
      | None \<Rightarrow> Undef)"

definition set_pte :: "pte_ref \<Rightarrow> pte \<Rightarrow> 'z core_scheme \<Rightarrow> 'z core_scheme" where
  "set_pte r e s =
     (case pgdir s (fst r) of
        Some tb \<Rightarrow> s\<lparr>pgdir := (pgdir s)(fst r := Some (tb(snd r := e)))\<rparr>
      | None \<Rightarrow> s)"

text \<open>\<open>coremap[i].pte\<close>, for a pointer the caller dereferences.\<close>

definition frame_pte :: "'z core_scheme \<Rightarrow> int \<Rightarrow> pte_ref outcome" where
  "frame_pte s i =
     (if 0 \<le> i \<and> i < int (length (coremap s)) then
        (case pte_ptr (coremap s ! nat i) of Some r \<Rightarrow> Ok r | None \<Rightarrow> Undef)
      else Undef)"

text \<open>
  \<open>&physmem[frame * SIMPAGESIZE]\<close>, the start of \<open>SIMPAGESIZE\<close> bytes that are accessed. The
  product and the size passed to \<open>malloc\<close> are 32-bit unsigned.
\<close>

definition phys_addr :: "'z core_scheme \<Rightarrow> nat \<Rightarrow> nat outcome" where
  "phys_addr s f =
     (let a = (f * SIMPAGESIZE) mod 2 ^ 32 in
      if a + SIMPAGESIZE \<le> (memsize s * SIMPAGESIZE) mod 2 ^ 32 then Ok a else Undef)"

section \<open>The bits of an entry\<close>

lemma flag_bits:
  "pte_valid e \<longleftrightarrow> bit (frame e) 0" "pte_dirty e \<longleftrightarrow> bit (frame e) 1"
  "pte_refd e \<longleftrightarrow> bit (frame e) 2" "pte_onswap e \<longleftrightarrow> bit (frame e) 3"
proof -
  have m: "PG_VALID = mask_of 0" "PG_DIRTY = mask_of 1" "PG_REF = mask_of 2" "PG_ONSWAP = mask_of 3"
    by (simp_all add: PG_VALID_def PG_DIRTY_def PG_REF_def PG_ONSWAP_def mask_of_def)
  show "pte_valid e \<longleftrightarrow> bit (frame e) 0" "pte_dirty e \<longleftrightarrow> bit (frame e) 1"
    "pte_refd e \<longleftrightarrow> bit (frame e) 2" "pte_onswap e \<longleftrightarrow> bit (frame e) 3"
    unfolding pte_valid_def pte_dirty_def pte_refd_def pte_onswap_def m by (simp_all add: and_mask_of)
qed

lemma bit_flags:
  "bit PG_VALID k \<longleftrightarrow> k = 0" "bit PG_DIRTY k \<longleftrightarrow> k = 1"
  "bit PG_REF k \<longleftrightarrow> k = 2" "bit PG_ONSWAP k \<longleftrightarrow> k = 3"
proof -
  have m: "PG_VALID = mask_of 0" "PG_DIRTY = mask_of 1" "PG_REF = mask_of 2" "PG_ONSWAP = mask_of 3"
    by (simp_all add: PG_VALID_def PG_DIRTY_def PG_REF_def PG_ONSWAP_def mask_of_def)
  show "bit PG_VALID k \<longleftrightarrow> k = 0" "bit PG_DIRTY k \<longleftrightarrow> k = 1"
    "bit PG_REF k \<longleftrightarrow> k = 2" "bit PG_ONSWAP k \<longleftrightarrow> k = 3"
    unfolding m by (auto simp: bit_mask_of)
qed

lemma bit_clear_flag:
  fixes w m :: u32
  shows "bit (w AND NOT m) k \<longleftrightarrow> bit w k \<and> \<not> bit m k"
  by (auto simp: bit_simps dest: bit_imp_le_length)

lemma frame_no_eqI:
  assumes "\<And>k. 12 \<le> k \<Longrightarrow> bit (frame e) k \<longleftrightarrow> bit (frame e') k"
  shows "frame_no e = frame_no e'"
proof -
  have "drop_bit 12 (frame e) = drop_bit 12 (frame e')"
    by (rule bit_word_eqI) (simp add: bit_simps assms)
  then show ?thesis by (simp add: frame_no_def PAGE_SHIFT_def)
qed

text \<open>An entry packed from a frame number, \<open>(unsigned) (frame_number << PAGE_SHIFT)\<close>.\<close>

lemma bit_shifted_low: "k < 12 \<Longrightarrow> \<not> bit (push_bit 12 (w :: u32)) k"
  by (simp add: bit_simps)

lemma drop_shifted:
  assumes "f < 2 ^ 20"
  shows "unat (drop_bit 12 (push_bit 12 (word_of_nat f :: u32))) = f"
proof -
  have "unat (push_bit 12 (word_of_nat f :: u32)) = f * 4096"
    using assms by (simp add: push_bit_eq_mult unat_word_ariths unsigned_of_nat take_bit_nat_eq_self)
  then show ?thesis unfolding unat_drop_bit_eq by (simp add: drop_bit_eq_div)
qed

end
