(* ===== verification/Swap.thy ===== *)
theory Swap
  imports Sim_State
begin

text \<open>
  The swap file of \<^verbatim>\<open>a2/starter/swap.c\<close> (lines 134 to 247). The file is a byte sequence
  with a size; \<open>lseek\<close>, \<open>read\<close> and \<open>write\<close> are the POSIX calls on a regular file:
  a negative position is refused, a read stops at the end of the file, a write beyond the end
  fills the gap with zeros and may be short when the file system is full.
\<close>

section \<open>The file\<close>

text \<open>\<open>lseek(fd, off, SEEK_SET)\<close>: the new position, or \<open>-1\<close> (errno EINVAL).\<close>

definition file_seek :: "int \<Rightarrow> int" where
  "file_seek off = (if off < 0 then -1 else off)"

definition EINVAL :: int where "EINVAL = 22"

definition file_read :: "'z core_scheme \<Rightarrow> nat \<Rightarrow> nat \<Rightarrow> nat \<Rightarrow> nat \<times> 'z core_scheme" where
  "file_read s pos addr n =
     (let k = min n (file_size s - pos)
      in (k, s\<lparr>physmem := copy_bytes (physmem s) addr (swapfile s) pos k\<rparr>))"

definition file_write :: "'z core_scheme \<Rightarrow> nat \<Rightarrow> nat \<Rightarrow> nat \<Rightarrow> nat \<times> 'z core_scheme" where
  "file_write s pos addr n =
     (let k = min n (file_limit s - pos) in
      if k = 0 then (0, s)
      else
        let gap = memset (swapfile s) (file_size s) 0 (pos - file_size s)
        in (k, s\<lparr>swapfile := copy_bytes gap pos (physmem s) addr k,
                 file_size := max (file_size s) (pos + k)\<rparr>))"

section \<open>The operations\<close>

text \<open>\<open>file_ok\<close> and \<open>mem_ok\<close>: whether \<open>mkstemp\<close> and the allocations of the bitmap succeed.\<close>

definition swap_init :: "bool \<Rightarrow> bool \<Rightarrow> u32 \<Rightarrow> 'z core_scheme \<Rightarrow> (int \<times> 'z core_scheme) outcome" where
  "swap_init file_ok mem_ok swapsize s =
     (if \<not> file_ok then Exit 1
      else bind_o (bitmap_create mem_ok swapsize) (\<lambda>b.
        case b of None \<Rightarrow> Exit 1
        | Some bm \<Rightarrow> Ok (0, s\<lparr>swapfile := (\<lambda>_. 0), file_size := 0, swapmap := bm\<rparr>)))"

definition swap_pagein :: "nat \<Rightarrow> int \<Rightarrow> 'z core_scheme \<Rightarrow> (int \<times> 'z core_scheme) outcome" where
  "swap_pagein fr swap_offset s =
     bind_o (assert_o (swap_offset \<noteq> INVALID_SWAP)) (\<lambda>_.
     let pos = file_seek swap_offset in
     if pos \<noteq> swap_offset then bind_o (assert_o (pos = -1)) (\<lambda>_. Ok (- EINVAL, s))
     else
       bind_o (phys_addr s fr) (\<lambda>frame_ptr.
       let (bytes_read, s1) = file_read s (nat pos) frame_ptr SIMPAGESIZE in
       if bytes_read \<noteq> SIMPAGESIZE then Ok (int bytes_read, s1) else Ok (0, s1)))"

definition swap_pageout :: "nat \<Rightarrow> int \<Rightarrow> 'z core_scheme \<Rightarrow> (int \<times> 'z core_scheme) outcome" where
  "swap_pageout fr swap_offset s =
     bind_o
       (if swap_offset = INVALID_SWAP then
          bind_o (bitmap_alloc (swapmap s)) (\<lambda>(idx, bm).
          case idx of
            None \<Rightarrow> Ok (None, s\<lparr>swapmap := bm\<rparr>)
          | Some i \<Rightarrow> Ok (Some (sint (i * word_of_nat SIMPAGESIZE)), s\<lparr>swapmap := bm\<rparr>))
        else Ok (Some swap_offset, s))
       (\<lambda>(off, s1).
          case off of
            None \<Rightarrow> Ok (INVALID_SWAP, s1)
          | Some off \<Rightarrow>
              bind_o (assert_o (off \<noteq> INVALID_SWAP)) (\<lambda>_.
              let pos = file_seek off in
              if pos \<noteq> off then bind_o (assert_o (pos = -1)) (\<lambda>_. Ok (INVALID_SWAP, s1))
              else
                bind_o (phys_addr s1 fr) (\<lambda>frame_ptr.
                let (bytes_written, s2) = file_write s1 (nat pos) frame_ptr SIMPAGESIZE in
                if bytes_written \<noteq> SIMPAGESIZE then Ok (INVALID_SWAP, s2) else Ok (off, s2))))"

section \<open>Pages and slots\<close>

text \<open>The byte offset of slot \<open>i\<close>.\<close>

definition slot_off :: "nat \<Rightarrow> int" where
  "slot_off i = int (SIMPAGESIZE * i)"

lemma slot_off_simps [simp]:
  "slot_off i \<noteq> INVALID_SWAP" "nat (slot_off i) = SIMPAGESIZE * i"
  "file_seek (slot_off i) = slot_off i" "slot_off i = slot_off j \<longleftrightarrow> i = j"
  "INVALID_SWAP \<noteq> slot_off i"
  by (auto simp: slot_off_def INVALID_SWAP_def file_seek_def SIMPAGESIZE_def)

definition frame_bytes :: "'z core_scheme \<Rightarrow> nat \<Rightarrow> u8 list" where
  "frame_bytes s f = map (\<lambda>j. physmem s (f * SIMPAGESIZE + j)) [0..<SIMPAGESIZE]"

definition slot_bytes :: "'z core_scheme \<Rightarrow> int \<Rightarrow> u8 list" where
  "slot_bytes s off = map (\<lambda>j. swapfile s (nat off + j)) [0..<SIMPAGESIZE]"

text \<open>
  The swap space: the slots in use are \<open>0, ..., k - 1\<close>, the file holds exactly them, and no
  offset leaves the range of a C int.
\<close>

definition swap_inv :: "nat \<Rightarrow> 'z core_scheme \<Rightarrow> bool" where
  "swap_inv k s \<longleftrightarrow>
     bm_inv (swapmap s) \<and> bm_used (swapmap s) = {..< k} \<and>
     SIMPAGESIZE * unat (nbits (swapmap s)) < 2 ^ 31 \<and>
     SIMPAGESIZE * unat (nbits (swapmap s)) \<le> file_limit s \<and>
     file_size s = SIMPAGESIZE * k"

text \<open>Frame numbers for which neither the address nor the size of \<open>physmem\<close> wraps.\<close>

lemma phys_addr_ok:
  assumes "f < memsize s" and "memsize s \<le> 2 ^ 20"
  shows "phys_addr s f = Ok (f * SIMPAGESIZE)"
  using assms by (simp add: phys_addr_def SIMPAGESIZE_def)

lemma sint_slot:
  assumes "SIMPAGESIZE * i < 2 ^ 31"
  shows "sint (word_of_nat i * word_of_nat SIMPAGESIZE :: u32) = slot_off i"
proof -
  have "word_of_nat i * word_of_nat SIMPAGESIZE = (word_of_nat (SIMPAGESIZE * i) :: u32)"
    by (simp add: mult.commute)
  moreover have "sint (word_of_nat (SIMPAGESIZE * i) :: u32) = slot_off i"
  proof -
    have "signed_take_bit 31 (int (SIMPAGESIZE * i)) = int (SIMPAGESIZE * i)"
    proof (rule signed_take_bit_int_eq_self)
      show "- (2 ^ 31) \<le> int (SIMPAGESIZE * i)" by (rule order_trans[of _ 0]) simp_all
      have "int (SIMPAGESIZE * i) < int (2 ^ 31)" using assms by (simp only: of_nat_less_iff)
      then show "int (SIMPAGESIZE * i) < 2 ^ 31" by simp
    qed
    then show ?thesis unfolding slot_off_def signed_of_nat by simp
  qed
  ultimately show ?thesis by (simp only:)
qed

text \<open>Reading a slot back into a frame, and writing a frame to a slot.\<close>

lemma swap_pagein_ok:
  assumes inv: "swap_inv k s" and f: "f < memsize s" "memsize s \<le> 2 ^ 20" and i: "i < k"
  shows "swap_pagein f (slot_off i) s =
    Ok (0, s\<lparr>physmem := copy_bytes (physmem s) (f * SIMPAGESIZE) (swapfile s) (SIMPAGESIZE * i) SIMPAGESIZE\<rparr>)"
proof -
  have "SIMPAGESIZE * Suc i \<le> SIMPAGESIZE * k" using i by (intro mult_le_mono2) simp
  then have "min SIMPAGESIZE (file_size s - SIMPAGESIZE * i) = SIMPAGESIZE"
    using inv by (simp add: swap_inv_def)
  then show ?thesis
    by (simp add: swap_pagein_def phys_addr_ok[OF f] file_read_def Let_def)
qed

definition write_slot :: "nat \<Rightarrow> nat \<Rightarrow> 'z core_scheme \<Rightarrow> 'z core_scheme" where
  "write_slot f i s =
     s\<lparr>swapfile := copy_bytes (swapfile s) (SIMPAGESIZE * i) (physmem s) (f * SIMPAGESIZE) SIMPAGESIZE,
       file_size := max (file_size s) (SIMPAGESIZE * Suc i)\<rparr>"

lemma file_write_slot:
  assumes "SIMPAGESIZE * i \<le> file_size s" and "SIMPAGESIZE * Suc i \<le> file_limit s"
  shows "file_write s (SIMPAGESIZE * i) (f * SIMPAGESIZE) SIMPAGESIZE = (SIMPAGESIZE, write_slot f i s)"
proof -
  have "min SIMPAGESIZE (file_limit s - SIMPAGESIZE * i) = SIMPAGESIZE" using assms(2) by simp
  moreover have "memset (swapfile s) (file_size s) 0 (SIMPAGESIZE * i - file_size s) = swapfile s"
    using assms(1) by (auto simp: memset_def fun_eq_iff)
  ultimately show ?thesis
    by (simp add: file_write_def write_slot_def Let_def SIMPAGESIZE_def add.commute)
qed

lemma swap_pageout_old:
  assumes inv: "swap_inv k s" and f: "f < memsize s" "memsize s \<le> 2 ^ 20" and i: "i < k"
  shows "swap_pageout f (slot_off i) s = Ok (slot_off i, write_slot f i s) \<and>
         swap_inv k (write_slot f i s)"
proof -
  have k: "k \<le> unat (nbits (swapmap s))"
  proof -
    have "bm_used (swapmap s) \<subseteq> {..< unat (nbits (swapmap s))}" by (auto simp: bm_used_def)
    moreover have "bm_used (swapmap s) = {..< k}" using inv by (simp only: swap_inv_def)
    ultimately show ?thesis by (simp only: lessThan_subset_iff)
  qed
  have le: "SIMPAGESIZE * Suc i \<le> SIMPAGESIZE * k" using i by (intro mult_le_mono2) simp
  have lim: "SIMPAGESIZE * k \<le> SIMPAGESIZE * unat (nbits (swapmap s))" using k by (rule mult_le_mono2)
  have "file_write s (SIMPAGESIZE * i) (f * SIMPAGESIZE) SIMPAGESIZE = (SIMPAGESIZE, write_slot f i s)"
  proof (rule file_write_slot)
    have "SIMPAGESIZE * i \<le> SIMPAGESIZE * k" using i by (intro mult_le_mono2) simp
    then show "SIMPAGESIZE * i \<le> file_size s" using inv by (simp add: swap_inv_def)
    have "SIMPAGESIZE * unat (nbits (swapmap s)) \<le> file_limit s" using inv by (simp add: swap_inv_def)
    then show "SIMPAGESIZE * Suc i \<le> file_limit s" using le lim by linarith
  qed
  then have "swap_pageout f (slot_off i) s = Ok (slot_off i, write_slot f i s)"
    by (simp add: swap_pageout_def phys_addr_ok[OF f] Let_def)
  moreover have "max (file_size s) (SIMPAGESIZE * Suc i) = file_size s"
    using inv le by (simp only: swap_inv_def max_absorb1)
  ultimately show ?thesis using inv by (simp add: swap_inv_def write_slot_def)
qed

lemma swap_pageout_new:
  assumes inv: "swap_inv k s" and f: "f < memsize s" "memsize s \<le> 2 ^ 20"
    and room: "k < unat (nbits (swapmap s))"
  shows "\<exists>bm. swap_pageout f INVALID_SWAP s =
           Ok (slot_off k, write_slot f k (s\<lparr>swapmap := bm\<rparr>)) \<and>
         nbits bm = nbits (swapmap s) \<and>
         swap_inv (Suc k) (write_slot f k (s\<lparr>swapmap := bm\<rparr>))"
proof -
  from inv have bm0: "bm_inv (swapmap s)" "bm_used (swapmap s) = {..< k}"
    and lim: "SIMPAGESIZE * unat (nbits (swapmap s)) < 2 ^ 31"
      "SIMPAGESIZE * unat (nbits (swapmap s)) \<le> file_limit s" "file_size s = SIMPAGESIZE * k"
    by (auto simp: swap_inv_def)
  from bm.alloc_next[OF bm0 room] obtain b where b: "bitmap_alloc (swapmap s) = Ok (Some (word_of_nat k), b)"
    "bm_inv b" "bm_used b = {..< Suc k}" "unat (nbits b) = unat (nbits (swapmap s))" by blast
  let ?s1 = "s\<lparr>swapmap := b\<rparr>"
  have le: "SIMPAGESIZE * Suc k \<le> SIMPAGESIZE * unat (nbits (swapmap s))"
    using room by (intro mult_le_mono2) simp
  then have "SIMPAGESIZE * k < 2 ^ 31" using lim(1) by simp
  then have off: "sint (word_of_nat k * word_of_nat SIMPAGESIZE :: u32) = slot_off k"
    by (rule sint_slot)
  have "file_write ?s1 (SIMPAGESIZE * k) (f * SIMPAGESIZE) SIMPAGESIZE = (SIMPAGESIZE, write_slot f k ?s1)"
    using le lim by (intro file_write_slot) auto
  moreover have "phys_addr ?s1 f = Ok (f * SIMPAGESIZE)" using f by (intro phys_addr_ok) auto
  ultimately have "swap_pageout f INVALID_SWAP s = Ok (slot_off k, write_slot f k ?s1)"
    by (simp add: swap_pageout_def b(1) off Let_def)
  moreover have "nbits b = nbits (swapmap s)" using b(4) by (simp only: word_unat_eq_iff)
  moreover have "swap_inv (Suc k) (write_slot f k ?s1)"
    using b lim by (simp add: swap_inv_def write_slot_def max_def)
  ultimately show ?thesis by blast
qed

text \<open>What a full swap file does: the page is not written, and its entry gets \<open>INVALID_SWAP\<close>.\<close>

lemma swap_pageout_full:
  assumes inv: "swap_inv k s" and full: "k = unat (nbits (swapmap s))"
  shows "swap_pageout f INVALID_SWAP s = Ok (INVALID_SWAP, s)"
  using bm.alloc_full[of "swapmap s"] inv full
  by (simp add: swap_pageout_def swap_inv_def)

lemma frame_bytes_pagein:
  "frame_bytes (s\<lparr>physmem := copy_bytes (physmem s) (f * SIMPAGESIZE) (swapfile s) (SIMPAGESIZE * i) SIMPAGESIZE\<rparr>) f
     = slot_bytes s (slot_off i)"
  by (simp add: frame_bytes_def slot_bytes_def copy_bytes_def)

lemma slot_bytes_write: "slot_bytes (write_slot f i s) (slot_off i) = frame_bytes s f"
  by (simp add: frame_bytes_def slot_bytes_def write_slot_def copy_bytes_def)

lemma page_disjoint:
  fixes f g :: nat
  assumes "f \<noteq> g" and "j < SIMPAGESIZE"
  shows "\<not> (f * SIMPAGESIZE \<le> g * SIMPAGESIZE + j \<and> g * SIMPAGESIZE + j < f * SIMPAGESIZE + SIMPAGESIZE)"
  using assms by (auto simp: SIMPAGESIZE_def)

lemma slot_bytes_write_other:
  "i \<noteq> j \<Longrightarrow> slot_bytes (write_slot f i s) (slot_off j) = slot_bytes s (slot_off j)"
  using page_disjoint[of i j] by (auto simp: slot_bytes_def write_slot_def copy_bytes_def mult.commute)

lemma frame_bytes_copy_other:
  "f \<noteq> g \<Longrightarrow> frame_bytes (s\<lparr>physmem := copy_bytes (physmem s) (f * SIMPAGESIZE) src b SIMPAGESIZE\<rparr>) g = frame_bytes s g"
  using page_disjoint[of f g] by (auto simp: frame_bytes_def copy_bytes_def)

end
