(* ===== verification/Page_Table.thy ===== *)
theory Page_Table
  imports Swap
begin

text \<open>
  Address translation: the functions of \<^verbatim>\<open>a2/starter/pagetable.c\<close> and the memory access
  of \<^verbatim>\<open>sim.c\<close>. The function pointers \<open>ref_fcn\<close> and \<open>evict_fcn\<close> are the
  arguments \<open>ref\<close> and \<open>evict\<close>; what they may do is the contract of \<open>Replacement\<close>.
  The counters are C ints; incrementing one beyond \<open>INT_MAX\<close> is undefined.
\<close>

section \<open>Tables and frames\<close>

definition init_pagetable :: "'z core_scheme \<Rightarrow> 'z core_scheme" where
  "init_pagetable s = s\<lparr>pgdir := (\<lambda>_. None)\<rparr>"

text \<open>The new table is stored in the directory entry \<open>d\<close>, as the caller does.\<close>

definition init_second_level :: "nat \<Rightarrow> 'z core_scheme \<Rightarrow> 'z core_scheme outcome" where
  "init_second_level d s =
     (if tables_left s = 0 then Exit 1
      else Ok (s\<lparr>tables_left := tables_left s - 1,
                 pgdir := (pgdir s)(d := Some (\<lambda>_. \<lparr>frame = 0, swap_off = INVALID_SWAP\<rparr>))\<rparr>))"

text \<open>The search for a free frame: \<open>-1\<close> if there is none.\<close>

fun free_loop :: "nat \<Rightarrow> nat \<Rightarrow> cframe list \<Rightarrow> int outcome" where
  "free_loop 0 i cm = Ok (-1)"
| "free_loop (Suc n) i cm =
     (if i < length cm then
        (if \<not> in_use (cm ! i) then Ok (int i) else free_loop n (Suc i) cm)
      else Undef)"

text \<open>No free frame: the victim is written out if it is dirty, and its entry invalidated.\<close>

definition evict_victim ::
  "('z core_scheme \<Rightarrow> (int \<times> 'z core_scheme) outcome) \<Rightarrow> 'z core_scheme \<Rightarrow> (int \<times> 'z core_scheme) outcome" where
  "evict_victim evict s =
     bind_o (evict s) (\<lambda>(frame_number, s).
     bind_o (frame_pte s frame_number) (\<lambda>victim.
     bind_o (get_pte s victim) (\<lambda>e.
     bind_o
       (if pte_dirty e then
          bind_o (swap_pageout (nat frame_number) (swap_off e) s) (\<lambda>(off, s).
          bind_o (incr_int (evict_dirty_count s)) (\<lambda>n.
          Ok (set_pte victim (e\<lparr>swap_off := off\<rparr>) (s\<lparr>evict_dirty_count := n\<rparr>))))
        else bind_o (incr_int (evict_clean_count s)) (\<lambda>n. Ok (s\<lparr>evict_clean_count := n\<rparr>)))
       (\<lambda>s. bind_o (get_pte s victim) (\<lambda>e.
          let f1 = frame e AND NOT PG_VALID; f2 = f1 AND NOT PG_REF; f3 = f2 OR PG_ONSWAP
          in Ok (frame_number, set_pte victim (e\<lparr>frame := f3\<rparr>) s))))))"

definition allocate_frame ::
  "('z core_scheme \<Rightarrow> (int \<times> 'z core_scheme) outcome) \<Rightarrow> pte_ref \<Rightarrow> 'z core_scheme \<Rightarrow>
   (int \<times> 'z core_scheme) outcome" where
  "allocate_frame evict p s =
     bind_o (free_loop (memsize s) 0 (coremap s)) (\<lambda>free.
     bind_o (if free = -1 then evict_victim evict s else Ok (free, s)) (\<lambda>(frame_number, s).
     bind_o (defined_o (0 \<le> frame_number \<and> frame_number < int (length (coremap s)))) (\<lambda>_.
     let i = nat frame_number in
     Ok (frame_number,
         s\<lparr>coremap := (coremap s)[i := (coremap s ! i)\<lparr>in_use := True, pte_ptr := Some p\<rparr>]\<rparr>))))"

text \<open>Zeroes the frame and records the address after the first int of it.\<close>

definition init_frame :: "int \<Rightarrow> u64 \<Rightarrow> 'z core_scheme \<Rightarrow> 'z core_scheme outcome" where
  "init_frame fr vaddr s =
     bind_o (phys_addr s (nat fr)) (\<lambda>mem_ptr.
     let zeroed = memset (physmem s) mem_ptr 0 SIMPAGESIZE
     in Ok (s\<lparr>physmem := store_le 8 (unat vaddr) zeroed (mem_ptr + 4)\<rparr>))"

section \<open>Address translation\<close>

text \<open>The miss: a frame is allocated, filled from swap or initialized, and put into the entry.\<close>

definition fault_in ::
  "('z core_scheme \<Rightarrow> (int \<times> 'z core_scheme) outcome) \<Rightarrow> pte_ref \<Rightarrow> bool \<Rightarrow> u64 \<Rightarrow>
   'z core_scheme \<Rightarrow> 'z core_scheme outcome" where
  "fault_in evict r is_swapped vaddr s =
     bind_o (incr_int (miss_count s)) (\<lambda>n.
     bind_o (allocate_frame evict r (s\<lparr>miss_count := n\<rparr>)) (\<lambda>(frame_number, s).
     let fr = push_bit PAGE_SHIFT (word_of_int frame_number) :: u32 in
     bind_o (get_pte s r) (\<lambda>e.
     bind_o
       (if is_swapped then
          bind_o (swap_pagein (nat frame_number) (swap_off e) s) (\<lambda>(_, s).
          Ok (e\<lparr>frame := fr AND NOT PG_ONSWAP\<rparr>, s))
        else
          bind_o (init_frame frame_number vaddr s) (\<lambda>s.
          Ok (e\<lparr>frame := fr OR PG_DIRTY, swap_off := INVALID_SWAP\<rparr>, s)))
       (\<lambda>(e, s). Ok (set_pte r e s)))))"

definition is_write :: "char \<Rightarrow> bool" where
  "is_write type \<longleftrightarrow> type = CHR ''M'' \<or> type = CHR ''S''"

definition mark_used :: "char \<Rightarrow> pte \<Rightarrow> pte" where
  "mark_used type e =
     (let f1 = frame e OR PG_VALID; f2 = f1 OR PG_REF;
          f3 = (if is_write type then f2 OR PG_DIRTY else f2)
      in e\<lparr>frame := f3\<rparr>)"

definition find_physpage ::
  "(pte_ref \<Rightarrow> 'z core_scheme \<Rightarrow> 'z core_scheme outcome) \<Rightarrow>
   ('z core_scheme \<Rightarrow> (int \<times> 'z core_scheme) outcome) \<Rightarrow>
   u64 \<Rightarrow> char \<Rightarrow> 'z core_scheme \<Rightarrow> (nat \<times> 'z core_scheme) outcome" where
  "find_physpage ref evict vaddr type s =
     (let dir_index = unat (PGDIR_INDEX vaddr); r = (dir_index, unat (PGTBL_INDEX vaddr)) in
     bind_o (defined_o (dir_index < PTRS_PER_PGDIR)) (\<lambda>_.
     bind_o (if pgdir s dir_index = None then init_second_level dir_index s else Ok s) (\<lambda>s.
     bind_o (get_pte s r) (\<lambda>e.
     bind_o
       (if pte_valid e then bind_o (incr_int (hit_count s)) (\<lambda>n. Ok (s\<lparr>hit_count := n\<rparr>))
        else fault_in evict r (pte_onswap e) vaddr s)
       (\<lambda>s. bind_o (get_pte s r) (\<lambda>e.
        bind_o (ref r (set_pte r (mark_used type e) s)) (\<lambda>s.
        bind_o (incr_int (ref_count s)) (\<lambda>n.
        let s = s\<lparr>ref_count := n\<rparr> in
        bind_o (get_pte s r) (\<lambda>e.
        Ok ((frame_no e * SIMPAGESIZE) mod 2 ^ 32, s))))))))))"

section \<open>Memory accesses\<close>

text \<open>
  \<open>access_mem\<close> of \<^verbatim>\<open>sim.c\<close>: the first result says whether the recorded address is the
  accessed one (an error is printed if not); a write increments the 32-bit version counter,
  which starts the page.
\<close>

definition access_mem ::
  "(pte_ref \<Rightarrow> 'z core_scheme \<Rightarrow> 'z core_scheme outcome) \<Rightarrow>
   ('z core_scheme \<Rightarrow> (int \<times> 'z core_scheme) outcome) \<Rightarrow>
   char \<Rightarrow> u64 \<Rightarrow> 'z core_scheme \<Rightarrow> (bool \<times> 'z core_scheme) outcome" where
  "access_mem ref evict type vaddr s =
     bind_o (find_physpage ref evict vaddr type s) (\<lambda>(memptr, s).
     bind_o (defined_o (memptr + SIMPAGESIZE \<le> (memsize s * SIMPAGESIZE) mod 2 ^ 32)) (\<lambda>_.
     let matches = (load_le 8 (physmem s) (memptr + 4) = unat vaddr) in
     Ok (matches,
         if is_write type
         then s\<lparr>physmem := store_le 4 (load_le 4 (physmem s) memptr + 1) (physmem s) memptr\<rparr>
         else s)))"

text \<open>The references of a trace, one after the other.\<close>

fun replay ::
  "(pte_ref \<Rightarrow> 'z core_scheme \<Rightarrow> 'z core_scheme outcome) \<Rightarrow>
   ('z core_scheme \<Rightarrow> (int \<times> 'z core_scheme) outcome) \<Rightarrow>
   (char \<times> u64) list \<Rightarrow> 'z core_scheme \<Rightarrow> 'z core_scheme outcome" where
  "replay ref evict [] s = Ok s"
| "replay ref evict ((type, vaddr) # rs) s =
     bind_o (access_mem ref evict type vaddr s) (\<lambda>(_, s). replay ref evict rs s)"

end
