(* ===== verification/Paging_Inv.thy ===== *)
theory Paging_Inv
  imports Page_Table
begin

text \<open>
  The invariant of the paging machinery and the effect on it of the steps a reference is made
  of: taking a page out of its frame, putting a page into a frame, setting the bits of an
  entry, writing to a frame. The abstraction \<open>abs_mem\<close> gives the sixteen bytes of every page
  that has been touched, wherever they are; paging must not change it.
\<close>

text \<open>Pointers to entries stay pairs in the statements below.\<close>

declare split_paired_All [simp del] split_paired_Ex [simp del]

section \<open>Looking up entries\<close>

definition pt_lookup :: "(nat \<Rightarrow> (nat \<Rightarrow> pte) option) \<Rightarrow> pte_ref \<Rightarrow> pte option" where
  "pt_lookup pd r =
     (if fst r < PTRS_PER_PGDIR \<and> snd r < PTRS_PER_PGTBL
      then map_option (\<lambda>tb. tb (snd r)) (pd (fst r)) else None)"

abbreviation pte_at :: "'z core_scheme \<Rightarrow> pte_ref \<Rightarrow> pte option" where
  "pte_at s r \<equiv> pt_lookup (pgdir s) r"

lemma get_pte_at [simp]: "pte_at s r = Some e \<Longrightarrow> get_pte s r = Ok e"
  by (auto simp: pt_lookup_def get_pte_def split: if_splits option.splits)

lemma set_pte_fields [simp]:
  "memsize (set_pte r e s) = memsize s" "coremap (set_pte r e s) = coremap s"
  "physmem (set_pte r e s) = physmem s" "swapmap (set_pte r e s) = swapmap s"
  "swapfile (set_pte r e s) = swapfile s" "file_size (set_pte r e s) = file_size s"
  "file_limit (set_pte r e s) = file_limit s" "tables_left (set_pte r e s) = tables_left s"
  "hit_count (set_pte r e s) = hit_count s" "miss_count (set_pte r e s) = miss_count s"
  "ref_count (set_pte r e s) = ref_count s"
  "evict_clean_count (set_pte r e s) = evict_clean_count s"
  "evict_dirty_count (set_pte r e s) = evict_dirty_count s"
  "core.more (set_pte r e s) = core.more s"
  by (auto simp: set_pte_def split: option.split)

lemma set_pte_at:
  "pte_at s r = Some e0 \<Longrightarrow> pte_at (set_pte r e s) q = (if q = r then Some e else pte_at s q)"
  by (cases r; cases q) (auto simp: pt_lookup_def set_pte_def split: if_splits option.splits)

lemma set_pte_None: "pgdir (set_pte r e s) d = None \<longleftrightarrow> pgdir s d = None"
  by (auto simp: set_pte_def split: option.split)

lemma set_pte_twice: "set_pte r e2 (set_pte r e1 s) = set_pte r e2 s"
  by (cases "pgdir s (fst r)") (auto simp: set_pte_def)

lemma frame_bytes_set_pte [simp]: "frame_bytes (set_pte r e s) f = frame_bytes s f"
  by (simp add: frame_bytes_def)

lemma slot_bytes_set_pte [simp]: "slot_bytes (set_pte r e s) f = slot_bytes s f"
  by (simp add: slot_bytes_def)

lemma swap_inv_cong:
  "swapmap s' = swapmap s \<Longrightarrow> file_limit s' = file_limit s \<Longrightarrow> file_size s' = file_size s \<Longrightarrow>
     swap_inv k s' = swap_inv k s"
  by (simp add: swap_inv_def)

section \<open>The invariant\<close>

definition touched :: "pte \<Rightarrow> bool" where
  "touched e \<longleftrightarrow> pte_valid e \<or> pte_onswap e"

definition page_bytes :: "'z core_scheme \<Rightarrow> pte \<Rightarrow> u8 list" where
  "page_bytes s e = (if pte_valid e then frame_bytes s (frame_no e) else slot_bytes s (swap_off e))"

definition abs_mem :: "'z core_scheme \<Rightarrow> pte_ref \<Rightarrow> u8 list option" where
  "abs_mem s r =
     (case pte_at s r of None \<Rightarrow> None
      | Some e \<Rightarrow> if touched e then Some (page_bytes s e) else None)"

text \<open>
  One entry: a valid one owns its frame; a slot of the swap file belongs to a touched entry
  and was allocated; a touched page is in memory and dirty or has a slot, and a clean page in
  memory equals its slot. \<open>T\<close> bounds the touched pages, \<open>U\<close> is the set of owned frames.
\<close>

definition entry_ok :: "nat \<Rightarrow> pte_ref set \<Rightarrow> nat set \<Rightarrow> 'z core_scheme \<Rightarrow> pte_ref \<Rightarrow> pte \<Rightarrow> bool" where
  "entry_ok k T U s r e \<longleftrightarrow>
     (pte_valid e \<longrightarrow> frame_no e \<in> U \<and> pte_ptr (coremap s ! frame_no e) = Some r) \<and>
     (swap_off e \<noteq> INVALID_SWAP \<longrightarrow> touched e \<and> (\<exists>i < k. swap_off e = slot_off i)) \<and>
     (touched e \<longrightarrow> r \<in> T) \<and>
     (touched e \<and> \<not> (pte_valid e \<and> pte_dirty e) \<longrightarrow> swap_off e \<noteq> INVALID_SWAP) \<and>
     (pte_valid e \<and> \<not> pte_dirty e \<longrightarrow> slot_bytes s (swap_off e) = frame_bytes s (frame_no e))"

definition frames_ok :: "nat set \<Rightarrow> 'z core_scheme \<Rightarrow> bool" where
  "frames_ok U s \<longleftrightarrow>
     0 < memsize s \<and> memsize s \<le> 2 ^ 20 \<and> length (coremap s) = memsize s \<and>
     U \<subseteq> {..< memsize s} \<and>
     (\<forall>f \<in> U. in_use (coremap s ! f) \<and>
        (\<exists>r e. pte_ptr (coremap s ! f) = Some r \<and> pte_at s r = Some e \<and> pte_valid e \<and> frame_no e = f))"

definition slots_ok :: "nat \<Rightarrow> pte_ref set \<Rightarrow> 'z core_scheme \<Rightarrow> bool" where
  "slots_ok k T s \<longleftrightarrow>
     swap_inv k s \<and> finite T \<and> card T \<le> unat (nbits (swapmap s)) \<and>
     (\<forall>i < k. \<exists>r e. pte_at s r = Some e \<and> swap_off e = slot_off i) \<and>
     (\<forall>r e q d. pte_at s r = Some e \<longrightarrow> pte_at s q = Some d \<longrightarrow> swap_off e = swap_off d \<longrightarrow>
        swap_off e \<noteq> INVALID_SWAP \<longrightarrow> r = q)"

definition tables_ok :: "'z core_scheme \<Rightarrow> bool" where
  "tables_ok s \<longleftrightarrow> card {d. d < PTRS_PER_PGDIR \<and> pgdir s d = None} \<le> tables_left s"

definition mem_ok :: "nat \<Rightarrow> pte_ref set \<Rightarrow> nat set \<Rightarrow> 'z core_scheme \<Rightarrow> bool" where
  "mem_ok k T U s \<longleftrightarrow>
     frames_ok U s \<and> slots_ok k T s \<and> tables_ok s \<and>
     (\<forall>r e. pte_at s r = Some e \<longrightarrow> entry_ok k T U s r e)"

definition mem_inv :: "pte_ref set \<Rightarrow> nat set \<Rightarrow> 'z core_scheme \<Rightarrow> bool" where
  "mem_inv T U s \<longleftrightarrow> (\<exists>k. mem_ok k T U s)"

lemma mem_ok_entry: "mem_ok k T U s \<Longrightarrow> pte_at s r = Some e \<Longrightarrow> entry_ok k T U s r e"
  by (simp add: mem_ok_def)

lemma mem_okI:
  assumes "frames_ok U s" and "slots_ok k T s" and "tables_ok s"
    and "\<And>r e. pte_at s r = Some e \<Longrightarrow> entry_ok k T U s r e"
  shows "mem_ok k T U s"
  using assms by (simp add: mem_ok_def)

lemma slots_distinct:
  "slots_ok k T s \<Longrightarrow> pte_at s r = Some e \<Longrightarrow> pte_at s q = Some d \<Longrightarrow> swap_off e = swap_off d \<Longrightarrow>
     swap_off e \<noteq> INVALID_SWAP \<Longrightarrow> r = q"
  unfolding slots_ok_def by blast

text \<open>A touched page without a slot leaves room for one more slot.\<close>

lemma slot_room:
  assumes inv: "mem_ok k T U s" and r: "pte_at s r = Some e" "touched e" "swap_off e = INVALID_SWAP"
  shows "k < unat (nbits (swapmap s))"
proof -
  have "\<forall>i. \<exists>q. i < k \<longrightarrow> (\<exists>d. pte_at s q = Some d \<and> swap_off d = slot_off i)"
    using inv by (auto simp: mem_ok_def slots_ok_def)
  then obtain g where g: "\<And>i. i < k \<Longrightarrow> \<exists>d. pte_at s (g i) = Some d \<and> swap_off d = slot_off i"
    by metis
  have fin: "finite T" and le: "card T \<le> unat (nbits (swapmap s))"
    using inv by (auto simp: mem_ok_def slots_ok_def)
  have rT: "r \<in> T" using mem_ok_entry[OF inv r(1)] r(2) by (simp add: entry_ok_def)
  have "inj_on g {..< k}"
  proof (rule inj_onI)
    fix i j assume "i \<in> {..< k}" "j \<in> {..< k}" "g i = g j"
    with g[of i] g[of j] show "i = j" by auto
  qed
  moreover have "g ` {..< k} \<subseteq> T - {r}"
  proof
    fix q assume "q \<in> g ` {..< k}"
    then obtain i where i0: "i < k" "q = g i" by auto
    with g[OF i0(1)] obtain d where i: "i < k" "q = g i" "pte_at s q = Some d" "swap_off d = slot_off i"
      by auto
    then have "swap_off d \<noteq> INVALID_SWAP" by simp
    with mem_ok_entry[OF inv i(3)] have "q \<in> T" by (auto simp: entry_ok_def)
    moreover have "q \<noteq> r" using i r by auto
    ultimately show "q \<in> T - {r}" by simp
  qed
  ultimately have "card {..< k} \<le> card (T - {r})"
    using fin by (intro card_inj_on_le) auto
  then show ?thesis using fin rT le card_Diff1_less[of T r] by simp
qed

section \<open>Changes the paging does not see\<close>

text \<open>The reference bits, the \<open>page\<close> fields of the frames and the state of the policy.\<close>

definition ref_eq :: "pte \<Rightarrow> pte \<Rightarrow> bool" where
  "ref_eq e e' \<longleftrightarrow> swap_off e' = swap_off e \<and> (\<forall>k. k \<noteq> 2 \<longrightarrow> bit (frame e') k = bit (frame e) k)"

definition same_mem :: "'z core_scheme \<Rightarrow> 'z core_scheme \<Rightarrow> bool" where
  "same_mem s s' \<longleftrightarrow>
     memsize s' = memsize s \<and> map in_use (coremap s') = map in_use (coremap s) \<and>
     map pte_ptr (coremap s') = map pte_ptr (coremap s) \<and>
     physmem s' = physmem s \<and> swapmap s' = swapmap s \<and> swapfile s' = swapfile s \<and>
     file_size s' = file_size s \<and> file_limit s' = file_limit s \<and> tables_left s' = tables_left s \<and>
     hit_count s' = hit_count s \<and> miss_count s' = miss_count s \<and> ref_count s' = ref_count s \<and>
     evict_clean_count s' = evict_clean_count s \<and> evict_dirty_count s' = evict_dirty_count s \<and>
     (\<forall>d. pgdir s' d = None \<longleftrightarrow> pgdir s d = None) \<and>
     (\<forall>r. rel_option ref_eq (pte_at s r) (pte_at s' r))"

lemma ref_eq_refl [simp]: "ref_eq e e"
  by (simp add: ref_eq_def)

lemma same_mem_refl [simp]: "same_mem s s"
  by (simp add: same_mem_def option.rel_refl)

lemma same_mem_trans: "same_mem s t \<Longrightarrow> same_mem t u \<Longrightarrow> same_mem s u"
proof -
  assume a: "same_mem s t" and b: "same_mem t u"
  have "rel_option ref_eq (pte_at s r) (pte_at u r)" for r
  proof -
    have "rel_option ref_eq (pte_at s r) (pte_at t r)" "rel_option ref_eq (pte_at t r) (pte_at u r)"
      using a b by (auto simp: same_mem_def)
    then show ?thesis
      by (cases "pte_at s r"; cases "pte_at t r"; cases "pte_at u r") (auto simp: ref_eq_def)
  qed
  with a b show ?thesis by (simp add: same_mem_def)
qed

lemma ref_eq_flags:
  assumes "ref_eq e e'"
  shows "pte_valid e' = pte_valid e" "pte_dirty e' = pte_dirty e" "pte_onswap e' = pte_onswap e"
    "frame_no e' = frame_no e" "swap_off e' = swap_off e" "touched e' = touched e"
  using assms by (auto simp: ref_eq_def flag_bits touched_def intro: frame_no_eqI)

lemma same_mem_at:
  assumes "same_mem s s'"
  shows "pte_at s r = Some e \<Longrightarrow> \<exists>e'. pte_at s' r = Some e' \<and> ref_eq e e'"
    and "pte_at s' r = Some e' \<Longrightarrow> \<exists>e. pte_at s r = Some e \<and> ref_eq e e'"
proof -
  have "rel_option ref_eq (pte_at s r) (pte_at s' r)" using assms by (auto simp: same_mem_def)
  then show "pte_at s r = Some e \<Longrightarrow> \<exists>e'. pte_at s' r = Some e' \<and> ref_eq e e'"
    and "pte_at s' r = Some e' \<Longrightarrow> \<exists>e. pte_at s r = Some e \<and> ref_eq e e'"
    by (auto simp: option_rel_Some1 option_rel_Some2)
qed

lemma same_mem_nth:
  assumes "same_mem s s'"
  shows "length (coremap s') = length (coremap s)"
    and "i < length (coremap s) \<Longrightarrow> in_use (coremap s' ! i) = in_use (coremap s ! i)"
    and "i < length (coremap s) \<Longrightarrow> pte_ptr (coremap s' ! i) = pte_ptr (coremap s ! i)"
proof -
  from assms have m: "map in_use (coremap s') = map in_use (coremap s)"
    "map pte_ptr (coremap s') = map pte_ptr (coremap s)" by (auto simp: same_mem_def)
  from m(1) show len: "length (coremap s') = length (coremap s)" by (metis length_map)
  show "i < length (coremap s) \<Longrightarrow> in_use (coremap s' ! i) = in_use (coremap s ! i)"
    using m(1) len by (metis nth_map)
  show "i < length (coremap s) \<Longrightarrow> pte_ptr (coremap s' ! i) = pte_ptr (coremap s ! i)"
    using m(2) len by (metis nth_map)
qed

lemma same_mem_bytes:
  assumes "same_mem s s'"
  shows "frame_bytes s' f = frame_bytes s f" "slot_bytes s' i = slot_bytes s i"
  using assms by (simp_all add: same_mem_def frame_bytes_def slot_bytes_def)

lemma same_mem_inv:
  assumes same: "same_mem s s'" and inv: "mem_ok k T U s"
  shows "mem_ok k T U s'"
proof (rule mem_okI)
  note at = same_mem_at[OF same] and nth = same_mem_nth[OF same] and bytes = same_mem_bytes[OF same]
  from inv have fr: "frames_ok U s" and sl: "slots_ok k T s" and tb: "tables_ok s"
    by (auto simp: mem_ok_def)
  have ms: "memsize s' = memsize s" using same by (simp add: same_mem_def)
  show "frames_ok U s'"
    unfolding frames_ok_def ms nth(1)
  proof (intro conjI ballI)
    fix f assume f: "f \<in> U"
    then have len: "f < length (coremap s)" using fr by (auto simp: frames_ok_def)
    from f fr obtain r e where r: "pte_ptr (coremap s ! f) = Some r" "pte_at s r = Some e"
      "pte_valid e" "frame_no e = f" and iu: "in_use (coremap s ! f)"
      by (auto simp: frames_ok_def)
    from at(1)[OF r(2)] obtain e' where e': "pte_at s' r = Some e'" "ref_eq e e'" by blast
    show "in_use (coremap s' ! f)" using nth(2)[OF len] iu by simp
    show "\<exists>r e. pte_ptr (coremap s' ! f) = Some r \<and> pte_at s' r = Some e \<and> pte_valid e \<and> frame_no e = f"
      using nth(3)[OF len] r e' ref_eq_flags[OF e'(2)] by auto
  next
    show "0 < memsize s" "memsize s \<le> 2 ^ 20" "length (coremap s) = memsize s" "U \<subseteq> {..< memsize s}"
      using fr by (simp_all add: frames_ok_def)
  qed
  show "slots_ok k T s'"
    unfolding slots_ok_def
  proof (intro conjI allI impI)
    have "swap_inv k s' = swap_inv k s" using same by (intro swap_inv_cong) (simp_all add: same_mem_def)
    then show "swap_inv k s'" using sl by (simp add: slots_ok_def)
    fix i assume "i < k"
    with sl obtain r e where "pte_at s r = Some e" "swap_off e = slot_off i"
      unfolding slots_ok_def by blast
    with at(1) show "\<exists>r e. pte_at s' r = Some e \<and> swap_off e = slot_off i"
      by (metis ref_eq_def)
  next
    fix r e q d assume e: "pte_at s' r = Some e" "pte_at s' q = Some d" "swap_off e = swap_off d"
      "swap_off e \<noteq> INVALID_SWAP"
    obtain e0 where e0: "pte_at s r = Some e0" "ref_eq e0 e" using at(2)[OF e(1)] by blast
    obtain d0 where d0: "pte_at s q = Some d0" "ref_eq d0 d" using at(2)[OF e(2)] by blast
    have "swap_off e0 = swap_off d0" "swap_off e0 \<noteq> INVALID_SWAP"
      using e(3,4) ref_eq_flags(5)[OF e0(2)] ref_eq_flags(5)[OF d0(2)] by simp_all
    then show "r = q" by (rule slots_distinct[OF sl e0(1) d0(1)])
  next
    show "finite T" "card T \<le> unat (nbits (swapmap s'))"
      using sl same by (simp_all add: slots_ok_def same_mem_def)
  qed
  show "tables_ok s'" using tb same by (simp add: tables_ok_def same_mem_def)
  fix r e assume "pte_at s' r = Some e"
  from at(2)[OF this] obtain e0 where e0: "pte_at s r = Some e0" "ref_eq e0 e" by blast
  have ok: "entry_ok k T U s r e0" by (rule mem_ok_entry[OF inv e0(1)])
  have "frame_no e0 < length (coremap s)" if "pte_valid e0"
    using ok that fr by (auto simp: entry_ok_def frames_ok_def)
  then show "entry_ok k T U s' r e"
    using ok by (simp add: entry_ok_def ref_eq_flags[OF e0(2)] bytes nth)
qed

lemma same_mem_abs:
  assumes same: "same_mem s s'"
  shows "abs_mem s' = abs_mem s"
proof
  fix r
  show "abs_mem s' r = abs_mem s r"
  proof (cases "pte_at s r")
    case None
    with same_mem_at(2)[OF same, of r] have "pte_at s' r = None" by (cases "pte_at s' r") auto
    with None show ?thesis by (simp add: abs_mem_def)
  next
    case (Some e)
    from same_mem_at(1)[OF same Some] obtain e' where "pte_at s' r = Some e'" "ref_eq e e'" by blast
    with Some show ?thesis
      by (simp add: abs_mem_def page_bytes_def ref_eq_flags same_mem_bytes[OF same])
  qed
qed

end
