(* ===== verification/Paging_Steps.thy ===== *)
theory Paging_Steps
  imports Paging_Inv
begin

text \<open>
  The steps of a page reference on states with the invariant \<open>mem_ok\<close>: each keeps it and
  changes the abstract memory as it should (mostly not at all).
\<close>

section \<open>Taking a page out of its frame\<close>

lemma frame_owner:
  assumes inv: "mem_ok k T U s" and r: "pte_at s r = Some e" "pte_valid e"
    and q: "pte_at s q = Some d" "pte_valid d" and eq: "frame_no d = frame_no e"
  shows "q = r"
  using mem_ok_entry[OF inv r(1)] mem_ok_entry[OF inv q(1)] r(2) q(2) eq by (simp add: entry_ok_def)

lemma entry_slot:
  assumes inv: "mem_ok k T U s" and q: "pte_at s q = Some d" "swap_off d \<noteq> INVALID_SWAP"
  obtains j where "j < k" "swap_off d = slot_off j"
  using mem_ok_entry[OF inv q(1)] q(2) by (auto simp: entry_ok_def)

lemma unmap_ok:
  assumes inv: "mem_ok k T U s" and r: "pte_at s r = Some e" "pte_valid e"
    and s1: "memsize s1 = memsize s" "coremap s1 = coremap s" "pgdir s1 = pgdir s"
      "physmem s1 = physmem s" "tables_left s1 = tables_left s"
      "nbits (swapmap s1) = nbits (swapmap s)" "swap_inv k' s1"
    and slot: "slot_bytes s1 (slot_off i) = frame_bytes s (frame_no e)"
    and others: "\<And>j. j < k \<Longrightarrow> j \<noteq> i \<Longrightarrow> slot_bytes s1 (slot_off j) = slot_bytes s (slot_off j)"
    and which: "(k' = k \<and> i < k \<and> swap_off e = slot_off i) \<or>
                (k' = Suc k \<and> i = k \<and> swap_off e = INVALID_SWAP)"
    and e': "swap_off e' = slot_off i" "\<not> pte_valid e'" "pte_onswap e'"
  shows "mem_ok k' T (U - {frame_no e}) (set_pte r e' s1)" (is ?inv)
    and "abs_mem (set_pte r e' s1) = abs_mem s" (is ?abs)
proof -
  let ?s' = "set_pte r e' s1"
  have at: "pte_at ?s' q = (if q = r then Some e' else pte_at s q)" for q
    using set_pte_at[of s1 r e] r s1(3) by simp
  have fb: "frame_bytes s1 f = frame_bytes s f" for f using s1(4) by (simp add: frame_bytes_def)
  have other_slot: "swap_off d \<noteq> slot_off i \<and> slot_bytes s1 (swap_off d) = slot_bytes s (swap_off d)"
    if q: "q \<noteq> r" "pte_at s q = Some d" "swap_off d \<noteq> INVALID_SWAP" for q d
  proof -
    obtain j where j: "j < k" "swap_off d = slot_off j" by (rule entry_slot[OF inv q(2,3)])
    have "j \<noteq> i"
    proof
      assume "j = i"
      with which j have "swap_off d = swap_off e" by auto
      with slots_distinct[of k T s q d r e] inv q r(1) show False by (simp add: mem_ok_def)
    qed
    with j others[OF j(1)] show ?thesis by auto
  qed
  have k: "k \<le> k'" using which by auto
  show ?inv
  proof (rule mem_okI)
    from inv have fr: "frames_ok U s" and sl: "slots_ok k T s" and tb: "tables_ok s"
      by (auto simp: mem_ok_def)
    show "frames_ok (U - {frame_no e}) ?s'"
      unfolding frames_ok_def
    proof (intro conjI ballI)
      fix f assume f: "f \<in> U - {frame_no e}"
      with fr obtain q d where q: "pte_ptr (coremap s ! f) = Some q" "pte_at s q = Some d"
        "pte_valid d" "frame_no d = f" and iu: "in_use (coremap s ! f)"
        by (auto simp: frames_ok_def)
      show "in_use (coremap ?s' ! f)" using iu s1 by simp
      have "q \<noteq> r" using q f r by auto
      with q s1 show "\<exists>q d. pte_ptr (coremap ?s' ! f) = Some q \<and> pte_at ?s' q = Some d \<and>
          pte_valid d \<and> frame_no d = f" by (auto simp: at)
    qed (use fr s1 in \<open>auto simp: frames_ok_def\<close>)
    show "slots_ok k' T ?s'"
      unfolding slots_ok_def
    proof (intro conjI allI impI)
      have "swap_inv k' ?s' = swap_inv k' s1" by (intro swap_inv_cong) simp_all
      then show "swap_inv k' ?s'" using s1(7) by simp
      fix j assume j: "j < k'"
      show "\<exists>q d. pte_at ?s' q = Some d \<and> swap_off d = slot_off j"
      proof (cases "j = i")
        case True
        then show ?thesis using e'(1) by (intro exI[of _ r] exI[of _ e']) (simp add: at)
      next
        case False
        with which j have "j < k" by auto
        with sl obtain q d where q: "pte_at s q = Some d" "swap_off d = slot_off j"
          unfolding slots_ok_def by blast
        have "swap_off e \<noteq> slot_off j" using which False slot_off_simps(1)[of j] by auto
        then have "q \<noteq> r" using q r by auto
        with q show ?thesis by (intro exI[of _ q] exI[of _ d]) (simp add: at)
      qed
    next
      fix p c q d assume c: "pte_at ?s' p = Some c" "pte_at ?s' q = Some d" "swap_off c = swap_off d"
        "swap_off c \<noteq> INVALID_SWAP"
      show "p = q"
      proof (cases "p = r"; cases "q = r")
        assume p: "p = r" and q: "q \<noteq> r"
        have "c = e'" using c(1) p by (simp add: at)
        moreover have "pte_at s q = Some d" using c(2) q by (simp add: at)
        ultimately show ?thesis using c(3,4) e'(1) other_slot[OF q] by simp
      next
        assume p: "p \<noteq> r" and q: "q = r"
        have "d = e'" using c(2) q by (simp add: at)
        moreover have "pte_at s p = Some c" using c(1) p by (simp add: at)
        ultimately show ?thesis using c(3,4) e'(1) other_slot[OF p] by simp
      next
        assume p: "p \<noteq> r" and q: "q \<noteq> r"
        have "pte_at s p = Some c" "pte_at s q = Some d" using c(1,2) p q by (simp_all add: at)
        with c(3,4) slots_distinct[OF sl] show ?thesis by blast
      qed auto
    next
      show "finite T" "card T \<le> unat (nbits (swapmap ?s'))"
        using sl s1 by (auto simp: slots_ok_def)
    qed
    show "tables_ok ?s'" using tb s1 by (simp add: tables_ok_def set_pte_None)
    fix q d assume q: "pte_at ?s' q = Some d"
    show "entry_ok k' T (U - {frame_no e}) ?s' q d"
    proof (cases "q = r")
      case True
      with q have d: "d = e'" by (simp add: at)
      have "r \<in> T" using mem_ok_entry[OF inv r(1)] r(2) by (auto simp: entry_ok_def touched_def)
      with True d e' which show ?thesis by (auto simp: entry_ok_def touched_def)
    next
      case False
      with q have q': "pte_at s q = Some d" by (simp add: at)
      have ok: "entry_ok k T U s q d" by (rule mem_ok_entry[OF inv q'])
      have "pte_valid d \<Longrightarrow> frame_no d \<noteq> frame_no e"
        using frame_owner[OF inv r q'] False by auto
      moreover have "slot_bytes s1 (swap_off d) = slot_bytes s (swap_off d)"
        if "swap_off d \<noteq> INVALID_SWAP" using other_slot[OF False q' that] by simp
      moreover have "\<exists>j < k'. swap_off d = slot_off j" if "swap_off d \<noteq> INVALID_SWAP"
        using entry_slot[OF inv q' that] k by (metis order_less_le_trans)
      ultimately show ?thesis using ok s1 by (simp add: entry_ok_def fb touched_def)
    qed
  qed
  show ?abs
  proof
    fix q
    show "abs_mem ?s' q = abs_mem s q"
    proof (cases "q = r")
      case True
      with r e' slot show ?thesis by (simp add: abs_mem_def at touched_def page_bytes_def)
    next
      case False
      show ?thesis
      proof (cases "pte_at s q")
        case None
        with False show ?thesis by (simp add: abs_mem_def at)
      next
        case (Some d)
        have "slot_bytes s1 (swap_off d) = slot_bytes s (swap_off d)"
          if "touched d" "\<not> pte_valid d"
          using other_slot[OF False Some] mem_ok_entry[OF inv Some] that by (auto simp: entry_ok_def)
        with Some False show ?thesis by (auto simp: abs_mem_def at page_bytes_def fb)
      qed
    qed
  qed
qed

section \<open>Putting a page into a frame\<close>

lemma map_ok:
  assumes inv: "mem_ok k T U s" and r: "pte_at s r = Some e" "\<not> pte_valid e" and T: "r \<in> T"
    and f: "f < memsize s" "f \<notin> U"
    and s1: "memsize s1 = memsize s" "length (coremap s1) = length (coremap s)" "pgdir s1 = pgdir s"
      "tables_left s1 = tables_left s" "swapmap s1 = swapmap s" "swapfile s1 = swapfile s"
      "file_size s1 = file_size s" "file_limit s1 = file_limit s"
    and cm: "in_use (coremap s1 ! f)" "pte_ptr (coremap s1 ! f) = Some r"
      "\<And>g. g \<noteq> f \<Longrightarrow> coremap s1 ! g = coremap s ! g"
    and fb: "\<And>g. g \<noteq> f \<Longrightarrow> frame_bytes s1 g = frame_bytes s g"
    and e': "pte_valid e'" "frame_no e' = f" "swap_off e' = swap_off e"
    and kind: "(pte_onswap e \<and> frame_bytes s1 f = slot_bytes s (swap_off e)) \<or>
               (\<not> pte_onswap e \<and> pte_dirty e')"
  shows "mem_ok k T (insert f U) (set_pte r e' s1)" (is ?inv)
    and "abs_mem (set_pte r e' s1) = (abs_mem s)(r := Some (frame_bytes s1 f))" (is ?abs)
proof -
  let ?s' = "set_pte r e' s1"
  have at: "pte_at ?s' q = (if q = r then Some e' else pte_at s q)" for q
    using set_pte_at[of s1 r e] r s1(3) by simp
  have sb: "slot_bytes s1 o1 = slot_bytes s o1" for o1 using s1(6) by (simp add: slot_bytes_def)
  from inv have fr: "frames_ok U s" and sl: "slots_ok k T s" and tb: "tables_ok s"
    by (auto simp: mem_ok_def)
  have ok: "entry_ok k T U s r e" by (rule mem_ok_entry[OF inv r(1)])
  have owned: "frame_no d \<noteq> f" if "pte_at s q = Some d" "pte_valid d" for q d
    using mem_ok_entry[OF inv that(1)] that(2) f(2) by (auto simp: entry_ok_def)
  show ?inv
  proof (rule mem_okI)
    show "frames_ok (insert f U) ?s'"
      unfolding frames_ok_def
    proof (intro conjI ballI)
      fix g assume g: "g \<in> insert f U"
      show "in_use (coremap ?s' ! g)" using g cm fr by (cases "g = f") (auto simp: frames_ok_def)
      show "\<exists>q d. pte_ptr (coremap ?s' ! g) = Some q \<and> pte_at ?s' q = Some d \<and>
          pte_valid d \<and> frame_no d = g"
      proof (cases "g = f")
        case True
        then show ?thesis using cm e' by (intro exI[of _ r] exI[of _ e']) (simp add: at)
      next
        case False
        with g fr obtain q d where q: "pte_ptr (coremap s ! g) = Some q" "pte_at s q = Some d"
          "pte_valid d" "frame_no d = g" by (auto simp: frames_ok_def)
        have "q \<noteq> r" using q r by auto
        with q cm(3)[OF False] show ?thesis by (auto simp: at)
      qed
    qed (use fr s1 f in \<open>auto simp: frames_ok_def\<close>)
    show "slots_ok k T ?s'"
      unfolding slots_ok_def
    proof (intro conjI allI impI)
      have "swap_inv k ?s' = swap_inv k s" using s1 by (intro swap_inv_cong) simp_all
      then show "swap_inv k ?s'" using sl by (simp add: slots_ok_def)
      fix j assume "j < k"
      with sl obtain q d where "pte_at s q = Some d" "swap_off d = slot_off j"
        unfolding slots_ok_def by blast
      with r e'(3) show "\<exists>q d. pte_at ?s' q = Some d \<and> swap_off d = slot_off j"
        by (intro exI[of _ q] exI[of _ "if q = r then e' else d"]) (auto simp: at)
    next
      fix p c q d assume c: "pte_at ?s' p = Some c" "pte_at ?s' q = Some d" "swap_off c = swap_off d"
        "swap_off c \<noteq> INVALID_SWAP"
      from c(1) r e'(3) obtain c0 where "pte_at s p = Some c0" "swap_off c0 = swap_off c"
        by (auto simp: at split: if_splits)
      moreover from c(2) r e'(3) obtain d0 where "pte_at s q = Some d0" "swap_off d0 = swap_off d"
        by (auto simp: at split: if_splits)
      ultimately show "p = q" using c slots_distinct[OF sl, of p c0 q d0] by simp
    next
      show "finite T" "card T \<le> unat (nbits (swapmap ?s'))"
        using sl s1 by (auto simp: slots_ok_def)
    qed
    show "tables_ok ?s'" using tb s1 by (simp add: tables_ok_def set_pte_None)
    fix q d assume q: "pte_at ?s' q = Some d"
    show "entry_ok k T (insert f U) ?s' q d"
    proof (cases "q = r")
      case True
      with q have "d = e'" by (simp add: at)
      with True ok e' T cm kind r(2) sb show ?thesis by (auto simp: entry_ok_def touched_def)
    next
      case False
      with q have q': "pte_at s q = Some d" by (simp add: at)
      have "frame_no d \<noteq> f" if "pte_valid d" by (rule owned[OF q' that])
      with mem_ok_entry[OF inv q'] show ?thesis
        by (simp add: entry_ok_def fb sb cm(3))
    qed
  qed
  show ?abs
  proof
    fix q
    show "abs_mem ?s' q = ((abs_mem s)(r := Some (frame_bytes s1 f))) q"
    proof (cases "q = r")
      case True
      with e' show ?thesis by (simp add: abs_mem_def at touched_def page_bytes_def)
    next
      case False
      with owned fb sb show ?thesis
        by (auto simp: abs_mem_def at page_bytes_def split: option.split)
    qed
  qed
qed

section \<open>Bits, frame contents, counters and new tables\<close>

lemma mem_ok_counters [simp]:
  "mem_ok k T U (s\<lparr>hit_count := n\<rparr>) = mem_ok k T U s"
  "mem_ok k T U (s\<lparr>miss_count := n\<rparr>) = mem_ok k T U s"
  "mem_ok k T U (s\<lparr>ref_count := n\<rparr>) = mem_ok k T U s"
  "mem_ok k T U (s\<lparr>evict_clean_count := n\<rparr>) = mem_ok k T U s"
  "mem_ok k T U (s\<lparr>evict_dirty_count := n\<rparr>) = mem_ok k T U s"
  by (simp_all add: mem_ok_def frames_ok_def slots_ok_def tables_ok_def swap_inv_def entry_ok_def
      slot_bytes_def frame_bytes_def)

lemma abs_mem_counters [simp]:
  "abs_mem (s\<lparr>hit_count := n\<rparr>) = abs_mem s" "abs_mem (s\<lparr>miss_count := n\<rparr>) = abs_mem s"
  "abs_mem (s\<lparr>ref_count := n\<rparr>) = abs_mem s" "abs_mem (s\<lparr>evict_clean_count := n\<rparr>) = abs_mem s"
  "abs_mem (s\<lparr>evict_dirty_count := n\<rparr>) = abs_mem s"
  by (auto simp: abs_mem_def page_bytes_def slot_bytes_def frame_bytes_def intro!: ext split: option.split)

text \<open>Changing the flags of a valid entry without clearing valid or dirty.\<close>

lemma mark_ok:
  assumes inv: "mem_ok k T U s" and r: "pte_at s r = Some e" "pte_valid e"
    and e': "pte_valid e'" "frame_no e' = frame_no e" "swap_off e' = swap_off e"
      "pte_dirty e \<Longrightarrow> pte_dirty e'"
  shows "mem_ok k T U (set_pte r e' s)" and "abs_mem (set_pte r e' s) = abs_mem s"
proof -
  let ?s' = "set_pte r e' s"
  have at: "pte_at ?s' q = (if q = r then Some e' else pte_at s q)" for q
    using set_pte_at[OF r(1)] by simp
  from inv have fr: "frames_ok U s" and sl: "slots_ok k T s" and tb: "tables_ok s"
    by (auto simp: mem_ok_def)
  have ok: "entry_ok k T U s r e" by (rule mem_ok_entry[OF inv r(1)])
  show "mem_ok k T U ?s'"
  proof (rule mem_okI)
    show "frames_ok U ?s'"
      unfolding frames_ok_def
    proof (intro conjI ballI)
      fix g assume "g \<in> U"
      with fr obtain q d where q: "in_use (coremap s ! g)" "pte_ptr (coremap s ! g) = Some q"
        "pte_at s q = Some d" "pte_valid d" "frame_no d = g" by (auto simp: frames_ok_def)
      then show "in_use (coremap ?s' ! g)" by simp
      from q r e' show "\<exists>q d. pte_ptr (coremap ?s' ! g) = Some q \<and> pte_at ?s' q = Some d \<and>
          pte_valid d \<and> frame_no d = g"
        by (intro exI[of _ q] exI[of _ "if q = r then e' else d"]) (auto simp: at)
    qed (use fr in \<open>auto simp: frames_ok_def\<close>)
    show "slots_ok k T ?s'"
      unfolding slots_ok_def
    proof (intro conjI allI impI)
      have "swap_inv k ?s' = swap_inv k s" by (intro swap_inv_cong) simp_all
      then show "swap_inv k ?s'" using sl by (simp add: slots_ok_def)
      fix j assume "j < k"
      with sl obtain q d where "pte_at s q = Some d" "swap_off d = slot_off j"
        unfolding slots_ok_def by blast
      with r e'(3) show "\<exists>q d. pte_at ?s' q = Some d \<and> swap_off d = slot_off j"
        by (intro exI[of _ q] exI[of _ "if q = r then e' else d"]) (auto simp: at)
    next
      fix p c q d assume c: "pte_at ?s' p = Some c" "pte_at ?s' q = Some d" "swap_off c = swap_off d"
        "swap_off c \<noteq> INVALID_SWAP"
      from c(1) r e'(3) obtain c0 where "pte_at s p = Some c0" "swap_off c0 = swap_off c"
        by (auto simp: at split: if_splits)
      moreover from c(2) r e'(3) obtain d0 where "pte_at s q = Some d0" "swap_off d0 = swap_off d"
        by (auto simp: at split: if_splits)
      ultimately show "p = q" using c slots_distinct[OF sl, of p c0 q d0] by simp
    next
      show "finite T" "card T \<le> unat (nbits (swapmap ?s'))"
        using sl by (auto simp: slots_ok_def)
    qed
    show "tables_ok ?s'" using tb by (simp add: tables_ok_def set_pte_None)
    fix q d assume q: "pte_at ?s' q = Some d"
    show "entry_ok k T U ?s' q d"
    proof (cases "q = r")
      case True
      with q have "d = e'" by (simp add: at)
      with True ok e' r(2) show ?thesis by (auto simp: entry_ok_def touched_def)
    next
      case False
      with q have "pte_at s q = Some d" by (simp add: at)
      from mem_ok_entry[OF inv this] show ?thesis by (simp add: entry_ok_def)
    qed
  qed
  show "abs_mem ?s' = abs_mem s"
    using r e' by (auto simp: abs_mem_def at page_bytes_def touched_def fun_eq_iff split: option.split)
qed

text \<open>Writing to the frame of a dirty page.\<close>

lemma write_ok:
  assumes inv: "mem_ok k T U s" and r: "pte_at s r = Some e" "pte_valid e" "pte_dirty e"
    and fb: "\<And>g. g \<noteq> frame_no e \<Longrightarrow> frame_bytes (s\<lparr>physmem := pm\<rparr>) g = frame_bytes s g"
  shows "mem_ok k T U (s\<lparr>physmem := pm\<rparr>)"
    and "abs_mem (s\<lparr>physmem := pm\<rparr>) = (abs_mem s)(r := Some (frame_bytes (s\<lparr>physmem := pm\<rparr>) (frame_no e)))"
proof -
  let ?s' = "s\<lparr>physmem := pm\<rparr>"
  have sb: "slot_bytes ?s' i = slot_bytes s i" for i by (simp add: slot_bytes_def)
  have other: "frame_bytes ?s' (frame_no d) = frame_bytes s (frame_no d)"
    if "pte_at s q = Some d" "pte_valid d" "q \<noteq> r" for q d
    using frame_owner[OF inv r(1,2) that(1,2)] that(3) by (intro fb) auto
  show "mem_ok k T U ?s'"
  proof (rule mem_okI)
    show "frames_ok U ?s'" using inv by (simp add: mem_ok_def frames_ok_def)
    show "slots_ok k T ?s'" using inv by (simp add: mem_ok_def slots_ok_def swap_inv_def)
    show "tables_ok ?s'" using inv by (simp add: mem_ok_def tables_ok_def)
    fix q d assume "pte_at ?s' q = Some d"
    then have q: "pte_at s q = Some d" by simp
    show "entry_ok k T U ?s' q d"
    proof (cases "q = r")
      case True
      with q r mem_ok_entry[OF inv q] show ?thesis by (simp add: entry_ok_def)
    next
      case False
      with other[OF q] mem_ok_entry[OF inv q] show ?thesis by (simp add: entry_ok_def sb)
    qed
  qed
  show "abs_mem ?s' = (abs_mem s)(r := Some (frame_bytes ?s' (frame_no e)))"
  proof
    fix q
    show "abs_mem ?s' q = ((abs_mem s)(r := Some (frame_bytes ?s' (frame_no e)))) q"
    proof (cases "q = r")
      case True
      with r show ?thesis by (simp add: abs_mem_def page_bytes_def touched_def)
    next
      case False
      with other show ?thesis by (auto simp: abs_mem_def page_bytes_def sb split: option.split)
    qed
  qed
qed

lemma new_table_ok:
  assumes inv: "mem_ok k T U s" and d: "d < PTRS_PER_PGDIR" "pgdir s d = None"
  shows "\<exists>s'. init_second_level d s = Ok s' \<and> mem_ok k T U s' \<and> abs_mem s' = abs_mem s \<and>
           (\<forall>t < PTRS_PER_PGTBL. \<exists>e. pte_at s' (d, t) = Some e) \<and>
           s' = s\<lparr>tables_left := tables_left s', pgdir := pgdir s'\<rparr> \<and>
           (\<forall>q e. pte_at s q = Some e \<longrightarrow> pte_at s' q = Some e)"
proof -
  let ?fresh = "\<lparr>frame = 0, swap_off = INVALID_SWAP\<rparr> :: pte"
  let ?s' = "s\<lparr>tables_left := tables_left s - 1, pgdir := (pgdir s)(d := Some (\<lambda>_. ?fresh))\<rparr>"
  let ?D = "{d. d < PTRS_PER_PGDIR \<and> pgdir s d = None}"
  have at: "pte_at ?s' q = (if fst q = d \<and> snd q < PTRS_PER_PGTBL then Some ?fresh else pte_at s q)" for q
    using d by (auto simp: pt_lookup_def)
  have old: "pte_at ?s' q = Some e" if "pte_at s q = Some e" for q e
    using that d unfolding at by (auto simp: pt_lookup_def split: if_splits)
  have fresh: "\<not> pte_valid ?fresh" "\<not> touched ?fresh"
    by (simp_all add: touched_def flag_bits)
  have inD: "d \<in> ?D" using d by simp
  have fin: "finite ?D" by simp
  have "0 < card ?D" using inD fin by (auto simp: card_gt_0_iff)
  then have left: "tables_left s \<noteq> 0" using inv by (simp add: mem_ok_def tables_ok_def)
  have D': "{c. c < PTRS_PER_PGDIR \<and> pgdir ?s' c = None} = ?D - {d}" by auto
  have ok: "mem_ok k T U ?s'"
  proof (rule mem_okI)
    show "frames_ok U ?s'"
      using inv old unfolding mem_ok_def frames_ok_def by fastforce
    show "slots_ok k T ?s'"
      unfolding slots_ok_def
    proof (intro conjI allI impI)
      show "swap_inv k ?s'" "finite T" "card T \<le> unat (nbits (swapmap ?s'))"
        using inv by (auto simp: mem_ok_def slots_ok_def swap_inv_def)
      fix i assume "i < k"
      with inv obtain q e where "pte_at s q = Some e" "swap_off e = slot_off i"
        unfolding mem_ok_def slots_ok_def by blast
      with old show "\<exists>q e. pte_at ?s' q = Some e \<and> swap_off e = slot_off i" by blast
    next
      fix p c q e assume c: "pte_at ?s' p = Some c" "pte_at ?s' q = Some e" "swap_off c = swap_off e"
        "swap_off c \<noteq> INVALID_SWAP"
      then have "pte_at s p = Some c" "pte_at s q = Some e" unfolding at by (auto split: if_splits)
      with c inv show "p = q" by (auto simp: mem_ok_def intro: slots_distinct)
    qed
    show "tables_ok ?s'"
    proof -
      have "card ?D \<le> tables_left s" using inv by (simp only: mem_ok_def tables_ok_def)
      then have "card (?D - {d}) \<le> tables_left s - 1"
        unfolding card_Diff_singleton[OF inD] by (rule diff_le_mono)
      then show ?thesis unfolding tables_ok_def D' by simp
    qed
    fix q e assume q: "pte_at ?s' q = Some e"
    show "entry_ok k T U ?s' q e"
    proof (cases "fst q = d \<and> snd q < PTRS_PER_PGTBL")
      case True
      have "e = ?fresh" using q True unfolding at by simp
      with fresh show ?thesis by (simp add: entry_ok_def)
    next
      case False
      have "pte_at s q = Some e" using q False unfolding at by auto
      from mem_ok_entry[OF inv this] show ?thesis
        by (simp add: entry_ok_def frame_bytes_def slot_bytes_def)
    qed
  qed
  have "abs_mem ?s' = abs_mem s"
  proof
    fix q
    have "pte_at s q = None" if "fst q = d" using that d by (simp add: pt_lookup_def)
    then show "abs_mem ?s' q = abs_mem s q"
      using fresh(2) unfolding abs_mem_def at
      by (auto simp: page_bytes_def frame_bytes_def slot_bytes_def split: option.split)
  qed
  moreover have "init_second_level d s = Ok ?s'" using left by (simp add: init_second_level_def)
  moreover have "\<forall>t < PTRS_PER_PGTBL. \<exists>e. pte_at ?s' (d, t) = Some e" unfolding at by simp
  ultimately show ?thesis using ok old by (intro exI[of _ ?s']) auto
qed

end
