(* ===== verification/Replacement.thy ===== *)
theory Replacement
  imports Paging_Steps
begin

text \<open>
  The contract between address translation and the replacement algorithm behind the function
  pointers (locale \<open>replacement\<close>), and the correctness of translation for every algorithm that
  keeps it: a reference succeeds and changes the abstract memory only at the page referred to.
\<close>

section \<open>Eviction and allocation\<close>

definition evicted_frame :: "u32 \<Rightarrow> u32" where
  "evicted_frame w = ((w AND NOT PG_VALID) AND NOT PG_REF) OR PG_ONSWAP"

lemma evicted_flags:
  assumes "frame e' = evicted_frame (frame e)"
  shows "\<not> pte_valid e'" "pte_onswap e'"
  using assms by (auto simp: flag_bits evicted_frame_def bit_or_iff bit_clear_flag bit_flags)

lemma write_slot_fields [simp]:
  "memsize (write_slot f i s) = memsize s" "coremap (write_slot f i s) = coremap s"
  "pgdir (write_slot f i s) = pgdir s" "physmem (write_slot f i s) = physmem s"
  "tables_left (write_slot f i s) = tables_left s" "swapmap (write_slot f i s) = swapmap s"
  "evict_dirty_count (write_slot f i s) = evict_dirty_count s"
  "core.more (write_slot f i s) = core.more s"
  "hit_count (write_slot f i s) = hit_count s" "miss_count (write_slot f i s) = miss_count s"
  "ref_count (write_slot f i s) = ref_count s"
  "evict_clean_count (write_slot f i s) = evict_clean_count s"
  by (simp_all add: write_slot_def)

text \<open>The counters that \<open>find_physpage\<close> itself keeps, and the evictions of both kinds.\<close>

definition accesses :: "'z core_scheme \<Rightarrow> int \<times> int \<times> int" where
  "accesses s = (hit_count s, miss_count s, ref_count s)"

definition evictions :: "'z core_scheme \<Rightarrow> int" where
  "evictions s = evict_clean_count s + evict_dirty_count s"

text \<open>The counters of the evictions can take \<open>n\<close> more.\<close>

definition evict_room :: "nat \<Rightarrow> 'z core_scheme \<Rightarrow> bool" where
  "evict_room n s \<longleftrightarrow>
     evict_clean_count s + int n \<le> INT_MAX \<and> evict_dirty_count s + int n \<le> INT_MAX"

lemma evict_room_Suc: "evict_room (Suc n) s \<Longrightarrow> evict_room n s"
  by (simp add: evict_room_def)

lemma evict_room_same: "same_mem s s' \<Longrightarrow> evict_room n s' = evict_room n s"
  by (simp add: evict_room_def same_mem_def)

text \<open>The part of \<open>evict_victim\<close> after the choice of the victim.\<close>

lemma evict_victim_ok:
  assumes ev: "evict s = Ok (int f, s1)" and inv: "mem_ok k T U s1" and f: "f \<in> U"
    and room: "evict_room (Suc 0) s1"
  shows "\<exists>k' s'. evict_victim evict s = Ok (int f, s') \<and> mem_ok k' T (U - {f}) s' \<and>
           abs_mem s' = abs_mem s1 \<and> coremap s' = coremap s1 \<and> memsize s' = memsize s1 \<and>
           core.more s' = core.more s1 \<and> accesses s' = accesses s1 \<and>
           evictions s' = evictions s1 + 1 \<and> (\<forall>n. evict_room (Suc n) s1 \<longrightarrow> evict_room n s') \<and>
           (\<forall>q e. pte_at s1 q = Some e \<and> \<not> pte_valid e \<longrightarrow> pte_at s' q = Some e)"
proof -
  have fr: "frames_ok U s1" and sw: "swap_inv k s1" using inv by (auto simp: mem_ok_def slots_ok_def)
  with f obtain r e where ptr: "pte_ptr (coremap s1 ! f) = Some r" and r: "pte_at s1 r = Some e"
    and e: "pte_valid e" "frame_no e = f" by (auto simp: frames_ok_def)
  have fl: "f < memsize s1" "memsize s1 \<le> 2 ^ 20" "f < length (coremap s1)"
    using fr f by (auto simp: frames_ok_def)
  have fp: "frame_pte s1 (int f) = Ok r" using ptr fl by (simp add: frame_pte_def)
  have ok: "entry_ok k T U s1 r e" by (rule mem_ok_entry[OF inv r])
  define e' where "e' = (\<lambda>i. e\<lparr>swap_off := slot_off i, frame := evicted_frame (frame e)\<rparr>)"
  have flags: "\<not> pte_valid (e' i)" "pte_onswap (e' i)" "swap_off (e' i) = slot_off i" for i
    using evicted_flags[of "e' i" e] by (auto simp: e'_def)
  have goal: ?thesis
    if res: "evict_victim evict s = Ok (int f, set_pte r (e' i) s2)"
      and s2: "memsize s2 = memsize s1" "coremap s2 = coremap s1" "pgdir s2 = pgdir s1"
        "physmem s2 = physmem s1" "tables_left s2 = tables_left s1"
        "nbits (swapmap s2) = nbits (swapmap s1)" "swap_inv k' s2" "core.more s2 = core.more s1" "accesses s2 = accesses s1"
        "evictions s2 = evictions s1 + 1" "\<forall>n. evict_room (Suc n) s1 \<longrightarrow> evict_room n s2"
      and slot: "slot_bytes s2 (slot_off i) = frame_bytes s1 f"
      and others: "\<And>j. j < k \<Longrightarrow> j \<noteq> i \<Longrightarrow> slot_bytes s2 (slot_off j) = slot_bytes s1 (slot_off j)"
      and which: "(k' = k \<and> i < k \<and> swap_off e = slot_off i) \<or>
                  (k' = Suc k \<and> i = k \<and> swap_off e = INVALID_SWAP)"
    for i k' s2
  proof -
    note um = unmap_ok[OF inv r e(1) s2(1-7), of i, unfolded e(2), OF slot others which
        flags(3) flags(1,2)]
    have "pte_at (set_pte r (e' i) s2) q = Some d" if "pte_at s1 q = Some d" "\<not> pte_valid d" for q d
    proof -
      have "q \<noteq> r" using that r e by auto
      then show ?thesis using that set_pte_at[of s2 r e "e' i" q] r s2(3) by simp
    qed
    then show ?thesis
      using um res s2
      by (intro exI[of _ k'] exI[of _ "set_pte r (e' i) s2"]) (auto simp: accesses_def evictions_def evict_room_def)
  qed
  have less: "evict_clean_count s1 < INT_MAX" "evict_dirty_count s1 < INT_MAX"
    using room by (simp_all add: evict_room_def)
  show ?thesis
  proof (cases "pte_dirty e")
    case False
    then obtain i where i: "i < k" "swap_off e = slot_off i"
      using ok e by (auto simp: entry_ok_def touched_def)
    let ?s2 = "s1\<lparr>evict_clean_count := evict_clean_count s1 + 1\<rparr>"
    have "e\<lparr>frame := evicted_frame (frame e)\<rparr> = e' i" using i(2) by (cases e) (simp add: e'_def)
    then have "evict_victim evict s = Ok (int f, set_pte r (e' i) ?s2)"
      using False r less by (simp add: evict_victim_def ev fp evicted_frame_def Let_def)
    moreover have "slot_bytes ?s2 (slot_off i) = frame_bytes s1 f"
      using ok e False i(2) by (simp add: entry_ok_def slot_bytes_def)
    moreover have "swap_inv k ?s2" using sw by (simp add: swap_inv_def)
    ultimately show ?thesis using i by (intro goal[of i ?s2 k]) (simp_all add: slot_bytes_def accesses_def evictions_def evict_room_def)
  next
    case True
    have body: "evict_victim evict s = Ok (int f, set_pte r (e' i) (s2\<lparr>evict_dirty_count := evict_dirty_count s2 + 1\<rparr>))"
      if "swap_pageout f (swap_off e) s1 = Ok (slot_off i, s2)" "pgdir s2 = pgdir s1"
        "evict_dirty_count s2 = evict_dirty_count s1" for i s2
    proof -
      let ?s3 = "set_pte r (e\<lparr>swap_off := slot_off i\<rparr>) (s2\<lparr>evict_dirty_count := evict_dirty_count s2 + 1\<rparr>)"
      have "pte_at ?s3 r = Some (e\<lparr>swap_off := slot_off i\<rparr>)"
        using r that(2) by (subst set_pte_at[of _ r e]) simp_all
      then show ?thesis
        using True r less that(1,3) by (simp add: evict_victim_def ev fp evicted_frame_def Let_def e'_def set_pte_twice)
    qed
    show ?thesis
    proof (cases "swap_off e = INVALID_SWAP")
      case False
      then obtain i where i: "i < k" "swap_off e = slot_off i"
        using ok by (auto simp: entry_ok_def)
      let ?w = "write_slot f i s1"
      let ?s2 = "?w\<lparr>evict_dirty_count := evict_dirty_count ?w + 1\<rparr>"
      from swap_pageout_old[OF sw fl(1,2) i(1)]
      have out: "swap_pageout f (swap_off e) s1 = Ok (slot_off i, ?w)" and sw': "swap_inv k ?w"
        by (auto simp: i(2))
      have "slot_bytes ?s2 (slot_off i) = frame_bytes s1 f"
        using slot_bytes_write[of f i s1] by (simp add: slot_bytes_def)
      moreover have "slot_bytes ?s2 (slot_off j) = slot_bytes s1 (slot_off j)" if "j \<noteq> i" for j
        using slot_bytes_write_other[of i j f s1] that by (simp add: slot_bytes_def)
      moreover have "swap_inv k ?s2" using sw' by (simp add: swap_inv_def)
      ultimately show ?thesis
        using i body[OF out] by (intro goal[of i ?s2 k]) (simp_all add: accesses_def evictions_def evict_room_def)
    next
      case True
      have "k < unat (nbits (swapmap s1))"
        using r e True by (intro slot_room[OF inv]) (auto simp: touched_def)
      from swap_pageout_new[OF sw fl(1,2) this] obtain bm where
        out: "swap_pageout f (swap_off e) s1 = Ok (slot_off k, write_slot f k (s1\<lparr>swapmap := bm\<rparr>))"
        and bm: "nbits bm = nbits (swapmap s1)"
        and sw': "swap_inv (Suc k) (write_slot f k (s1\<lparr>swapmap := bm\<rparr>))" by (auto simp: True)
      let ?w = "write_slot f k (s1\<lparr>swapmap := bm\<rparr>)"
      let ?s2 = "?w\<lparr>evict_dirty_count := evict_dirty_count ?w + 1\<rparr>"
      have "slot_bytes ?s2 (slot_off k) = frame_bytes s1 f"
        using slot_bytes_write[of f k "s1\<lparr>swapmap := bm\<rparr>"] by (simp add: slot_bytes_def frame_bytes_def)
      moreover have "slot_bytes ?s2 (slot_off j) = slot_bytes s1 (slot_off j)" if "j \<noteq> k" for j
        using slot_bytes_write_other[of k j f "s1\<lparr>swapmap := bm\<rparr>"] that by (simp add: slot_bytes_def)
      moreover have "swap_inv (Suc k) ?s2" using sw' by (simp add: swap_inv_def)
      ultimately show ?thesis
        using True bm body[OF out] by (intro goal[of k ?s2 "Suc k"]) (simp_all add: accesses_def evictions_def evict_room_def)
    qed
  qed
qed

text \<open>The search for a free frame.\<close>

lemma free_loop_spec:
  "i + n \<le> length cm \<Longrightarrow>
   (free_loop n i cm = Ok (-1) \<and> (\<forall>j. i \<le> j \<and> j < i + n \<longrightarrow> in_use (cm ! j))) \<or>
   (\<exists>j. free_loop n i cm = Ok (int j) \<and> i \<le> j \<and> j < i + n \<and> \<not> in_use (cm ! j) \<and>
        (\<forall>l. i \<le> l \<and> l < j \<longrightarrow> in_use (cm ! l)))"
proof (induction n i cm rule: free_loop.induct)
  case (1 i cm)
  then show ?case by auto
next
  case (2 n i cm)
  show ?case
  proof (cases "in_use (cm ! i)")
    case False
    with 2 show ?thesis by (intro disjI2 exI[of _ i]) auto
  next
    case True
    have step: "i \<le> l \<longleftrightarrow> l = i \<or> Suc i \<le> l" for l by auto
    from True 2 have eq: "free_loop (Suc n) i cm = free_loop n (Suc i) cm" by simp
    from 2 True have "(free_loop n (Suc i) cm = Ok (-1) \<and> (\<forall>j. Suc i \<le> j \<and> j < Suc i + n \<longrightarrow> in_use (cm ! j))) \<or>
      (\<exists>j. free_loop n (Suc i) cm = Ok (int j) \<and> Suc i \<le> j \<and> j < Suc i + n \<and> \<not> in_use (cm ! j) \<and>
        (\<forall>l. Suc i \<le> l \<and> l < j \<longrightarrow> in_use (cm ! l)))" by simp
    then show ?thesis unfolding eq
    proof (elim disjE exE conjE)
      fix j assume "free_loop n (Suc i) cm = Ok (int j)" "Suc i \<le> j" "j < Suc i + n"
        "\<not> in_use (cm ! j)" "\<forall>l. Suc i \<le> l \<and> l < j \<longrightarrow> in_use (cm ! l)"
      with True show "(free_loop n (Suc i) cm = Ok (- 1) \<and> (\<forall>j. i \<le> j \<and> j < i + Suc n \<longrightarrow> in_use (cm ! j))) \<or>
          (\<exists>j. free_loop n (Suc i) cm = Ok (int j) \<and> i \<le> j \<and> j < i + Suc n \<and> \<not> in_use (cm ! j) \<and>
            (\<forall>l. i \<le> l \<and> l < j \<longrightarrow> in_use (cm ! l)))"
        by (intro disjI2 exI[of _ j]) (auto simp: step)
    qed (use True in \<open>auto simp: step\<close>)
  qed
qed

text \<open>When no frame is marked as in use beyond the owned ones.\<close>

definition frames_known :: "nat set \<Rightarrow> 'z core_scheme \<Rightarrow> bool" where
  "frames_known U s \<longleftrightarrow> (\<forall>f < memsize s. in_use (coremap s ! f) \<longrightarrow> f \<in> U)"

section \<open>A full swap file\<close>

text \<open>
  Every frame is taken and the swap file has no free slot; the victim is dirty and has no slot
  yet. It loses its frame, and its entry says that it is on swap, at no slot.
\<close>

lemma allocate_frame_full:
  assumes used: "\<forall>i < memsize s. in_use (coremap s ! i)" "length (coremap s) = memsize s"
    and ev: "evict s = Ok (int f, s1)" and same: "same_mem s s1" and f: "f < memsize s"
    and r: "pte_ptr (coremap s ! f) = Some r" "pte_at s r = Some e" "pte_dirty e" "swap_off e = INVALID_SWAP"
    and full: "swap_inv k s" "k = unat (nbits (swapmap s))" and cnt: "evict_dirty_count s < INT_MAX"
  shows "\<exists>e' s'. allocate_frame evict p s = Ok (int f, s') \<and> pte_at s' r = Some e' \<and>
     \<not> pte_valid e' \<and> pte_onswap e' \<and> swap_off e' = INVALID_SWAP \<and>
     pte_ptr (coremap s' ! f) = Some p \<and> swapfile s' = swapfile s \<and> swapmap s' = swapmap s"
proof -
  from same_mem_at(1)[OF same r(2)] obtain e1 where e1: "pte_at s1 r = Some e1" "ref_eq e e1" by blast
  note flags = ref_eq_flags[OF e1(2)]
  have len: "length (coremap s1) = memsize s" using same_mem_nth(1)[OF same] used(2) by simp
  have ptr: "pte_ptr (coremap s1 ! f) = Some r" using same_mem_nth(3)[OF same, of f] used(2) f r(1) by simp
  have fp: "frame_pte s1 (int f) = Ok r" using ptr len f by (simp add: frame_pte_def)
  have fields: "evict_dirty_count s1 = evict_dirty_count s" "swapmap s1 = swapmap s" "swapfile s1 = swapfile s"
    using same by (simp_all add: same_mem_def)
  have "swap_inv k s1" using same full(1) swap_inv_cong[of s1 s k] by (simp add: same_mem_def)
  then have out: "swap_pageout f INVALID_SWAP s1 = Ok (INVALID_SWAP, s1)"
    using full(2) fields(2) by (intro swap_pageout_full) simp_all
  let ?e' = "e1\<lparr>swap_off := INVALID_SWAP, frame := evicted_frame (frame e1)\<rparr>"
  let ?s2 = "s1\<lparr>evict_dirty_count := evict_dirty_count s + 1\<rparr>"
  have at2: "pte_at (set_pte r (e1\<lparr>swap_off := INVALID_SWAP\<rparr>) ?s2) r = Some (e1\<lparr>swap_off := INVALID_SWAP\<rparr>)"
    using e1(1) by (simp add: set_pte_at)
  have victim: "evict_victim evict s = Ok (int f, set_pte r ?e' ?s2)"
    using e1(1) r(3,4) flags out cnt fields(1) at2
    by (simp add: evict_victim_def ev fp evicted_frame_def Let_def set_pte_twice)
  have "0 + memsize s \<le> length (coremap s)" using used(2) by simp
  from free_loop_spec[OF this] have "free_loop (memsize s) 0 (coremap s) = Ok (-1)" using used(1) by auto
  then have "allocate_frame evict p s = Ok (int f, (set_pte r ?e' ?s2)\<lparr>coremap :=
      (coremap s1)[f := (coremap s1 ! f)\<lparr>in_use := True, pte_ptr := Some p\<rparr>]\<rparr>)"
    using victim f len by (simp add: allocate_frame_def Let_def)
  moreover have "pte_at (set_pte r ?e' ?s2) r = Some ?e'" using e1(1) by (simp add: set_pte_at)
  moreover have "\<not> pte_valid ?e'" "pte_onswap ?e'" using evicted_flags[of ?e' e1] by simp_all
  ultimately show ?thesis using f len fields by auto
qed

text \<open>A page without a frame and without a slot cannot be referenced again.\<close>

lemma lost_page_aborts:
  assumes t: "pte_at t r = Some d" "\<not> pte_valid d" "pte_onswap d"
    and v: "r = (unat (PGDIR_INDEX v), unat (PGTBL_INDEX v))" and cnt: "miss_count t < INT_MAX"
    and alloc: "allocate_frame evict r (t\<lparr>miss_count := miss_count t + 1\<rparr>) = Ok (i, t')"
    and t': "pte_at t' r = Some d'" "swap_off d' = INVALID_SWAP"
  shows "find_physpage ref evict v type t = Abort"
proof -
  obtain tb where dir: "unat (PGDIR_INDEX v) < PTRS_PER_PGDIR" "pgdir t (unat (PGDIR_INDEX v)) = Some tb"
    using t(1) v by (auto simp: pt_lookup_def split: if_splits)
  have "fault_in evict r True v t = Abort"
    using alloc cnt t' by (simp add: fault_in_def Let_def swap_pagein_def)
  then show ?thesis using dir t v by (simp add: find_physpage_def Let_def)
qed

section \<open>The contract\<close>

text \<open>
  An algorithm has a view \<open>g\<close> of the frames it tracks; \<open>pinv n g s\<close> says that its variables
  stand for \<open>g\<close> and that it may still be told of \<open>n\<close> references. It depends on its own
  variables and on the \<open>page\<close> fields only. A reference to frame \<open>f\<close> is \<open>touch f\<close> on the
  view, an eviction of \<open>f\<close> is \<open>release f\<close>, and \<open>may_evict\<close> says which frames it may choose.
  Neither operation changes anything else but reference bits.
\<close>

locale replacement =
  fixes ref :: "pte_ref \<Rightarrow> 'z core_scheme \<Rightarrow> 'z core_scheme outcome"
    and evict :: "'z core_scheme \<Rightarrow> (int \<times> 'z core_scheme) outcome"
    and pinv :: "nat \<Rightarrow> 'g \<Rightarrow> 'z core_scheme \<Rightarrow> bool"
    and frames :: "'g \<Rightarrow> nat set"
    and touch :: "nat \<Rightarrow> 'g \<Rightarrow> 'g"
    and release :: "nat \<Rightarrow> 'g \<Rightarrow> 'g"
    and may_evict :: "'g \<Rightarrow> nat \<Rightarrow> bool"
  assumes evict_law: "pinv n g s \<Longrightarrow> mem_inv T (frames g) s \<Longrightarrow> frames g = {..< memsize s} \<Longrightarrow>
      \<exists>f s'. evict s = Ok (int f, s') \<and> f \<in> frames g \<and> may_evict g f \<and> same_mem s s' \<and>
        pinv n (release f g) s' \<and> frames (release f g) = frames g - {f}"
    and ref_law: "pinv (Suc n) g s \<Longrightarrow> mem_inv T (insert f (frames g)) s \<Longrightarrow>
      pte_at s r = Some e \<Longrightarrow> pte_valid e \<Longrightarrow> frame_no e = f \<Longrightarrow>
      \<exists>s'. ref r s = Ok s' \<and> same_mem s s' \<and> pinv n (touch f g) s' \<and>
        frames (touch f g) = insert f (frames g)"
    and pinv_cong: "pinv n g s \<Longrightarrow> core.more s' = core.more s \<Longrightarrow> memsize s' = memsize s \<Longrightarrow>
      map page (coremap s') = map page (coremap s) \<Longrightarrow> pinv n g s'"
begin

text \<open>Where a page that is not in memory goes: the least free frame, or a victim's.\<close>

definition place :: "nat \<Rightarrow> 'g \<Rightarrow> nat \<Rightarrow> 'g \<Rightarrow> bool" where
  "place m g f g' \<longleftrightarrow>
     (frames g = {..< m} \<and> f \<in> frames g \<and> may_evict g f \<and> g' = release f g \<and>
      frames g' = frames g - {f}) \<or>
     (f < m \<and> f \<notin> frames g \<and> {..< f} \<subseteq> frames g \<and> g' = g)"

lemma place_frames: "place m g f g' \<Longrightarrow> frames g' = frames g - {f}"
  by (auto simp: place_def)

text \<open>The frame for a page: free or freed, with everything else as it was.\<close>

lemma frame_for:
  assumes inv: "mem_inv T (frames g) s" and known: "frames_known (frames g) s" and pol: "pinv n g s"
    and room: "evict_room (Suc 0) s"
  shows "\<exists>f g' s'. bind_o (free_loop (memsize s) 0 (coremap s))
             (\<lambda>free. if free = -1 then evict_victim evict s else Ok (free, s)) = Ok (int f, s') \<and>
           f < memsize s \<and> place (memsize s) g f g' \<and> mem_inv T (frames g') s' \<and> pinv n g' s' \<and>
           abs_mem s' = abs_mem s \<and> memsize s' = memsize s \<and>
           map in_use (coremap s') = map in_use (coremap s) \<and>
           map pte_ptr (coremap s') = map pte_ptr (coremap s) \<and> accesses s' = accesses s \<and>
           evictions s' = evictions s + (if frames g = {..< memsize s} then 1 else 0) \<and>
           (\<forall>n. evict_room (Suc n) s \<longrightarrow> evict_room n s') \<and>
           (\<forall>q e. pte_at s q = Some e \<and> \<not> pte_valid e \<longrightarrow>
              (\<exists>e'. pte_at s' q = Some e' \<and> ref_eq e e'))"
proof -
  from inv obtain k where k: "mem_ok k T (frames g) s" by (auto simp: mem_inv_def)
  then have fr: "frames_ok (frames g) s" by (simp add: mem_ok_def)
  then have len: "length (coremap s) = memsize s" and sub: "frames g \<subseteq> {..< memsize s}"
    by (auto simp: frames_ok_def)
  have "0 + memsize s \<le> length (coremap s)" using len by simp
  from free_loop_spec[OF this] consider
    (full) "free_loop (memsize s) 0 (coremap s) = Ok (-1)" "\<forall>j < memsize s. in_use (coremap s ! j)"
    | (free) j where "free_loop (memsize s) 0 (coremap s) = Ok (int j)" "j < memsize s"
        "\<not> in_use (coremap s ! j)" "\<forall>l < j. in_use (coremap s ! l)" by auto
  then show ?thesis
  proof cases
    case full
    then have U: "frames g = {..< memsize s}" using known sub by (auto simp: frames_known_def)
    from evict_law[OF pol inv U] obtain f s1 where
      ev: "evict s = Ok (int f, s1)" and f: "f \<in> frames g" "may_evict g f" and same: "same_mem s s1"
      and pol1: "pinv n (release f g) s1" and rel: "frames (release f g) = frames g - {f}" by blast
    have k1: "mem_ok k T (frames g) s1" by (rule same_mem_inv[OF same k])
    have "evict_room (Suc 0) s1" using room evict_room_same[OF same] by simp
    from evict_victim_ok[of evict, OF ev k1 f(1) this] obtain k' s' where
      s': "evict_victim evict s = Ok (int f, s')" "mem_ok k' T (frames g - {f}) s'" "abs_mem s' = abs_mem s1"
      "coremap s' = coremap s1" "memsize s' = memsize s1" "core.more s' = core.more s1"
      "accesses s' = accesses s1" "evictions s' = evictions s1 + 1"
      "\<forall>n. evict_room (Suc n) s1 \<longrightarrow> evict_room n s'"
      "\<forall>q e. pte_at s1 q = Some e \<and> \<not> pte_valid e \<longrightarrow> pte_at s' q = Some e" by blast
    have ms: "memsize s1 = memsize s" "map in_use (coremap s1) = map in_use (coremap s)"
      "map pte_ptr (coremap s1) = map pte_ptr (coremap s)" "accesses s1 = accesses s"
      "evictions s1 = evictions s"
      using same by (auto simp: same_mem_def accesses_def evictions_def)
    have "pinv n (release f g) s'" using s' by (intro pinv_cong[OF pol1]) simp_all
    moreover have "\<exists>e'. pte_at s' q = Some e' \<and> ref_eq e e'"
      if "pte_at s q = Some e" "\<not> pte_valid e" for q e
    proof -
      from same_mem_at(1)[OF same that(1)] obtain e' where "pte_at s1 q = Some e'" "ref_eq e e'"
        by blast
      with s'(10) that(2) ref_eq_flags(1)[of e e'] show ?thesis by auto
    qed
    moreover have "mem_inv T (frames (release f g)) s'" using s'(2) rel by (auto simp: mem_inv_def)
    ultimately show ?thesis
      using full s' f U ms same_mem_abs[OF same] rel evict_room_same[OF same]
      by (intro exI[of _ f] exI[of _ "release f g"] exI[of _ s']) (auto simp: place_def)
  next
    case free
    then have j: "j \<notin> frames g" using fr by (auto simp: frames_ok_def)
    then have "frames g \<noteq> {..< memsize s}" using free(2) by auto
    moreover have "{..< j} \<subseteq> frames g" using free(2,4) known by (auto simp: frames_known_def)
    ultimately show ?thesis
      using free inv pol j by (intro exI[of _ j] exI[of _ g] exI[of _ s]) (auto simp: place_def intro: evict_room_Suc)
  qed
qed

lemma allocate_frame_ok:
  assumes inv: "mem_inv T (frames g) s" and known: "frames_known (frames g) s" and pol: "pinv n g s"
    and room: "evict_room (Suc 0) s"
  shows "\<exists>f g' s'. allocate_frame evict p s =
             Ok (int f, s'\<lparr>coremap := (coremap s')[f := (coremap s' ! f)\<lparr>in_use := True, pte_ptr := Some p\<rparr>]\<rparr>) \<and>
           f < memsize s \<and> place (memsize s) g f g' \<and> mem_inv T (frames g') s' \<and> pinv n g' s' \<and>
           abs_mem s' = abs_mem s \<and> memsize s' = memsize s \<and>
           map in_use (coremap s') = map in_use (coremap s) \<and>
           map pte_ptr (coremap s') = map pte_ptr (coremap s) \<and> accesses s' = accesses s \<and>
           evictions s' = evictions s + (if frames g = {..< memsize s} then 1 else 0) \<and>
           (\<forall>n. evict_room (Suc n) s \<longrightarrow> evict_room n s') \<and>
           (\<forall>q e. pte_at s q = Some e \<and> \<not> pte_valid e \<longrightarrow>
              (\<exists>e'. pte_at s' q = Some e' \<and> ref_eq e e'))"
proof -
  from frame_for[OF assms] obtain f g' s' where *: "bind_o (free_loop (memsize s) 0 (coremap s))
      (\<lambda>free. if free = -1 then evict_victim evict s else Ok (free, s)) = Ok (int f, s')"
    "f < memsize s" "place (memsize s) g f g'" "mem_inv T (frames g') s'" "pinv n g' s'"
    "abs_mem s' = abs_mem s" "memsize s' = memsize s"
    "map in_use (coremap s') = map in_use (coremap s)"
    "map pte_ptr (coremap s') = map pte_ptr (coremap s)" "accesses s' = accesses s"
    "evictions s' = evictions s + (if frames g = {..< memsize s} then 1 else 0)"
    "\<forall>n. evict_room (Suc n) s \<longrightarrow> evict_room n s'"
    "\<forall>q e. pte_at s q = Some e \<and> \<not> pte_valid e \<longrightarrow> (\<exists>e'. pte_at s' q = Some e' \<and> ref_eq e e')"
    by blast
  have len: "length (coremap s') = memsize s"
    using *(4,7) by (auto simp: mem_inv_def mem_ok_def frames_ok_def)
  have "allocate_frame evict p s =
    bind_o (bind_o (free_loop (memsize s) 0 (coremap s))
      (\<lambda>free. if free = -1 then evict_victim evict s else Ok (free, s)))
      (\<lambda>(frame_number, s).
       bind_o (defined_o (0 \<le> frame_number \<and> frame_number < int (length (coremap s)))) (\<lambda>_.
       let i = nat frame_number in
       Ok (frame_number, s\<lparr>coremap := (coremap s)[i := (coremap s ! i)\<lparr>in_use := True, pte_ptr := Some p\<rparr>]\<rparr>)))"
    by (simp add: allocate_frame_def bind_o_assoc)
  also have "\<dots> = Ok (int f, s'\<lparr>coremap := (coremap s')[f := (coremap s' ! f)\<lparr>in_use := True, pte_ptr := Some p\<rparr>]\<rparr>)"
    unfolding *(1) using *(2) len by (simp add: Let_def)
  finally show ?thesis
    using *(2-13) by (intro exI[of _ f] exI[of _ g'] exI[of _ s'] conjI) assumption+
qed

end

end
