(* ===== verification/Translation.thy ===== *)
theory Translation
  imports Replacement
begin

text \<open>
  Address translation over any algorithm that keeps the contract \<open>replacement\<close>: every
  reference succeeds, the abstract memory changes at the referenced page only (a page touched
  for the first time starts as \<open>fresh_page\<close>), and the frame comes from where the contract says.
\<close>

section \<open>The specification of a memory access\<close>

definition page_of :: "u64 \<Rightarrow> pte_ref" where
  "page_of v = (unat (PGDIR_INDEX v), unat (PGTBL_INDEX v))"

definition fresh_page :: "u64 \<Rightarrow> u8 list" where
  "fresh_page v =
     map (\<lambda>j. if 4 \<le> j \<and> j < 12 then word_of_nat (unat v div 256 ^ (j - 4)) else 0) [0..<SIMPAGESIZE]"

text \<open>The version counter is the first int of a page, the recorded address follows it.\<close>

definition bump_version :: "u8 list \<Rightarrow> u8 list" where
  "bump_version bs = map (store_le 4 (load_le 4 (nth bs) 0 + 1) (nth bs) 0) [0..<SIMPAGESIZE]"

definition recorded_addr :: "u8 list \<Rightarrow> nat" where
  "recorded_addr bs = load_le 8 (nth bs) 4"

definition page_or_fresh :: "(pte_ref \<Rightarrow> u8 list option) \<Rightarrow> u64 \<Rightarrow> u8 list" where
  "page_or_fresh m v = (case m (page_of v) of Some bs \<Rightarrow> bs | None \<Rightarrow> fresh_page v)"

definition spec_access ::
  "char \<Rightarrow> u64 \<Rightarrow> (pte_ref \<Rightarrow> u8 list option) \<Rightarrow> bool \<times> (pte_ref \<Rightarrow> u8 list option)" where
  "spec_access type v m =
     (let bs = page_or_fresh m v in
      (recorded_addr bs = unat v,
       m(page_of v := Some (if is_write type then bump_version bs else bs))))"

text \<open>Page \<open>v\<close> is in memory, in frame \<open>f\<close>.\<close>

definition resident :: "'z core_scheme \<Rightarrow> u64 \<Rightarrow> nat \<Rightarrow> bool" where
  "resident s v f \<longleftrightarrow> (\<exists>e. pte_at s (page_of v) = Some e \<and> pte_valid e \<and> frame_no e = f)"

text \<open>The counters can take \<open>n\<close> more references.\<close>

definition counts_ok :: "nat \<Rightarrow> 'z core_scheme \<Rightarrow> bool" where
  "counts_ok n s \<longleftrightarrow>
     hit_count s + int n \<le> INT_MAX \<and> miss_count s + int n \<le> INT_MAX \<and>
     ref_count s + int n \<le> INT_MAX \<and> evict_room n s"

lemma counts_ok_evict: "counts_ok n s \<Longrightarrow> evict_room n s"
  by (simp add: counts_ok_def)

lemma counts_ok_same: "same_mem s s' \<Longrightarrow> counts_ok n s' = counts_ok n s"
  by (simp add: counts_ok_def evict_room_same) (simp add: same_mem_def)

lemma counts_ok_next:
  assumes "counts_ok (Suc n) s" and "evict_room n s'"
    and "accesses s' = (hit_count s + 1, miss_count s, ref_count s + 1) \<or>
         accesses s' = (hit_count s, miss_count s + 1, ref_count s + 1)"
  shows "counts_ok n s'"
  using assms by (auto simp: counts_ok_def accesses_def)

lemma PGTBL_INDEX_less: "unat (PGTBL_INDEX v) < PTRS_PER_PGTBL"
proof -
  have "drop_bit 12 v AND 4095 \<le> 4095" by (rule word_and_le1)
  then have "unat (drop_bit 12 v AND 4095) \<le> unat (4095 :: u64)" by (simp only: word_le_nat_alt)
  then have "unat (drop_bit 12 v AND 4095) < 4096" by simp
  then show ?thesis
    by (simp add: PGTBL_INDEX_def PAGE_SHIFT_def PTRS_PER_PGTBL_def unsigned_ucast_eq take_bit_nat_eq_self)
qed

lemma map_update_nth:
  assumes "map p xs = (map p ys)[f := True]" and "h < length ys"
  shows "p (xs ! h) = (h = f \<or> p (ys ! h))"
proof -
  have "length xs = length ys" using assms(1) by (metis length_list_update length_map)
  then have "p (xs ! h) = map p xs ! h" using assms(2) by simp
  also have "\<dots> = (h = f \<or> p (ys ! h))" unfolding assms(1) using assms(2) by (cases "h = f") simp_all
  finally show ?thesis .
qed

section \<open>Entries\<close>

lemma mark_used_flags [simp]:
  "pte_valid (mark_used type e)" "swap_off (mark_used type e) = swap_off e"
  "frame_no (mark_used type e) = frame_no e"
  "pte_dirty (mark_used type e) \<longleftrightarrow> pte_dirty e \<or> is_write type"
  by (auto simp: mark_used_def Let_def flag_bits bit_or_iff bit_flags intro!: frame_no_eqI)

lemma packed_frame:
  assumes "f < 2 ^ 20"
  shows "frame e = push_bit PAGE_SHIFT (word_of_int (int f)) AND NOT PG_ONSWAP \<Longrightarrow> frame_no e = f"
    and "frame e = push_bit PAGE_SHIFT (word_of_int (int f)) OR PG_DIRTY \<Longrightarrow> frame_no e = f"
proof -
  let ?w = "push_bit 12 (word_of_nat f) :: u32"
  have base: "frame_no \<lparr>frame = ?w, swap_off = 0\<rparr> = f"
    unfolding frame_no_def PAGE_SHIFT_def using drop_shifted[OF assms] by simp
  have "frame_no e = f" if "\<And>k. 12 \<le> k \<Longrightarrow> bit (frame e) k \<longleftrightarrow> bit ?w k"
    using frame_no_eqI[of e "\<lparr>frame = ?w, swap_off = 0\<rparr>"] that base by simp
  then show "frame e = push_bit PAGE_SHIFT (word_of_int (int f)) AND NOT PG_ONSWAP \<Longrightarrow> frame_no e = f"
    and "frame e = push_bit PAGE_SHIFT (word_of_int (int f)) OR PG_DIRTY \<Longrightarrow> frame_no e = f"
    by (simp_all add: PAGE_SHIFT_def bit_clear_flag bit_or_iff bit_flags)
qed

section \<open>Frames of new pages\<close>

definition init_bytes :: "bytes \<Rightarrow> nat \<Rightarrow> u64 \<Rightarrow> bytes" where
  "init_bytes m a v = store_le 8 (unat v) (memset m a 0 SIMPAGESIZE) (a + 4)"

lemma frame_bytes_init:
  "frame_bytes (s\<lparr>physmem := init_bytes (physmem s) (f * SIMPAGESIZE) v\<rparr>) f = fresh_page v"
  by (simp add: frame_bytes_def fresh_page_def init_bytes_def store_le_def memset_def SIMPAGESIZE_def)

lemma frame_bytes_init_other:
  "f \<noteq> g \<Longrightarrow> frame_bytes (s\<lparr>physmem := init_bytes (physmem s) (f * SIMPAGESIZE) v\<rparr>) g = frame_bytes s g"
proof -
  assume "f \<noteq> g"
  have "init_bytes (physmem s) (f * SIMPAGESIZE) v (g * SIMPAGESIZE + j) = physmem s (g * SIMPAGESIZE + j)"
    if j: "j < SIMPAGESIZE" for j
    using page_disjoint[OF \<open>f \<noteq> g\<close> j]
    by (auto simp: init_bytes_def store_le_def memset_def SIMPAGESIZE_def)
  then show ?thesis by (simp add: frame_bytes_def)
qed

lemma init_frame_ok:
  assumes "f < memsize s" and "memsize s \<le> 2 ^ 20"
  shows "init_frame (int f) v s = Ok (s\<lparr>physmem := init_bytes (physmem s) (f * SIMPAGESIZE) v\<rparr>)"
  using phys_addr_ok[OF assms] by (simp add: init_frame_def init_bytes_def Let_def)

section \<open>The miss\<close>

context replacement
begin

lemma fault_in_ok:
  assumes inv: "mem_inv T (frames g) s" and known: "frames_known (frames g) s" and pol: "pinv n g s"
    and r: "pte_at s r = Some e" "\<not> pte_valid e" and T: "r \<in> T"
    and room: "evict_room (Suc 0) s" "miss_count s < INT_MAX"
  shows "\<exists>f g' s1 e1. fault_in evict r (pte_onswap e) v s = Ok (set_pte r e1 s1) \<and>
      f < memsize s \<and> place (memsize s) g f g' \<and> pinv n g' s1 \<and> memsize s1 = memsize s \<and>
      map in_use (coremap s1) = (map in_use (coremap s))[f := True] \<and>
      map pte_ptr (coremap s1) = (map pte_ptr (coremap s))[f := Some r] \<and>
      accesses s1 = (hit_count s, miss_count s + 1, ref_count s) \<and>
      evictions s1 = evictions s + (if frames g = {..< memsize s} then 1 else 0) \<and>
      (\<forall>n. evict_room (Suc n) s \<longrightarrow> evict_room n s1) \<and>
      pte_at s1 r \<noteq> None \<and> frame_no e1 = f \<and>
      (\<forall>type. mem_inv T (insert f (frames g')) (set_pte r (mark_used type e1) s1) \<and>
        abs_mem (set_pte r (mark_used type e1) s1) =
          (abs_mem s)(r := Some (case abs_mem s r of Some bs \<Rightarrow> bs | None \<Rightarrow> fresh_page v)))"
proof -
  let ?s0 = "s\<lparr>miss_count := miss_count s + 1\<rparr>"
  have inv0: "mem_inv T (frames g) ?s0" using inv by (simp add: mem_inv_def)
  have known0: "frames_known (frames g) ?s0" using known by (simp add: frames_known_def)
  have pol0: "pinv n g ?s0" by (rule pinv_cong[OF pol]) simp_all
  have room0: "evict_room (Suc 0) ?s0" using room(1) by (simp add: evict_room_def)
  from allocate_frame_ok[OF inv0 known0 pol0 room0, of r] obtain f g' s1 where
    alloc: "allocate_frame evict r ?s0 =
      Ok (int f, s1\<lparr>coremap := (coremap s1)[f := (coremap s1 ! f)\<lparr>in_use := True, pte_ptr := Some r\<rparr>]\<rparr>)"
    and f: "f < memsize s" and pl: "place (memsize s) g f g'" and inv1: "mem_inv T (frames g') s1"
    and pol1: "pinv n g' s1" and abs1: "abs_mem s1 = abs_mem s" and ms1: "memsize s1 = memsize s"
    and maps: "map in_use (coremap s1) = map in_use (coremap s)"
      "map pte_ptr (coremap s1) = map pte_ptr (coremap s)"
    and cnt: "accesses s1 = accesses ?s0"
      "evictions s1 = evictions s + (if frames g = {..< memsize s} then 1 else 0)"
      "\<forall>n. evict_room (Suc n) s \<longrightarrow> evict_room n s1"
    and keep: "\<forall>q e. pte_at s q = Some e \<and> \<not> pte_valid e \<longrightarrow> (\<exists>e'. pte_at s1 q = Some e' \<and> ref_eq e e')"
    by (auto simp: evictions_def evict_room_def)
  from inv1 obtain k where k: "mem_ok k T (frames g') s1" by (auto simp: mem_inv_def)
  from keep r obtain e0 where e0: "pte_at s1 r = Some e0" "ref_eq e e0" by blast
  note flags = ref_eq_flags[OF e0(2)]
  have nv: "\<not> pte_valid e0" using r(2) flags by simp
  have ok: "entry_ok k T (frames g') s1 r e0" by (rule mem_ok_entry[OF k e0(1)])
  have fn: "f \<notin> frames g'" using place_frames[OF pl] by simp
  have ms: "memsize s1 \<le> 2 ^ 20" "length (coremap s1) = memsize s1" and f20: "f < 2 ^ 20" "f < memsize s1"
    using k f ms1 by (auto simp: mem_ok_def frames_ok_def)
  let ?cm = "(coremap s1)[f := (coremap s1 ! f)\<lparr>in_use := True, pte_ptr := Some r\<rparr>]"
  let ?s2 = "s1\<lparr>coremap := ?cm\<rparr>"
  have get: "get_pte ?s2 r = Ok e0" using e0(1) by simp
  have page: "map page ?cm = map page (coremap s1)"
    by (simp add: map_update list_update_same_conv) (metis f20(2) ms(2) nth_map list_update_id)
  have cm: "map in_use ?cm = (map in_use (coremap s))[f := True]"
    "map pte_ptr ?cm = (map pte_ptr (coremap s))[f := Some r]"
    using maps by (simp_all add: map_update)
  have absr: "abs_mem s1 r = (if pte_onswap e then Some (slot_bytes s1 (swap_off e0)) else None)"
    using e0 nv flags by (simp add: abs_mem_def touched_def page_bytes_def)
  have finish: ?thesis
    if res: "fault_in evict r (pte_onswap e) v s = Ok (set_pte r e1 s3)"
      and s3: "s3 = ?s2\<lparr>physmem := physmem s3\<rparr>"
      and fb: "\<And>h. h \<noteq> f \<Longrightarrow> frame_bytes s3 h = frame_bytes s1 h"
      and e1: "frame_no e1 = f" "swap_off e1 = swap_off e0"
      and kind: "(pte_onswap e \<and> frame_bytes s3 f = slot_bytes s1 (swap_off e0)) \<or>
         (\<not> pte_onswap e \<and> pte_dirty e1 \<and> frame_bytes s3 f = fresh_page v)" for e1 s3
  proof -
    have flds: "memsize s3 = memsize s1" "coremap s3 = ?cm" "pgdir s3 = pgdir s1"
      "tables_left s3 = tables_left s1" "swapmap s3 = swapmap s1" "swapfile s3 = swapfile s1"
      "file_size s3 = file_size s1" "file_limit s3 = file_limit s1" "core.more s3 = core.more s1"
      "accesses s3 = accesses s1" "evictions s3 = evictions s1"
      "evict_room n s3 = evict_room n s1" for n
      by (subst s3, simp add: accesses_def evictions_def evict_room_def)+
    have len3: "length (coremap s3) = length (coremap s1)" using flds(2) by simp
    have at_f: "in_use (coremap s3 ! f)" "pte_ptr (coremap s3 ! f) = Some r"
      "\<And>h. h \<noteq> f \<Longrightarrow> coremap s3 ! h = coremap s1 ! h"
      using flds(2) f20(2) ms(2) by simp_all
    have kind': "(pte_onswap e0 \<and> frame_bytes s3 f = slot_bytes s1 (swap_off e0)) \<or>
        (\<not> pte_onswap e0 \<and> pte_dirty (mark_used type e1))" for type
      using kind flags by auto
    have mapped: "mem_ok k T (insert f (frames g')) (set_pte r (mark_used type e1) s3)"
      "abs_mem (set_pte r (mark_used type e1) s3) = (abs_mem s1)(r := Some (frame_bytes s3 f))" for type
      using map_ok[OF k e0(1) nv T f20(2) fn flds(1) len3 flds(3-8) at_f fb, of "mark_used type e1"]
        kind'[of type] e1 by simp_all
    have "frame_bytes s3 f = (case abs_mem s r of Some bs \<Rightarrow> bs | None \<Rightarrow> fresh_page v)"
      using kind absr abs1 by auto
    moreover have "pinv n g' s3" using page flds by (intro pinv_cong[OF pol1]) simp_all
    moreover have "pte_at s3 r \<noteq> None" using e0(1) flds(3) by simp
    ultimately show ?thesis
      using res f pl ms1 flds cm cnt mapped abs1 e1(1)
      by (intro exI[of _ f] exI[of _ g'] exI[of _ s3] exI[of _ e1])
        (auto simp: mem_inv_def accesses_def)
  qed
  show ?thesis
  proof (cases "pte_onswap e")
    case True
    then obtain i where i: "i < k" "swap_off e0 = slot_off i"
      using ok nv flags by (auto simp: entry_ok_def touched_def)
    let ?s3 = "?s2\<lparr>physmem := copy_bytes (physmem ?s2) (f * SIMPAGESIZE) (swapfile ?s2) (SIMPAGESIZE * i) SIMPAGESIZE\<rparr>"
    let ?e1 = "e0\<lparr>frame := push_bit PAGE_SHIFT (word_of_int (int f)) AND NOT PG_ONSWAP\<rparr>"
    have "swap_inv k ?s2" using k by (simp add: mem_ok_def slots_ok_def swap_inv_def)
    then have "swap_pagein f (slot_off i) ?s2 = Ok (0, ?s3)"
      using f20 ms by (intro swap_pagein_ok[OF _ _ _ i(1)]) simp_all
    then have "fault_in evict r (pte_onswap e) v s = Ok (set_pte r ?e1 ?s3)"
      using True get room(2) by (simp add: fault_in_def alloc Let_def i(2))
    moreover have "frame_bytes ?s3 f = slot_bytes s1 (swap_off e0)"
      using frame_bytes_pagein[of ?s2 f i] i(2) by (simp add: slot_bytes_def)
    moreover have "frame_bytes ?s3 h = frame_bytes s1 h" if "h \<noteq> f" for h
      using frame_bytes_copy_other[of f h ?s2] that by (simp add: frame_bytes_def)
    ultimately show ?thesis
      using True packed_frame(1)[OF f20(1), of ?e1] by (intro finish[of ?e1 ?s3]) simp_all
  next
    case False
    have off: "swap_off e0 = INVALID_SWAP" using ok nv flags False by (auto simp: entry_ok_def touched_def)
    let ?s3 = "?s2\<lparr>physmem := init_bytes (physmem ?s2) (f * SIMPAGESIZE) v\<rparr>"
    let ?e1 = "e0\<lparr>frame := push_bit PAGE_SHIFT (word_of_int (int f)) OR PG_DIRTY, swap_off := INVALID_SWAP\<rparr>"
    have "init_frame (int f) v ?s2 = Ok ?s3" using f20 ms by (intro init_frame_ok) simp_all
    then have "fault_in evict r (pte_onswap e) v s = Ok (set_pte r ?e1 ?s3)"
      using False get room(2) by (simp add: fault_in_def alloc Let_def)
    moreover have "frame_bytes ?s3 f = fresh_page v" by (rule frame_bytes_init)
    moreover have "frame_bytes ?s3 h = frame_bytes s1 h" if "h \<noteq> f" for h
      using frame_bytes_init_other[of f h ?s2 v] that by (simp add: frame_bytes_def)
    moreover have "pte_dirty ?e1" by (simp add: flag_bits bit_or_iff bit_flags)
    ultimately show ?thesis
      using False off packed_frame(2)[OF f20(1), of ?e1] by (intro finish[of ?e1 ?s3]) simp_all
  qed
qed

section \<open>A whole translation\<close>

lemma ready_table:
  assumes inv: "mem_inv T (frames g) s" and pol: "pinv n g s"
    and d: "unat (PGDIR_INDEX v) < PTRS_PER_PGDIR"
  shows "\<exists>s0 e. (if pgdir s (unat (PGDIR_INDEX v)) = None then init_second_level (unat (PGDIR_INDEX v)) s
               else Ok s) = Ok s0 \<and>
      mem_inv T (frames g) s0 \<and> pinv n g s0 \<and> abs_mem s0 = abs_mem s \<and> memsize s0 = memsize s \<and>
      coremap s0 = coremap s \<and> accesses s0 = accesses s \<and> evictions s0 = evictions s \<and>
      (\<forall>n. evict_room n s0 = evict_room n s) \<and>
      pte_at s0 (page_of v) = Some e \<and> (\<forall>f. resident s v f \<longleftrightarrow> pte_valid e \<and> frame_no e = f)"
proof (cases "pgdir s (unat (PGDIR_INDEX v))")
  case (Some tb)
  then have "pte_at s (page_of v) = Some (tb (unat (PGTBL_INDEX v)))"
    using d PGTBL_INDEX_less by (simp add: pt_lookup_def page_of_def)
  with Some inv pol show ?thesis by (auto simp: resident_def)
next
  case None
  from inv obtain k where k: "mem_ok k T (frames g) s" by (auto simp: mem_inv_def)
  from new_table_ok[OF k d None] obtain s0 where s0:
    "init_second_level (unat (PGDIR_INDEX v)) s = Ok s0" "mem_ok k T (frames g) s0"
    "abs_mem s0 = abs_mem s" "\<forall>t < PTRS_PER_PGTBL. \<exists>e. pte_at s0 (unat (PGDIR_INDEX v), t) = Some e"
    "s0 = s\<lparr>tables_left := tables_left s0, pgdir := pgdir s0\<rparr>" by blast
  have flds: "memsize s0 = memsize s" "coremap s0 = coremap s" "core.more s0 = core.more s"
    "accesses s0 = accesses s" "evictions s0 = evictions s" "evict_room n s0 = evict_room n s" for n
    by (subst s0(5), simp add: accesses_def evictions_def evict_room_def)+
  from s0(4) PGTBL_INDEX_less obtain e where e: "pte_at s0 (page_of v) = Some e"
    by (auto simp: page_of_def)
  have none: "pte_at s (page_of v) = None" using None by (simp add: pt_lookup_def page_of_def)
  then have "abs_mem s0 (page_of v) = None" using s0(3) by (simp add: abs_mem_def)
  then have "\<not> pte_valid e" using e by (auto simp: abs_mem_def touched_def split: if_splits)
  moreover have "pinv n g s0" using flds by (intro pinv_cong[OF pol]) simp_all
  ultimately show ?thesis
    using None s0 flds e none by (intro exI[of _ s0] exI[of _ e]) (auto simp: mem_inv_def resident_def)
qed

text \<open>The reference bit, the dirty bit and the call of \<open>ref\<close>.\<close>

lemma finish_reference:
  assumes at: "pte_at s1 r \<noteq> None"
    and inv: "mem_inv T (insert f (frames g)) (set_pte r (mark_used type e1) s1)"
    and fr: "frame_no e1 = f" "f < memsize s1" "memsize s1 \<le> 2 ^ 20" and pol: "pinv (Suc n) g s1"
  shows "\<exists>s' e'. ref r (set_pte r (mark_used type e1) s1) = Ok s' \<and>
      same_mem (set_pte r (mark_used type e1) s1) s' \<and> mem_inv T (frames (touch f g)) s' \<and>
      pinv n (touch f g) s' \<and> frames (touch f g) = insert f (frames g) \<and>
      pte_at s' r = Some e' \<and> ref_eq (mark_used type e1) e' \<and>
      (frame_no e' * SIMPAGESIZE) mod 2 ^ 32 = f * SIMPAGESIZE"
proof -
  let ?s2 = "set_pte r (mark_used type e1) s1"
  from at obtain e0 where "pte_at s1 r = Some e0" by auto
  then have at2: "pte_at ?s2 r = Some (mark_used type e1)" by (simp add: set_pte_at)
  have pol2: "pinv (Suc n) g ?s2" by (rule pinv_cong[OF pol]) simp_all
  from ref_law[OF pol2 inv at2] fr(1) obtain s' where s': "ref r ?s2 = Ok s'" "same_mem ?s2 s'"
    "pinv n (touch f g) s'" "frames (touch f g) = insert f (frames g)" by auto
  from same_mem_at(1)[OF s'(2) at2] obtain e' where e': "pte_at s' r = Some e'"
    "ref_eq (mark_used type e1) e'" by blast
  have "frame_no e' = f" using ref_eq_flags(4)[OF e'(2)] fr(1) by simp
  moreover have "f * SIMPAGESIZE < 2 ^ 32" using fr(2,3) by (simp add: SIMPAGESIZE_def)
  moreover have "mem_inv T (insert f (frames g)) s'"
    using inv same_mem_inv[OF s'(2)] by (auto simp: mem_inv_def)
  ultimately show ?thesis using s' e' by (intro exI[of _ s'] exI[of _ e']) simp
qed

lemma find_physpage_ok:
  assumes inv: "mem_inv T (frames g) s" and known: "frames_known (frames g) s"
    and pol: "pinv (Suc n) g s" and T: "page_of v \<in> T" and d: "unat (PGDIR_INDEX v) < PTRS_PER_PGDIR"
    and cnts: "counts_ok (Suc n) s"
  shows "\<exists>f g0 s'. find_physpage ref evict v type s = Ok (f * SIMPAGESIZE, s') \<and> f < memsize s \<and>
      ((resident s v f \<and> g0 = g \<and> f \<in> frames g \<and>
        accesses s' = (hit_count s + 1, miss_count s, ref_count s + 1) \<and> evictions s' = evictions s) \<or>
       ((\<forall>h. \<not> resident s v h) \<and> place (memsize s) g f g0 \<and>
        accesses s' = (hit_count s, miss_count s + 1, ref_count s + 1) \<and>
        evictions s' = evictions s + (if frames g = {..< memsize s} then 1 else 0))) \<and>
      mem_inv T (frames (touch f g0)) s' \<and> frames (touch f g0) = insert f (frames g0) \<and>
      frames_known (frames (touch f g0)) s' \<and> pinv n (touch f g0) s' \<and> counts_ok n s' \<and>
      memsize s' = memsize s \<and> map pte_ptr (coremap s') = (map pte_ptr (coremap s))[f := Some (page_of v)] \<and>
      abs_mem s' = (abs_mem s)(page_of v := Some (page_or_fresh (abs_mem s) v)) \<and>
      (\<exists>e. pte_at s' (page_of v) = Some e \<and> pte_valid e \<and> frame_no e = f \<and>
           (is_write type \<longrightarrow> pte_dirty e))"
proof -
  let ?r = "page_of v"
  from ready_table[OF inv pol d] obtain s0 e where
    tab: "(if pgdir s (unat (PGDIR_INDEX v)) = None then init_second_level (unat (PGDIR_INDEX v)) s
           else Ok s) = Ok s0"
    and inv0: "mem_inv T (frames g) s0" and pol0: "pinv (Suc n) g s0" and abs0: "abs_mem s0 = abs_mem s"
    and same0: "memsize s0 = memsize s" "coremap s0 = coremap s" "accesses s0 = accesses s"
      "evictions s0 = evictions s" "\<And>n. evict_room n s0 = evict_room n s"
    and e: "pte_at s0 ?r = Some e" and res: "\<And>f. resident s v f \<longleftrightarrow> pte_valid e \<and> frame_no e = f"
    by blast
  from inv0 obtain k where k: "mem_ok k T (frames g) s0" by (auto simp: mem_inv_def)
  have m20: "memsize s \<le> 2 ^ 20" "length (coremap s) = memsize s"
    using k same0 by (auto simp: mem_ok_def frames_ok_def)
  have less: "hit_count s0 < INT_MAX" "miss_count s0 < INT_MAX" "ref_count s0 < INT_MAX"
    using cnts same0(3) by (simp_all add: counts_ok_def accesses_def)
  have room0: "evict_room (Suc 0) s0"
    unfolding same0(5) using cnts by (simp add: counts_ok_def evict_room_def)
  have run: "find_physpage ref evict v type s =
      bind_o (if pte_valid e then Ok (s0\<lparr>hit_count := hit_count s0 + 1\<rparr>)
              else fault_in evict ?r (pte_onswap e) v s0)
       (\<lambda>s. bind_o (get_pte s ?r) (\<lambda>e.
        bind_o (ref ?r (set_pte ?r (mark_used type e) s)) (\<lambda>s.
        bind_o (incr_int (ref_count s)) (\<lambda>n.
        let s = s\<lparr>ref_count := n\<rparr> in
        bind_o (get_pte s ?r) (\<lambda>e. Ok ((frame_no e * SIMPAGESIZE) mod 2 ^ 32, s))))))"
    using tab e d less by (simp add: find_physpage_def Let_def page_of_def)
  show ?thesis
  proof (cases "pte_valid e")
    case True
    let ?s1 = "s0\<lparr>hit_count := hit_count s0 + 1\<rparr>"
    let ?f = "frame_no e"
    have ok: "entry_ok k T (frames g) s0 ?r e" by (rule mem_ok_entry[OF k e])
    then have fg: "?f \<in> frames g" and ptr: "pte_ptr (coremap s0 ! ?f) = Some ?r"
      using True by (auto simp: entry_ok_def)
    then have fm: "?f < memsize s" using k same0 by (auto simp: mem_ok_def frames_ok_def)
    have k1: "mem_ok k T (frames g) ?s1" using k by simp
    note mk = mark_ok[OF k1, of ?r e "mark_used type e"]
    have at1: "pte_at ?s1 ?r \<noteq> None" using e by simp
    have inv1: "mem_inv T (insert ?f (frames g)) (set_pte ?r (mark_used type e) ?s1)"
      using mk(1) e True fg by (auto simp: mem_inv_def insert_absorb)
    have pol1: "pinv (Suc n) g ?s1" by (rule pinv_cong[OF pol0]) simp_all
    from finish_reference[OF at1 inv1 refl _ _ pol1] fm m20 same0 obtain s' e' where
      fin: "ref ?r (set_pte ?r (mark_used type e) ?s1) = Ok s'"
      "same_mem (set_pte ?r (mark_used type e) ?s1) s'" "mem_inv T (frames (touch ?f g)) s'"
      "pinv n (touch ?f g) s'" "frames (touch ?f g) = insert ?f (frames g)" "pte_at s' ?r = Some e'"
      "ref_eq (mark_used type e) e'" "(frame_no e' * SIMPAGESIZE) mod 2 ^ 32 = ?f * SIMPAGESIZE"
      by auto
    let ?t = "s'\<lparr>ref_count := ref_count s' + 1\<rparr>"
    have acc: "accesses ?t = (hit_count s + 1, miss_count s, ref_count s + 1)"
      and cnt': "ref_count s' = ref_count s0" and rooms: "evict_room n ?t = evict_room n s"
      using fin(2) same0 by (auto simp: same_mem_def accesses_def evict_room_def)
    have "find_physpage ref evict v type s = Ok (?f * SIMPAGESIZE, ?t)"
      unfolding run using True e fin less(3) cnt' by (simp add: Let_def)
    moreover have "counts_ok n ?t"
      using acc rooms counts_ok_evict[OF cnts] evict_room_Suc[of n s]
      by (intro counts_ok_next[OF cnts]) simp_all
    moreover have "accesses ?t = (hit_count s + 1, miss_count s, ref_count s + 1)" "evictions ?t = evictions s"
      using fin(2) same0 by (auto simp: same_mem_def accesses_def evictions_def)
    moreover have "mem_inv T (frames (touch ?f g)) ?t" using fin(3) by (simp add: mem_inv_def)
    moreover have "pinv n (touch ?f g) ?t" by (rule pinv_cong[OF fin(4)]) simp_all
    moreover have "map pte_ptr (coremap ?t) = (map pte_ptr (coremap s))[?f := Some ?r]"
    proof -
      have "map pte_ptr (coremap s') = map pte_ptr (coremap s)" using fin(2) same0 by (simp add: same_mem_def)
      moreover have "map pte_ptr (coremap s) ! ?f = Some ?r" using ptr fm m20 same0 by simp
      then have "(map pte_ptr (coremap s))[?f := Some ?r] = map pte_ptr (coremap s)"
        by (metis list_update_id)
      ultimately show ?thesis by simp
    qed
    moreover have "frames_known (frames (touch ?f g)) ?t"
    proof -
      have "map in_use (coremap s') = map in_use (coremap s)" "memsize s' = memsize s"
        using fin(2) same0 by (auto simp: same_mem_def)
      then have "in_use (coremap s' ! h) = in_use (coremap s ! h)" if "h < memsize s" for h
        using that m20 by (metis length_map nth_map)
      with known \<open>memsize s' = memsize s\<close> show ?thesis by (simp add: frames_known_def fin(5))
    qed
    moreover have "abs_mem ?t = (abs_mem s)(?r := Some (page_or_fresh (abs_mem s) v))"
    proof -
      have "abs_mem ?t = abs_mem s"
        using same_mem_abs[OF fin(2)] mk(2) e True abs0 by simp
      moreover have "abs_mem s ?r \<noteq> None"
        unfolding abs0[symmetric] using e True by (simp add: abs_mem_def touched_def)
      ultimately show ?thesis by (auto simp: page_or_fresh_def fun_eq_iff)
    qed
    moreover have "\<exists>e. pte_at ?t ?r = Some e \<and> pte_valid e \<and> frame_no e = ?f \<and> (is_write type \<longrightarrow> pte_dirty e)"
      using fin(6) ref_eq_flags[OF fin(7)] by simp
    moreover have "memsize ?t = memsize s" using fin(2) same0 by (simp add: same_mem_def)
    ultimately show ?thesis
      using res True fg fm fin(5) by (intro exI[of _ ?f] exI[of _ g] exI[of _ ?t]) blast
  next
    case False
    have known0: "frames_known (frames g) s0" using known same0 by (simp add: frames_known_def)
    from fault_in_ok[OF inv0 known0 pol0 e False T room0 less(2), of v] obtain f g0 s1 e1 where
      flt: "fault_in evict ?r (pte_onswap e) v s0 = Ok (set_pte ?r e1 s1)" and f: "f < memsize s0"
      and pl: "place (memsize s0) g f g0" and pol1: "pinv (Suc n) g0 s1" and ms1: "memsize s1 = memsize s0"
      and maps: "map in_use (coremap s1) = (map in_use (coremap s0))[f := True]"
        "map pte_ptr (coremap s1) = (map pte_ptr (coremap s0))[f := Some ?r]"
      and cnt: "accesses s1 = (hit_count s0, miss_count s0 + 1, ref_count s0)"
        "evictions s1 = evictions s0 + (if frames g = {..< memsize s0} then 1 else 0)"
        "\<forall>n. evict_room (Suc n) s0 \<longrightarrow> evict_room n s1"
      and at1: "pte_at s1 ?r \<noteq> None" and fr1: "frame_no e1 = f"
      and eff: "\<And>type. mem_inv T (insert f (frames g0)) (set_pte ?r (mark_used type e1) s1)"
        "\<And>type. abs_mem (set_pte ?r (mark_used type e1) s1) =
          (abs_mem s0)(?r := Some (case abs_mem s0 ?r of Some bs \<Rightarrow> bs | None \<Rightarrow> fresh_page v))"
      by blast
    have fm: "f < memsize s1" "memsize s1 \<le> 2 ^ 20" using f ms1 same0 m20 by auto
    from finish_reference[OF at1 eff(1) fr1 fm pol1] obtain s' e' where
      fin: "ref ?r (set_pte ?r (mark_used type e1) s1) = Ok s'"
      "same_mem (set_pte ?r (mark_used type e1) s1) s'" "mem_inv T (frames (touch f g0)) s'"
      "pinv n (touch f g0) s'" "frames (touch f g0) = insert f (frames g0)" "pte_at s' ?r = Some e'"
      "ref_eq (mark_used type e1) e'" "(frame_no e' * SIMPAGESIZE) mod 2 ^ 32 = f * SIMPAGESIZE"
      by blast
    let ?t = "s'\<lparr>ref_count := ref_count s' + 1\<rparr>"
    have get: "get_pte (set_pte ?r e1 s1) ?r = Ok e1"
      using at1 by (auto simp: set_pte_at)
    have acc: "accesses ?t = (hit_count s, miss_count s + 1, ref_count s + 1)"
      and cnt': "ref_count s' = ref_count s0" and rooms: "evict_room n ?t = evict_room n s1"
      using fin(2) same0 cnt(1) by (auto simp: same_mem_def accesses_def evict_room_def)
    have "find_physpage ref evict v type s = Ok (f * SIMPAGESIZE, ?t)"
      unfolding run using False flt get fin less(3) cnt' by (simp add: Let_def set_pte_twice)
    moreover have "counts_ok n ?t"
      using acc rooms counts_ok_evict[OF cnts] same0(5) cnt(3)
      by (intro counts_ok_next[OF cnts]) simp_all
    moreover have "accesses ?t = (hit_count s, miss_count s + 1, ref_count s + 1)"
      "evictions ?t = evictions s + (if frames g = {..< memsize s} then 1 else 0)"
      using fin(2) same0 cnt by (auto simp: same_mem_def accesses_def evictions_def)
    moreover have "mem_inv T (frames (touch f g0)) ?t" using fin(3) by (simp add: mem_inv_def)
    moreover have "pinv n (touch f g0) ?t" by (rule pinv_cong[OF fin(4)]) simp_all
    moreover have "map pte_ptr (coremap ?t) = (map pte_ptr (coremap s))[f := Some ?r]"
      using fin(2) maps same0 by (simp add: same_mem_def)
    moreover have "frames_known (frames (touch f g0)) ?t"
    proof -
      have "map in_use (coremap s') = (map in_use (coremap s))[f := True]" "memsize s' = memsize s"
        using fin(2) same0 maps ms1 by (auto simp: same_mem_def)
      then have "in_use (coremap s' ! h) = (h = f \<or> in_use (coremap s ! h))" if "h < memsize s" for h
        using that m20(2) by (intro map_update_nth) simp_all
      with known \<open>memsize s' = memsize s\<close> place_frames[OF pl] show ?thesis
        by (auto simp: frames_known_def fin(5))
    qed
    moreover have "abs_mem ?t = (abs_mem s)(?r := Some (page_or_fresh (abs_mem s) v))"
      using same_mem_abs[OF fin(2)] eff(2)[of type] abs0 by (simp add: page_or_fresh_def)
    moreover have "\<exists>e. pte_at ?t ?r = Some e \<and> pte_valid e \<and> frame_no e = f \<and> (is_write type \<longrightarrow> pte_dirty e)"
      using fin(6) ref_eq_flags[OF fin(7)] fr1 by simp
    moreover have "memsize ?t = memsize s" using fin(2) same0 ms1 by (simp add: same_mem_def)
    moreover have "\<forall>h. \<not> resident s v h" "f < memsize s" "place (memsize s) g f g0"
      using res False f pl same0 by simp_all
    ultimately show ?thesis
      using fin(5) by (intro exI[of _ f] exI[of _ g0] exI[of _ ?t]) blast
  qed
qed

end

end
