(* ===== verification/Access.thy ===== *)
theory Access
  imports Translation
begin

text \<open>
  Memory accesses and traces over any replacement algorithm that keeps its contract: the
  paged memory behaves like \<open>spec_access\<close>, an abstract memory without frames or swap.
\<close>

section \<open>The bytes of a frame\<close>

lemma frame_bytes_nth: "j < SIMPAGESIZE \<Longrightarrow> frame_bytes s f ! j = physmem s (f * SIMPAGESIZE + j)"
  by (simp add: frame_bytes_def)

lemma load_frame_bytes:
  assumes "a + n \<le> SIMPAGESIZE"
  shows "load_le n (physmem s) (f * SIMPAGESIZE + a) = load_le n (nth (frame_bytes s f)) a"
proof -
  have "load_le n (nth (frame_bytes s f)) a = load_le n (physmem s) (a + f * SIMPAGESIZE)"
    using assms by (intro load_le_cong) (simp add: frame_bytes_nth add.commute)
  then show ?thesis by (simp add: add.commute)
qed

definition bump_frame :: "bytes \<Rightarrow> nat \<Rightarrow> bytes" where
  "bump_frame m a = store_le 4 (load_le 4 m a + 1) m a"

lemma frame_bytes_bump:
  "frame_bytes (s\<lparr>physmem := bump_frame (physmem s) (f * SIMPAGESIZE)\<rparr>) f = bump_version (frame_bytes s f)"
proof (rule nth_equalityI)
  fix j assume "j < length (frame_bytes (s\<lparr>physmem := bump_frame (physmem s) (f * SIMPAGESIZE)\<rparr>) f)"
  then have j: "j < SIMPAGESIZE" by (simp add: frame_bytes_def)
  have "load_le 4 (physmem s) (f * SIMPAGESIZE + 0) = load_le 4 (nth (frame_bytes s f)) 0"
    by (rule load_frame_bytes) (simp add: SIMPAGESIZE_def)
  with j show "frame_bytes (s\<lparr>physmem := bump_frame (physmem s) (f * SIMPAGESIZE)\<rparr>) f ! j =
      bump_version (frame_bytes s f) ! j"
    by (simp add: frame_bytes_nth bump_frame_def bump_version_def store_le_def)
qed (simp add: frame_bytes_def bump_version_def)

lemma frame_bytes_bump_other:
  "f \<noteq> h \<Longrightarrow> frame_bytes (s\<lparr>physmem := bump_frame (physmem s) (f * SIMPAGESIZE)\<rparr>) h = frame_bytes s h"
  using page_disjoint[of f h]
  by (auto simp: frame_bytes_def bump_frame_def store_le_def SIMPAGESIZE_def)

section \<open>One access\<close>

text \<open>Where the frame of an access comes from, and what the counters then show.\<close>

definition counted :: "'z core_scheme \<Rightarrow> bool \<Rightarrow> bool \<Rightarrow> 'z core_scheme \<Rightarrow> bool" where
  "counted s hit full s' \<longleftrightarrow>
     accesses s' = (hit_count s + (if hit then 1 else 0), miss_count s + (if hit then 0 else 1), ref_count s + 1) \<and>
     evictions s' = evictions s + (if \<not> hit \<and> full then 1 else 0)"

context replacement
begin

definition ready :: "pte_ref set \<Rightarrow> nat \<Rightarrow> 'g \<Rightarrow> 'z core_scheme \<Rightarrow> bool" where
  "ready T n g s \<longleftrightarrow>
     mem_inv T (frames g) s \<and> frames_known (frames g) s \<and> pinv n g s \<and> counts_ok n s"

definition chosen :: "'g \<Rightarrow> 'z core_scheme \<Rightarrow> u64 \<Rightarrow> nat \<Rightarrow> 'g \<Rightarrow> bool" where
  "chosen g s v f g0 \<longleftrightarrow>
     (resident s v f \<and> g0 = g \<and> f \<in> frames g) \<or>
     ((\<forall>h. \<not> resident s v h) \<and> place (memsize s) g f g0)"

lemma access_mem_ok:
  assumes rd: "ready T (Suc n) g s" and T: "page_of v \<in> T" and d: "unat (PGDIR_INDEX v) < PTRS_PER_PGDIR"
  shows "\<exists>f g0 s'. access_mem ref evict type v s = Ok (fst (spec_access type v (abs_mem s)), s') \<and>
      abs_mem s' = snd (spec_access type v (abs_mem s)) \<and>
      f < memsize s \<and> chosen g s v f g0 \<and>
      counted s (\<exists>h. resident s v h) (frames g = {..< memsize s}) s' \<and>
      ready T n (touch f g0) s' \<and> frames (touch f g0) = insert f (frames g0) \<and>
      memsize s' = memsize s \<and>
      map pte_ptr (coremap s') = (map pte_ptr (coremap s))[f := Some (page_of v)]"
proof -
  let ?r = "page_of v"
  let ?bs = "page_or_fresh (abs_mem s) v"
  from rd have inv: "mem_inv T (frames g) s" "frames_known (frames g) s" "pinv (Suc n) g s"
    and cnts: "counts_ok (Suc n) s" by (auto simp: ready_def)
  from find_physpage_ok[OF inv T d cnts, of type] obtain f g0 s1 where
    run: "find_physpage ref evict v type s = Ok (f * SIMPAGESIZE, s1)" and f: "f < memsize s"
    and how: "(resident s v f \<and> g0 = g \<and> f \<in> frames g \<and>
        accesses s1 = (hit_count s + 1, miss_count s, ref_count s + 1) \<and> evictions s1 = evictions s) \<or>
       ((\<forall>h. \<not> resident s v h) \<and> place (memsize s) g f g0 \<and>
        accesses s1 = (hit_count s, miss_count s + 1, ref_count s + 1) \<and>
        evictions s1 = evictions s + (if frames g = {..< memsize s} then 1 else 0))"
    and inv1: "mem_inv T (frames (touch f g0)) s1" and fr: "frames (touch f g0) = insert f (frames g0)"
    and known1: "frames_known (frames (touch f g0)) s1" and pol1: "pinv n (touch f g0) s1" and cnts1: "counts_ok n s1"
    and ms1: "memsize s1 = memsize s"
    and ptr1: "map pte_ptr (coremap s1) = (map pte_ptr (coremap s))[f := Some ?r]"
    and abs1: "abs_mem s1 = (abs_mem s)(?r := Some ?bs)"
    and e: "\<exists>e. pte_at s1 ?r = Some e \<and> pte_valid e \<and> frame_no e = f \<and> (is_write type \<longrightarrow> pte_dirty e)"
    by blast
  from e obtain e where e: "pte_at s1 ?r = Some e" "pte_valid e" "frame_no e = f"
    "is_write type \<Longrightarrow> pte_dirty e" by blast
  from inv1 obtain k where k: "mem_ok k T (frames (touch f g0)) s1" by (auto simp: mem_inv_def)
  have fb: "frame_bytes s1 f = ?bs"
    using fun_cong[OF abs1, of ?r] e by (simp add: abs_mem_def page_bytes_def touched_def)
  have "memsize s \<le> 2 ^ 20" using k ms1 by (simp add: mem_ok_def frames_ok_def)
  then have inside: "f * SIMPAGESIZE + SIMPAGESIZE \<le> (memsize s1 * SIMPAGESIZE) mod 2 ^ 32"
    using f ms1 by (simp add: SIMPAGESIZE_def)
  have rec: "load_le 8 (physmem s1) (f * SIMPAGESIZE + 4) = recorded_addr ?bs"
    unfolding recorded_addr_def fb[symmetric] by (rule load_frame_bytes) (simp add: SIMPAGESIZE_def)
  let ?pm = "bump_frame (physmem s1) (f * SIMPAGESIZE)"
  let ?s2 = "if is_write type then s1\<lparr>physmem := ?pm\<rparr> else s1"
  have acc: "access_mem ref evict type v s = Ok (fst (spec_access type v (abs_mem s)), ?s2)"
    using inside rec by (simp add: access_mem_def run Let_def spec_access_def bump_frame_def)
  have abs2: "abs_mem ?s2 = snd (spec_access type v (abs_mem s))"
    and k2: "mem_ok k T (frames (touch f g0)) ?s2"
  proof -
    show "mem_ok k T (frames (touch f g0)) ?s2"
      using write_ok(1)[OF k e(1,2), of ?pm] frame_bytes_bump_other[of f _ s1] e k by auto
    show "abs_mem ?s2 = snd (spec_access type v (abs_mem s))"
    proof (cases "is_write type")
      case True
      have "abs_mem (s1\<lparr>physmem := ?pm\<rparr>) = (abs_mem s1)(?r := Some (bump_version ?bs))"
        using write_ok(2)[OF k e(1,2), of ?pm] frame_bytes_bump_other[of f _ s1]
          frame_bytes_bump[of s1 f] e True fb by simp
      with True show ?thesis by (simp add: spec_access_def Let_def abs1)
    qed (simp add: spec_access_def Let_def abs1)
  qed
  have flds: "core.more ?s2 = core.more s1" "memsize ?s2 = memsize s1" "coremap ?s2 = coremap s1"
    "accesses ?s2 = accesses s1" "evictions ?s2 = evictions s1"
    by (simp_all add: accesses_def evictions_def)
  have "pinv n (touch f g0) ?s2" using flds by (intro pinv_cong[OF pol1]) simp_all
  then have "ready T n (touch f g0) ?s2"
    using k2 known1 flds cnts1
    by (auto simp: ready_def mem_inv_def frames_known_def counts_ok_def evict_room_def)
  moreover have "chosen g s v f g0" using how by (auto simp: chosen_def)
  moreover have "counted s (\<exists>h. resident s v h) (frames g = {..< memsize s}) ?s2"
    using how flds by (auto simp: counted_def)
  ultimately show ?thesis
    using acc abs2 f fr ms1 ptr1 flds by (intro exI[of _ f] exI[of _ g0] exI[of _ ?s2]) simp
qed

section \<open>The frames and their pages\<close>

lemma ready_owner:
  assumes "ready T n g s" and "h \<in> frames g"
  shows "\<exists>r e. pte_ptr (coremap s ! h) = Some r \<and> pte_at s r = Some e \<and> pte_valid e \<and> frame_no e = h"
  using assms by (auto simp: ready_def mem_inv_def mem_ok_def frames_ok_def)

lemma resident_iff:
  assumes "ready T n g s"
  shows "resident s v h \<longleftrightarrow> h \<in> frames g \<and> pte_ptr (coremap s ! h) = Some (page_of v)"
proof
  assume "resident s v h"
  then obtain e where e: "pte_at s (page_of v) = Some e" "pte_valid e" "frame_no e = h"
    by (auto simp: resident_def)
  from assms obtain k where "mem_ok k T (frames g) s" by (auto simp: ready_def mem_inv_def)
  from mem_ok_entry[OF this e(1)] e show "h \<in> frames g \<and> pte_ptr (coremap s ! h) = Some (page_of v)"
    by (auto simp: entry_ok_def)
next
  assume "h \<in> frames g \<and> pte_ptr (coremap s ! h) = Some (page_of v)"
  with ready_owner[OF assms, of h] show "resident s v h" by (auto simp: resident_def)
qed

lemma ready_bounds:
  assumes "ready T n g s"
  shows "frames g \<subseteq> {..< memsize s}" "length (coremap s) = memsize s" "0 < memsize s"
  using assms by (auto simp: ready_def mem_inv_def mem_ok_def frames_ok_def)

text \<open>A miss takes a free frame or one that is evicted: the pages in memory are the misses less
  the evictions.\<close>

lemma frames_counted:
  assumes rd: "ready T n g s" and ch: "chosen g s v f g0"
    and cnt: "counted s (\<exists>h. resident s v h) (frames g = {..< memsize s}) s'"
    and fr: "frames (touch f g0) = insert f (frames g0)"
  shows "miss_count s' - evictions s' - int (card (frames (touch f g0))) =
         miss_count s - evictions s - int (card (frames g))"
proof -
  have fin: "finite (frames g)" using ready_bounds(1)[OF rd] finite_subset by blast
  from ch show ?thesis
    unfolding chosen_def
  proof (elim disjE conjE)
    assume "resident s v f" "g0 = g" "f \<in> frames g"
    then show ?thesis using cnt fr by (auto simp: counted_def accesses_def insert_absorb)
  next
    assume no: "\<forall>h. \<not> resident s v h" and pl: "place (memsize s) g f g0"
    have "card (frames (touch f g0)) = card (frames g) + (if frames g = {..< memsize s} then 0 else 1)"
      unfolding fr place_frames[OF pl] using pl fin
      by (auto simp: place_def insert_absorb card_insert_if simp flip: insert_Diff)
    with cnt no show ?thesis by (auto simp: counted_def accesses_def)
  qed
qed

section \<open>Traces\<close>

lemma replay_ok:
  assumes "ready T (length tr) g s"
    and "\<forall>(type, v) \<in> set tr. page_of v \<in> T \<and> unat (PGDIR_INDEX v) < PTRS_PER_PGDIR"
  shows "\<exists>g' s'. replay ref evict tr s = Ok s' \<and> ready T 0 g' s' \<and>
           abs_mem s' = fold (\<lambda>(type, v) m. snd (spec_access type v m)) tr (abs_mem s) \<and>
           ref_count s' = ref_count s + int (length tr) \<and>
           hit_count s' + miss_count s' = hit_count s + miss_count s + int (length tr) \<and>
           miss_count s' - evictions s' - int (card (frames g')) =
             miss_count s - evictions s - int (card (frames g))"
  using assms
proof (induction tr arbitrary: g s)
  case Nil
  then show ?case by auto
next
  case (Cons a tr)
  obtain type v where a: "a = (type, v)" by (cases a)
  have rd: "ready T (Suc (length tr)) g s" using Cons.prems(1) by simp
  have ok: "page_of v \<in> T" "unat (PGDIR_INDEX v) < PTRS_PER_PGDIR" using Cons.prems(2) a by auto
  from access_mem_ok[OF rd ok, of type] obtain f g0 s1 where
    s1: "access_mem ref evict type v s = Ok (fst (spec_access type v (abs_mem s)), s1)"
    "abs_mem s1 = snd (spec_access type v (abs_mem s))" "ready T (length tr) (touch f g0) s1"
    "chosen g s v f g0" "frames (touch f g0) = insert f (frames g0)"
    and cnt: "counted s (\<exists>h. resident s v h) (frames g = {..< memsize s}) s1" by blast
  from Cons.IH[OF s1(3)] Cons.prems(2) obtain g' s' where
    s': "replay ref evict tr s1 = Ok s'" "ready T 0 g' s'"
    "abs_mem s' = fold (\<lambda>(type, v) m. snd (spec_access type v m)) tr (abs_mem s1)"
    "ref_count s' = ref_count s1 + int (length tr)"
    "hit_count s' + miss_count s' = hit_count s1 + miss_count s1 + int (length tr)"
    "miss_count s' - evictions s' - int (card (frames g')) =
      miss_count s1 - evictions s1 - int (card (frames (touch f g0)))" by auto
  moreover note frames_counted[OF rd s1(4) cnt s1(5)]
  ultimately show ?case
    using s1 cnt a by (intro exI[of _ g'] exI[of _ s']) (auto simp: counted_def accesses_def)
qed

end

end
