(* ===== verification/Ring_Queue.thy ===== *)
theory Ring_Queue
  imports Prelude
begin

text \<open>
  The circular queue of \<^verbatim>\<open>a2/starter/fifo.c\<close>: an array of ints in which \<open>-1\<close> marks an
  empty slot, with the indices of its two ends (never negative: they start at 0 and change
  only by \<open>(x + 1) % size\<close>). A relation \<open>rq_rep\<close> says which list a queue stands for; the
  locale \<open>fifo_queue\<close> states the contract, interpreted on these operations.
\<close>

section \<open>The C operations\<close>

record queue =
  qsize :: nat
  qfront :: nat
  qback :: nat
  slots :: "int list"

definition EMPTY_QUEUE_SLOT :: int where
  "EMPTY_QUEUE_SLOT = -1"

definition initContents :: "nat \<Rightarrow> int list" where
  "initContents n = replicate n EMPTY_QUEUE_SLOT"

definition makeQueue :: "nat \<Rightarrow> queue" where
  "makeQueue n = \<lparr>qsize = n, qfront = 0, qback = 0, slots = initContents n\<rparr>"

definition enqueue :: "queue \<Rightarrow> int \<Rightarrow> queue outcome" where
  "enqueue q v =
     bind_o (defined_o (qback q < length (slots q) \<and> qsize q \<noteq> 0)) (\<lambda>_.
     Ok (q\<lparr>slots := (slots q)[qback q := v], qback := (qback q + 1) mod qsize q\<rparr>))"

definition dequeue :: "queue \<Rightarrow> (int \<times> queue) outcome" where
  "dequeue q =
     bind_o (defined_o (qfront q < length (slots q))) (\<lambda>_.
     let ret = slots q ! qfront q in
     if ret \<noteq> EMPTY_QUEUE_SLOT then
       bind_o (defined_o (qsize q \<noteq> 0)) (\<lambda>_.
       Ok (ret, q\<lparr>slots := (slots q)[qfront q := EMPTY_QUEUE_SLOT],
                  qfront := (qfront q + 1) mod qsize q\<rparr>))
     else Ok (ret, q))"

fun contains_loop :: "nat \<Rightarrow> nat \<Rightarrow> int list \<Rightarrow> int \<Rightarrow> bool outcome" where
  "contains_loop 0 i cs v = Ok False"
| "contains_loop (Suc n) i cs v =
     (if i < length cs then
        (if cs ! i = v then Ok True else contains_loop n (Suc i) cs v)
      else Undef)"

definition contains :: "queue \<Rightarrow> int \<Rightarrow> bool outcome" where
  "contains q v = contains_loop (qsize q) 0 (slots q) v"

section \<open>The list a queue stands for\<close>

definition rq_rep :: "queue \<Rightarrow> int list \<Rightarrow> bool" where
  "rq_rep q xs \<longleftrightarrow>
     length (slots q) = qsize q \<and> 0 < qsize q \<and> length xs \<le> qsize q \<and>
     EMPTY_QUEUE_SLOT \<notin> set xs \<and> qfront q < qsize q \<and>
     qback q = (qfront q + length xs) mod qsize q \<and>
     (\<forall>i < qsize q. slots q ! ((qfront q + i) mod qsize q) =
        (if i < length xs then xs ! i else EMPTY_QUEUE_SLOT))"

lemma makeQueue_rep: "0 < n \<Longrightarrow> rq_rep (makeQueue n) []"
  by (simp add: rq_rep_def makeQueue_def initContents_def)

text \<open>Different distances from the front are different slots, and every slot is at one.\<close>

lemma ring_inj:
  fixes f i j n :: nat
  assumes "i < n" and "j < n" and "(f + i) mod n = (f + j) mod n"
  shows "i = j"
proof -
  have "\<not> a < b" if "a < n" "b < n" "(f + a) mod n = (f + b) mod n" for a b :: nat
  proof
    assume "a < b"
    then have "n dvd (f + b) - (f + a)"
      using that(3) by (intro mod_eq_dvd_iff_nat[THEN iffD1]) auto
    then show False using \<open>a < b\<close> that(2) nat_dvd_not_less[of "b - a" n] by simp
  qed
  from this[of i j] this[of j i] assms show ?thesis by simp
qed

lemma ring_surj:
  fixes f j n :: nat
  assumes "f < n" and "j < n"
  shows "\<exists>i < n. (f + i) mod n = j"
proof (cases "f \<le> j")
  case True
  then show ?thesis using assms by (intro exI[of _ "j - f"]) auto
next
  case False
  then show ?thesis using assms by (intro exI[of _ "n - f + j"]) auto
qed

lemma enqueue_rep:
  assumes rep: "rq_rep q xs" and room: "length xs < qsize q" and v: "v \<noteq> EMPTY_QUEUE_SLOT"
  shows "\<exists>q'. enqueue q v = Ok q' \<and> rq_rep q' (xs @ [v]) \<and> qsize q' = qsize q"
proof -
  let ?n = "qsize q"
  let ?q' = "q\<lparr>slots := (slots q)[qback q := v], qback := (qback q + 1) mod ?n\<rparr>"
  have n: "0 < ?n" "length (slots q) = ?n" "qback q = (qfront q + length xs) mod ?n" "qback q < ?n"
    using rep by (auto simp: rq_rep_def)
  have "slots ?q' ! ((qfront q + i) mod ?n) = (if i < length (xs @ [v]) then (xs @ [v]) ! i else EMPTY_QUEUE_SLOT)"
    if i: "i < ?n" for i
  proof (cases "i = length xs")
    case True
    then show ?thesis using n by simp
  next
    case False
    then have "(qfront q + i) mod ?n \<noteq> qback q" using ring_inj[OF i room, of "qfront q"] n by auto
    then show ?thesis using rep i False by (auto simp: rq_rep_def nth_append)
  qed
  moreover have "(qback q + 1) mod ?n = (qfront q + length (xs @ [v])) mod ?n"
    using n by (simp add: mod_Suc_eq)
  ultimately have "rq_rep ?q' (xs @ [v])"
    using rep room v unfolding rq_rep_def by auto
  with n show ?thesis by (simp add: enqueue_def)
qed

lemma dequeue_rep:
  assumes rep: "rq_rep q (x # xs)"
  shows "\<exists>q'. dequeue q = Ok (x, q') \<and> rq_rep q' xs \<and> qsize q' = qsize q"
proof -
  let ?n = "qsize q"
  let ?q' = "q\<lparr>slots := (slots q)[qfront q := EMPTY_QUEUE_SLOT], qfront := (qfront q + 1) mod ?n\<rparr>"
  have n: "0 < ?n" "length (slots q) = ?n" "qfront q < ?n" "x \<noteq> EMPTY_QUEUE_SLOT" "length xs < ?n"
    using rep by (auto simp: rq_rep_def)
  have at: "slots q ! ((qfront q + i) mod ?n) = (if i < Suc (length xs) then (x # xs) ! i else EMPTY_QUEUE_SLOT)"
    if "i < ?n" for i
    using rep that by (simp add: rq_rep_def)
  have x: "slots q ! qfront q = x" using at[of 0] n by simp
  have "slots ?q' ! (((qfront q + 1) mod ?n + i) mod ?n) = (if i < length xs then xs ! i else EMPTY_QUEUE_SLOT)"
    if i: "i < ?n" for i
  proof -
    have eq: "((qfront q + 1) mod ?n + i) mod ?n = (qfront q + Suc i) mod ?n"
      by (simp add: mod_add_left_eq)
    show ?thesis
    proof (cases "Suc i = ?n")
      case True
      then have "(qfront q + Suc i) mod ?n = qfront q" using n by simp
      then show ?thesis unfolding eq using n True by simp
    next
      case False
      with i have si: "Suc i < ?n" by simp
      have "(qfront q + Suc i) mod ?n \<noteq> qfront q"
        using ring_inj[OF si n(1), of "qfront q"] n by auto
      then show ?thesis unfolding eq using at[OF si] by simp
    qed
  qed
  moreover have "qback q = ((qfront q + 1) mod ?n + length xs) mod ?n"
    using rep by (simp add: rq_rep_def mod_add_left_eq)
  ultimately have "rq_rep ?q' xs"
    using rep unfolding rq_rep_def by auto
  with n x show ?thesis by (simp add: dequeue_def)
qed

lemma dequeue_empty: "rq_rep q [] \<Longrightarrow> dequeue q = Ok (EMPTY_QUEUE_SLOT, q)"
  by (auto simp: rq_rep_def dequeue_def Let_def dest!: spec[of _ 0])

lemma contains_loop_spec:
  "i + n \<le> length cs \<Longrightarrow> contains_loop n i cs v = Ok (v \<in> set (take n (drop i cs)))"
proof (induction n i cs v rule: contains_loop.induct)
  case (2 n i cs v)
  then have "take (Suc n) (drop i cs) = cs ! i # take n (drop (Suc i) cs)"
    by (simp add: Cons_nth_drop_Suc[symmetric])
  with 2 show ?case by auto
qed simp

lemma contains_rep:
  assumes rep: "rq_rep q xs" and v: "v \<noteq> EMPTY_QUEUE_SLOT"
  shows "contains q v = Ok (v \<in> set xs)"
proof -
  let ?n = "qsize q"
  have n: "length (slots q) = ?n" "qfront q < ?n" "length xs \<le> ?n"
    and at: "\<And>i. i < ?n \<Longrightarrow> slots q ! ((qfront q + i) mod ?n) = (if i < length xs then xs ! i else EMPTY_QUEUE_SLOT)"
    using rep by (auto simp: rq_rep_def)
  have "v \<in> set (slots q) \<longleftrightarrow> v \<in> set xs"
  proof
    assume "v \<in> set (slots q)"
    then obtain j where j: "j < ?n" "slots q ! j = v" using n by (auto simp: in_set_conv_nth)
    from ring_surj[OF n(2) j(1)] obtain i where "i < ?n" "(qfront q + i) mod ?n = j" by blast
    with at[of i] j v show "v \<in> set xs" by (auto split: if_splits)
  next
    assume "v \<in> set xs"
    then obtain i where i: "i < length xs" "xs ! i = v" by (auto simp: in_set_conv_nth)
    then have "slots q ! ((qfront q + i) mod ?n) = v" using at[of i] n by simp
    moreover have "(qfront q + i) mod ?n < length (slots q)" using n by simp
    ultimately show "v \<in> set (slots q)" by (metis nth_mem)
  qed
  then show ?thesis using contains_loop_spec[of 0 ?n "slots q" v] n by (simp add: contains_def)
qed

section \<open>The interface\<close>

locale fifo_queue =
  fixes enq_op :: "'q \<Rightarrow> int \<Rightarrow> 'q outcome"
    and deq_op :: "'q \<Rightarrow> (int \<times> 'q) outcome"
    and mem_op :: "'q \<Rightarrow> int \<Rightarrow> bool outcome"
    and rep :: "'q \<Rightarrow> int list \<Rightarrow> bool"
    and room :: "'q \<Rightarrow> nat"
    and empty_mark :: int
  assumes enq_law: "rep q xs \<Longrightarrow> length xs < room q \<Longrightarrow> v \<noteq> empty_mark \<Longrightarrow>
      \<exists>q'. enq_op q v = Ok q' \<and> rep q' (xs @ [v]) \<and> room q' = room q"
    and deq_law: "rep q (x # xs) \<Longrightarrow> \<exists>q'. deq_op q = Ok (x, q') \<and> rep q' xs \<and> room q' = room q"
    and deq_empty_law: "rep q [] \<Longrightarrow> deq_op q = Ok (empty_mark, q)"
    and mem_law: "rep q xs \<Longrightarrow> v \<noteq> empty_mark \<Longrightarrow> mem_op q v = Ok (v \<in> set xs)"
begin

text \<open>Enqueueing only what is missing keeps the queue free of duplicates.\<close>

definition enq_new :: "'q \<Rightarrow> int \<Rightarrow> 'q outcome" where
  "enq_new q v = bind_o (mem_op q v) (\<lambda>present. if \<not> present then enq_op q v else Ok q)"

lemma enq_new_ok:
  assumes "rep q xs" and "distinct xs" and "v \<notin> set xs \<Longrightarrow> length xs < room q" and "v \<noteq> empty_mark"
  shows "\<exists>q'. enq_new q v = Ok q' \<and> rep q' (if v \<in> set xs then xs else xs @ [v]) \<and> room q' = room q"
  using assms enq_law[of q xs v] mem_law[of q xs v] by (auto simp: enq_new_def)

end

interpretation rq: fifo_queue enqueue dequeue contains rq_rep qsize EMPTY_QUEUE_SLOT
  by unfold_locales
    (use enqueue_rep dequeue_rep dequeue_empty contains_rep in blast)+

end
