(* ===== verification/Dyn_List.thy ===== *)
theory Dyn_List
  imports Prelude
begin

text \<open>
  The growing pointer array \<open>List\<close> of \<^verbatim>\<open>a2/starter/opt.c\<close> (the same text as
  \<^verbatim>\<open>a3/list.h\<close>): an allocated array of pointers, the number of entries in use and the
  capacity. A pointer is \<open>None\<close> for NULL. The loops of the code count in an \<open>int\<close>: the
  definitions are faithful for arrays of fewer than \<open>2^31\<close> pointers, as every array is for
  fewer than \<open>2^30\<close> entries. The interface the other components use is the
  locale \<open>stack_list\<close>, interpreted on these operations.
\<close>

section \<open>The C operations\<close>

record 'a dlist =
  contents :: "'a option list"
  count :: nat
  capacity :: nat

definition initNullContents :: "nat \<Rightarrow> 'a option list" where
  "initNullContents n = replicate n None"

definition makeList :: "nat \<Rightarrow> 'a dlist" where
  "makeList n = \<lparr>contents = initNullContents n, count = 0, capacity = n\<rparr>"

text \<open>What is left of the structure when \<open>destroyList\<close> hands it to \<open>free\<close>.\<close>

definition destroyList :: "'a dlist \<Rightarrow> 'a dlist" where
  "destroyList l = l\<lparr>contents := [], count := 0, capacity := 0\<rparr>"

text \<open>The copy loop of \<open>transferContents\<close>, from index \<open>i\<close> on, for \<open>n\<close> entries.\<close>

fun copy_loop :: "nat \<Rightarrow> nat \<Rightarrow> 'a option list \<Rightarrow> 'a option list \<Rightarrow> 'a option list outcome" where
  "copy_loop 0 i old ret = Ok ret"
| "copy_loop (Suc n) i old ret =
     (if i < length old \<and> i < length ret then copy_loop n (Suc i) old (ret[i := old ! i])
      else Undef)"

definition transferContents :: "nat \<Rightarrow> nat \<Rightarrow> 'a option list \<Rightarrow> 'a option list outcome" where
  "transferContents oldSize newSize oldContents =
     copy_loop oldSize 0 oldContents (initNullContents newSize)"

definition listAppend :: "'a dlist \<Rightarrow> 'a option \<Rightarrow> 'a dlist outcome" where
  "listAppend l v =
     bind_o
       (if count l = capacity l then
          let oldSize = capacity l; newSize = oldSize * 2 in
          bind_o (transferContents oldSize newSize (contents l)) (\<lambda>newContents.
          Ok (l\<lparr>contents := newContents, capacity := newSize\<rparr>))
        else Ok l)
       (\<lambda>l1. bind_o (defined_o (count l1 < length (contents l1))) (\<lambda>_.
          Ok (l1\<lparr>contents := (contents l1)[count l1 := v], count := count l1 + 1\<rparr>)))"

fun find_loop :: "nat \<Rightarrow> nat \<Rightarrow> 'a option list \<Rightarrow> 'a option \<Rightarrow> int" where
  "find_loop 0 i cs v = -1"
| "find_loop (Suc n) i cs v = (if cs ! i = v then int i else find_loop n (Suc i) cs v)"

text \<open>Reads of the first \<open>count\<close> entries are inside the array as long as \<open>dl_inv\<close> holds.\<close>

definition listFind :: "'a dlist \<Rightarrow> 'a option \<Rightarrow> int" where
  "listFind l v = find_loop (count l) 0 (contents l) v"

fun shift_loop :: "nat \<Rightarrow> nat \<Rightarrow> 'a option list \<Rightarrow> 'a option list" where
  "shift_loop 0 i cs = cs"
| "shift_loop (Suc n) i cs = shift_loop n (Suc i) (cs[i := cs ! Suc i])"

text \<open>
  \<open>list->count - 1\<close> is an unsigned 64-bit subtraction: for an empty list it is \<open>2^64 - 1\<close>,
  so a non-negative index passes the bounds test and the shift loop runs off the array.
\<close>

definition count_pred :: "nat \<Rightarrow> nat" where
  "count_pred n = (if n = 0 then 2 ^ 64 - 1 else n - 1)"

definition listRemove :: "'a dlist \<Rightarrow> int \<Rightarrow> ('a option \<times> 'a dlist) outcome" where
  "listRemove l index =
     (if index < 0 \<or> nat index > count_pred (count l) then Ok (None, l)
      else
        bind_o (defined_o (count l \<noteq> 0 \<and> count l \<le> length (contents l))) (\<lambda>_.
        let i = nat index;
            deleted = contents l ! i;
            shifted = shift_loop (count l - 1 - i) i (contents l)
        in Ok (deleted,
               l\<lparr>contents := shifted[count l - 1 := None], count := count l - 1\<rparr>)))"

definition listDelete :: "'a dlist \<Rightarrow> 'a option \<Rightarrow> 'a dlist outcome" where
  "listDelete l v =
     (let ind = listFind l v in
      if ind = -1 then Ok l else bind_o (listRemove l ind) (\<lambda>(_, l'). Ok l'))"

definition listPop :: "'a dlist \<Rightarrow> ('a option \<times> 'a dlist) outcome" where
  "listPop l = listRemove l (int (count l) - 1)"

definition listPeek :: "'a dlist \<Rightarrow> 'a option outcome" where
  "listPeek l =
     (if count l = 0 then Ok None
      else bind_o (defined_o (count l - 1 < length (contents l))) (\<lambda>_.
           Ok (contents l ! (count l - 1))))"

section \<open>Invariant and abstraction to lists\<close>

definition dl_inv :: "'a dlist \<Rightarrow> bool" where
  "dl_inv l \<longleftrightarrow> capacity l = length (contents l) \<and> count l \<le> capacity l \<and> 0 < capacity l"

definition dl_abs :: "'a dlist \<Rightarrow> 'a option list" where
  "dl_abs l = take (count l) (contents l)"

lemma length_dl_abs [simp]: "dl_inv l \<Longrightarrow> length (dl_abs l) = count l"
  by (simp add: dl_inv_def dl_abs_def)

lemma nth_dl_abs: "dl_inv l \<Longrightarrow> i < count l \<Longrightarrow> dl_abs l ! i = contents l ! i"
  by (simp add: dl_inv_def dl_abs_def)

lemma makeList_ok: "0 < n \<Longrightarrow> dl_inv (makeList n) \<and> dl_abs (makeList n) = []"
  by (simp add: dl_inv_def dl_abs_def makeList_def initNullContents_def)

lemma copy_loop_ok:
  "i + n \<le> length old \<Longrightarrow> i + n \<le> length ret \<Longrightarrow>
     copy_loop n i old ret = Ok (take i ret @ take n (drop i old) @ drop (i + n) ret)"
proof (induction n i old ret rule: copy_loop.induct)
  case (1 i old ret)
  then show ?case by simp
next
  case (2 n i old ret)
  have "copy_loop n (Suc i) old (ret[i := old ! i]) =
     Ok (take (Suc i) (ret[i := old ! i]) @ take n (drop (Suc i) old) @
         drop (Suc i + n) (ret[i := old ! i]))"
    using 2 by simp
  moreover have "take (Suc i) (ret[i := old ! i]) = take i ret @ [old ! i]"
    using 2 by (simp add: take_Suc_conv_app_nth)
  moreover have "old ! i # take n (drop (Suc i) old) = take (Suc n) (drop i old)"
    using 2 by (simp add: Cons_nth_drop_Suc[symmetric])
  ultimately show ?case using 2 by simp
qed

lemma transferContents_ok:
  "oldSize = length old \<Longrightarrow> oldSize \<le> newSize \<Longrightarrow>
     transferContents oldSize newSize old = Ok (old @ replicate (newSize - oldSize) None)"
  by (simp add: transferContents_def initNullContents_def copy_loop_ok)

lemma listAppend_ok:
  assumes "dl_inv l"
  shows "\<exists>l'. listAppend l v = Ok l' \<and> dl_inv l' \<and> dl_abs l' = dl_abs l @ [v]"
proof (cases "count l = capacity l")
  case True
  let ?c = "contents l @ replicate (capacity l) None"
  have "transferContents (capacity l) (capacity l * 2) (contents l) = Ok ?c"
    using assms by (subst transferContents_ok) (auto simp: dl_inv_def)
  then have "listAppend l v =
      Ok (l\<lparr>contents := ?c[count l := v], capacity := capacity l * 2, count := count l + 1\<rparr>)"
    using assms True by (auto simp: listAppend_def Let_def dl_inv_def)
  with assms True show ?thesis
    by (auto simp: dl_inv_def dl_abs_def take_Suc_conv_app_nth list_update_append)
next
  case False
  with assms show ?thesis
    by (auto simp: listAppend_def dl_inv_def dl_abs_def take_Suc_conv_app_nth)
qed

lemma find_loop_spec:
  "find_loop n i cs v = -1 \<and> (\<forall>j. i \<le> j \<and> j < i + n \<longrightarrow> cs ! j \<noteq> v) \<or>
   (\<exists>j. find_loop n i cs v = int j \<and> i \<le> j \<and> j < i + n \<and> cs ! j = v \<and>
        (\<forall>k. i \<le> k \<and> k < j \<longrightarrow> cs ! k \<noteq> v))"
proof (induction n i cs v rule: find_loop.induct)
  case (1 i cs v)
  then show ?case by auto
next
  case (2 n i cs v)
  show ?case
  proof (cases "cs ! i = v")
    case True
    then show ?thesis by (intro disjI2 exI[of _ i]) auto
  next
    case False
    have step: "i \<le> j \<longleftrightarrow> j = i \<or> Suc i \<le> j" for j by auto
    from 2[OF False] False show ?thesis
    proof (elim disjE exE conjE)
      fix j
      assume "find_loop n (Suc i) cs v = int j" "Suc i \<le> j" "j < Suc i + n" "cs ! j = v"
        "\<forall>k. Suc i \<le> k \<and> k < j \<longrightarrow> cs ! k \<noteq> v"
      with False show ?thesis
        by (intro disjI2 exI[of _ j]) (auto simp: step)
    qed (auto simp: step)
  qed
qed

lemma shift_loop_spec:
  "i + n < length cs \<Longrightarrow>
     shift_loop n i cs = take i cs @ take n (drop (Suc i) cs) @ drop (i + n) cs"
proof (induction n i cs rule: shift_loop.induct)
  case (1 i cs)
  then show ?case by simp
next
  case (2 n i cs)
  let ?cs = "cs[i := cs ! Suc i]"
  have "shift_loop n (Suc i) ?cs = take (Suc i) ?cs @ take n (drop (Suc (Suc i)) ?cs) @ drop (Suc i + n) ?cs"
    using 2 by (intro "2.IH") simp
  moreover have "take (Suc i) ?cs = take i cs @ [cs ! Suc i]"
    using 2 by (simp add: take_Suc_conv_app_nth)
  moreover have "cs ! Suc i # take n (drop (Suc (Suc i)) cs) = take (Suc n) (drop (Suc i) cs)"
    using 2 by (simp add: Cons_nth_drop_Suc[symmetric])
  ultimately show ?case by simp
qed

text \<open>Removing entry \<open>i\<close> of a well-formed list.\<close>

lemma listRemove_ok:
  assumes inv: "dl_inv l" and i: "i < count l"
  shows "\<exists>l'. listRemove l (int i) = Ok (dl_abs l ! i, l') \<and> dl_inv l' \<and>
           dl_abs l' = take i (dl_abs l) @ drop (Suc i) (dl_abs l)"
proof -
  let ?c = "contents l"
  let ?sh = "shift_loop (count l - 1 - i) i ?c"
  have len: "count l \<le> length ?c" using inv by (simp add: dl_inv_def)
  have "?sh = take i ?c @ take (count l - 1 - i) (drop (Suc i) ?c) @ drop (count l - 1) ?c"
    using i len by (subst shift_loop_spec) auto
  then have sh: "take (count l - 1) ?sh = take i ?c @ take (count l - 1 - i) (drop (Suc i) ?c)"
    "length ?sh = length ?c"
    using i len by auto
  let ?l' = "l\<lparr>contents := ?sh[count l - 1 := None], count := count l - 1\<rparr>"
  have "listRemove l (int i) = Ok (?c ! i, ?l')"
    using i len by (auto simp: listRemove_def count_pred_def Let_def)
  moreover have "dl_inv ?l'"
    using inv sh(2) by (auto simp: dl_inv_def)
  moreover have "dl_abs ?l' = take i (dl_abs l) @ drop (Suc i) (dl_abs l)"
    using i sh by (simp add: dl_abs_def drop_take)
  ultimately show ?thesis using nth_dl_abs[OF inv i] by auto
qed

lemma listPop_ok:
  assumes "dl_inv l"
  shows "\<exists>l'. listPop l = Ok (if dl_abs l = [] then None else last (dl_abs l), l') \<and>
           dl_inv l' \<and> dl_abs l' = butlast (dl_abs l)"
proof (cases "count l = 0")
  case True
  then show ?thesis using assms by (auto simp: listPop_def listRemove_def dl_abs_def)
next
  case False
  then have i: "count l - 1 < count l" and int: "int (count l) - 1 = int (count l - 1)" by auto
  have len: "length (dl_abs l) = count l" using assms by simp
  from listRemove_ok[OF assms i] obtain l' where
    "listRemove l (int (count l - 1)) = Ok (dl_abs l ! (count l - 1), l')" "dl_inv l'"
    "dl_abs l' = take (count l - 1) (dl_abs l) @ drop (Suc (count l - 1)) (dl_abs l)" by blast
  moreover have ne: "dl_abs l \<noteq> []" using False len by auto
  moreover have "dl_abs l ! (count l - 1) = last (dl_abs l)"
    using ne len by (simp add: last_conv_nth)
  moreover have "take (count l - 1) (dl_abs l) @ drop (Suc (count l - 1)) (dl_abs l) = butlast (dl_abs l)"
    using False len by (simp add: butlast_conv_take)
  ultimately show ?thesis by (simp add: listPop_def int)
qed

lemma listPeek_ok:
  assumes "dl_inv l"
  shows "listPeek l = Ok (if dl_abs l = [] then None else last (dl_abs l))"
proof (cases "count l = 0")
  case True
  then show ?thesis by (simp add: listPeek_def dl_abs_def)
next
  case False
  then have "dl_abs l \<noteq> []" using length_dl_abs[OF assms] by auto
  with False assms nth_dl_abs[OF assms, of "count l - 1"] length_dl_abs[OF assms]
  show ?thesis by (auto simp: listPeek_def dl_inv_def last_conv_nth)
qed

text \<open>\<open>listFind\<close> gives the first position, so \<open>listDelete\<close> removes the first occurrence.\<close>

lemma dl_abs_mem: "dl_inv l \<Longrightarrow> v \<in> set (dl_abs l) \<longleftrightarrow> (\<exists>j < count l. contents l ! j = v)"
  using nth_dl_abs[of l] by (auto simp: in_set_conv_nth)

lemma listFind_notin: "dl_inv l \<Longrightarrow> v \<notin> set (dl_abs l) \<Longrightarrow> listFind l v = -1"
  using find_loop_spec[of "count l" 0 "contents l" v] by (auto simp: listFind_def dl_abs_mem)

lemma listFind_in:
  assumes inv: "dl_inv l" and v: "v \<in> set (dl_abs l)"
  shows "\<exists>i < count l. listFind l v = int i \<and> dl_abs l ! i = v \<and> (\<forall>j < i. dl_abs l ! j \<noteq> v)"
proof -
  from v obtain j where "j < count l" "contents l ! j = v"
    using dl_abs_mem[OF inv] by blast
  then obtain i where "listFind l v = int i" "i < count l" "contents l ! i = v"
    "\<forall>k < i. contents l ! k \<noteq> v"
    using find_loop_spec[of "count l" 0 "contents l" v] by (auto simp: listFind_def)
  then show ?thesis using nth_dl_abs[OF inv] by auto
qed

lemma remove_first_nth:
  "i < length xs \<Longrightarrow> xs ! i = v \<Longrightarrow> \<forall>j < i. xs ! j \<noteq> v \<Longrightarrow>
     take i xs @ drop (Suc i) xs = remove1 v xs"
proof (induction xs arbitrary: i)
  case Nil
  then show ?case by simp
next
  case (Cons x xs)
  show ?case
  proof (cases i)
    case 0
    with Cons.prems show ?thesis by simp
  next
    case (Suc k)
    have "x \<noteq> v" using Cons.prems(3) Suc by force
    moreover have "\<forall>j < k. xs ! j \<noteq> v" using Cons.prems(3) Suc by force
    ultimately show ?thesis using Cons.IH[of k] Cons.prems(1,2) Suc by simp
  qed
qed

lemma listDelete_ok:
  assumes inv: "dl_inv l"
  shows "\<exists>l'. listDelete l v = Ok l' \<and> dl_inv l' \<and> dl_abs l' = remove1 v (dl_abs l)"
proof (cases "v \<in> set (dl_abs l)")
  case False
  then show ?thesis
    using inv by (auto simp: listDelete_def listFind_notin remove1_idem)
next
  case True
  from listFind_in[OF inv True] obtain i where i: "i < count l" "listFind l v = int i"
    and first: "dl_abs l ! i = v" "\<forall>j < i. dl_abs l ! j \<noteq> v" by blast
  from listRemove_ok[OF inv i(1)] obtain l' where
    "listRemove l (int i) = Ok (dl_abs l ! i, l')" "dl_inv l'"
    "dl_abs l' = take i (dl_abs l) @ drop (Suc i) (dl_abs l)" by blast
  then show ?thesis
    using i inv remove_first_nth[of i "dl_abs l" v] first by (auto simp: listDelete_def)
qed

section \<open>The interface\<close>

text \<open>
  What the clients of \<open>List\<close> rely on: appending and popping at the end, peeking at the last
  entry, and an abstraction to lists on which these are \<open>@\<close>, \<open>butlast\<close> and \<open>last\<close>.
\<close>

locale stack_list =
  fixes append_op :: "'l \<Rightarrow> 'a option \<Rightarrow> 'l outcome"
    and pop_op :: "'l \<Rightarrow> ('a option \<times> 'l) outcome"
    and peek_op :: "'l \<Rightarrow> 'a option outcome"
    and linv :: "'l \<Rightarrow> bool"
    and labs :: "'l \<Rightarrow> 'a option list"
  assumes append_law: "linv l \<Longrightarrow> \<exists>l'. append_op l v = Ok l' \<and> linv l' \<and> labs l' = labs l @ [v]"
    and pop_law: "linv l \<Longrightarrow>
      \<exists>l'. pop_op l = Ok (if labs l = [] then None else last (labs l), l') \<and> linv l' \<and>
           labs l' = butlast (labs l)"
    and peek_law: "linv l \<Longrightarrow> peek_op l = Ok (if labs l = [] then None else last (labs l))"
begin

lemma pop_append:
  "linv l \<Longrightarrow> append_op l v = Ok l1 \<Longrightarrow> \<exists>l2. pop_op l1 = Ok (v, l2) \<and> linv l2 \<and> labs l2 = labs l"
  using append_law[of l v] pop_law[of l1] by auto

lemma pop_nonempty:
  "linv l \<Longrightarrow> labs l = xs @ [v] \<Longrightarrow> \<exists>l'. pop_op l = Ok (v, l') \<and> linv l' \<and> labs l' = xs"
  using pop_law[of l] by auto

lemma peek_nonempty: "linv l \<Longrightarrow> labs l = xs @ [v] \<Longrightarrow> peek_op l = Ok v"
  using peek_law[of l] by auto

fun append_all :: "'l \<Rightarrow> 'a option list \<Rightarrow> 'l outcome" where
  "append_all l [] = Ok l"
| "append_all l (v # vs) = bind_o (append_op l v) (\<lambda>l'. append_all l' vs)"

lemma append_all_ok: "linv l \<Longrightarrow> \<exists>l'. append_all l vs = Ok l' \<and> linv l' \<and> labs l' = labs l @ vs"
proof (induction vs arbitrary: l)
  case Nil
  then show ?case by simp
next
  case (Cons v vs)
  from append_law[OF Cons.prems, of v] obtain l1 where
    l1: "append_op l v = Ok l1" "linv l1" "labs l1 = labs l @ [v]" by blast
  from Cons.IH[OF l1(2)] l1 show ?case by auto
qed

end

interpretation dl: stack_list listAppend listPop listPeek dl_inv dl_abs
  by unfold_locales (auto simp: listAppend_ok listPop_ok listPeek_ok)

end
