(* ===== verification/Hash_Table.thy ===== *)
theory Hash_Table
  imports Dyn_List
begin

text \<open>
  The hash table of \<^verbatim>\<open>a2/starter/opt.c\<close>: an array of buckets, each NULL or a \<open>List\<close> of
  key/value pairs. The table owns its buckets and pairs (no pointer to them is handed out),
  so they are values here; a pair is found by its position in the bucket, and changed there.
  The table is a partial map from keys to values: the locale \<open>map_table\<close> states what its
  clients use, interpreted on these operations.
\<close>

section \<open>The C operations\<close>

record 'v kvp =
  key :: u32
  val :: 'v

definition makeKeyValuePair :: "u32 \<Rightarrow> 'v \<Rightarrow> 'v kvp" where
  "makeKeyValuePair k v = \<lparr>key = k, val = v\<rparr>"

record 'v hash_table =
  numBuckets :: nat
  buckets :: "'v kvp dlist option list"

text \<open>
  \<open>key % ((int) numBuckets)\<close>: the cast keeps the low 32 bits, which are unsigned again for the
  remainder; it is a division by zero when they are zero. The result is an \<open>int\<close>, so one from
  \<open>2^31\<close> on is negative and no index of a bucket.
\<close>

definition hashFunction :: "'v hash_table \<Rightarrow> u32 \<Rightarrow> nat outcome" where
  "hashFunction t k =
     (let n = numBuckets t mod 2 ^ 32 in
      if n = 0 \<or> unat k mod n \<ge> 2 ^ 31 then Undef else Ok (unat k mod n))"

definition initBuckets :: "nat \<Rightarrow> 'v kvp dlist option list" where
  "initBuckets n = replicate n None"

definition makeHashTable :: "nat \<Rightarrow> 'v hash_table" where
  "makeHashTable n = \<lparr>numBuckets = n, buckets = initBuckets n\<rparr>"

text \<open>The search loop: the index and the pair of the first match; a NULL entry is dereferenced.\<close>

fun match_loop :: "'v kvp option list \<Rightarrow> u32 \<Rightarrow> nat \<Rightarrow> (nat \<times> 'v kvp) option outcome" where
  "match_loop [] k i = Ok None"
| "match_loop (None # cs) k i = Undef"
| "match_loop (Some p # cs) k i =
     (if key p = k then Ok (Some (i, p)) else match_loop cs k (Suc i))"

definition findMatchingPair :: "'v kvp dlist \<Rightarrow> u32 \<Rightarrow> (nat \<times> 'v kvp) option outcome" where
  "findMatchingPair b k = match_loop (take (count b) (contents b)) k 0"

definition fetch_bucket :: "'v hash_table \<Rightarrow> nat \<Rightarrow> 'v kvp dlist option outcome" where
  "fetch_bucket t h =
     bind_o (defined_o (h < length (buckets t))) (\<lambda>_. Ok (buckets t ! h))"

definition hashTableGet :: "'v hash_table \<Rightarrow> u32 \<Rightarrow> 'v option outcome" where
  "hashTableGet t k =
     bind_o (hashFunction t k) (\<lambda>h.
     bind_o (fetch_bucket t h) (\<lambda>bucket.
     case bucket of None \<Rightarrow> Ok None
     | Some b \<Rightarrow> bind_o (findMatchingPair b k) (\<lambda>m. Ok (map_option (\<lambda>(i, p). val p) m))))"

definition hashTableSet :: "'v hash_table \<Rightarrow> u32 \<Rightarrow> 'v \<Rightarrow> ('v option \<times> 'v hash_table) outcome" where
  "hashTableSet t k v =
     (let HASH_TABLE_BUCKET_SIZE = 5 in
     bind_o (hashFunction t k) (\<lambda>h.
     bind_o (fetch_bucket t h) (\<lambda>bucket.
     let b = (case bucket of None \<Rightarrow> makeList HASH_TABLE_BUCKET_SIZE | Some b \<Rightarrow> b) in
     bind_o (findMatchingPair b k) (\<lambda>m.
     case m of
       Some (i, p) \<Rightarrow>
         Ok (Some (val p),
             t\<lparr>buckets := (buckets t)[h := Some (b\<lparr>contents := (contents b)[i := Some (p\<lparr>val := v\<rparr>)]\<rparr>)]\<rparr>)
     | None \<Rightarrow>
         bind_o (listAppend b (Some (makeKeyValuePair k v))) (\<lambda>b'.
         Ok (None, t\<lparr>buckets := (buckets t)[h := Some b']\<rparr>))))))"

definition hashTableRemove :: "'v hash_table \<Rightarrow> u32 \<Rightarrow> ('v option \<times> 'v hash_table) outcome" where
  "hashTableRemove t k =
     bind_o (hashFunction t k) (\<lambda>h.
     bind_o (fetch_bucket t h) (\<lambda>bucket.
     case bucket of None \<Rightarrow> Ok (None, t)
     | Some b \<Rightarrow>
       bind_o (findMatchingPair b k) (\<lambda>m.
       case m of None \<Rightarrow> Ok (None, t)
       | Some (i, p) \<Rightarrow>
         bind_o (listDelete b (Some p)) (\<lambda>b'.
         Ok (Some (val p),
             t\<lparr>buckets := (buckets t)[h := if count b' = 0 then None else Some b']\<rparr>)))))"

section \<open>Invariant and abstraction to maps\<close>

definition bucket_pairs :: "'v kvp dlist option \<Rightarrow> 'v kvp list" where
  "bucket_pairs bo = (case bo of None \<Rightarrow> [] | Some b \<Rightarrow> map the (dl_abs b))"

definition bucket_ok :: "nat \<Rightarrow> nat \<Rightarrow> 'v kvp dlist option \<Rightarrow> bool" where
  "bucket_ok n h bo \<longleftrightarrow>
     (case bo of None \<Rightarrow> True | Some b \<Rightarrow> dl_inv b \<and> None \<notin> set (dl_abs b)) \<and>
     distinct (map key (bucket_pairs bo)) \<and>
     (\<forall>p \<in> set (bucket_pairs bo). unat (key p) mod n = h)"

definition ht_inv :: "'v hash_table \<Rightarrow> bool" where
  "ht_inv t \<longleftrightarrow>
     0 < numBuckets t \<and> numBuckets t < 2 ^ 31 \<and> length (buckets t) = numBuckets t \<and>
     (\<forall>h < numBuckets t. bucket_ok (numBuckets t) h (buckets t ! h))"

text \<open>The map a list of pairs stands for, and the map of a table.\<close>

fun pairs_map :: "'v kvp list \<Rightarrow> u32 \<Rightarrow> 'v option" where
  "pairs_map [] k = None"
| "pairs_map (p # ps) k = (if key p = k then Some (val p) else pairs_map ps k)"

definition ht_map :: "'v hash_table \<Rightarrow> u32 \<Rightarrow> 'v option" where
  "ht_map t k = pairs_map (bucket_pairs (buckets t ! (unat k mod numBuckets t))) k"

section \<open>Lists of pairs\<close>

lemma pairs_map_None: "pairs_map ps k = None \<longleftrightarrow> k \<notin> key ` set ps"
  by (induction ps) auto

lemma pairs_map_append:
  "pairs_map (ps @ qs) k = (case pairs_map ps k of None \<Rightarrow> pairs_map qs k | Some v \<Rightarrow> Some v)"
  by (induction ps) auto

lemma match_loop_spec:
  "None \<notin> set cs \<Longrightarrow>
   match_loop cs k i = Ok None \<and> k \<notin> key ` set (map the cs) \<or>
   (\<exists>j p. match_loop cs k i = Ok (Some (i + j, p)) \<and> j < length cs \<and> cs ! j = Some p \<and> key p = k)"
proof (induction cs k i rule: match_loop.induct)
  case (3 p cs k i)
  show ?case
  proof (cases "key p = k")
    case True
    then show ?thesis by (intro disjI2 exI[of _ 0]) simp
  next
    case False
    from 3(1)[OF False] 3(2) have ih: "match_loop cs k (Suc i) = Ok None \<and> k \<notin> key ` set (map the cs) \<or>
      (\<exists>j p. match_loop cs k (Suc i) = Ok (Some (Suc i + j, p)) \<and> j < length cs \<and> cs ! j = Some p \<and> key p = k)"
      by simp
    then consider
      (none) "match_loop cs k (Suc i) = Ok None" "k \<notin> key ` set (map the cs)"
      | (hit) j q where "match_loop cs k (Suc i) = Ok (Some (Suc i + j, q))" "j < length cs"
          "cs ! j = Some q" "key q = k"
      by blast
    then show ?thesis
    proof cases
      case none
      with False show ?thesis by auto
    next
      case hit
      with False show ?thesis by (intro disjI2 exI[of _ "Suc j"]) simp
    qed
  qed
qed auto

lemma map_the_remove1: "None \<notin> set cs \<Longrightarrow> map the (remove1 (Some p) cs) = remove1 p (map the cs)"
  by (induction cs) auto

lemma findMatchingPair_ok:
  assumes ok: "bucket_ok n h (Some b)"
  shows "(findMatchingPair b k = Ok None \<and> pairs_map (bucket_pairs (Some b)) k = None) \<or>
         (\<exists>i p. findMatchingPair b k = Ok (Some (i, p)) \<and> i < count b \<and>
                dl_abs b ! i = Some p \<and> key p = k)"
proof -
  from ok have inv: "dl_inv b" and no: "None \<notin> set (dl_abs b)" by (auto simp: bucket_ok_def)
  from match_loop_spec[OF no, of k 0] show ?thesis
    using length_dl_abs[OF inv]
    by (auto simp: findMatchingPair_def dl_abs_def[symmetric] bucket_pairs_def pairs_map_None
        simp del: length_dl_abs)
qed

lemma pairs_map_nth:
  "distinct (map key ps) \<Longrightarrow> i < length ps \<Longrightarrow> pairs_map ps (key (ps ! i)) = Some (val (ps ! i))"
proof (induction ps arbitrary: i)
  case Nil
  then show ?case by simp
next
  case (Cons q ps)
  show ?case
  proof (cases i)
    case 0
    then show ?thesis by simp
  next
    case (Suc j)
    then have "j < length ps" using Cons.prems(2) by simp
    then have "key (ps ! j) \<in> key ` set ps" by simp
    then have "key q \<noteq> key (ps ! j)" using Cons.prems(1) by auto
    with Cons Suc show ?thesis by simp
  qed
qed

lemma pairs_map_update:
  "distinct (map key ps) \<Longrightarrow> i < length ps \<Longrightarrow>
     pairs_map (ps[i := (ps ! i)\<lparr>val := v\<rparr>]) = (pairs_map ps)(key (ps ! i) := Some v)"
proof (induction ps arbitrary: i)
  case Nil
  then show ?case by simp
next
  case (Cons q ps)
  show ?case
  proof (cases i)
    case 0
    then show ?thesis by (auto simp: fun_eq_iff)
  next
    case (Suc j)
    then have j: "j < length ps" using Cons.prems(2) by simp
    then have "key (ps ! j) \<in> key ` set ps" by simp
    then have ne: "key q \<noteq> key (ps ! j)" using Cons.prems(1) by auto
    have IH: "pairs_map (ps[j := (ps ! j)\<lparr>val := v\<rparr>]) = (pairs_map ps)(key (ps ! j) := Some v)"
      using Cons.prems(1) j by (intro Cons.IH) auto
    show ?thesis
    proof
      fix x
      show "pairs_map ((q # ps)[i := ((q # ps) ! i)\<lparr>val := v\<rparr>]) x =
        ((pairs_map (q # ps))(key ((q # ps) ! i) := Some v)) x"
        using fun_cong[OF IH, of x] Suc ne by (cases "x = key (ps ! j)") auto
    qed
  qed
qed

lemma pairs_map_remove1:
  "distinct (map key ps) \<Longrightarrow> p \<in> set ps \<Longrightarrow>
     pairs_map (remove1 p ps) x = (if x = key p then None else pairs_map ps x)"
proof (induction ps)
  case (Cons q ps)
  show ?case
  proof (cases "q = p")
    case True
    then have "pairs_map ps (key p) = None"
      using Cons.prems(1) by (simp add: pairs_map_None)
    with True show ?thesis by auto
  next
    case False
    then have p: "p \<in> set ps" using Cons.prems(2) by simp
    then have "key q \<noteq> key p" using Cons.prems(1) by (auto simp: image_iff)
    with False Cons.IH[OF _ p] Cons.prems(1) show ?thesis by (cases "x = key p") auto
  qed
qed simp

section \<open>The operations on well-formed tables\<close>

lemma makeHashTable_ok:
  "0 < n \<Longrightarrow> n < 2 ^ 31 \<Longrightarrow> ht_inv (makeHashTable n) \<and> ht_map (makeHashTable n) = (\<lambda>k. None)"
  by (auto simp: ht_inv_def ht_map_def makeHashTable_def initBuckets_def bucket_ok_def
      bucket_pairs_def)

lemma bucket_access:
  assumes "ht_inv t"
  shows "hashFunction t k = Ok (unat k mod numBuckets t)"
    and "fetch_bucket t (unat k mod numBuckets t) = Ok (buckets t ! (unat k mod numBuckets t))"
    and "bucket_ok (numBuckets t) (unat k mod numBuckets t) (buckets t ! (unat k mod numBuckets t))"
    and "unat k mod numBuckets t < numBuckets t"
proof -
  have n: "0 < numBuckets t" "numBuckets t < 2 ^ 31" using assms by (auto simp: ht_inv_def)
  then have "unat k mod numBuckets t < 2 ^ 31" by (meson less_trans mod_less_divisor)
  with n show "hashFunction t k = Ok (unat k mod numBuckets t)" by (simp add: hashFunction_def)
qed (use assms in \<open>auto simp: fetch_bucket_def ht_inv_def\<close>)

text \<open>Replacing the bucket of a key by one with other pairs of the same hash.\<close>

lemma ht_update:
  fixes t :: "'v hash_table"
  assumes inv: "ht_inv t" and h: "h = unat k mod numBuckets t"
    and ok: "bucket_ok (numBuckets t) h bo"
    and pairs: "pairs_map (bucket_pairs bo) = (pairs_map (bucket_pairs (buckets t ! h)))(k := r)"
  shows "ht_inv (t\<lparr>buckets := (buckets t)[h := bo]\<rparr>) \<and>
         ht_map (t\<lparr>buckets := (buckets t)[h := bo]\<rparr>) = (ht_map t)(k := r)"
proof
  have len: "h < length (buckets t)" using inv h by (simp add: ht_inv_def)
  show "ht_inv (t\<lparr>buckets := (buckets t)[h := bo]\<rparr>)"
    using inv ok len by (auto simp: ht_inv_def nth_list_update)
  show "ht_map (t\<lparr>buckets := (buckets t)[h := bo]\<rparr>) = (ht_map t)(k := r)"
  proof
    fix x
    show "ht_map (t\<lparr>buckets := (buckets t)[h := bo]\<rparr>) x = ((ht_map t)(k := r)) x"
      using fun_cong[OF pairs, of x] h len by (auto simp: ht_map_def nth_list_update)
  qed
qed

lemma hashTableGet_ok:
  assumes inv: "ht_inv t"
  shows "hashTableGet t k = Ok (ht_map t k)"
proof (cases "buckets t ! (unat k mod numBuckets t)")
  case None
  then show ?thesis
    by (simp add: hashTableGet_def bucket_access[OF inv] ht_map_def bucket_pairs_def)
next
  case (Some b)
  have ok: "bucket_ok (numBuckets t) (unat k mod numBuckets t) (Some b)"
    using bucket_access(3)[OF inv, of k] Some by simp
  then have binv: "dl_inv b" "None \<notin> set (dl_abs b)" and dist: "distinct (map key (map the (dl_abs b)))"
    by (auto simp: bucket_ok_def bucket_pairs_def)
  have get: "hashTableGet t k = bind_o (findMatchingPair b k) (\<lambda>m. Ok (map_option (\<lambda>(i, p). val p) m))"
    by (simp add: hashTableGet_def bucket_access[OF inv] Some)
  from findMatchingPair_ok[OF ok, of k] show ?thesis
  proof (elim disjE exE conjE)
    assume "findMatchingPair b k = Ok None" "pairs_map (bucket_pairs (Some b)) k = None"
    then show ?thesis by (simp add: get ht_map_def Some)
  next
    fix i p
    assume m: "findMatchingPair b k = Ok (Some (i, p))" "i < count b" "dl_abs b ! i = Some p" "key p = k"
    then have "pairs_map (map the (dl_abs b)) (key (map the (dl_abs b) ! i)) = Some (val p)"
      using pairs_map_nth[OF dist, of i] binv by simp
    with m binv show ?thesis by (simp add: get ht_map_def Some bucket_pairs_def)
  qed
qed

lemma bucket_value_update:
  fixes v :: 'v
  assumes ok: "bucket_ok n h (Some b)" and i: "i < count b" and p: "dl_abs b ! i = Some p"
  defines "b' \<equiv> b\<lparr>contents := (contents b)[i := Some (p\<lparr>val := v\<rparr>)]\<rparr>"
  shows "bucket_ok n h (Some b')"
    and "pairs_map (bucket_pairs (Some b')) = (pairs_map (bucket_pairs (Some b)))(key p := Some v)"
proof -
  let ?ps = "map the (dl_abs b)"
  have binv: "dl_inv b" "None \<notin> set (dl_abs b)" and dist: "distinct (map key ?ps)"
    and hs: "\<forall>p \<in> set ?ps. unat (key p) mod n = h"
    using ok by (auto simp: bucket_ok_def bucket_pairs_def)
  have nth: "i < length ?ps" "?ps ! i = p" using binv i p by auto
  have inv': "dl_inv b'" using binv by (auto simp: b'_def dl_inv_def)
  have abs': "dl_abs b' = (dl_abs b)[i := Some (p\<lparr>val := v\<rparr>)]"
    using i by (simp add: b'_def dl_abs_def take_update_swap)
  have pairs': "bucket_pairs (Some b') = ?ps[i := p\<lparr>val := v\<rparr>]"
    by (simp add: bucket_pairs_def abs' map_update)
  have keys: "map key (bucket_pairs (Some b')) = map key ?ps"
    using nth by (simp add: pairs' map_update list_update_same_conv)
  have "\<forall>q \<in> set (bucket_pairs (Some b')). unat (key q) mod n = h"
  proof
    fix q assume "q \<in> set (bucket_pairs (Some b'))"
    then have "key q \<in> set (map key ?ps)" using keys by (metis image_eqI list.set_map)
    then show "unat (key q) mod n = h" using hs by auto
  qed
  moreover have "None \<notin> set (dl_abs b')"
    using binv(2) set_update_subset_insert[of "dl_abs b" i] by (auto simp: abs')
  ultimately show "bucket_ok n h (Some b')"
    using inv' keys dist by (simp add: bucket_ok_def)
  show "pairs_map (bucket_pairs (Some b')) = (pairs_map (bucket_pairs (Some b)))(key p := Some v)"
    using pairs_map_update[OF dist nth(1), of v] unfolding pairs' nth(2) by (simp add: bucket_pairs_def)
qed

lemma bucket_append:
  assumes ok: "bucket_ok n h (Some b)" and new: "pairs_map (bucket_pairs (Some b)) (key p) = None"
    and h: "unat (key p) mod n = h"
  shows "\<exists>b'. listAppend b (Some p) = Ok b' \<and> bucket_ok n h (Some b') \<and>
           pairs_map (bucket_pairs (Some b')) = (pairs_map (bucket_pairs (Some b)))(key p := Some (val p))"
proof -
  from ok have binv: "dl_inv b" by (simp add: bucket_ok_def)
  from listAppend_ok[OF this, of "Some p"] obtain b' where
    b': "listAppend b (Some p) = Ok b'" "dl_inv b'" "dl_abs b' = dl_abs b @ [Some p]" by blast
  then have pairs: "bucket_pairs (Some b') = bucket_pairs (Some b) @ [p]"
    by (simp add: bucket_pairs_def)
  have "bucket_ok n h (Some b')"
    using ok b' new h unfolding bucket_ok_def pairs by (auto simp: pairs_map_None)
  moreover have "pairs_map (bucket_pairs (Some b')) x =
      ((pairs_map (bucket_pairs (Some b)))(key p := Some (val p))) x" for x
    using new by (simp add: pairs pairs_map_append split: option.split)
  ultimately show ?thesis using b'(1) by blast
qed

lemma hashTableSet_ok:
  assumes inv: "ht_inv t"
  shows "\<exists>t'. hashTableSet t k v = Ok (ht_map t k, t') \<and> ht_inv t' \<and>
           ht_map t' = (ht_map t)(k := Some v)"
proof -
  define h where "h = unat k mod numBuckets t"
  define b where "b = (case buckets t ! h of None \<Rightarrow> makeList 5 | Some b \<Rightarrow> b)"
  note acc = bucket_access[OF inv, of k, folded h_def]
  have pb: "bucket_pairs (Some b) = bucket_pairs (buckets t ! h)"
    by (auto simp: b_def bucket_pairs_def makeList_ok split: option.split)
  have ok: "bucket_ok (numBuckets t) h (Some b)"
    using acc(3) by (auto simp: makeList_ok b_def bucket_ok_def bucket_pairs_def split: option.splits)
  have get: "ht_map t k = pairs_map (bucket_pairs (Some b)) k"
    by (simp add: ht_map_def pb h_def)
  have set: "hashTableSet t k v = bind_o (findMatchingPair b k) (\<lambda>m. case m of
      Some (i, p) \<Rightarrow> Ok (Some (val p),
        t\<lparr>buckets := (buckets t)[h := Some (b\<lparr>contents := (contents b)[i := Some (p\<lparr>val := v\<rparr>)]\<rparr>)]\<rparr>)
    | None \<Rightarrow> bind_o (listAppend b (Some (makeKeyValuePair k v))) (\<lambda>b'.
        Ok (None, t\<lparr>buckets := (buckets t)[h := Some b']\<rparr>)))"
    by (simp add: hashTableSet_def acc(1,2) b_def[symmetric] Let_def)
  from findMatchingPair_ok[OF ok, of k] consider
    (new) "findMatchingPair b k = Ok None" "pairs_map (bucket_pairs (Some b)) k = None"
    | (old) i p where "findMatchingPair b k = Ok (Some (i, p))" "i < count b"
        "dl_abs b ! i = Some p" "key p = k" by auto
  then show ?thesis
  proof cases
    case new
    from bucket_append[OF ok, of "makeKeyValuePair k v"] new obtain b' where
      "listAppend b (Some (makeKeyValuePair k v)) = Ok b'" "bucket_ok (numBuckets t) h (Some b')"
      "pairs_map (bucket_pairs (Some b')) = (pairs_map (bucket_pairs (Some b)))(k := Some v)"
      by (auto simp: makeKeyValuePair_def h_def)
    then show ?thesis
      using ht_update[OF inv h_def, of "Some b'" "Some v"] new by (simp add: set get pb)
  next
    case old
    have "ht_map t k = Some (val p)"
      using hashTableGet_ok[OF inv, of k] old
      by (simp add: hashTableGet_def acc(1,2) b_def makeList_def bucket_pairs_def split: option.splits)
    then show ?thesis
      using ht_update[OF inv h_def bucket_value_update(1)[OF ok old(2,3)], of v "Some v"]
        bucket_value_update(2)[OF ok old(2,3), of v] old(4)
      by (simp add: set old(1) pb)
  qed
qed

lemma bucket_delete:
  assumes ok: "bucket_ok n h (Some b)" and p: "i < count b" "dl_abs b ! i = Some p"
  shows "\<exists>b'. listDelete b (Some p) = Ok b' \<and>
           bucket_ok n h (if count b' = 0 then None else Some b') \<and>
           pairs_map (bucket_pairs (if count b' = 0 then None else Some b')) =
             (pairs_map (bucket_pairs (Some b)))(key p := None)"
proof -
  let ?ps = "map the (dl_abs b)"
  from ok have binv: "dl_inv b" "None \<notin> set (dl_abs b)" and dist: "distinct (map key ?ps)"
    and hs: "\<forall>p \<in> set ?ps. unat (key p) mod n = h"
    by (auto simp: bucket_ok_def bucket_pairs_def)
  have "Some p \<in> set (dl_abs b)" using p binv nth_mem[of i "dl_abs b"] by simp
  then have pin: "p \<in> set ?ps" by force
  from listDelete_ok[OF binv(1), of "Some p"] obtain b' where
    b': "listDelete b (Some p) = Ok b'" "dl_inv b'" "dl_abs b' = remove1 (Some p) (dl_abs b)" by blast
  have "count b' = 0 \<Longrightarrow> dl_abs b' = []" using length_dl_abs[OF b'(2)] by simp
  then have pairs: "bucket_pairs (if count b' = 0 then None else Some b') = remove1 p ?ps"
    using b'(3) map_the_remove1[OF binv(2), of p] by (auto simp: bucket_pairs_def)
  have keys: "distinct (map key (remove1 p ?ps))"
    using dist by (metis distinct_map distinct_remove1 inj_on_subset set_remove1_subset)
  have "bucket_ok n h (if count b' = 0 then None else Some b')"
    unfolding bucket_ok_def pairs
    using b' binv(2) keys hs set_remove1_subset[of p ?ps] set_remove1_subset[of "Some p" "dl_abs b"]
    by (auto simp del: set_map split: if_splits)
  moreover have "pairs_map (bucket_pairs (if count b' = 0 then None else Some b')) =
      (pairs_map (bucket_pairs (Some b)))(key p := None)"
    unfolding pairs by (rule ext) (simp add: pairs_map_remove1[OF dist pin] bucket_pairs_def)
  ultimately show ?thesis using b'(1) by blast
qed

lemma hashTableRemove_ok:
  assumes inv: "ht_inv t"
  shows "\<exists>t'. hashTableRemove t k = Ok (ht_map t k, t') \<and> ht_inv t' \<and>
           ht_map t' = (ht_map t)(k := None)"
proof -
  define h where "h = unat k mod numBuckets t"
  note acc = bucket_access[OF inv, of k, folded h_def]
  show ?thesis
  proof (cases "buckets t ! h")
    case None
    then have "ht_map t k = None" by (simp add: ht_map_def h_def[symmetric] bucket_pairs_def)
    with None inv show ?thesis
      by (auto simp: hashTableRemove_def acc(1,2) fun_upd_idem)
  next
    case (Some b)
    with acc(3) have ok: "bucket_ok (numBuckets t) h (Some b)" by simp
    have get: "hashTableGet t k = Ok (ht_map t k)" by (rule hashTableGet_ok[OF inv])
    from findMatchingPair_ok[OF ok, of k] consider
      (none) "findMatchingPair b k = Ok None"
      | (some) i p where "findMatchingPair b k = Ok (Some (i, p))" "i < count b"
          "dl_abs b ! i = Some p" "key p = k" by blast
    then show ?thesis
    proof cases
      case none
      with get have "ht_map t k = None" by (simp add: hashTableGet_def acc(1,2) Some)
      with none inv Some show ?thesis
        by (auto simp: hashTableRemove_def acc(1,2) fun_upd_idem)
    next
      case some
      with get have v: "ht_map t k = Some (val p)" by (simp add: hashTableGet_def acc(1,2) Some)
      from bucket_delete[OF ok some(2,3)] obtain b' where b': "listDelete b (Some p) = Ok b'"
        "bucket_ok (numBuckets t) h (if count b' = 0 then None else Some b')"
        "pairs_map (bucket_pairs (if count b' = 0 then None else Some b')) =
           (pairs_map (bucket_pairs (Some b)))(k := None)"
        unfolding some(4) by blast
      from ht_update[OF inv h_def b'(2), of None] b'(3) show ?thesis
        by (auto simp: hashTableRemove_def acc(1,2) Some some(1) b'(1) v)
    qed
  qed
qed

text \<open>A table without buckets (as \<open>makeHashTable (memsize / 5)\<close> gives for fewer than five
  frames) divides by zero on its first use.\<close>

lemma hashTableGet_no_buckets: "numBuckets t = 0 \<Longrightarrow> hashTableGet t k = Undef"
  by (simp add: hashTableGet_def hashFunction_def)

section \<open>The interface\<close>

text \<open>A mutable map: what \<open>get\<close> returns after \<open>set\<close> and \<open>remove\<close>.\<close>

locale map_table =
  fixes get_op :: "'t \<Rightarrow> 'k \<Rightarrow> 'v option outcome"
    and set_op :: "'t \<Rightarrow> 'k \<Rightarrow> 'v \<Rightarrow> ('v option \<times> 't) outcome"
    and remove_op :: "'t \<Rightarrow> 'k \<Rightarrow> ('v option \<times> 't) outcome"
    and tinv :: "'t \<Rightarrow> bool"
    and tmap :: "'t \<Rightarrow> 'k \<Rightarrow> 'v option"
  assumes get_law: "tinv t \<Longrightarrow> get_op t k = Ok (tmap t k)"
    and set_law: "tinv t \<Longrightarrow>
      \<exists>t'. set_op t k v = Ok (tmap t k, t') \<and> tinv t' \<and> tmap t' = (tmap t)(k := Some v)"
    and remove_law: "tinv t \<Longrightarrow>
      \<exists>t'. remove_op t k = Ok (tmap t k, t') \<and> tinv t' \<and> tmap t' = (tmap t)(k := None)"
begin

lemma get_after_set:
  assumes "tinv t" and "set_op t k v = Ok (r, t')"
  shows "get_op t' j = (if j = k then Ok (Some v) else get_op t j)"
  using set_law[OF assms(1), of k v] assms(2) by (auto simp: get_law assms(1))

lemma get_after_remove:
  assumes "tinv t" and "remove_op t k = Ok (r, t')"
  shows "get_op t' j = (if j = k then Ok None else get_op t j)"
  using remove_law[OF assms(1), of k] assms(2) by (auto simp: get_law assms(1))

end

interpretation ht: map_table hashTableGet hashTableSet hashTableRemove ht_inv ht_map
  by unfold_locales (simp_all add: hashTableGet_ok hashTableSet_ok hashTableRemove_ok)

end
