(* ===== verification/Sim_Globals.thy ===== *)
theory Sim_Globals
  imports Access Ring_Queue Hash_Table
begin

text \<open>
  The state of the whole simulator: the variables of the paging code together with the global
  variables of the five replacement algorithms (\<^verbatim>\<open>fifo.c\<close>, \<^verbatim>\<open>lru.c\<close>,
  \<^verbatim>\<open>clock.c\<close>, \<^verbatim>\<open>rand.c\<close>, \<^verbatim>\<open>opt.c\<close>). The values \<open>random()\<close> will
  return are a sequence in the state. The lists of reference times that \<open>opt.c\<close> keeps in its
  hash table are shared through pointers, so they live in a store: \<open>ref_lists\<close> maps the
  pointers in use to the lists, \<open>next_list\<close> is the next pointer to be given out.
  \<open>trace_file\<close> is what opening the trace file gives: its contents, or \<open>None\<close>.
\<close>

declare split_paired_All [simp del] split_paired_Ex [simp del]

record sim = core +
  fqueue :: queue
  timestamp_list :: "u32 list"
  timestamp :: u32
  clock_arm :: nat
  random_seq :: "nat \<Rightarrow> nat"
  random_pos :: nat
  curRef :: nat
  pageList :: "u32 dlist"
  beladyTable :: "nat hash_table"
  ref_lists :: "nat \<Rightarrow> nat dlist option"
  next_list :: nat
  trace_file :: "string option"
  close_ok :: bool

text \<open>The variables of the algorithms are those beyond the core.\<close>

lemma more_fields:
  fixes s s' :: sim
  assumes "core.more s' = core.more s"
  shows "fqueue s' = fqueue s" "timestamp_list s' = timestamp_list s" "timestamp s' = timestamp s"
    "clock_arm s' = clock_arm s" "random_seq s' = random_seq s" "random_pos s' = random_pos s"
    "curRef s' = curRef s" "pageList s' = pageList s" "beladyTable s' = beladyTable s"
    "ref_lists s' = ref_lists s" "next_list s' = next_list s"
    "trace_file s' = trace_file s" "close_ok s' = close_ok s"
  using assms by (cases s; cases s'; simp)+

text \<open>Updates of these variables leave the paging alone.\<close>

lemma same_mem_globals [simp]:
  "same_mem s (s\<lparr>fqueue := q\<rparr>)" "same_mem s (s\<lparr>timestamp_list := ts, timestamp := t\<rparr>)"
  "same_mem s (s\<lparr>clock_arm := a\<rparr>)" "same_mem s (s\<lparr>random_pos := n\<rparr>)"
  by (simp_all add: same_mem_def option.rel_refl)

lemma map_list_update_same:
  "i < length xs \<Longrightarrow> h y = h (xs ! i) \<Longrightarrow> map h (xs[i := y]) = map h xs"
  by (simp add: map_update) (metis list_update_id nth_map)

text \<open>In a state where every frame is owned, the pointer of each frame leads back to it.\<close>

lemma owned_frame:
  assumes inv: "mem_inv T U s" and f: "f \<in> U"
  obtains r e where "frame_pte s (int f) = Ok r" "pte_at s r = Some e" "pte_valid e" "frame_no e = f"
    "pte_ptr (coremap s ! f) = Some r" "f < memsize s"
proof -
  from inv obtain k where "frames_ok U s" by (auto simp: mem_inv_def mem_ok_def)
  with f obtain r e where "pte_ptr (coremap s ! f) = Some r" "pte_at s r = Some e" "pte_valid e"
    "frame_no e = f" "f < memsize s" "length (coremap s) = memsize s" unfolding frames_ok_def by blast
  then show thesis by (intro that[of r e]) (auto simp: frame_pte_def)
qed

end
