(* ===== verification/Cache_Spec.thy ===== *)
theory Cache_Spec
  imports Sim_Globals
begin

text \<open>
  Abstract page caches: the pages in memory as a list, changed by each reference as a
  replacement rule says, and the number of misses. \<open>replay_cache\<close> reduces the refinement of
  such a rule to one step, for any algorithm with the contract \<open>replacement\<close>.
\<close>

section \<open>Caches\<close>

text \<open>How many references of a sequence miss.\<close>

fun cache_misses :: "(pte_ref list \<Rightarrow> pte_ref \<Rightarrow> pte_ref list) \<Rightarrow> pte_ref list \<Rightarrow> pte_ref list \<Rightarrow> nat" where
  "cache_misses step ps [] = 0"
| "cache_misses step ps (r # rs) = (if r \<in> set ps then 0 else 1) + cache_misses step (step ps r) rs"

text \<open>The pages of a list of frames.\<close>

definition pages_of :: "'z core_scheme \<Rightarrow> nat list \<Rightarrow> pte_ref list" where
  "pages_of s g = map (\<lambda>f. the (pte_ptr (coremap s ! f))) g"

lemma pages_of_append: "pages_of s (xs @ ys) = pages_of s xs @ pages_of s ys"
  by (simp add: pages_of_def)

lemma pages_of_update:
  assumes ptr: "map pte_ptr (coremap s') = (map pte_ptr (coremap s))[f := Some r]"
    and g: "set g \<subseteq> {..< length (coremap s)}"
  shows "pages_of s' g = map (\<lambda>h. if h = f then r else the (pte_ptr (coremap s ! h))) g"
proof -
  have len: "length (coremap s') = length (coremap s)" using ptr by (metis length_list_update length_map)
  have "pte_ptr (coremap s' ! h) = (if h = f then Some r else pte_ptr (coremap s ! h))"
    if "h \<in> set g" for h
  proof -
    have h: "h < length (coremap s)" using that g by auto
    then have "pte_ptr (coremap s' ! h) = (map pte_ptr (coremap s)) [f := Some r] ! h"
      using len ptr by (metis nth_map)
    with h show ?thesis by (cases "h = f") simp_all
  qed
  then show ?thesis by (simp add: pages_of_def)
qed

text \<open>The pages a trace refers to.\<close>

definition page_refs :: "(char \<times> u64) list \<Rightarrow> pte_ref list" where
  "page_refs tr = map (\<lambda>(type, v). page_of v) tr"

definition trace_ok :: "pte_ref set \<Rightarrow> (char \<times> u64) list \<Rightarrow> bool" where
  "trace_ok T tr \<longleftrightarrow> (\<forall>(type, v) \<in> set tr. page_of v \<in> T \<and> unat (PGDIR_INDEX v) < PTRS_PER_PGDIR)"

section \<open>Refinement of a cache\<close>

context replacement
begin

lemma resident_pages:
  assumes rd: "ready T n g s" and xs: "set xs = frames g"
  shows "(\<exists>h. resident s v h) \<longleftrightarrow> page_of v \<in> set (pages_of s xs)"
proof
  assume "\<exists>h. resident s v h"
  then obtain h where "h \<in> set xs" "pte_ptr (coremap s ! h) = Some (page_of v)"
    using resident_iff[OF rd] xs by auto
  then show "page_of v \<in> set (pages_of s xs)" by (force simp: pages_of_def)
next
  assume "page_of v \<in> set (pages_of s xs)"
  then obtain h where h: "h \<in> set xs" "the (pte_ptr (coremap s ! h)) = page_of v"
    by (auto simp: pages_of_def)
  with ready_owner[OF rd, of h] xs have "pte_ptr (coremap s ! h) = Some (page_of v)" by auto
  with h xs show "\<exists>h. resident s v h" using resident_iff[OF rd] by auto
qed

lemma resident_unique: "ready T n g s \<Longrightarrow> resident s v f \<Longrightarrow> resident s v h \<Longrightarrow> f = h"
  by (auto simp: resident_def)

lemma pages_distinct:
  assumes rd: "ready T n g s" and xs: "set xs \<subseteq> frames g" "distinct xs"
  shows "distinct (pages_of s xs)"
proof -
  have "inj_on (\<lambda>f. the (pte_ptr (coremap s ! f))) (set xs)"
  proof (rule inj_onI)
    fix f h assume fh: "f \<in> set xs" "h \<in> set xs"
      and eq: "the (pte_ptr (coremap s ! f)) = the (pte_ptr (coremap s ! h))"
    from fh xs have "f \<in> frames g" "h \<in> frames g" by auto
    with ready_owner[OF rd] obtain p c q d where
      "pte_ptr (coremap s ! f) = Some p" "pte_at s p = Some c" "frame_no c = f"
      "pte_ptr (coremap s ! h) = Some q" "pte_at s q = Some d" "frame_no d = h" by metis
    with eq show "f = h" by auto
  qed
  then show ?thesis using xs(2) by (simp add: pages_of_def distinct_map)
qed

text \<open>
  \<open>listing\<close> orders the tracked frames; if every reference changes the pages in that order as
  \<open>step\<close> says, a trace does so too, and its misses are those of the abstract cache.
\<close>

lemma replay_cache:
  assumes listing: "\<And>n g s. ready T n g s \<Longrightarrow> set (listing g) = frames g"
    and step: "\<And>n g s v f g0 s'. ready T (Suc n) g s \<Longrightarrow> chosen g s v f g0 \<Longrightarrow>
      ready T n (touch f g0) s' \<Longrightarrow> f < memsize s \<Longrightarrow> memsize s' = memsize s \<Longrightarrow>
      map pte_ptr (coremap s') = (map pte_ptr (coremap s))[f := Some (page_of v)] \<Longrightarrow>
      pages_of s' (listing (touch f g0)) = step (memsize s) (pages_of s (listing g)) (page_of v)"
    and rd: "ready T (length tr) g s" and tr: "trace_ok T tr"
  shows "\<exists>g' s'. replay ref evict tr s = Ok s' \<and> ready T 0 g' s' \<and>
           pages_of s' (listing g') = fold (\<lambda>r ps. step (memsize s) ps r) (page_refs tr) (pages_of s (listing g)) \<and>
           miss_count s' = miss_count s + int (cache_misses (step (memsize s)) (pages_of s (listing g)) (page_refs tr))"
  using rd tr
proof (induction tr arbitrary: g s)
  case Nil
  then show ?case by (auto simp: page_refs_def)
next
  case (Cons a tr)
  obtain type v where a: "a = (type, v)" by (cases a)
  have rd: "ready T (Suc (length tr)) g s" using Cons.prems(1) by simp
  have ok: "page_of v \<in> T" "unat (PGDIR_INDEX v) < PTRS_PER_PGDIR" and tr: "trace_ok T tr"
    using Cons.prems(2) a by (auto simp: trace_ok_def)
  from access_mem_ok[OF rd ok, of type] obtain f g0 s1 where
    s1: "access_mem ref evict type v s = Ok (fst (spec_access type v (abs_mem s)), s1)"
    "f < memsize s" "chosen g s v f g0" "ready T (length tr) (touch f g0) s1" "memsize s1 = memsize s"
    "map pte_ptr (coremap s1) = (map pte_ptr (coremap s))[f := Some (page_of v)]"
    and cnt: "counted s (\<exists>h. resident s v h) (frames g = {..< memsize s}) s1" by blast
  have pages: "pages_of s1 (listing (touch f g0)) = step (memsize s) (pages_of s (listing g)) (page_of v)"
    by (rule step[OF rd s1(3,4,2,5,6)])
  have miss: "miss_count s1 = miss_count s + (if page_of v \<in> set (pages_of s (listing g)) then 0 else 1)"
    using cnt resident_pages[OF rd listing[OF rd], of v] by (simp add: counted_def accesses_def)
  from Cons.IH[OF s1(4) tr] obtain g' s' where
    s': "replay ref evict tr s1 = Ok s'" "ready T 0 g' s'"
    "pages_of s' (listing g') = fold (\<lambda>r ps. step (memsize s1) ps r) (page_refs tr) (pages_of s1 (listing (touch f g0)))"
    "miss_count s' = miss_count s1 +
      int (cache_misses (step (memsize s1)) (pages_of s1 (listing (touch f g0))) (page_refs tr))" by blast
  then show ?case
    using s1 pages miss by (intro exI[of _ g'] exI[of _ s']) (simp add: a page_refs_def)
qed

end

section \<open>Complete runs\<close>

text \<open>The abstract memory after a trace: no frames, no swap file, every page in its place.\<close>

definition trace_memory :: "(char \<times> u64) list \<Rightarrow> pte_ref \<Rightarrow> u8 list option" where
  "trace_memory tr = fold (\<lambda>(type, v) m. snd (spec_access type v m)) tr (\<lambda>_. None)"

text \<open>
  The end of a run over \<open>tr\<close>: the pages have the contents of the abstract memory, each
  reference counted once, as a hit or a miss, each miss that did not evict a page left one in
  memory, and no two pages in memory share a frame.
\<close>

definition pages_in_memory :: "'z core_scheme \<Rightarrow> pte_ref set" where
  "pages_in_memory s = {r. \<exists>e. pte_at s r = Some e \<and> pte_valid e}"

definition good_run :: "(char \<times> u64) list \<Rightarrow> 'z core_scheme \<Rightarrow> bool" where
  "good_run tr s \<longleftrightarrow>
     abs_mem s = trace_memory tr \<and> ref_count s = int (length tr) \<and>
     hit_count s + miss_count s = ref_count s \<and>
     evict_clean_count s + evict_dirty_count s + int (card (pages_in_memory s)) = miss_count s \<and>
     (\<forall>r q e d. pte_at s r = Some e \<and> pte_at s q = Some d \<and> pte_valid e \<and> pte_valid d \<and>
        frame_no e = frame_no d \<longrightarrow> r = q)"

definition fresh_run :: "'z core_scheme \<Rightarrow> bool" where
  "fresh_run s \<longleftrightarrow> abs_mem s = (\<lambda>_. None) \<and> hit_count s = 0 \<and> miss_count s = 0 \<and> ref_count s = 0 \<and>
     evict_clean_count s = 0 \<and> evict_dirty_count s = 0"

context replacement
begin

lemma card_pages_in_memory:
  assumes rd: "ready T n g s"
  shows "card (pages_in_memory s) = card (frames g)"
proof -
  let ?f = "\<lambda>r. frame_no (the (pte_at s r))"
  from rd obtain k where k: "mem_ok k T (frames g) s" by (auto simp: ready_def mem_inv_def)
  have "bij_betw ?f (pages_in_memory s) (frames g)"
    unfolding bij_betw_def
  proof
    show "inj_on ?f (pages_in_memory s)"
    proof (rule inj_onI)
      fix r q assume "r \<in> pages_in_memory s" "q \<in> pages_in_memory s" "?f r = ?f q"
      then obtain e d where "pte_at s r = Some e" "pte_valid e" "pte_at s q = Some d" "pte_valid d"
        "frame_no e = frame_no d" by (auto simp: pages_in_memory_def)
      then show "r = q" using frame_owner[OF k, of q d r e] by simp
    qed
    show "?f ` pages_in_memory s = frames g"
    proof
      show "?f ` pages_in_memory s \<subseteq> frames g"
        using mem_ok_entry[OF k] by (auto simp: pages_in_memory_def entry_ok_def)
      show "frames g \<subseteq> ?f ` pages_in_memory s"
      proof
        fix h assume "h \<in> frames g"
        from ready_owner[OF rd this] obtain r e where "pte_at s r = Some e" "pte_valid e" "frame_no e = h"
          by blast
        then show "h \<in> ?f ` pages_in_memory s"
          by (intro image_eqI[of _ _ r]) (simp_all add: pages_in_memory_def)
      qed
    qed
  qed
  then show ?thesis by (rule bij_betw_same_card)
qed

lemma good_replay:
  assumes rd: "ready T (length tr) g s" and tr: "trace_ok T tr" and fresh: "fresh_run s"
    and empty: "frames g = {}"
  shows "\<exists>s'. replay ref evict tr s = Ok s' \<and> good_run tr s'"
proof -
  from replay_ok[OF rd tr[unfolded trace_ok_def]] obtain g' s' where
    s': "replay ref evict tr s = Ok s'" "ready T 0 g' s'"
      "abs_mem s' = fold (\<lambda>(type, v) m. snd (spec_access type v m)) tr (abs_mem s)"
      "ref_count s' = ref_count s + int (length tr)"
      "hit_count s' + miss_count s' = hit_count s + miss_count s + int (length tr)"
      "miss_count s' - evictions s' - int (card (frames g')) =
        miss_count s - evictions s - int (card (frames g))" by blast
  from s'(2) obtain k where k: "mem_ok k T (frames g') s'" by (auto simp: ready_def mem_inv_def)
  have "r = q" if "pte_at s' r = Some e" "pte_at s' q = Some d" "pte_valid e" "pte_valid d"
    "frame_no e = frame_no d" for r q e d
    using frame_owner[OF k that(2,4,1,3,5)] by simp
  then have "good_run tr s'"
    using s' fresh empty card_pages_in_memory[OF s'(2)]
    unfolding good_run_def fresh_run_def trace_memory_def evictions_def by auto
  with s'(1) show ?thesis by blast
qed

end

end
