(* ===== verification/Fifo.thy ===== *)
theory Fifo
  imports Cache_Spec
begin

text \<open>
  First-in first-out replacement (\<^verbatim>\<open>a2/starter/fifo.c\<close>). The queue holds the frames in
  the order their pages arrived; the pages in memory are those of an abstract FIFO cache.
\<close>

section \<open>The C operations\<close>

definition fifo_init :: "sim \<Rightarrow> sim" where
  "fifo_init s = s\<lparr>fqueue := makeQueue (memsize s)\<rparr>"

definition fifo_evict :: "sim \<Rightarrow> (int \<times> sim) outcome" where
  "fifo_evict s = bind_o (dequeue (fqueue s)) (\<lambda>(v, q). Ok (v, s\<lparr>fqueue := q\<rparr>))"

definition fifo_ref :: "pte_ref \<Rightarrow> sim \<Rightarrow> sim outcome" where
  "fifo_ref p s =
     bind_o (get_pte s p) (\<lambda>e.
     let base_frame_number = int (frame_no e) in
     bind_o (contains (fqueue s) base_frame_number) (\<lambda>present.
     if \<not> present
     then bind_o (enqueue (fqueue s) base_frame_number) (\<lambda>q. Ok (s\<lparr>fqueue := q\<rparr>))
     else Ok s))"

section \<open>The contract\<close>

definition fifo_pinv :: "nat \<Rightarrow> nat list \<Rightarrow> sim \<Rightarrow> bool" where
  "fifo_pinv n g s \<longleftrightarrow>
     rq_rep (fqueue s) (map int g) \<and> qsize (fqueue s) = memsize s \<and> distinct g \<and>
     set g \<subseteq> {..< memsize s}"

definition fifo_touch :: "nat \<Rightarrow> nat list \<Rightarrow> nat list" where
  "fifo_touch f g = (if f \<in> set g then g else g @ [f])"

definition oldest :: "nat list \<Rightarrow> nat \<Rightarrow> bool" where
  "oldest g f \<longleftrightarrow> g \<noteq> [] \<and> f = hd g"

definition drop_oldest :: "nat \<Rightarrow> nat list \<Rightarrow> nat list" where
  "drop_oldest f g = tl g"

lemma fifo_evict_ok:
  assumes pinv: "fifo_pinv n g s" and inv: "mem_inv T (set g) s" and full: "set g = {..< memsize s}"
  shows "\<exists>f s'. fifo_evict s = Ok (int f, s') \<and> f \<in> set g \<and> oldest g f \<and> same_mem s s' \<and>
           fifo_pinv n (drop_oldest f g) s' \<and> set (drop_oldest f g) = set g - {f}"
proof -
  have "0 < memsize s" using inv by (auto simp: mem_inv_def mem_ok_def frames_ok_def)
  with full obtain f fs where g: "g = f # fs" by (cases g) auto
  then have "rq_rep (fqueue s) (int f # map int fs)" using pinv by (simp add: fifo_pinv_def)
  from dequeue_rep[OF this] obtain q where q: "dequeue (fqueue s) = Ok (int f, q)"
    "rq_rep q (map int fs)" "qsize q = qsize (fqueue s)" by blast
  then have "fifo_pinv n fs (s\<lparr>fqueue := q\<rparr>)" using pinv g by (simp add: fifo_pinv_def)
  with q g pinv show ?thesis
    by (intro exI[of _ f] exI[of _ "s\<lparr>fqueue := q\<rparr>"])
      (auto simp: fifo_evict_def oldest_def drop_oldest_def fifo_pinv_def)
qed

lemma fifo_ref_ok:
  assumes pinv: "fifo_pinv (Suc n) g s" and inv: "mem_inv T (insert f (set g)) s"
    and e: "pte_at s r = Some e" "pte_valid e" "frame_no e = f"
  shows "\<exists>s'. fifo_ref r s = Ok s' \<and> same_mem s s' \<and> fifo_pinv n (fifo_touch f g) s' \<and>
           set (fifo_touch f g) = insert f (set g)"
proof -
  have f: "f < memsize s" using inv by (auto simp: mem_inv_def mem_ok_def frames_ok_def)
  have rep: "rq_rep (fqueue s) (map int g)" and d: "distinct g" and sub: "set g \<subseteq> {..< memsize s}"
    and qs: "qsize (fqueue s) = memsize s" using pinv by (auto simp: fifo_pinv_def)
  have mark: "int f \<noteq> EMPTY_QUEUE_SLOT" by (simp add: EMPTY_QUEUE_SLOT_def)
  have mem: "contains (fqueue s) (int f) = Ok (f \<in> set g)"
    using contains_rep[OF rep mark] by (auto simp: image_iff)
  show ?thesis
  proof (cases "f \<in> set g")
    case True
    then have "fifo_ref r s = Ok s" using mem e by (simp add: fifo_ref_def Let_def)
    with True pinv show ?thesis by (auto simp: fifo_touch_def fifo_pinv_def)
  next
    case False
    have "card (insert f (set g)) \<le> card {..< memsize s}" using sub f by (intro card_mono) auto
    then have "length g < memsize s" using False d by (simp add: distinct_card)
    then have "length (map int g) < qsize (fqueue s)" using qs by simp
    from enqueue_rep[OF rep this mark] obtain q where q: "enqueue (fqueue s) (int f) = Ok q"
      "rq_rep q (map int g @ [int f])" "qsize q = qsize (fqueue s)" by blast
    have "fifo_ref r s = Ok (s\<lparr>fqueue := q\<rparr>)" using False mem e q by (simp add: fifo_ref_def Let_def)
    moreover have "fifo_pinv n (fifo_touch f g) (s\<lparr>fqueue := q\<rparr>)"
      using False q qs d sub f by (simp add: fifo_pinv_def fifo_touch_def)
    ultimately show ?thesis using False by (auto simp: fifo_touch_def)
  qed
qed

interpretation fifo: replacement fifo_ref fifo_evict fifo_pinv set fifo_touch drop_oldest oldest
proof unfold_locales
  fix n g s s'
  assume "fifo_pinv n g s" and more: "core.more s' = core.more s" and "memsize s' = memsize s"
  then show "fifo_pinv n g s'" unfolding fifo_pinv_def more_fields[OF more] by simp
qed (rule fifo_evict_ok fifo_ref_ok, assumption+)+

section \<open>The abstract FIFO cache of pages\<close>

text \<open>\<open>m\<close> frames; the pages in the order they came in.\<close>

definition fifo_step :: "nat \<Rightarrow> pte_ref list \<Rightarrow> pte_ref \<Rightarrow> pte_ref list" where
  "fifo_step m ps r =
     (if r \<in> set ps then ps else (if length ps = m then tl ps else ps) @ [r])"

lemma fifo_step_ok:
  assumes rd: "fifo.ready T (Suc n) g s" and ch: "fifo.chosen g s v f g0"
    and rd': "fifo.ready T n (fifo_touch f g0) s'" and f: "f < memsize s"
    and ptr: "map pte_ptr (coremap s') = (map pte_ptr (coremap s))[f := Some (page_of v)]"
  shows "pages_of s' (fifo_touch f g0) = fifo_step (memsize s) (pages_of s g) (page_of v)"
proof -
  have p: "fifo_pinv (Suc n) g s" using rd by (simp add: fifo.ready_def)
  have len: "length (coremap s) = memsize s" and sub: "set g \<subseteq> {..< length (coremap s)}"
    using fifo.ready_bounds[OF rd] by auto
  note res = fifo.resident_pages[OF rd refl, of v]
  from ch consider (hit) "resident s v f" "g0 = g" "f \<in> set g"
    | (miss) "\<forall>h. \<not> resident s v h" "fifo.place (memsize s) g f g0" by (auto simp: fifo.chosen_def)
  then show ?thesis
  proof cases
    case hit
    then have "the (pte_ptr (coremap s ! f)) = page_of v" using fifo.resident_iff[OF rd] by simp
    then have "pages_of s' g = pages_of s g"
      unfolding pages_of_update[OF ptr sub] by (simp add: pages_of_def)
    then show ?thesis using hit res by (auto simp: fifo_touch_def fifo_step_def)
  next
    case miss
    have new: "f \<notin> set g0" and g0: "g0 = (if length g = memsize s then tl g else g)"
    proof -
      show "f \<notin> set g0" using fifo.place_frames[OF miss(2)] by simp
      have d: "length g = card (set g)" using p by (simp add: fifo_pinv_def distinct_card)
      have "length g = memsize s \<longleftrightarrow> set g = {..< memsize s}"
      proof
        assume "length g = memsize s"
        then show "set g = {..< memsize s}"
          using d sub len by (intro card_subset_eq) auto
      qed (use d in simp)
      then show "g0 = (if length g = memsize s then tl g else g)"
        using miss(2) f by (auto simp: fifo.place_def drop_oldest_def)
    qed
    have sub0: "set g0 \<subseteq> {..< length (coremap s)}"
      using sub g0 by (cases g) auto
    have "pages_of s' g0 = pages_of s g0"
      unfolding pages_of_update[OF ptr sub0] using new by (auto simp: pages_of_def)
    moreover have "pages_of s g0 = (if length (pages_of s g) = memsize s then tl (pages_of s g) else pages_of s g)"
      by (simp add: g0 pages_of_def map_tl)
    moreover have at_f: "pages_of s' [f] = [page_of v]"
      using pages_of_update[OF ptr, of "[f]"] f len by simp
    moreover have "pages_of s' (fifo_touch f g0) = pages_of s' g0 @ [page_of v]"
      using new at_f by (simp add: fifo_touch_def pages_of_append)
    moreover have "page_of v \<notin> set (pages_of s g)" using miss(1) res by blast
    ultimately show ?thesis by (simp add: fifo_step_def)
  qed
qed

text \<open>The misses of a replay.\<close>

lemma fifo_replay:
  assumes "fifo.ready T (length tr) g s" and "trace_ok T tr"
  shows "\<exists>g' s'. replay fifo_ref fifo_evict tr s = Ok s' \<and> fifo.ready T 0 g' s' \<and>
           pages_of s' g' = fold (\<lambda>r ps. fifo_step (memsize s) ps r) (page_refs tr) (pages_of s g) \<and>
           miss_count s' = miss_count s + int (cache_misses (fifo_step (memsize s)) (pages_of s g) (page_refs tr))"
  by (rule fifo.replay_cache[where listing = "\<lambda>g. g" and step = fifo_step, OF refl _ assms])
    (rule fifo_step_ok, assumption+)

end
