(* ===== verification/Lru.thy ===== *)
theory Lru
  imports Cache_Spec
begin

text \<open>
  Least-recently-used replacement with timestamps (\<^verbatim>\<open>a2/starter/lru.c\<close>). As long as
  the 32-bit clock has not wrapped, the pages in memory are those of an abstract LRU cache.
\<close>

section \<open>The C operations\<close>

definition lru_init :: "sim \<Rightarrow> sim" where
  "lru_init s = s\<lparr>timestamp := 0, timestamp_list := replicate (memsize s) 0\<rparr>"

definition get_timestamp :: "pte_ref \<Rightarrow> sim \<Rightarrow> u32 outcome" where
  "get_timestamp p s =
     bind_o (get_pte s p) (\<lambda>e.
     let frame_number = frame_no e in
     bind_o (defined_o (frame_number < length (timestamp_list s))) (\<lambda>_.
     Ok (timestamp_list s ! frame_number)))"

definition set_timestamp :: "pte_ref \<Rightarrow> sim \<Rightarrow> sim outcome" where
  "set_timestamp p s =
     bind_o (get_pte s p) (\<lambda>e.
     let frame_number = frame_no e in
     bind_o (defined_o (frame_number < length (timestamp_list s))) (\<lambda>_.
     Ok (s\<lparr>timestamp_list := (timestamp_list s)[frame_number := timestamp s],
           timestamp := timestamp s + 1\<rparr>)))"

text \<open>The loop of \<open>lru_evict\<close>, from index \<open>i\<close> on, for \<open>n\<close> frames.\<close>

fun oldest_loop :: "nat \<Rightarrow> nat \<Rightarrow> nat \<Rightarrow> sim \<Rightarrow> nat outcome" where
  "oldest_loop 0 i oldest_ind s = Ok oldest_ind"
| "oldest_loop (Suc n) i oldest_ind s =
     bind_o (frame_pte s (int i)) (\<lambda>cur.
     bind_o (frame_pte s (int oldest_ind)) (\<lambda>old.
     bind_o (get_timestamp cur s) (\<lambda>a.
     bind_o (get_timestamp old s) (\<lambda>b.
     oldest_loop n (Suc i) (if a < b then i else oldest_ind) s))))"

definition lru_evict :: "sim \<Rightarrow> (int \<times> sim) outcome" where
  "lru_evict s =
     bind_o (oldest_loop (memsize s) 0 0 s) (\<lambda>oldest_ind.
     bind_o (frame_pte s (int oldest_ind)) (\<lambda>r.
     bind_o (get_pte s r) (\<lambda>e. Ok (int (frame_no e), s))))"

definition lru_ref :: "pte_ref \<Rightarrow> sim \<Rightarrow> sim outcome" where
  "lru_ref p s = set_timestamp p s"

section \<open>The contract\<close>

text \<open>The view: the frames from the least to the most recently used.\<close>

definition lru_pinv :: "nat \<Rightarrow> nat list \<Rightarrow> sim \<Rightarrow> bool" where
  "lru_pinv n g s \<longleftrightarrow>
     length (timestamp_list s) = memsize s \<and> distinct g \<and> set g \<subseteq> {..< memsize s} \<and>
     sorted_wrt (\<lambda>a b. timestamp_list s ! a < timestamp_list s ! b) g \<and>
     (\<forall>f \<in> set g. timestamp_list s ! f < timestamp s) \<and>
     unat (timestamp s) + n < 2 ^ 32"

definition lru_touch :: "nat \<Rightarrow> nat list \<Rightarrow> nat list" where
  "lru_touch f g = remove1 f g @ [f]"

definition least_recent :: "nat list \<Rightarrow> nat \<Rightarrow> bool" where
  "least_recent g f \<longleftrightarrow> g \<noteq> [] \<and> f = hd g"

definition drop_least :: "nat \<Rightarrow> nat list \<Rightarrow> nat list" where
  "drop_least f g = tl g"

definition older :: "u32 list \<Rightarrow> nat \<Rightarrow> nat \<Rightarrow> nat" where
  "older ts j best = (if ts ! j < ts ! best then j else best)"

lemma oldest_loop_eq:
  assumes inv: "mem_inv T {..< memsize s} s" and len: "length (timestamp_list s) = memsize s"
  shows "i + n \<le> memsize s \<Longrightarrow> b < memsize s \<Longrightarrow>
     oldest_loop n i b s = Ok (fold (older (timestamp_list s)) [i..<i + n] b)"
proof (induction n arbitrary: i b)
  case 0
  then show ?case by simp
next
  case (Suc n)
  have time: "bind_o (frame_pte s (int j)) (\<lambda>r. bind_o (get_timestamp r s) k) = k (timestamp_list s ! j)"
    if "j < memsize s" for j and k :: "u32 \<Rightarrow> 'a outcome"
  proof -
    from that obtain r e where "frame_pte s (int j) = Ok r" "pte_at s r = Some e" "frame_no e = j"
      using owned_frame[OF inv, of j] by (metis lessThan_iff)
    then show ?thesis using that len by (simp add: get_timestamp_def Let_def)
  qed
  have i: "i < memsize s" using Suc.prems by simp
  obtain p c where p: "frame_pte s (int i) = Ok p" "pte_at s p = Some c" "frame_no c = i"
    using owned_frame[OF inv, of i] i by (metis lessThan_iff)
  obtain q d where q: "frame_pte s (int b) = Ok q" "pte_at s q = Some d" "frame_no d = b"
    using owned_frame[OF inv, of b] Suc.prems(2) by (metis lessThan_iff)
  have "oldest_loop (Suc n) i b s = oldest_loop n (Suc i) (older (timestamp_list s) i b) s"
    using p q i Suc.prems(2) len by (simp add: get_timestamp_def Let_def older_def)
  also have "\<dots> = Ok (fold (older (timestamp_list s)) [Suc i..<Suc i + n] (older (timestamp_list s) i b))"
    using Suc.prems i by (intro Suc.IH) (simp_all add: older_def)
  also have "\<dots> = Ok (fold (older (timestamp_list s)) [i..<i + Suc n] b)"
    by (simp add: upt_conv_Cons del: upt_Suc)
  finally show ?case .
qed

lemma fold_older:
  assumes "b < m"
  shows "n \<le> m \<Longrightarrow> fold (older ts) [0..<n] b < m \<and>
     (\<forall>j < n. \<not> ts ! j < ts ! fold (older ts) [0..<n] b) \<and>
     \<not> ts ! b < ts ! fold (older ts) [0..<n] b"
proof (induction n)
  case 0
  then show ?case using assms by simp
next
  case (Suc n)
  let ?r = "fold (older ts) [0..<n] b"
  have "fold (older ts) [0..<Suc n] b = older ts n ?r" by simp
  with Suc show ?case by (auto simp: older_def less_Suc_eq dest: order.strict_trans)
qed

lemma lru_evict_ok:
  assumes pinv: "lru_pinv n g s" and inv: "mem_inv T (set g) s" and full: "set g = {..< memsize s}"
  shows "\<exists>f s'. lru_evict s = Ok (int f, s') \<and> f \<in> set g \<and> least_recent g f \<and> same_mem s s' \<and>
           lru_pinv n (drop_least f g) s' \<and> set (drop_least f g) = set g - {f}"
proof -
  let ?ts = "timestamp_list s"
  have pos: "0 < memsize s" using inv by (auto simp: mem_inv_def mem_ok_def frames_ok_def)
  with full obtain f fs where g: "g = f # fs" by (cases g) auto
  have len: "length ?ts = memsize s" using pinv by (simp add: lru_pinv_def)
  have inv': "mem_inv T {..< memsize s} s" using inv full by simp
  let ?r = "fold (older ?ts) [0..<memsize s] 0"
  have run: "oldest_loop (memsize s) 0 0 s = Ok ?r"
    using oldest_loop_eq[OF inv' len, of 0 "memsize s" 0] pos by simp
  from fold_older[OF pos, of "memsize s" ?ts] have r: "?r < memsize s" "\<forall>j < memsize s. \<not> ?ts ! j < ?ts ! ?r"
    by auto
  have "?r = f"
  proof (rule ccontr)
    assume "?r \<noteq> f"
    moreover have "?r \<in> set g" using r full by simp
    ultimately have "?r \<in> set fs" using g by simp
    then have "?ts ! f < ?ts ! ?r" using pinv g by (simp add: lru_pinv_def)
    moreover have "f < memsize s" using full g by auto
    ultimately show False using r(2) by blast
  qed
  moreover obtain q e where "frame_pte s (int ?r) = Ok q" "pte_at s q = Some e" "frame_no e = ?r"
    using owned_frame[OF inv', of ?r] r(1) by (metis lessThan_iff)
  ultimately have "lru_evict s = Ok (int f, s)" using run by (simp add: lru_evict_def)
  moreover have "lru_pinv n fs s" using pinv g by (simp add: lru_pinv_def)
  ultimately show ?thesis
    using g pinv by (intro exI[of _ f] exI[of _ s]) (auto simp: least_recent_def drop_least_def lru_pinv_def)
qed

lemma sorted_wrt_remove1: "sorted_wrt P xs \<Longrightarrow> sorted_wrt P (remove1 x xs)"
  by (induction xs) (auto dest: subsetD[OF set_remove1_subset])

lemma lru_ref_ok:
  assumes pinv: "lru_pinv (Suc n) g s" and inv: "mem_inv T (insert f (set g)) s"
    and e: "pte_at s r = Some e" "pte_valid e" "frame_no e = f"
  shows "\<exists>s'. lru_ref r s = Ok s' \<and> same_mem s s' \<and> lru_pinv n (lru_touch f g) s' \<and>
           set (lru_touch f g) = insert f (set g)"
proof -
  define t where "t = s\<lparr>timestamp_list := (timestamp_list s)[f := timestamp s], timestamp := timestamp s + 1\<rparr>"
  have f: "f < memsize s" using inv by (auto simp: mem_inv_def mem_ok_def frames_ok_def)
  have p: "length (timestamp_list s) = memsize s" "distinct g" "set g \<subseteq> {..< memsize s}"
    "sorted_wrt (\<lambda>a b. timestamp_list s ! a < timestamp_list s ! b) g"
    "\<forall>h \<in> set g. timestamp_list s ! h < timestamp s" "unat (timestamp s) + Suc n < 2 ^ 32"
    using pinv by (auto simp: lru_pinv_def)
  have time: "timestamp_list t ! h = (if h = f then timestamp s else timestamp_list s ! h)" for h
    using f p(1) by (simp add: t_def)
  have t: "length (timestamp_list t) = memsize t" "memsize t = memsize s" "same_mem s t"
    "unat (timestamp t) = unat (timestamp s) + 1"
    using p(1,6) by (simp_all add: t_def unat_word_ariths)
  have later: "timestamp s < timestamp t" using t(4) by (simp add: word_less_nat_alt)
  have sub: "set (remove1 f g) \<subseteq> set g" by (rule set_remove1_subset)
  have notin: "f \<notin> set (remove1 f g)" using p(2) by simp
  have before: "timestamp_list t ! h < timestamp s" if "h \<in> set (remove1 f g)" for h
    using p(5) sub notin that by (auto simp: time)
  have old: "sorted_wrt (\<lambda>a b. timestamp_list s ! a < timestamp_list s ! b) (remove1 f g)"
    using p(4) by (rule sorted_wrt_remove1)
  have "sorted_wrt (\<lambda>a b. timestamp_list t ! a < timestamp_list t ! b) (remove1 f g)"
  proof (rule sorted_wrt_mono_rel[OF _ old])
    fix a b assume "a \<in> set (remove1 f g)" "b \<in> set (remove1 f g)"
      "timestamp_list s ! a < timestamp_list s ! b"
    with notin show "timestamp_list t ! a < timestamp_list t ! b" unfolding time by auto
  qed
  then have "sorted_wrt (\<lambda>a b. timestamp_list t ! a < timestamp_list t ! b) (lru_touch f g)"
    using before time[of f] by (simp add: lru_touch_def sorted_wrt_append)
  moreover have "\<forall>h \<in> set (lru_touch f g). timestamp_list t ! h < timestamp t"
    using before later time[of f] by (auto simp: lru_touch_def dest: order.strict_trans)
  moreover have "set (lru_touch f g) = insert f (set g)" "distinct (lru_touch f g)"
    using p(2) by (auto simp: lru_touch_def)
  moreover have "lru_ref r s = Ok t" using e f p(1) by (simp add: lru_ref_def set_timestamp_def Let_def t_def)
  ultimately show ?thesis
    using t p f by (intro exI[of _ t]) (auto simp: lru_pinv_def)
qed

interpretation lru: replacement lru_ref lru_evict lru_pinv set lru_touch drop_least least_recent
proof unfold_locales
  fix n g s s'
  assume "lru_pinv n g s" and more: "core.more s' = core.more s" and "memsize s' = memsize s"
  then show "lru_pinv n g s'" unfolding lru_pinv_def more_fields[OF more] by simp
qed (rule lru_evict_ok lru_ref_ok, assumption+)+

section \<open>The abstract LRU cache of pages\<close>

text \<open>The pages from the least to the most recently used; \<open>m\<close> frames.\<close>

definition lru_step :: "nat \<Rightarrow> pte_ref list \<Rightarrow> pte_ref \<Rightarrow> pte_ref list" where
  "lru_step m ps r =
     (if r \<in> set ps then remove1 r ps else if length ps = m then tl ps else ps) @ [r]"

lemma map_remove1_inj:
  "inj_on h (insert x (set xs)) \<Longrightarrow> map h (remove1 x xs) = remove1 (h x) (map h xs)"
proof (induction xs)
  case (Cons y ys)
  have "h y = h x \<longleftrightarrow> y = x" by (rule inj_on_eq_iff[OF Cons.prems]) simp_all
  moreover have "inj_on h (insert x (set ys))" by (rule inj_on_subset[OF Cons.prems]) auto
  ultimately show ?case using Cons.IH by (cases "y = x") auto
qed simp

lemma lru_step_ok:
  assumes rd: "lru.ready T (Suc n) g s" and ch: "lru.chosen g s v f g0"
    and rd': "lru.ready T n (lru_touch f g0) s'" and f: "f < memsize s"
    and ptr: "map pte_ptr (coremap s') = (map pte_ptr (coremap s))[f := Some (page_of v)]"
  shows "pages_of s' (lru_touch f g0) = lru_step (memsize s) (pages_of s g) (page_of v)"
proof -
  let ?page = "\<lambda>h. the (pte_ptr (coremap s ! h))"
  have d: "distinct g" using rd by (simp add: lru.ready_def lru_pinv_def)
  have len: "length (coremap s) = memsize s" and sub: "set g \<subseteq> {..< length (coremap s)}"
    using lru.ready_bounds[OF rd] by auto
  note res = lru.resident_pages[OF rd refl, of v]
  have touched_pages: "pages_of s' (lru_touch f g0) = pages_of s (remove1 f g0) @ [page_of v]"
    if "set g0 \<subseteq> set g" "distinct g0"
  proof -
    have "set (lru_touch f g0) \<subseteq> {..< length (coremap s)}"
      using that sub f len set_remove1_subset[of f g0] by (auto simp: lru_touch_def)
    from pages_of_update[OF ptr this] show ?thesis
      using that(2) by (auto simp: lru_touch_def pages_of_def)
  qed
  from ch consider (hit) "resident s v f" "g0 = g" "f \<in> set g"
    | (miss) "\<forall>h. \<not> resident s v h" "lru.place (memsize s) g f g0" by (auto simp: lru.chosen_def)
  then show ?thesis
  proof cases
    case hit
    then have pf: "?page f = page_of v" using lru.resident_iff[OF rd] by simp
    have "distinct (map ?page g)" using lru.pages_distinct[OF rd subset_refl d] by (simp add: pages_of_def)
    then have "inj_on ?page (insert f (set g))" using hit(3) by (simp add: distinct_map insert_absorb)
    then have "pages_of s (remove1 f g) = remove1 (page_of v) (pages_of s g)"
      using pf by (simp add: pages_of_def map_remove1_inj)
    moreover have "page_of v \<in> set (pages_of s g)" using hit res by blast
    ultimately show ?thesis using touched_pages hit(2) d by (simp add: lru_step_def)
  next
    case miss
    have new: "f \<notin> set g0" using lru.place_frames[OF miss(2)] by simp
    have card: "length g = card (set g)" using d by (simp add: distinct_card)
    have "length g = memsize s \<longleftrightarrow> set g = {..< memsize s}"
    proof
      assume "length g = memsize s"
      then show "set g = {..< memsize s}" using card sub len by (intro card_subset_eq) auto
    qed (use card in simp)
    then have g0: "g0 = (if length g = memsize s then tl g else g)"
      using miss(2) f by (auto simp: lru.place_def drop_least_def)
    have "set g0 \<subseteq> set g" "distinct g0" using g0 d by (cases g; auto)+
    then have "pages_of s' (lru_touch f g0) = pages_of s g0 @ [page_of v]"
      using touched_pages new by (simp add: remove1_idem)
    moreover have "pages_of s g0 = (if length (pages_of s g) = memsize s then tl (pages_of s g) else pages_of s g)"
      by (simp add: g0 pages_of_def map_tl)
    moreover have "page_of v \<notin> set (pages_of s g)" using miss(1) res by blast
    ultimately show ?thesis by (simp add: lru_step_def)
  qed
qed

text \<open>The misses of a replay.\<close>

lemma lru_replay:
  assumes "lru.ready T (length tr) g s" and "trace_ok T tr"
  shows "\<exists>g' s'. replay lru_ref lru_evict tr s = Ok s' \<and> lru.ready T 0 g' s' \<and>
           pages_of s' g' = fold (\<lambda>r ps. lru_step (memsize s) ps r) (page_refs tr) (pages_of s g) \<and>
           miss_count s' = miss_count s + int (cache_misses (lru_step (memsize s)) (pages_of s g) (page_refs tr))"
  by (rule lru.replay_cache[where listing = "\<lambda>g. g" and step = lru_step, OF refl _ assms])
    (rule lru_step_ok, assumption+)

end
