(* ===== verification/Clock_Rand.thy ===== *)
theory Clock_Rand
  imports Cache_Spec
begin

text \<open>
  The clock algorithm (\<^verbatim>\<open>a2/starter/clock.c\<close>) and random replacement
  (\<^verbatim>\<open>rand.c\<close>). The sweep of the clock is a loop without a bound in the code; it is
  shown to end within one turn, and to give every referenced frame a second chance.
\<close>

section \<open>The clock\<close>

definition is_referenced :: "sim \<Rightarrow> bool outcome" where
  "is_referenced s =
     bind_o (frame_pte s (int (clock_arm s))) (\<lambda>r.
     bind_o (get_pte s r) (\<lambda>e. Ok (frame e AND PG_REF \<noteq> 0)))"

definition turn_off_reference :: "sim \<Rightarrow> sim outcome" where
  "turn_off_reference s =
     bind_o (frame_pte s (int (clock_arm s))) (\<lambda>r.
     bind_o (get_pte s r) (\<lambda>e. Ok (set_pte r (e\<lparr>frame := frame e AND NOT PG_REF\<rparr>) s)))"

definition sweep_clock_arm :: "sim \<Rightarrow> sim outcome" where
  "sweep_clock_arm s =
     bind_o (defined_o (memsize s \<noteq> 0)) (\<lambda>_.
     Ok (s\<lparr>clock_arm := (clock_arm s + 1) mod memsize s\<rparr>))"

text \<open>One test of the loop, with the body when it is entered: \<open>Ok (Inr s)\<close> goes on with \<open>s\<close>.\<close>

definition clock_turn :: "sim \<Rightarrow> (sim + sim) outcome" where
  "clock_turn s =
     bind_o (is_referenced s) (\<lambda>b.
     if b then bind_o (turn_off_reference s) (\<lambda>s1. bind_o (sweep_clock_arm s1) (\<lambda>s2. Ok (Inr s2)))
     else Ok (Inl s))"

text \<open>The loop; \<open>None\<close> if it never ends.\<close>

partial_function (option) clock_loop :: "sim \<Rightarrow> sim outcome option" where
  "clock_loop s =
     (case clock_turn s of
        Ok x \<Rightarrow> (case x of Inl t \<Rightarrow> Some (Ok t) | Inr t \<Rightarrow> clock_loop t)
      | Exit c \<Rightarrow> Some (Exit c) | Abort \<Rightarrow> Some Abort | Hang \<Rightarrow> Some Hang | Undef \<Rightarrow> Some Undef)"

definition clock_evict :: "sim \<Rightarrow> (int \<times> sim) outcome" where
  "clock_evict s =
     (case clock_loop s of
        None \<Rightarrow> Hang
      | Some res \<Rightarrow>
          bind_o res (\<lambda>s1.
          let current_frame = clock_arm s1 in
          bind_o (sweep_clock_arm s1) (\<lambda>s2. Ok (int current_frame, s2))))"

definition clock_ref :: "pte_ref \<Rightarrow> sim \<Rightarrow> sim outcome" where
  "clock_ref p s = Ok s"

definition clock_init :: "sim \<Rightarrow> sim" where
  "clock_init s = s\<lparr>clock_arm := 0\<rparr>"

section \<open>The sweep ends within one turn\<close>

text \<open>The page in frame \<open>f\<close> has its reference bit set.\<close>

definition refd_frame :: "'z core_scheme \<Rightarrow> nat \<Rightarrow> bool" where
  "refd_frame s f \<longleftrightarrow>
     (\<exists>r e. pte_ptr (coremap s ! f) = Some r \<and> pte_at s r = Some e \<and> pte_refd e)"

lemma same_mem_clear_ref:
  assumes "pte_at s r = Some e"
  shows "same_mem s (set_pte r (e\<lparr>frame := frame e AND NOT PG_REF\<rparr>) s)"
proof -
  have "ref_eq e (e\<lparr>frame := frame e AND NOT PG_REF\<rparr>)"
    by (simp add: ref_eq_def bit_clear_flag bit_flags)
  moreover have "ref_eq d d" for d by simp
  ultimately have "rel_option ref_eq (pte_at s q) (pte_at (set_pte r (e\<lparr>frame := frame e AND NOT PG_REF\<rparr>) s) q)" for q
    using assms by (simp add: set_pte_at option.rel_refl)
  then show ?thesis by (simp add: same_mem_def set_pte_None)
qed

lemma turn_on:
  assumes inv: "mem_inv T {..< memsize s} s" and arm: "clock_arm s < memsize s"
    and refd: "refd_frame s (clock_arm s)"
  shows "\<exists>t. clock_turn s = Ok (Inr t) \<and> same_mem s t \<and>
           clock_arm t = (clock_arm s + 1) mod memsize s \<and>
           (\<forall>f < memsize s. refd_frame t f \<longleftrightarrow> refd_frame s f \<and> f \<noteq> clock_arm s)"
proof -
  let ?a = "clock_arm s"
  from owned_frame[OF inv, of ?a] arm obtain r e where
    r: "frame_pte s (int ?a) = Ok r" "pte_at s r = Some e" "pte_valid e" "frame_no e = ?a"
      "pte_ptr (coremap s ! ?a) = Some r" by (metis lessThan_iff)
  have e: "pte_refd e" using refd r by (auto simp: refd_frame_def)
  let ?s1 = "set_pte r (e\<lparr>frame := frame e AND NOT PG_REF\<rparr>) s"
  have at: "pte_at ?s1 q = (if q = r then Some (e\<lparr>frame := frame e AND NOT PG_REF\<rparr>) else pte_at s q)" for q
    using r(2) by (simp add: set_pte_at)
  have arm1: "clock_arm ?s1 = ?a" by (simp add: set_pte_def split: option.split)
  let ?t = "?s1\<lparr>clock_arm := (?a + 1) mod memsize s\<rparr>"
  have "clock_turn s = Ok (Inr ?t)"
    using r e arm arm1 by (simp add: clock_turn_def is_referenced_def turn_off_reference_def
        sweep_clock_arm_def pte_refd_def)
  moreover have "same_mem s ?t"
    using same_mem_clear_ref[OF r(2)] same_mem_globals(3) same_mem_trans by blast
  moreover have "refd_frame ?t f \<longleftrightarrow> refd_frame s f \<and> f \<noteq> ?a" if "f < memsize s" for f
  proof -
    from owned_frame[OF inv, of f] that obtain q d where
      q: "pte_at s q = Some d" "pte_ptr (coremap s ! f) = Some q" "frame_no d = f" by (metis lessThan_iff)
    have "q = r \<longleftrightarrow> f = ?a"
    proof
      assume "q = r"
      with q r show "f = ?a" by simp
    next
      assume "f = ?a"
      with q r show "q = r" by simp
    qed
    moreover have "\<not> pte_refd (e\<lparr>frame := frame e AND NOT PG_REF\<rparr>)"
      by (simp add: flag_bits bit_clear_flag bit_flags)
    ultimately show ?thesis using q by (auto simp: refd_frame_def at)
  qed
  ultimately show ?thesis by (intro exI[of _ ?t]) simp
qed

lemma turn_off:
  assumes inv: "mem_inv T {..< memsize s} s" and arm: "clock_arm s < memsize s"
    and refd: "\<not> refd_frame s (clock_arm s)"
  shows "clock_turn s = Ok (Inl s)"
proof -
  from owned_frame[OF inv, of "clock_arm s"] arm obtain r e where
    "frame_pte s (int (clock_arm s)) = Ok r" "pte_at s r = Some e"
    "pte_ptr (coremap s ! clock_arm s) = Some r" by (metis lessThan_iff)
  with refd show ?thesis by (auto simp: clock_turn_def is_referenced_def refd_frame_def pte_refd_def)
qed

text \<open>
  The outcome of the sweep: it passes \<open>j\<close> referenced frames, clears their bits, and stops at
  the first frame without one (the frame it started at if all had one).
\<close>

definition swept :: "sim \<Rightarrow> nat \<Rightarrow> sim \<Rightarrow> bool" where
  "swept s j t \<longleftrightarrow>
     j \<le> memsize s \<and> (\<forall>i < j. refd_frame s ((clock_arm s + i) mod memsize s)) \<and>
     clock_arm t = (clock_arm s + j) mod memsize s \<and> \<not> refd_frame t (clock_arm t) \<and>
     (\<forall>f < memsize s. refd_frame t f \<longleftrightarrow>
        refd_frame s f \<and> (\<forall>i < j. f \<noteq> (clock_arm s + i) mod memsize s))"

lemma clock_loop_ok:
  assumes "mem_inv T {..< memsize s} s" and "clock_arm s < memsize s"
  shows "\<exists>j t. clock_loop s = Some (Ok t) \<and> same_mem s t \<and> swept s j t"
  using assms
proof (induction "card {f. f < memsize s \<and> refd_frame s f}" arbitrary: s rule: less_induct)
  case (less s)
  let ?m = "memsize s"
  note inv = less.prems(1) and arm = less.prems(2)
  show ?case
  proof (cases "refd_frame s (clock_arm s)")
    case False
    then have "clock_loop s = Some (Ok s)"
      using turn_off[OF inv arm] by (simp add: clock_loop.simps)
    moreover have "swept s 0 s" using False arm by (simp add: swept_def)
    ultimately show ?thesis by (intro exI[of _ 0] exI[of _ s]) simp
  next
    case True
    from turn_on[OF inv arm True] obtain u where u: "clock_turn s = Ok (Inr u)" "same_mem s u"
      "clock_arm u = (clock_arm s + 1) mod ?m"
      "\<forall>f < ?m. refd_frame u f \<longleftrightarrow> refd_frame s f \<and> f \<noteq> clock_arm s" by blast
    have mu: "memsize u = ?m" using u(2) by (simp add: same_mem_def)
    have inv_u: "mem_inv T {..< memsize u} u"
      using inv same_mem_inv[OF u(2)] mu by (auto simp: mem_inv_def)
    have arm_u: "clock_arm u < memsize u" using u(3) mu arm by simp
    have "{f. f < memsize u \<and> refd_frame u f} \<subset> {f. f < ?m \<and> refd_frame s f}"
      using u(4) mu arm True by auto
    then have "card {f. f < memsize u \<and> refd_frame u f} < card {f. f < ?m \<and> refd_frame s f}"
      by (intro psubset_card_mono) auto
    from less.hyps[OF this inv_u arm_u] obtain j t where
      t: "clock_loop u = Some (Ok t)" "same_mem u t" "swept u j t" by blast
    have pos: "(clock_arm u + i) mod ?m = (clock_arm s + Suc i) mod ?m" for i
      unfolding u(3) by (simp add: mod_add_left_eq)
    have sw: "j \<le> ?m" "\<And>i. i < j \<Longrightarrow> refd_frame u ((clock_arm s + Suc i) mod ?m)"
      "clock_arm t = (clock_arm s + Suc j) mod ?m" "\<not> refd_frame t (clock_arm t)"
      "\<And>f. f < ?m \<Longrightarrow> refd_frame t f \<longleftrightarrow> refd_frame u f \<and> (\<forall>i < j. f \<noteq> (clock_arm s + Suc i) mod ?m)"
      using t(3) unfolding swept_def mu pos by blast+
    have "j < ?m"
    proof (rule ccontr)
      assume "\<not> j < ?m"
      then have "j = ?m" using sw(1) by simp
      then have "refd_frame u ((clock_arm s + Suc (?m - 1)) mod ?m)" using sw(2)[of "?m - 1"] arm by simp
      moreover have "(clock_arm s + Suc (?m - 1)) mod ?m = clock_arm s" using arm by simp
      ultimately show False using u(4) arm by simp
    qed
    moreover have "refd_frame s ((clock_arm s + i) mod ?m)" if "i < Suc j" for i
    proof (cases i)
      case 0
      then show ?thesis using True arm by simp
    next
      case (Suc i')
      then have "refd_frame u ((clock_arm s + i) mod ?m)" using sw(2)[of i'] that by simp
      then show ?thesis using u(4) arm by simp
    qed
    moreover have "(\<forall>i < Suc j. f \<noteq> (clock_arm s + i) mod ?m) \<longleftrightarrow>
        f \<noteq> clock_arm s \<and> (\<forall>i < j. f \<noteq> (clock_arm s + Suc i) mod ?m)" for f
      using arm by (auto simp: less_Suc_eq_0_disj)
    ultimately have "swept s (Suc j) t"
      using sw u(4) unfolding swept_def by auto
    moreover have "clock_loop s = Some (Ok t)" using u(1) t(1) by (subst clock_loop.simps) simp
    ultimately show ?thesis using same_mem_trans[OF u(2) t(2)] by blast
  qed
qed

section \<open>The contract of the clock\<close>

definition clock_pinv :: "nat \<Rightarrow> nat set \<Rightarrow> sim \<Rightarrow> bool" where
  "clock_pinv n g s \<longleftrightarrow> clock_arm s < memsize s"

definition add_frame :: "nat \<Rightarrow> nat set \<Rightarrow> nat set" where
  "add_frame f g = insert f g"

definition remove_frame :: "nat \<Rightarrow> nat set \<Rightarrow> nat set" where
  "remove_frame f g = g - {f}"

definition any_frame :: "nat set \<Rightarrow> nat \<Rightarrow> bool" where
  "any_frame g f \<longleftrightarrow> f \<in> g"

lemma clock_evict_swept:
  assumes inv: "mem_inv T {..< memsize s} s" and arm: "clock_arm s < memsize s"
  shows "\<exists>j t. clock_evict s = Ok (int (clock_arm t), t\<lparr>clock_arm := (clock_arm t + 1) mod memsize s\<rparr>) \<and>
           same_mem s t \<and> swept s j t"
proof -
  from clock_loop_ok[OF assms] obtain j t where t: "clock_loop s = Some (Ok t)" "same_mem s t" "swept s j t"
    by blast
  have "memsize t = memsize s" using t(2) by (simp add: same_mem_def)
  with t arm show ?thesis by (auto simp: clock_evict_def sweep_clock_arm_def Let_def)
qed

lemma clock_evict_ok:
  assumes pinv: "clock_pinv n g s" and inv: "mem_inv T (id g) s" and full: "id g = {..< memsize s}"
  shows "\<exists>f s'. clock_evict s = Ok (int f, s') \<and> f \<in> id g \<and> any_frame g f \<and> same_mem s s' \<and>
           clock_pinv n (remove_frame f g) s' \<and> id (remove_frame f g) = id g - {f}"
proof -
  have inv': "mem_inv T {..< memsize s} s" using inv full by simp
  have arm: "clock_arm s < memsize s" using pinv by (simp add: clock_pinv_def)
  from clock_evict_swept[OF inv' arm] obtain j t where
    t: "clock_evict s = Ok (int (clock_arm t), t\<lparr>clock_arm := (clock_arm t + 1) mod memsize s\<rparr>)"
      "same_mem s t" "swept s j t" by blast
  let ?s' = "t\<lparr>clock_arm := (clock_arm t + 1) mod memsize s\<rparr>"
  have "memsize t = memsize s" using t(2) by (simp add: same_mem_def)
  moreover have "clock_arm t < memsize s" using t(3) arm by (simp add: swept_def)
  moreover have "same_mem s ?s'" using t(2) same_mem_globals(3) same_mem_trans by blast
  ultimately show ?thesis
    using t(1) full arm by (intro exI[of _ "clock_arm t"] exI[of _ ?s'])
      (auto simp: any_frame_def remove_frame_def clock_pinv_def)
qed

lemma clock_ref_ok:
  assumes "clock_pinv (Suc n) g s" and "mem_inv T (insert f (id g)) s"
    and "pte_at s r = Some e" "pte_valid e" "frame_no e = f"
  shows "\<exists>s'. clock_ref r s = Ok s' \<and> same_mem s s' \<and> clock_pinv n (add_frame f g) s' \<and>
           id (add_frame f g) = insert f (id g)"
  using assms by (simp add: clock_ref_def clock_pinv_def add_frame_def)

interpretation clock: replacement clock_ref clock_evict clock_pinv id add_frame remove_frame any_frame
proof unfold_locales
  fix n g s s'
  assume "clock_pinv n g s" and more: "core.more s' = core.more s" and "memsize s' = memsize s"
  then show "clock_pinv n g s'" unfolding clock_pinv_def more_fields[OF more] by simp
qed (rule clock_evict_ok clock_ref_ok, assumption+)+

section \<open>Random replacement\<close>

text \<open>\<open>random() % memsize\<close>: a division by zero when there is no frame.\<close>

definition rand_evict :: "sim \<Rightarrow> (int \<times> sim) outcome" where
  "rand_evict s =
     bind_o (defined_o (memsize s \<noteq> 0)) (\<lambda>_.
     let idx = random_seq s (random_pos s) mod memsize s
     in Ok (int idx, s\<lparr>random_pos := random_pos s + 1\<rparr>))"

definition rand_ref :: "pte_ref \<Rightarrow> sim \<Rightarrow> sim outcome" where
  "rand_ref p s = Ok s"

definition rand_init :: "sim \<Rightarrow> sim" where
  "rand_init s = s"

definition rand_pinv :: "nat \<Rightarrow> nat set \<Rightarrow> sim \<Rightarrow> bool" where
  "rand_pinv n g s \<longleftrightarrow> 0 < memsize s"

lemma rand_evict_ok:
  assumes pinv: "rand_pinv n g s" and inv: "mem_inv T (id g) s" and full: "id g = {..< memsize s}"
  shows "\<exists>f s'. rand_evict s = Ok (int f, s') \<and> f \<in> id g \<and> any_frame g f \<and> same_mem s s' \<and>
           rand_pinv n (remove_frame f g) s' \<and> id (remove_frame f g) = id g - {f}"
  using pinv full
  by (intro exI[of _ "random_seq s (random_pos s) mod memsize s"]
      exI[of _ "s\<lparr>random_pos := random_pos s + 1\<rparr>"])
    (auto simp: rand_evict_def rand_pinv_def any_frame_def remove_frame_def Let_def)

lemma rand_ref_ok:
  assumes "rand_pinv (Suc n) g s" and "mem_inv T (insert f (id g)) s"
    and "pte_at s r = Some e" "pte_valid e" "frame_no e = f"
  shows "\<exists>s'. rand_ref r s = Ok s' \<and> same_mem s s' \<and> rand_pinv n (add_frame f g) s' \<and>
           id (add_frame f g) = insert f (id g)"
  using assms by (simp add: rand_ref_def rand_pinv_def add_frame_def)

interpretation rand: replacement rand_ref rand_evict rand_pinv id add_frame remove_frame any_frame
proof unfold_locales
  fix n g and s s' :: sim
  assume "rand_pinv n g s" "memsize s' = memsize s"
  then show "rand_pinv n g s'" unfolding rand_pinv_def by simp
qed (rule rand_evict_ok rand_ref_ok, assumption+)+

end
