(* ===== verification/Trace.thy ===== *)
theory Trace
  imports Dyn_List
begin

text \<open>
  How the simulator reads its trace file, twice: \<open>replay_trace\<close> (\<^verbatim>\<open>sim.c\<close>) line by
  line with \<open>fgets\<close> and \<open>sscanf\<close>, and \<open>makePageList\<close> (\<^verbatim>\<open>opt.c\<close>) with \<open>fscanf\<close>
  on the stream. Both give the same references for a trace that has only reference lines. Of
  the numbers \<open>%lx\<close> accepts, those of hex digits are modelled (no sign, no \<open>0x\<close>).
\<close>

section \<open>Scanning\<close>

definition NEWLINE :: char where "NEWLINE = char_of (10 :: nat)"

definition isspace :: "char \<Rightarrow> bool" where
  "isspace c = (let n = of_char c :: nat in n = 32 \<or> (9 \<le> n \<and> n \<le> 13))"

definition hex_digit :: "char \<Rightarrow> nat option" where
  "hex_digit c =
     (let n = of_char c :: nat in
      if 48 \<le> n \<and> n \<le> 57 then Some (n - 48)
      else if 97 \<le> n \<and> n \<le> 102 then Some (n - 87)
      else if 65 \<le> n \<and> n \<le> 70 then Some (n - 55)
      else None)"

definition is_hex :: "char \<Rightarrow> bool" where
  "is_hex c = (hex_digit c \<noteq> None)"

definition hex_value :: "string \<Rightarrow> nat" where
  "hex_value ds = foldl (\<lambda>a c. 16 * a + the (hex_digit c)) 0 ds"

text \<open>\<open>strtoul\<close> gives the largest value when the number does not fit.\<close>

definition to_ulong :: "nat \<Rightarrow> u64" where
  "to_ulong n = (if n < 2 ^ 64 then word_of_nat n else - 1)"

text \<open>\<open>%lx\<close>: white space is skipped; \<open>None\<close> is a matching failure.\<close>

definition scan_lx :: "string \<Rightarrow> (u64 \<times> string) option" where
  "scan_lx s =
     (let s1 = dropWhile isspace s; ds = takeWhile is_hex s1 in
      if ds = [] then None else Some (to_ulong (hex_value ds), dropWhile is_hex s1))"

section \<open>\<open>replay_trace\<close>\<close>

text \<open>\<open>fgets(buf, n + 1, f)\<close>: up to \<open>n\<close> characters, or through the end of the line.\<close>

fun take_line :: "nat \<Rightarrow> string \<Rightarrow> string \<times> string" where
  "take_line 0 s = ([], s)"
| "take_line (Suc n) [] = ([], [])"
| "take_line (Suc n) (c # cs) =
     (if c = NEWLINE then ([c], cs) else (let (buf, rest) = take_line n cs in (c # buf, rest)))"

definition MAXLINE :: nat where "MAXLINE = 256"

lemma take_line_length: "length (snd (take_line n s)) \<le> length s"
  by (induction n s rule: take_line.induct) (auto split: prod.split)

lemma take_line_Suc: "length (snd (take_line (Suc n) (c # cs))) < length (c # cs)"
  using take_line_length[of n cs] by (auto split: prod.split)

lemma take_line_shorter: "length (snd (take_line (MAXLINE - 1) (c # cs))) < length (c # cs)"
  using take_line_Suc[of "MAXLINE - 2" c cs] by (simp add: MAXLINE_def)

text \<open>
  The references, in order: a buffer that starts with \<open>=\<close> is skipped; if the number cannot be
  read, \<open>vaddr\<close> keeps its value.
\<close>

function read_refs :: "string \<Rightarrow> u64 \<Rightarrow> (char \<times> u64) list" where
  "read_refs [] vaddr = []"
| "read_refs (c # cs) vaddr =
     (let (buf, rest) = take_line (MAXLINE - 1) (c # cs) in
      if hd buf \<noteq> CHR ''='' then
        let v = (case scan_lx (tl buf) of Some (n, _) \<Rightarrow> n | None \<Rightarrow> vaddr)
        in (hd buf, v) # read_refs rest v
      else read_refs rest vaddr)"
  by pat_completeness auto

termination
proof (relation "measure (\<lambda>(s, v). length s)")
  fix c :: char and cs rest :: string and x buf and v vaddr :: u64
  show "x = take_line (MAXLINE - 1) (c # cs) \<Longrightarrow> (buf, rest) = x \<Longrightarrow> hd buf \<noteq> CHR ''='' \<Longrightarrow>
      v = (case scan_lx (tl buf) of Some (n, _) \<Rightarrow> n | None \<Rightarrow> vaddr) \<Longrightarrow>
      ((rest, v), c # cs, vaddr) \<in> measure (\<lambda>(s, v). length s)"
    and "x = take_line (MAXLINE - 1) (c # cs) \<Longrightarrow> (buf, rest) = x \<Longrightarrow> \<not> hd buf \<noteq> CHR ''='' \<Longrightarrow>
      ((rest, vaddr), c # cs, vaddr) \<in> measure (\<lambda>(s, v). length s)"
    using take_line_shorter[of c cs] by (metis case_prod_conv in_measure snd_conv)+
qed simp

definition trace_refs :: "string \<Rightarrow> (char \<times> u64) list" where
  "trace_refs text = read_refs text 0"

section \<open>\<open>makePageList\<close>\<close>

definition page_number :: "u64 \<Rightarrow> u32" where
  "page_number v = ucast (drop_bit 12 v)"

lemma scan_lx_length: "scan_lx s = Some (n, rest) \<Longrightarrow> length rest \<le> length s"
  by (auto simp: scan_lx_def Let_def split: if_splits
      intro: order_trans[OF length_dropWhile_le length_dropWhile_le])

text \<open>
  The loop over \<open>fscanf(f, "%*c %lx\n", &v)\<close>. A number that cannot be read ends the call but
  not the loop: the value read last (at first, an uninitialized variable) is used again, and
  reading goes on where it stopped.
\<close>

function page_loop :: "string \<Rightarrow> u64 option \<Rightarrow> u32 dlist \<Rightarrow> u32 dlist outcome" where
  "page_loop [] v l = Ok l"
| "page_loop (c # cs) v l =
     (let s1 = dropWhile isspace cs in
      if s1 = [] then Ok l
      else
        (case scan_lx s1 of
           Some (n, rest) \<Rightarrow>
             bind_o (listAppend l (Some (page_number n))) (\<lambda>l.
             page_loop (dropWhile isspace rest) (Some n) l)
         | None \<Rightarrow>
             (case v of None \<Rightarrow> Undef
              | Some n \<Rightarrow> bind_o (listAppend l (Some (page_number n))) (\<lambda>l. page_loop s1 v l))))"
  by pat_completeness auto

termination
proof (relation "measure (\<lambda>(s, v, l). length s)")
  fix cs rest :: string and c :: char and n :: u64 and x :: "u64 \<times> string" and s1 v l la
  assume "s1 = dropWhile isspace cs" "scan_lx s1 = Some x" "(n, rest) = x"
  then have "length (dropWhile isspace rest) \<le> length cs"
    using scan_lx_length[of s1 n rest] length_dropWhile_le[of isspace rest] length_dropWhile_le[of isspace cs]
    by auto
  then show "((dropWhile isspace rest, Some n, la), c # cs, v, l) \<in> measure (\<lambda>(s, v, l). length s)"
    by simp
next
  fix cs :: string and c :: char and s1 v l la
  assume "s1 = dropWhile isspace cs"
  then show "((s1, v, la), c # cs, v, l) \<in> measure (\<lambda>(s, v, l). length s)"
    using length_dropWhile_le[of isspace cs] by simp
qed simp

text \<open>The contents of the file (\<open>None\<close> if it cannot be opened) and the success of \<open>fclose\<close>.\<close>

definition makePageList :: "string option \<Rightarrow> bool \<Rightarrow> u32 dlist outcome" where
  "makePageList file close_ok =
     (case file of None \<Rightarrow> Exit 1
      | Some text \<Rightarrow>
          bind_o (page_loop text None (makeList 100)) (\<lambda>ret.
          if \<not> close_ok then Exit 1 else Ok ret))"

section \<open>Well-formed traces\<close>

text \<open>Numbers in hexadecimal, as the trace tools print them.\<close>

definition hex_char :: "nat \<Rightarrow> char" where
  "hex_char d = char_of (if d < 10 then 48 + d else 87 + d)"

fun hex_of :: "nat \<Rightarrow> string" where
  "hex_of n = (if n < 16 then [hex_char n] else hex_of (n div 16) @ [hex_char (n mod 16)])"

declare hex_of.simps [simp del]

definition trace_line :: "char \<times> u64 \<Rightarrow> string" where
  "trace_line r = fst r # CHR '' '' # hex_of (unat (snd r)) @ [NEWLINE]"

definition print_trace :: "(char \<times> u64) list \<Rightarrow> string" where
  "print_trace rs = concat (map trace_line rs)"

text \<open>Reference types that do not look like comments or white space.\<close>

definition plain_type :: "char \<Rightarrow> bool" where
  "plain_type c \<longleftrightarrow> c \<noteq> CHR ''='' \<and> \<not> isspace c"

lemma hex_digit_char: "d < 16 \<Longrightarrow> hex_digit (hex_char d) = Some d"
  by (auto simp: hex_digit_def hex_char_def)

lemma is_hex_of: "c \<in> set (hex_of n) \<Longrightarrow> is_hex c"
proof (induction n rule: hex_of.induct)
  case (1 n)
  then show ?case
    by (subst (asm) hex_of.simps) (auto simp: is_hex_def hex_digit_char split: if_splits)
qed

lemma hex_of_ne: "hex_of n \<noteq> []"
  by (subst hex_of.simps) simp

lemma hex_value_of: "hex_value (hex_of n) = n"
proof (induction n rule: hex_of.induct)
  case (1 n)
  show ?case
  proof (cases "n < 16")
    case True
    then show ?thesis by (subst hex_of.simps) (simp add: hex_value_def hex_digit_char)
  next
    case False
    then have "hex_value (hex_of n) = 16 * hex_value (hex_of (n div 16)) + n mod 16"
      by (subst hex_of.simps) (simp add: hex_value_def hex_digit_char)
    with 1[OF False] show ?thesis by simp
  qed
qed

lemma hex_of_length: "n < 16 ^ Suc k \<Longrightarrow> length (hex_of n) \<le> Suc k"
proof (induction k arbitrary: n)
  case 0
  then show ?case by (subst hex_of.simps) simp
next
  case (Suc k)
  then have "n div 16 < 16 ^ Suc k" by (simp add: less_mult_imp_div_less mult.commute)
  with Suc.IH[of "n div 16"] show ?case by (subst hex_of.simps) simp
qed

lemma hex_space: "is_hex c \<Longrightarrow> \<not> isspace c"
  by (auto simp: is_hex_def hex_digit_def isspace_def Let_def split: if_splits)

lemma newline: "isspace NEWLINE" "\<not> is_hex NEWLINE" "isspace CHR '' ''"
  by (simp_all add: NEWLINE_def isspace_def is_hex_def hex_digit_def)

lemma hex_hd: "\<not> isspace (hd (hex_of n))"
  using is_hex_of[of "hd (hex_of n)" n] hex_space hex_of_ne[of n] by auto

lemma scan_hex_of:
  assumes "rest = [] \<or> \<not> is_hex (hd rest)"
  shows "scan_lx (hex_of (unat v) @ rest) = Some (v, rest)"
proof -
  let ?h = "hex_of (unat v)"
  have d: "dropWhile isspace (?h @ rest) = ?h @ rest"
    by (simp add: dropWhile_eq_self_iff hex_of_ne hex_hd)
  have "takeWhile is_hex (?h @ rest) = ?h" "dropWhile is_hex (?h @ rest) = rest"
    using is_hex_of[of _ "unat v"] assms by (auto simp: takeWhile_append2 dropWhile_append2 takeWhile_eq_Nil_iff
        dropWhile_eq_self_iff)
  moreover have "to_ulong (hex_value ?h) = v"
    using unsigned_less[of v, where ?'a = nat] by (simp add: to_ulong_def hex_value_of)
  ultimately show ?thesis using d hex_of_ne[of "unat v"] by (simp add: scan_lx_def Let_def)
qed

lemma take_line_body:
  "NEWLINE \<notin> set body \<Longrightarrow> length body < n \<Longrightarrow>
     take_line n (body @ NEWLINE # rest) = (body @ [NEWLINE], rest)"
proof (induction body arbitrary: n)
  case Nil
  then show ?case by (cases n) auto
next
  case (Cons c body)
  then show ?case by (cases n) auto
qed

lemma read_line:
  assumes t: "plain_type t"
  shows "read_refs (trace_line (t, v) @ rest) w = (t, v) # read_refs rest v"
proof -
  let ?body = "t # CHR '' '' # hex_of (unat v)"
  have "NEWLINE \<notin> set (hex_of (unat v))" using is_hex_of newline(2) by blast
  moreover have "t \<noteq> NEWLINE" using t newline(1) by (auto simp: plain_type_def)
  moreover have "NEWLINE \<noteq> CHR '' ''"
  proof
    assume "NEWLINE = CHR '' ''"
    then have "(of_char NEWLINE :: nat) = of_char CHR '' ''" by simp
    then show False by (simp add: NEWLINE_def)
  qed
  moreover have "length (hex_of (unat v)) \<le> Suc 15"
    using unsigned_less[of v, where ?'a = nat] by (intro hex_of_length) simp
  ultimately have line: "take_line (MAXLINE - 1) (?body @ NEWLINE # rest) = (?body @ [NEWLINE], rest)"
    by (intro take_line_body) (auto simp: MAXLINE_def)
  have "scan_lx (hex_of (unat v) @ [NEWLINE]) = Some (v, [NEWLINE])"
    by (rule scan_hex_of) (simp add: newline)
  then have "scan_lx (CHR '' '' # hex_of (unat v) @ [NEWLINE]) = Some (v, [NEWLINE])"
    by (simp add: scan_lx_def newline(3))
  with line t show ?thesis by (simp add: trace_line_def plain_type_def)
qed

text \<open>\<open>replay_trace\<close> reads back the references that were printed.\<close>

lemma trace_refs_print:
  "\<forall>(t, v) \<in> set rs. plain_type t \<Longrightarrow> trace_refs (print_trace rs) = rs"
proof -
  have "\<forall>(t, v) \<in> set rs. plain_type t \<Longrightarrow> read_refs (print_trace rs) w = rs" for w
  proof (induction rs arbitrary: w)
    case Nil
    then show ?case by (simp add: print_trace_def)
  next
    case (Cons r rs)
    obtain t v where r: "r = (t, v)" by (cases r)
    with Cons show ?case by (simp add: print_trace_def read_line)
  qed
  then show "\<forall>(t, v) \<in> set rs. plain_type t \<Longrightarrow> trace_refs (print_trace rs) = rs"
    by (simp add: trace_refs_def)
qed

lemma page_line:
  assumes l: "dl_inv l" and rest: "rest = [] \<or> \<not> isspace (hd rest)"
  shows "\<exists>l'. page_loop (trace_line (t, v) @ rest) w l = page_loop rest (Some v) l' \<and> dl_inv l' \<and>
           dl_abs l' = dl_abs l @ [Some (page_number v)]"
proof -
  have s1: "dropWhile isspace (CHR '' '' # hex_of (unat v) @ NEWLINE # rest) = hex_of (unat v) @ NEWLINE # rest"
  proof -
    have "dropWhile isspace (hex_of (unat v) @ NEWLINE # rest) = hex_of (unat v) @ NEWLINE # rest"
      by (simp add: dropWhile_eq_self_iff hex_of_ne hex_hd)
    then show ?thesis by (simp add: newline(3))
  qed
  have sc: "scan_lx (hex_of (unat v) @ NEWLINE # rest) = Some (v, NEWLINE # rest)"
    by (rule scan_hex_of) (simp add: newline)
  have dr: "dropWhile isspace (NEWLINE # rest) = rest"
    using rest by (cases rest) (auto simp: newline)
  from listAppend_ok[OF l, of "Some (page_number v)"] obtain l' where
    l': "listAppend l (Some (page_number v)) = Ok l'" "dl_inv l'" "dl_abs l' = dl_abs l @ [Some (page_number v)]"
    by blast
  have "page_loop (t # CHR '' '' # hex_of (unat v) @ NEWLINE # rest) w l = page_loop rest (Some v) l'"
    using s1 sc dr l'(1) hex_of_ne[of "unat v"] by (simp add: Let_def)
  moreover have "trace_line (t, v) @ rest = t # CHR '' '' # hex_of (unat v) @ NEWLINE # rest"
    by (simp add: trace_line_def)
  ultimately show ?thesis using l'(2,3) by metis
qed

text \<open>\<open>makePageList\<close> gives the page numbers of the same references.\<close>

lemma makePageList_print:
  assumes plain: "\<forall>(t, v) \<in> set rs. plain_type t"
  shows "\<exists>l. makePageList (Some (print_trace rs)) True = Ok l \<and> dl_inv l \<and>
           dl_abs l = map (\<lambda>(t, v). Some (page_number v)) rs"
proof -
  have "\<exists>l'. page_loop (print_trace rs) w l = Ok l' \<and> dl_inv l' \<and>
      dl_abs l' = dl_abs l @ map (\<lambda>(t, v). Some (page_number v)) rs"
    if "\<forall>(t, v) \<in> set rs. plain_type t" "dl_inv l" for rs w and l :: "u32 dlist"
    using that
  proof (induction rs arbitrary: w l)
    case Nil
    then show ?case by (simp add: print_trace_def)
  next
    case (Cons r rs)
    obtain t v where r: "r = (t, v)" by (cases r)
    have "print_trace rs = [] \<or> \<not> isspace (hd (print_trace rs))"
      using Cons.prems(1) by (cases rs) (auto simp: print_trace_def trace_line_def plain_type_def)
    from page_line[OF Cons.prems(2) this] obtain l1 where l1:
      "page_loop (trace_line (t, v) @ print_trace rs) w l = page_loop (print_trace rs) (Some v) l1"
      "dl_inv l1" "dl_abs l1 = dl_abs l @ [Some (page_number v)]" by blast
    from Cons.IH[OF _ l1(2)] Cons.prems(1) obtain l' where
      "page_loop (print_trace rs) (Some v) l1 = Ok l'" "dl_inv l'"
      "dl_abs l' = dl_abs l1 @ map (\<lambda>(t, v). Some (page_number v)) rs" by fastforce
    moreover have "print_trace (r # rs) = trace_line (t, v) @ print_trace rs" by (simp add: print_trace_def r)
    ultimately show ?case using l1 r by simp
  qed
  from this[OF plain, of "makeList 100" None] show ?thesis
    by (auto simp: makePageList_def makeList_ok)
qed

end
