(* ===== verification/Opt.thy ===== *)
theory Opt
  imports Clock_Rand Trace
begin

text \<open>
  Belady's optimal replacement (\<^verbatim>\<open>a2/starter/opt.c\<close>, lines 289 to 493). The hash
  table maps every page to a list of the times it will be referenced, the next one last; the
  lists are shared through pointers into a store. The abstraction is the list of future times
  of each page, and the frame evicted is one whose page is used again last.
\<close>

declare split_paired_All [simp del] split_paired_Ex [simp del]

section \<open>Pointers to ints\<close>

definition createIntPtr :: "nat \<Rightarrow> nat option" where
  "createIntPtr v = Some v"

definition createUnsignedPtr :: "u32 \<Rightarrow> u32 option" where
  "createUnsignedPtr v = Some v"

definition destroyIntPtr :: "nat option \<Rightarrow> nat outcome" where
  "destroyIntPtr p = (case p of Some v \<Rightarrow> Ok v | None \<Rightarrow> Undef)"

section \<open>The table of reference times\<close>

text \<open>The table, the store of the lists and the next pointer.\<close>

type_synonym belady = "nat hash_table \<times> (nat \<Rightarrow> nat dlist option) \<times> nat"

definition deref_list :: "(nat \<Rightarrow> nat dlist option) \<Rightarrow> nat \<Rightarrow> nat dlist outcome" where
  "deref_list st p = (case st p of Some l \<Rightarrow> Ok l | None \<Rightarrow> Undef)"

definition addBeladyPage :: "belady \<Rightarrow> u32 \<Rightarrow> nat \<Rightarrow> belady outcome" where
  "addBeladyPage b pageNum time =
     (let LIST_SIZE = 4; (table, st, nx) = b in
      bind_o (hashTableGet table pageNum) (\<lambda>old.
      bind_o
        (if old = None then
           bind_o (hashTableSet table pageNum nx) (\<lambda>(_, table).
           Ok (table, st(nx := Some (makeList LIST_SIZE)), nx + 1))
         else Ok (table, st, nx))
        (\<lambda>(table, st, nx).
         bind_o (hashTableGet table pageNum) (\<lambda>found.
         case found of None \<Rightarrow> Undef
         | Some p \<Rightarrow>
             bind_o (deref_list st p) (\<lambda>l.
             bind_o (listAppend l (createIntPtr time)) (\<lambda>l'.
             Ok (table, st(p := Some l'), nx)))))))"

text \<open>
  The loop of \<open>makeBeladyTable\<close>, from iteration \<open>i\<close> on, for \<open>n\<close> iterations. \<open>(int) count\<close>
  is truncated, and a negative time is no index. The times stored are not negative, and kept as
  natural numbers.
\<close>

fun belady_loop :: "nat \<Rightarrow> nat \<Rightarrow> u32 dlist \<Rightarrow> belady \<Rightarrow> belady outcome" where
  "belady_loop 0 i pl b = Ok b"
| "belady_loop (Suc n) i pl b =
     (let time = to_int (count pl) - int i - 1 in
      if 0 \<le> time \<and> nat time < length (contents pl) then
        (case contents pl ! nat time of
           Some pageNum \<Rightarrow> bind_o (addBeladyPage b pageNum (nat time)) (\<lambda>b. belady_loop n (Suc i) pl b)
         | None \<Rightarrow> Undef)
      else Undef)"

definition makeBeladyTable :: "nat \<Rightarrow> u32 dlist \<Rightarrow> (nat \<Rightarrow> nat dlist option) \<Rightarrow> nat \<Rightarrow> belady outcome" where
  "makeBeladyTable frame_count pl st nx =
     (let BUCKET_SIZE = 5 in
      belady_loop (count pl) 0 pl (makeHashTable (frame_count div BUCKET_SIZE), st, nx))"

definition popNextRefTime :: "u32 \<Rightarrow> belady \<Rightarrow> (int \<times> belady) outcome" where
  "popNextRefTime pageNum b =
     (let (table, st, nx) = b in
      bind_o (hashTableGet table pageNum) (\<lambda>found.
      case found of None \<Rightarrow> Ok (-1, b)
      | Some p \<Rightarrow>
          bind_o (deref_list st p) (\<lambda>refTimes.
          bind_o (listPop refTimes) (\<lambda>(popped, refTimes).
          bind_o
            (if count refTimes = 0 then
               bind_o (hashTableRemove table pageNum) (\<lambda>(_, table). Ok (table, st(p := None), nx))
             else Ok (table, st(p := Some refTimes), nx))
            (\<lambda>b. bind_o (destroyIntPtr popped) (\<lambda>t. Ok (int t, b)))))))"

definition peekNextRefTime :: "u32 \<Rightarrow> belady \<Rightarrow> int outcome" where
  "peekNextRefTime pageNum b =
     (let (table, st, nx) = b in
      bind_o (hashTableGet table pageNum) (\<lambda>found.
      case found of None \<Rightarrow> Ok (-1)
      | Some p \<Rightarrow>
          bind_o (deref_list st p) (\<lambda>refTimes.
          bind_o (listPeek refTimes) (\<lambda>last_ptr.
          case last_ptr of Some t \<Rightarrow> Ok (int t) | None \<Rightarrow> Undef))))"

section \<open>The algorithm\<close>

definition belady_of :: "sim \<Rightarrow> belady" where
  "belady_of s = (beladyTable s, ref_lists s, next_list s)"

definition set_belady :: "belady \<Rightarrow> sim \<Rightarrow> sim" where
  "set_belady b s = (let (t, st, nx) = b in s\<lparr>beladyTable := t, ref_lists := st, next_list := nx\<rparr>)"

fun opt_loop :: "nat \<Rightarrow> nat \<Rightarrow> nat \<Rightarrow> int \<Rightarrow> sim \<Rightarrow> int outcome" where
  "opt_loop 0 i victim maxRefTime s = Ok (int victim)"
| "opt_loop (Suc n) i victim maxRefTime s =
     (if i < length (coremap s) then
        bind_o (peekNextRefTime (page (coremap s ! i)) (belady_of s)) (\<lambda>nextRefTime.
        if nextRefTime = -1 then Ok (int i)
        else if maxRefTime < nextRefTime then opt_loop n (Suc i) i nextRefTime s
        else opt_loop n (Suc i) victim maxRefTime s)
      else Undef)"

definition opt_evict :: "sim \<Rightarrow> (int \<times> sim) outcome" where
  "opt_evict s = bind_o (opt_loop (memsize s) 0 0 (-1) s) (\<lambda>v. Ok (v, s))"

definition opt_ref :: "pte_ref \<Rightarrow> sim \<Rightarrow> sim outcome" where
  "opt_ref p s =
     bind_o (get_pte s p) (\<lambda>e.
     let frameNumber = frame_no e in
     bind_o (defined_o (curRef s < length (contents (pageList s)))) (\<lambda>_.
     case contents (pageList s) ! curRef s of
       None \<Rightarrow> Undef
     | Some pageNumber \<Rightarrow>
         bind_o (defined_o (frameNumber < length (coremap s))) (\<lambda>_.
         let s1 = s\<lparr>coremap := (coremap s)[frameNumber := (coremap s ! frameNumber)\<lparr>page := pageNumber\<rparr>]\<rparr> in
         bind_o (popNextRefTime pageNumber (belady_of s1)) (\<lambda>(_, b).
         bind_o (incr_int (int (curRef s1))) (\<lambda>c.
         Ok ((set_belady b s1)\<lparr>curRef := nat c\<rparr>))))))"

definition opt_init :: "sim \<Rightarrow> sim outcome" where
  "opt_init s =
     bind_o (makePageList (trace_file s) (close_ok s)) (\<lambda>pl.
     bind_o (makeBeladyTable (memsize s) pl (ref_lists s) (next_list s)) (\<lambda>b.
     Ok ((set_belady b s)\<lparr>curRef := 0, pageList := pl\<rparr>)))"

section \<open>What the table stands for\<close>

text \<open>\<open>F k\<close>: the times at which page \<open>k\<close> will be referenced, in increasing order.\<close>

definition times_at :: "(nat \<Rightarrow> nat dlist option) \<Rightarrow> nat \<Rightarrow> nat option \<Rightarrow> nat list \<Rightarrow> bool" where
  "times_at st nx po ts \<longleftrightarrow>
     (case po of
        None \<Rightarrow> ts = []
      | Some p \<Rightarrow> p < nx \<and> ts \<noteq> [] \<and> (\<exists>l. st p = Some l \<and> dl_inv l \<and> dl_abs l = map Some (rev ts)))"

definition bel_rep :: "belady \<Rightarrow> (u32 \<Rightarrow> nat list) \<Rightarrow> bool" where
  "bel_rep b F \<longleftrightarrow>
     (case b of (table, st, nx) \<Rightarrow>
        ht_inv table \<and> (\<forall>k. times_at st nx (ht_map table k) (F k)) \<and>
        (\<forall>j k p. ht_map table j = Some p \<longrightarrow> ht_map table k = Some p \<longrightarrow> j = k))"

lemma bel_rep_at: "bel_rep (table, st, nx) F \<Longrightarrow> times_at st nx (ht_map table k) (F k)"
  by (simp add: bel_rep_def)

lemma bel_rep_None: "bel_rep (table, st, nx) F \<Longrightarrow> F k = [] \<longleftrightarrow> ht_map table k = None"
  using bel_rep_at[of table st nx F k] by (simp add: times_at_def split: option.splits)

lemma bel_rep_Some:
  assumes "bel_rep (table, st, nx) F" and "ht_map table k = Some p"
  shows "p < nx \<and> F k \<noteq> [] \<and> (\<exists>l. st p = Some l \<and> dl_inv l \<and> dl_abs l = map Some (rev (F k)))"
  using bel_rep_at[OF assms(1), of k] assms(2) by (simp add: times_at_def)

lemma bel_rep_inv: "bel_rep (table, st, nx) F \<Longrightarrow> ht_inv table"
  by (simp add: bel_rep_def)

lemma bel_rep_inj:
  "bel_rep (table, st, nx) F \<Longrightarrow> ht_map table j = Some p \<Longrightarrow> ht_map table k = Some p \<Longrightarrow> j = k"
  unfolding bel_rep_def by blast

lemma times_at_other: "po \<noteq> Some p \<Longrightarrow> times_at (st(p := x)) nx po ts = times_at st nx po ts"
  by (cases po) (auto simp: times_at_def)

text \<open>A change at one page leaves the other pages as they were.\<close>

lemma bel_rep_change:
  assumes rep: "bel_rep (table, st, nx) F" and p: "ht_map table k = Some p"
    and l: "dl_inv l" "dl_abs l = map Some (rev ts)" "ts \<noteq> []"
  shows "bel_rep (table, st(p := Some l), nx) (F(k := ts))"
  unfolding bel_rep_def prod.case
proof (intro conjI allI impI)
  fix j
  show "times_at (st(p := Some l)) nx (ht_map table j) ((F(k := ts)) j)"
  proof (cases "j = k")
    case True
    then show ?thesis using p l bel_rep_Some[OF rep p] by (simp add: times_at_def)
  next
    case False
    then have "ht_map table j \<noteq> Some p" using bel_rep_inj[OF rep _ p] by blast
    with False show ?thesis using bel_rep_at[OF rep, of j] by (simp add: times_at_other)
  qed
qed (use rep bel_rep_inv bel_rep_inj in blast)+

lemma bel_rep_drop:
  assumes rep: "bel_rep (table, st, nx) F" and p: "ht_map table k = Some p"
    and t': "ht_inv table'" "ht_map table' = (ht_map table)(k := None)"
  shows "bel_rep (table', st(p := None), nx) (F(k := []))"
  unfolding bel_rep_def prod.case
proof (intro conjI allI impI)
  fix j
  show "times_at (st(p := None)) nx (ht_map table' j) ((F(k := [])) j)"
  proof (cases "j = k")
    case True
    then show ?thesis using t'(2) by (simp add: times_at_def)
  next
    case False
    then have "ht_map table j \<noteq> Some p" using bel_rep_inj[OF rep _ p] by blast
    with False show ?thesis using bel_rep_at[OF rep, of j] t'(2) by (simp add: times_at_other)
  qed
next
  fix i j q assume "ht_map table' i = Some q" "ht_map table' j = Some q"
  then show "i = j" using bel_rep_inj[OF rep, of i q j] t'(2) by (simp split: if_splits)
qed (rule t'(1))

lemma bel_rep_new:
  assumes rep: "bel_rep (table, st, nx) F" and k: "ht_map table k = None"
    and t': "ht_inv table'" "ht_map table' = (ht_map table)(k := Some nx)"
    and l: "dl_inv l" "dl_abs l = map Some (rev ts)" "ts \<noteq> []"
  shows "bel_rep (table', st(nx := Some l), Suc nx) (F(k := ts))"
  unfolding bel_rep_def prod.case
proof (intro conjI allI impI)
  have below: "ht_map table j \<noteq> Some nx" for j using bel_rep_Some[OF rep, of j nx] by auto
  fix j
  show "times_at (st(nx := Some l)) (Suc nx) (ht_map table' j) ((F(k := ts)) j)"
  proof (cases "j = k")
    case True
    then show ?thesis using t'(2) l by (simp add: times_at_def)
  next
    case False
    have "times_at st (Suc nx) (ht_map table j) (F j)"
      using bel_rep_at[OF rep, of j] by (auto simp: times_at_def split: option.splits)
    with False below[of j] t'(2) show ?thesis by (simp add: times_at_other)
  qed
  fix i j q assume q: "ht_map table' i = Some q" "ht_map table' j = Some q"
  show "i = j"
  proof (cases "i = k \<or> j = k")
    case True
    with q t'(2) below[of i] below[of j] show ?thesis by (auto split: if_splits)
  next
    case False
    with q t'(2) bel_rep_inj[OF rep, of i q j] show ?thesis by simp
  qed
qed (rule t'(1))

lemma addBeladyPage_ok:
  assumes rep: "bel_rep b F"
  shows "\<exists>b'. addBeladyPage b k time = Ok b' \<and> bel_rep b' (F(k := time # F k))"
proof -
  obtain table st nx where b: "b = (table, st, nx)" by (cases b)
  note inv = bel_rep_inv[OF rep[unfolded b]]
  show ?thesis
  proof (cases "ht_map table k")
    case None
    from hashTableSet_ok[OF inv, of k nx] obtain t' where t': "hashTableSet table k nx = Ok (ht_map table k, t')"
      "ht_inv t'" "ht_map t' = (ht_map table)(k := Some nx)" by blast
    have m: "dl_inv (makeList 4 :: nat dlist)" "dl_abs (makeList 4 :: nat dlist) = []"
      by (simp_all add: makeList_ok)
    from listAppend_ok[OF m(1), of "Some time"] m(2) obtain l where
      l: "listAppend (makeList 4) (Some time) = Ok l" "dl_inv l" "dl_abs l = [Some time]" by auto
    have "addBeladyPage b k time = Ok (t', st(nx := Some l), Suc nx)"
      using None t' l by (simp add: b addBeladyPage_def hashTableGet_ok[OF inv] hashTableGet_ok[OF t'(2)]
          deref_list_def createIntPtr_def)
    moreover have "bel_rep (t', st(nx := Some l), Suc nx) (F(k := [time]))"
      using rep None t'(2,3) l by (intro bel_rep_new[of table st nx]) (simp_all add: b)
    moreover have "F k = []" using rep None by (simp add: b bel_rep_None)
    ultimately show ?thesis by auto
  next
    case (Some p)
    from bel_rep_Some[OF rep[unfolded b] Some] obtain l where
      l: "st p = Some l" "dl_inv l" "dl_abs l = map Some (rev (F k))" by blast
    from listAppend_ok[OF l(2), of "Some time"] obtain l' where
      l': "listAppend l (Some time) = Ok l'" "dl_inv l'" "dl_abs l' = dl_abs l @ [Some time]" by blast
    have "addBeladyPage b k time = Ok (table, st(p := Some l'), nx)"
      using Some l l' by (simp add: b addBeladyPage_def hashTableGet_ok[OF inv] deref_list_def createIntPtr_def)
    moreover have "bel_rep (table, st(p := Some l'), nx) (F(k := time # F k))"
      using rep Some l l' by (intro bel_rep_change) (simp_all add: b)
    ultimately show ?thesis by auto
  qed
qed

lemma peekNextRefTime_ok:
  assumes rep: "bel_rep b F"
  shows "peekNextRefTime k b = Ok (if F k = [] then -1 else int (hd (F k)))"
proof -
  obtain table st nx where b: "b = (table, st, nx)" by (cases b)
  note inv = bel_rep_inv[OF rep[unfolded b]]
  show ?thesis
  proof (cases "ht_map table k")
    case None
    then show ?thesis
      using bel_rep_None[OF rep[unfolded b], of k] by (simp add: b peekNextRefTime_def hashTableGet_ok[OF inv])
  next
    case (Some p)
    from bel_rep_Some[OF rep[unfolded b] Some] obtain l where
      l: "st p = Some l" "dl_inv l" "dl_abs l = map Some (rev (F k))" "F k \<noteq> []" by blast
    then have "listPeek l = Ok (Some (hd (F k)))"
      using listPeek_ok[OF l(2)] by (simp add: last_map last_rev)
    with Some l show ?thesis
      by (simp add: b peekNextRefTime_def hashTableGet_ok[OF inv] deref_list_def)
  qed
qed

lemma popNextRefTime_ok:
  assumes rep: "bel_rep b F"
  shows "\<exists>b'. popNextRefTime k b = Ok (if F k = [] then -1 else int (hd (F k)), b') \<and>
           bel_rep b' (F(k := tl (F k)))"
proof -
  obtain table st nx where b: "b = (table, st, nx)" by (cases b)
  note inv = bel_rep_inv[OF rep[unfolded b]]
  show ?thesis
  proof (cases "ht_map table k")
    case None
    then show ?thesis
      using bel_rep_None[OF rep[unfolded b], of k] rep
      by (simp add: b popNextRefTime_def hashTableGet_ok[OF inv] fun_upd_idem)
  next
    case (Some p)
    from bel_rep_Some[OF rep[unfolded b] Some] obtain l where
      l: "st p = Some l" "dl_inv l" "dl_abs l = map Some (rev (F k))" "F k \<noteq> []" by blast
    then obtain t ts where F: "F k = t # ts" by (cases "F k") auto
    have "dl_abs l = map Some (rev ts) @ [Some t]" using l(3) F by simp
    from dl.pop_nonempty[OF l(2) this] obtain l' where
      l': "listPop l = Ok (Some t, l')" "dl_inv l'" "dl_abs l' = map Some (rev ts)" by blast
    have cnt: "count l' = length ts" using length_dl_abs[OF l'(2)] l'(3) by simp
    from hashTableRemove_ok[OF inv, of k] obtain t' where
      t': "hashTableRemove table k = Ok (ht_map table k, t')" "ht_inv t'"
      "ht_map t' = (ht_map table)(k := None)" by blast
    show ?thesis
    proof (cases "ts = []")
      case True
      then have "popNextRefTime k b = Ok (int t, (t', st(p := None), nx))"
        using Some l l' t' cnt
        by (simp add: b popNextRefTime_def hashTableGet_ok[OF inv] deref_list_def destroyIntPtr_def)
      moreover have "bel_rep (t', st(p := None), nx) (F(k := []))"
        using rep Some t' by (intro bel_rep_drop) (simp_all add: b)
      ultimately show ?thesis using F True by auto
    next
      case False
      then have "popNextRefTime k b = Ok (int t, (table, st(p := Some l'), nx))"
        using Some l l' cnt
        by (simp add: b popNextRefTime_def hashTableGet_ok[OF inv] deref_list_def destroyIntPtr_def)
      moreover have "bel_rep (table, st(p := Some l'), nx) (F(k := ts))"
        using rep Some l' False by (intro bel_rep_change) (simp_all add: b)
      ultimately show ?thesis using F by auto
    qed
  qed
qed

section \<open>Future references\<close>

text \<open>The times from \<open>c\<close> on at which a page list refers to page \<open>k\<close>, and the next of them
  (the length of the list if there is none).\<close>

definition future :: "u32 list \<Rightarrow> nat \<Rightarrow> u32 \<Rightarrow> nat list" where
  "future pl c k = filter (\<lambda>t. pl ! t = k) [c..<length pl]"

definition next_use :: "u32 list \<Rightarrow> nat \<Rightarrow> u32 \<Rightarrow> nat" where
  "next_use pl c k = (if future pl c k = [] then length pl else hd (future pl c k))"

lemma future_step:
  "c < length pl \<Longrightarrow> future pl c k = (if pl ! c = k then c # future pl (Suc c) k else future pl (Suc c) k)"
  by (simp add: future_def upt_conv_Cons)

lemma future_bound: "t \<in> set (future pl c k) \<Longrightarrow> c \<le> t \<and> t < length pl"
  by (auto simp: future_def)

lemma next_use_le: "next_use pl c k \<le> length pl"
  using future_bound[of "hd (future pl c k)" pl c k]
  by (auto simp: next_use_def dest: hd_in_set)

definition page_list_is :: "u32 dlist \<Rightarrow> u32 list \<Rightarrow> bool" where
  "page_list_is P pl \<longleftrightarrow> dl_inv P \<and> dl_abs P = map Some pl"

lemma page_list_nth:
  assumes "page_list_is P pl" and "t < length pl"
  shows "t < length (contents P)" "contents P ! t = Some (pl ! t)"
proof -
  have len: "length pl = count P" using assms length_dl_abs[of P] by (auto simp: page_list_is_def)
  with assms show "t < length (contents P)" by (auto simp: page_list_is_def dl_inv_def)
  show "contents P ! t = Some (pl ! t)"
    using nth_dl_abs[of P t] assms len by (simp add: page_list_is_def)
qed

lemma page_list_count: "page_list_is P pl \<Longrightarrow> count P = length pl"
  using length_dl_abs[of P] by (auto simp: page_list_is_def)

lemma belady_loop_ok:
  assumes P: "page_list_is P pl" and len: "length pl < 2 ^ 31"
  shows "i + n = length pl \<Longrightarrow> bel_rep b (future pl (length pl - i)) \<Longrightarrow>
     \<exists>b'. belady_loop n i P b = Ok b' \<and> bel_rep b' (future pl (length pl - (i + n)))"
proof (induction n arbitrary: i b)
  case 0
  then show ?case by auto
next
  case (Suc n)
  let ?t = "length pl - i - 1"
  have t: "?t < length pl" "length pl - i = Suc ?t" using Suc.prems(1) by auto
  from addBeladyPage_ok[OF Suc.prems(2), of "pl ! ?t" ?t] obtain b1 where b1:
    "addBeladyPage b (pl ! ?t) ?t = Ok b1"
    "bel_rep b1 ((future pl (length pl - i))(pl ! ?t := ?t # future pl (length pl - i) (pl ! ?t)))" by blast
  have "(future pl (length pl - i))(pl ! ?t := ?t # future pl (length pl - i) (pl ! ?t)) = future pl ?t"
    using future_step[OF t(1)] t(2) by (auto simp: fun_eq_iff)
  with b1 have rep1: "bel_rep b1 (future pl (length pl - Suc i))" by simp
  from Suc.IH[OF _ rep1] Suc.prems(1) obtain b' where
    "belady_loop n (Suc i) P b1 = Ok b'" "bel_rep b' (future pl (length pl - (Suc i + n)))" by auto
  moreover have "belady_loop (Suc n) i P b = belady_loop n (Suc i) P b1"
  proof -
    have "to_int (count P) - int i - 1 = int ?t"
      using t to_int_small[OF len] by (simp add: page_list_count[OF P] of_nat_diff)
    then show ?thesis using b1(1) page_list_nth[OF P t(1)] by (simp add: Let_def)
  qed
  ultimately show ?case by simp
qed

lemma makeBeladyTable_ok:
  assumes P: "page_list_is P pl" and len: "length pl < 2 ^ 31" and m: "5 \<le> m" "m < 2 ^ 31"
  shows "\<exists>b. makeBeladyTable m P st nx = Ok b \<and> bel_rep b (future pl 0)"
proof -
  have "0 < m div 5" "m div 5 < 2 ^ 31" using m by simp_all
  note mk = makeHashTable_ok[OF this]
  have "bel_rep (makeHashTable (m div 5), st, nx) (future pl (length pl - 0))"
    by (simp add: mk bel_rep_def times_at_def future_def)
  from belady_loop_ok[OF P len _ this, of "length pl"] show ?thesis
    by (simp add: makeBeladyTable_def Let_def page_list_count[OF P])
qed

section \<open>The contract\<close>

definition opt_pinv :: "u32 list \<Rightarrow> nat \<Rightarrow> nat set \<Rightarrow> sim \<Rightarrow> bool" where
  "opt_pinv pl n g s \<longleftrightarrow>
     page_list_is (pageList s) pl \<and> curRef s + n \<le> length pl \<and>
     bel_rep (belady_of s) (future pl (curRef s))"

text \<open>The references can be counted in the \<open>int\<close> \<open>curRef\<close>.\<close>

definition opt_bounded :: "u32 list \<Rightarrow> nat \<Rightarrow> nat set \<Rightarrow> sim \<Rightarrow> bool" where
  "opt_bounded pl n g s \<longleftrightarrow> opt_pinv pl n g s \<and> length pl < 2 ^ 31"

text \<open>The victim of \<open>opt_loop\<close>: no frame's recorded page is used again later.\<close>

lemma opt_loop_spec:
  fixes s :: sim
  assumes rep: "bel_rep (belady_of s) (future pl c)" and m: "m \<le> length (coremap s)" "0 < m"
  defines "fut \<equiv> \<lambda>h. future pl c (page (coremap s ! h))"
  shows "i + n = m \<Longrightarrow> (\<forall>h < i. fut h \<noteq> [] \<and> int (hd (fut h)) \<le> mx) \<Longrightarrow>
     (i = 0 \<and> mx = -1 \<and> v = 0) \<or> (v < i \<and> mx = int (hd (fut v))) \<Longrightarrow>
     \<exists>f < m. opt_loop n i v mx s = Ok (int f) \<and>
       (\<forall>h < m. next_use pl c (page (coremap s ! h)) \<le> next_use pl c (page (coremap s ! f)))"
proof (induction n arbitrary: i v mx)
  case 0
  then have v: "v < m" "mx = int (hd (fut v))" using m(2) by auto
  have "next_use pl c (page (coremap s ! h)) \<le> next_use pl c (page (coremap s ! v))" if "h < m" for h
    using 0 that v by (auto simp: next_use_def fut_def)
  with v show ?case by auto
next
  case (Suc n)
  have i: "i < length (coremap s)" "i < m" using Suc.prems(1) m(1) by auto
  have peek: "peekNextRefTime (page (coremap s ! i)) (belady_of s) =
      Ok (if fut i = [] then -1 else int (hd (fut i)))"
    unfolding fut_def by (rule peekNextRefTime_ok[OF rep])
  show ?case
  proof (cases "fut i = []")
    case True
    then have "opt_loop (Suc n) i v mx s = Ok (int i)" using i peek by simp
    moreover have "next_use pl c (page (coremap s ! i)) = length pl"
      using True by (simp add: next_use_def fut_def)
    ultimately show ?thesis using i next_use_le by (intro exI[of _ i]) simp
  next
    case False
    let ?next = "int (hd (fut i))"
    have run: "opt_loop (Suc n) i v mx s =
        (if mx < ?next then opt_loop n (Suc i) i ?next s else opt_loop n (Suc i) v mx s)"
      using False i peek by simp
    show ?thesis
    proof (cases "mx < ?next")
      case True
      have "\<forall>h < Suc i. fut h \<noteq> [] \<and> int (hd (fut h)) \<le> ?next"
        using Suc.prems(2) True False by (auto simp: less_Suc_eq)
      with Suc.IH[of "Suc i" ?next i] Suc.prems(1) show ?thesis unfolding run using True by simp
    next
      case no: False
      have "\<forall>h < Suc i. fut h \<noteq> [] \<and> int (hd (fut h)) \<le> mx"
        using Suc.prems(2) no False by (auto simp: less_Suc_eq)
      moreover have "v < Suc i \<and> mx = int (hd (fut v))" using Suc.prems(3) no by auto
      ultimately show ?thesis using Suc.IH[of "Suc i" mx v] Suc.prems(1) unfolding run using no by simp
    qed
  qed
qed

lemma opt_evict_farthest:
  assumes pinv: "opt_pinv pl n g s" and m: "memsize s = length (coremap s)" "0 < memsize s"
  shows "\<exists>f < memsize s. opt_evict s = Ok (int f, s) \<and>
     (\<forall>h < memsize s. next_use pl (curRef s) (page (coremap s ! h)) \<le> next_use pl (curRef s) (page (coremap s ! f)))"
proof -
  have rep: "bel_rep (belady_of s) (future pl (curRef s))" using pinv by (simp add: opt_pinv_def)
  from opt_loop_spec[OF rep, of "memsize s" 0 "memsize s" "-1" 0] m show ?thesis
    by (auto simp: opt_evict_def)
qed

lemma opt_evict_ok:
  assumes pinv: "opt_bounded pl n g s" and inv: "mem_inv T (id g) s" and full: "id g = {..< memsize s}"
  shows "\<exists>f s'. opt_evict s = Ok (int f, s') \<and> f \<in> id g \<and> any_frame g f \<and> same_mem s s' \<and>
           opt_bounded pl n (remove_frame f g) s' \<and> id (remove_frame f g) = id g - {f}"
proof -
  have "memsize s = length (coremap s)" "0 < memsize s"
    using inv by (auto simp: mem_inv_def mem_ok_def frames_ok_def)
  moreover have "opt_pinv pl n g s" using pinv by (simp add: opt_bounded_def)
  ultimately obtain f where "f < memsize s" "opt_evict s = Ok (int f, s)"
    using opt_evict_farthest by blast
  with pinv full show ?thesis
    by (intro exI[of _ f] exI[of _ s]) (auto simp: any_frame_def remove_frame_def opt_bounded_def opt_pinv_def)
qed

lemma same_mem_page:
  fixes s :: "'z core_scheme"
  assumes "f < length (coremap s)"
  shows "same_mem s (s\<lparr>coremap := (coremap s)[f := (coremap s ! f)\<lparr>page := p\<rparr>]\<rparr>)"
proof -
  have "map in_use ((coremap s)[f := (coremap s ! f)\<lparr>page := p\<rparr>]) = map in_use (coremap s)"
    "map pte_ptr ((coremap s)[f := (coremap s ! f)\<lparr>page := p\<rparr>]) = map pte_ptr (coremap s)"
    using assms by (simp_all add: map_list_update_same)
  then show ?thesis by (simp add: same_mem_def option.rel_refl)
qed

lemma opt_ref_ok:
  assumes pinv: "opt_bounded pl (Suc n) g s" and inv: "mem_inv T (insert f (id g)) s"
    and e: "pte_at s r = Some e" "pte_valid e" "frame_no e = f"
  shows "\<exists>s'. opt_ref r s = Ok s' \<and> same_mem s s' \<and> opt_bounded pl n (add_frame f g) s' \<and>
           id (add_frame f g) = insert f (id g)"
proof -
  let ?c = "curRef s"
  let ?p = "pl ! ?c"
  have f: "f < length (coremap s)" using inv by (auto simp: mem_inv_def mem_ok_def frames_ok_def)
  have P: "page_list_is (pageList s) pl" and c: "?c < length pl" "Suc ?c + n \<le> length pl"
    and rep: "bel_rep (belady_of s) (future pl ?c)" and len: "length pl < 2 ^ 31"
    using pinv by (auto simp: opt_bounded_def opt_pinv_def)
  have inc: "incr_int (int ?c) = Ok (int (Suc ?c))" using c(1) len by (simp add: INT_MAX_def)
  let ?s1 = "s\<lparr>coremap := (coremap s)[f := (coremap s ! f)\<lparr>page := ?p\<rparr>]\<rparr>"
  have "belady_of ?s1 = belady_of s" by (simp add: belady_of_def)
  with popNextRefTime_ok[OF rep, of ?p] obtain t b where
    b: "popNextRefTime ?p (belady_of ?s1) = Ok (t, b)"
      "bel_rep b ((future pl ?c)(?p := tl (future pl ?c ?p)))" by auto
  have fut: "(future pl ?c)(?p := tl (future pl ?c ?p)) = future pl (Suc ?c)"
    using future_step[OF c(1)] by (auto simp: fun_eq_iff)
  let ?s2 = "(set_belady b ?s1)\<lparr>curRef := ?c + 1\<rparr>"
  obtain tb st nx where bb: "b = (tb, st, nx)" by (cases b)
  have run: "opt_ref r s = Ok ?s2"
    using e f b(1) page_list_nth[OF P c(1)] inc by (simp add: opt_ref_def Let_def)
  have "same_mem ?s1 ?s2" by (simp add: set_belady_def bb same_mem_def option.rel_refl)
  then have "same_mem s ?s2" using same_mem_page[OF f] same_mem_trans by blast
  moreover have "opt_bounded pl n (add_frame f g) ?s2"
    using b(2) c P len unfolding fut by (simp add: opt_bounded_def opt_pinv_def set_belady_def bb belady_of_def)
  ultimately show ?thesis using run by (auto simp: add_frame_def)
qed

interpretation opt: replacement opt_ref opt_evict "opt_bounded pl" id add_frame remove_frame any_frame for pl
proof unfold_locales
  fix n g s s'
  assume "opt_bounded pl n g s" and more: "core.more s' = core.more s"
  then show "opt_bounded pl n g s'" unfolding opt_bounded_def opt_pinv_def belady_of_def more_fields[OF more] by simp
qed (rule opt_evict_ok opt_ref_ok, assumption+)+

text \<open>Initialization, for a trace that has only reference lines and at least five frames.\<close>

lemma opt_init_ok:
  assumes tf: "trace_file s = Some (print_trace rs)" "close_ok s"
    and plain: "\<forall>(t, v) \<in> set rs. plain_type t" and m: "5 \<le> memsize s" "memsize s < 2 ^ 31"
    and len: "length rs < 2 ^ 31"
  shows "\<exists>s'. opt_init s = Ok s' \<and> same_mem s s' \<and>
           opt_bounded (map (\<lambda>(t, v). page_number v) rs) (length rs) {} s'"
proof -
  let ?pl = "map (\<lambda>(t, v). page_number v) rs"
  from makePageList_print[OF plain] obtain l where
    l: "makePageList (Some (print_trace rs)) True = Ok l" "dl_inv l"
      "dl_abs l = map (\<lambda>(t, v). Some (page_number v)) rs" by blast
  then have P: "page_list_is l ?pl" by (auto simp: page_list_is_def)
  have "length ?pl < 2 ^ 31" using len by simp
  from makeBeladyTable_ok[OF P this m, of "ref_lists s" "next_list s"] obtain b where
    b: "makeBeladyTable (memsize s) l (ref_lists s) (next_list s) = Ok b" "bel_rep b (future ?pl 0)" by blast
  obtain tb st nx where bb: "b = (tb, st, nx)" by (cases b)
  let ?s' = "(set_belady b s)\<lparr>curRef := 0, pageList := l\<rparr>"
  have "opt_init s = Ok ?s'" using tf l(1) b(1) by (simp add: opt_init_def)
  moreover have "same_mem s ?s'" by (simp add: set_belady_def bb same_mem_def option.rel_refl)
  moreover have "opt_bounded ?pl (length rs) {} ?s'"
    using b(2) P len by (simp add: opt_bounded_def opt_pinv_def set_belady_def bb belady_of_def)
  ultimately show ?thesis by blast
qed

text \<open>With fewer than five frames the table has no bucket, and its first use divides by zero.\<close>

lemma opt_init_small:
  assumes tf: "trace_file s = Some (print_trace rs)" "close_ok s"
    and plain: "\<forall>(t, v) \<in> set rs. plain_type t" and m: "memsize s < 5" and ne: "rs \<noteq> []"
  shows "opt_init s = Undef"
proof -
  let ?pl = "map (\<lambda>(t, v). page_number v) rs"
  from makePageList_print[OF plain] obtain l where
    l: "makePageList (Some (print_trace rs)) True = Ok l" "dl_inv l"
      "dl_abs l = map (\<lambda>(t, v). Some (page_number v)) rs" by blast
  then have P: "page_list_is l ?pl" by (auto simp: page_list_is_def)
  have cnt: "count l = length rs" using page_list_count[OF P] by simp
  then obtain n where n: "count l = Suc n" using ne by (cases rs) auto
  have "memsize s div 5 = 0" using m by simp
  then have "makeBeladyTable (memsize s) l (ref_lists s) (next_list s) = Undef"
    by (simp add: makeBeladyTable_def n Let_def addBeladyPage_def makeHashTable_def hashTableGet_no_buckets
        split: option.split)
  then show ?thesis using tf l(1) by (simp add: opt_init_def)
qed

end
