(* ===== verification/Simulator.thy ===== *)
theory Simulator
  imports Fifo Lru Opt
begin

text \<open>
  The program of \<^verbatim>\<open>a2/starter/sim.c\<close>: the table of algorithms, \<open>replay_trace\<close> and
  \<open>main\<close> between the parsing of its options and the printing of the results, which are in
  \<open>Sim_Report\<close>. A run over any of the five algorithms gives the
  contents of an abstract memory to every page.
\<close>

declare split_paired_All [simp del] split_paired_Ex [simp del]

section \<open>The table of algorithms\<close>

record alg_functions =
  alg_name :: string
  alg_init :: "sim \<Rightarrow> sim outcome"
  alg_ref :: "pte_ref \<Rightarrow> sim \<Rightarrow> sim outcome"
  alg_evict :: "sim \<Rightarrow> (int \<times> sim) outcome"

definition algs :: "alg_functions list" where
  "algs =
    [\<lparr>alg_name = ''rand'', alg_init = (\<lambda>s. Ok (rand_init s)), alg_ref = rand_ref, alg_evict = rand_evict\<rparr>,
     \<lparr>alg_name = ''lru'', alg_init = (\<lambda>s. Ok (lru_init s)), alg_ref = lru_ref, alg_evict = lru_evict\<rparr>,
     \<lparr>alg_name = ''fifo'', alg_init = (\<lambda>s. Ok (fifo_init s)), alg_ref = fifo_ref, alg_evict = fifo_evict\<rparr>,
     \<lparr>alg_name = ''clock'', alg_init = (\<lambda>s. Ok (clock_init s)), alg_ref = clock_ref, alg_evict = clock_evict\<rparr>,
     \<lparr>alg_name = ''opt'', alg_init = opt_init, alg_ref = opt_ref, alg_evict = opt_evict\<rparr>]"

text \<open>The search of \<open>main\<close>: the first entry with the name.\<close>

fun find_alg :: "alg_functions list \<Rightarrow> string \<Rightarrow> alg_functions option" where
  "find_alg [] name = None"
| "find_alg (a # as) name = (if alg_name a = name then Some a else find_alg as name)"

definition replay_trace ::
  "(pte_ref \<Rightarrow> sim \<Rightarrow> sim outcome) \<Rightarrow> (sim \<Rightarrow> (int \<times> sim) outcome) \<Rightarrow> string \<Rightarrow> sim \<Rightarrow> sim outcome" where
  "replay_trace ref evict text s = replay ref evict (trace_refs text) s"

lemma replay_trace_eq: "replay_trace ref evict text = replay ref evict (trace_refs text)"
  by (rule ext) (simp add: replay_trace_def)

section \<open>The program\<close>

text \<open>
  What the command line gives, and what the operating system does: \<open>trace_opt\<close> is \<open>None\<close>
  without \<open>-f\<close>, otherwise what opening the file gives; the rest are the results of
  \<open>mkstemp\<close>, of the allocations of the bitmap and of \<open>fclose\<close>, the limits on the swap file
  and on page tables, the contents of fresh memory, and the values of \<open>random()\<close>.
\<close>

record environment =
  trace_opt :: "string option option"
  stdin_text :: string
  mem_opt :: u32
  swap_opt :: u32
  alg_opt :: "string option"
  mkstemp_ok :: bool
  bitmap_ok :: bool
  fclose_ok :: bool
  disk_limit :: nat
  table_limit :: nat
  garbage :: bytes
  random_values :: "nat \<Rightarrow> nat"

text \<open>The variables after the allocation of \<open>coremap\<close> (zeroed) and \<open>physmem\<close>.\<close>

definition start_state :: "environment \<Rightarrow> sim" where
  "start_state env =
     \<lparr>memsize = unat (mem_opt env),
      coremap = replicate (unat (mem_opt env)) \<lparr>in_use = False, pte_ptr = None, page = 0\<rparr>,
      pgdir = (\<lambda>_. None), physmem = garbage env,
      swapmap = \<lparr>nbits = 0, words_of = []\<rparr>, swapfile = (\<lambda>_. 0), file_size = 0,
      file_limit = disk_limit env, tables_left = table_limit env,
      hit_count = 0, miss_count = 0, ref_count = 0, evict_clean_count = 0, evict_dirty_count = 0,
      fqueue = makeQueue 0, timestamp_list = [], timestamp = 0, clock_arm = 0,
      random_seq = random_values env, random_pos = 0, curRef = 0, pageList = makeList 0,
      beladyTable = makeHashTable 0, ref_lists = (\<lambda>_. None), next_list = 0,
      trace_file = (case trace_opt env of Some t \<Rightarrow> t | None \<Rightarrow> None), close_ok = fclose_ok env\<rparr>"

definition sim_main :: "environment \<Rightarrow> sim outcome" where
  "sim_main env =
     bind_o (case trace_opt env of
               Some None \<Rightarrow> Exit 1 | Some (Some text) \<Rightarrow> Ok text | None \<Rightarrow> Ok (stdin_text env)) (\<lambda>text.
     bind_o (swap_init (mkstemp_ok env) (bitmap_ok env) (swap_opt env) (start_state env)) (\<lambda>(_, s).
     let s = init_pagetable s in
     case alg_opt env of
       None \<Rightarrow> Exit 1
     | Some name \<Rightarrow>
         (case find_alg algs name of
            None \<Rightarrow> Exit 1
          | Some a \<Rightarrow> bind_o (alg_init a s) (\<lambda>s. replay_trace (alg_ref a) (alg_evict a) text s))))"

section \<open>The state before the first reference\<close>

text \<open>The conditions under which the simulation has the resources it needs for a trace.\<close>

definition fits :: "environment \<Rightarrow> (char \<times> u64) list \<Rightarrow> bool" where
  "fits env tr \<longleftrightarrow>
     mkstemp_ok env \<and> bitmap_ok env \<and> fclose_ok env \<and>
     0 < unat (mem_opt env) \<and> unat (mem_opt env) \<le> 2 ^ 20 \<and>
     card (set (page_refs tr)) \<le> unat (swap_opt env) \<and> 16 * unat (swap_opt env) < 2 ^ 31 \<and>
     16 * unat (swap_opt env) \<le> disk_limit env \<and> 4096 \<le> table_limit env \<and>
     (\<forall>(type, v) \<in> set tr. unat (PGDIR_INDEX v) < PTRS_PER_PGDIR)"

definition booted :: "environment \<Rightarrow> bitmap \<Rightarrow> sim" where
  "booted env bm = (start_state env)\<lparr>swapmap := bm\<rparr>"

lemma start_fields:
  "memsize (booted env bm) = unat (mem_opt env)" "pgdir (booted env bm) = (\<lambda>_. None)"
  "trace_file (booted env bm) = (case trace_opt env of Some t \<Rightarrow> t | None \<Rightarrow> None)"
  "close_ok (booted env bm) = fclose_ok env"
  "hit_count (booted env bm) = 0" "miss_count (booted env bm) = 0" "ref_count (booted env bm) = 0"
  "evict_clean_count (booted env bm) = 0" "evict_dirty_count (booted env bm) = 0"
  by (simp_all add: booted_def start_state_def)

lemma booted_counts: "n < 2 ^ 31 \<Longrightarrow> counts_ok n (booted env bm)"
  by (simp add: counts_ok_def evict_room_def start_fields INT_MAX_def)

lemma boot_ok:
  assumes fit: "fits env tr"
  shows "\<exists>bm. swap_init (mkstemp_ok env) (bitmap_ok env) (swap_opt env) (start_state env) =
             Ok (0, booted env bm) \<and> init_pagetable (booted env bm) = booted env bm \<and>
           mem_inv (set (page_refs tr)) {} (booted env bm) \<and> frames_known {} (booted env bm) \<and>
           abs_mem (booted env bm) = (\<lambda>_. None)"
proof -
  have "unat (swap_opt env) \<le> 2 ^ 32 - 32" using fit by (simp add: fits_def)
  from bitmap_create_ok[OF this] obtain bm where
    bm: "bitmap_create True (swap_opt env) = Ok (Some bm)" "bm_inv bm" "bm_used bm = {}"
      "nbits bm = swap_opt env" by blast
  let ?s = "booted env bm"
  have "swap_init (mkstemp_ok env) (bitmap_ok env) (swap_opt env) (start_state env) = Ok (0, ?s)"
    using fit bm(1) by (simp add: swap_init_def fits_def booted_def start_state_def)
  moreover have "init_pagetable ?s = ?s" by (simp add: init_pagetable_def booted_def start_state_def)
  moreover have none: "pte_at ?s r = None" for r by (simp add: pt_lookup_def start_fields)
  have "mem_ok 0 (set (page_refs tr)) {} ?s"
  proof (rule mem_okI)
    show "frames_ok {} ?s" using fit by (simp add: frames_ok_def fits_def booted_def start_state_def)
    show "slots_ok 0 (set (page_refs tr)) ?s"
      using fit bm none by (simp add: slots_ok_def swap_inv_def fits_def booted_def start_state_def SIMPAGESIZE_def)
    show "tables_ok ?s"
      using fit by (simp add: tables_ok_def fits_def booted_def start_state_def PTRS_PER_PGDIR_def)
    show "\<And>r e. pte_at ?s r = Some e \<Longrightarrow> entry_ok 0 (set (page_refs tr)) {} ?s r e" using none by simp
  qed
  then have "mem_inv (set (page_refs tr)) {} ?s" by (auto simp: mem_inv_def)
  moreover have "frames_known {} ?s"
    by (simp add: frames_known_def booted_def start_state_def)
  moreover have "abs_mem ?s = (\<lambda>_. None)" using none by (simp add: abs_mem_def fun_eq_iff)
  ultimately show ?thesis by blast
qed

lemma trace_ok_fits: "fits env tr \<Longrightarrow> trace_ok (set (page_refs tr)) tr"
  by (force simp: fits_def trace_ok_def page_refs_def)

section \<open>Every algorithm is ready after its initialization\<close>

lemma same_mem_ready:
  assumes "same_mem s s'" and "mem_inv T U s" and "frames_known U s"
  shows "mem_inv T U s'" "frames_known U s'" "abs_mem s' = abs_mem s" "counts_ok n s' = counts_ok n s"
proof -
  show "counts_ok n s' = counts_ok n s" by (rule counts_ok_same[OF assms(1)])
  show "mem_inv T U s'" using assms(2) same_mem_inv[OF assms(1)] by (auto simp: mem_inv_def)
  show "abs_mem s' = abs_mem s" by (rule same_mem_abs[OF assms(1)])
  have "length (coremap s) = memsize s" using assms(2) by (auto simp: mem_inv_def mem_ok_def frames_ok_def)
  then show "frames_known U s'"
    using assms(3) same_mem_nth(2)[OF assms(1)] assms(1) by (auto simp: frames_known_def same_mem_def)
qed

lemma mem_bounds: "fits env tr \<Longrightarrow> 0 < memsize (booted env bm) \<and> memsize (booted env bm) \<le> 2 ^ 20"
  by (simp add: fits_def start_fields)

lemma fifo_booted:
  assumes fit: "fits env tr" and inv: "mem_inv T {} (booted env bm)" "frames_known {} (booted env bm)"
    and n: "n < 2 ^ 31"
  shows "fifo.ready T n [] (fifo_init (booted env bm))"
  using same_mem_ready(1,2,4)[OF same_mem_globals(1) inv] makeQueue_rep mem_bounds[OF fit, of bm]
    booted_counts[OF n]
  by (auto simp: fifo.ready_def fifo_init_def fifo_pinv_def makeQueue_def)

lemma lru_booted:
  assumes fit: "fits env tr" and inv: "mem_inv T {} (booted env bm)" "frames_known {} (booted env bm)"
    and n: "n < 2 ^ 31"
  shows "lru.ready T n [] (lru_init (booted env bm))"
proof -
  let ?s = "booted env bm"
  have eq: "lru_init ?s = ?s\<lparr>timestamp_list := replicate (memsize ?s) 0, timestamp := 0\<rparr>"
    by (simp add: lru_init_def)
  show ?thesis
    unfolding eq using same_mem_ready(1,2,4)[OF same_mem_globals(2) inv] n booted_counts[OF n]
    by (simp add: lru.ready_def lru_pinv_def)
qed

lemma clock_booted:
  assumes fit: "fits env tr" and inv: "mem_inv T {} (booted env bm)" "frames_known {} (booted env bm)"
    and n: "n < 2 ^ 31"
  shows "clock.ready T n {} (clock_init (booted env bm))"
  using same_mem_ready(1,2,4)[OF same_mem_globals(3) inv] mem_bounds[OF fit, of bm] booted_counts[OF n]
  by (simp add: clock.ready_def clock_init_def clock_pinv_def)

lemma rand_booted:
  assumes fit: "fits env tr" and inv: "mem_inv T {} (booted env bm)" "frames_known {} (booted env bm)"
    and n: "n < 2 ^ 31"
  shows "rand.ready T n {} (rand_init (booted env bm))"
  using inv mem_bounds[OF fit, of bm] booted_counts[OF n] by (simp add: rand.ready_def rand_init_def rand_pinv_def)

lemma opt_booted:
  assumes fit: "fits env tr" and inv: "mem_inv T {} (booted env bm)" "frames_known {} (booted env bm)"
    and tx: "trace_opt env = Some (Some (print_trace tr))"
    and plain: "\<forall>(t, v) \<in> set tr. plain_type t" and m: "5 \<le> unat (mem_opt env)"
    and len: "length tr < 2 ^ 31"
  shows "\<exists>s. opt_init (booted env bm) = Ok s \<and> same_mem (booted env bm) s \<and>
           opt.ready (map (\<lambda>(t, v). page_number v) tr) T (length tr) {} s"
proof -
  have tf: "trace_file (booted env bm) = Some (print_trace tr)" "close_ok (booted env bm)"
    using tx fit by (simp_all add: start_fields fits_def)
  have b: "5 \<le> memsize (booted env bm)" "memsize (booted env bm) < 2 ^ 31" "length tr < 2 ^ 31"
    using m fit len by (simp_all add: start_fields fits_def)
  from opt_init_ok[OF tf plain b] obtain s where
    "opt_init (booted env bm) = Ok s" "same_mem (booted env bm) s"
    "opt_bounded (map (\<lambda>(t, v). page_number v) tr) (length tr) {} s" by blast
  with same_mem_ready[OF this(2) inv] booted_counts[OF b(3)] show ?thesis by (auto simp: opt.ready_def)
qed

lemma fresh_inits:
  "fresh_run s \<Longrightarrow> fresh_run (fifo_init s)" "fresh_run s \<Longrightarrow> fresh_run (lru_init s)"
  "fresh_run s \<Longrightarrow> fresh_run (clock_init s)" "fresh_run s \<Longrightarrow> fresh_run (rand_init s)"
proof -
  have "same_mem s (fifo_init s)" "same_mem s (lru_init s)" "same_mem s (clock_init s)"
    by (simp_all add: fifo_init_def lru_init_def clock_init_def same_mem_def option.rel_refl)
  note same = this[THEN same_mem_abs]
  show "fresh_run s \<Longrightarrow> fresh_run (fifo_init s)" "fresh_run s \<Longrightarrow> fresh_run (lru_init s)"
    "fresh_run s \<Longrightarrow> fresh_run (clock_init s)" "fresh_run s \<Longrightarrow> fresh_run (rand_init s)"
    by (simp_all add: fresh_run_def same) (simp_all add: fifo_init_def lru_init_def clock_init_def rand_init_def)
qed

lemma fresh_same: "same_mem s s' \<Longrightarrow> fresh_run s \<Longrightarrow> fresh_run s'"
  using same_mem_abs[of s s'] by (simp add: fresh_run_def same_mem_def)

text \<open>The replay each algorithm ends with, started with its own initialization.\<close>

lemma online_run:
  assumes fit: "fits env tr" and len: "length tr < 2 ^ 31" and alg: "name \<in> {''rand'', ''lru'', ''fifo'', ''clock''}"
    and inv: "mem_inv (set (page_refs tr)) {} (booted env bm)" "frames_known {} (booted env bm)"
    and fresh: "fresh_run (booted env bm)"
  shows "\<exists>a s'. find_alg algs name = Some a \<and>
           bind_o (alg_init a (booted env bm)) (\<lambda>s. replay (alg_ref a) (alg_evict a) tr s) = Ok s' \<and> good_run tr s'"
proof -
  note tr = trace_ok_fits[OF fit]
  from alg consider "name = ''rand''" | "name = ''lru''" | "name = ''fifo''" | "name = ''clock''" by auto
  then show ?thesis
  proof cases
    case 1
    with rand.good_replay[OF rand_booted[OF fit inv len] tr fresh_inits(4)[OF fresh]]
    show ?thesis by (simp add: algs_def)
  next
    case 2
    with lru.good_replay[OF lru_booted[OF fit inv len] tr fresh_inits(2)[OF fresh]]
    show ?thesis by (simp add: algs_def)
  next
    case 3
    with fifo.good_replay[OF fifo_booted[OF fit inv len] tr fresh_inits(1)[OF fresh]]
    show ?thesis by (simp add: algs_def)
  next
    case 4
    with clock.good_replay[OF clock_booted[OF fit inv len] tr fresh_inits(3)[OF fresh]]
    show ?thesis by (simp add: algs_def)
  qed
qed

text \<open>A run of the whole program with an algorithm that does not look ahead.\<close>

lemma sim_main_good:
  assumes fit: "fits env (trace_refs text)" and len: "length (trace_refs text) < 2 ^ 31"
    and tx: "trace_opt env = Some (Some text)"
    and alg: "alg_opt env = Some name" "name \<in> {''rand'', ''lru'', ''fifo'', ''clock''}"
  shows "\<exists>s. sim_main env = Ok s \<and> good_run (trace_refs text) s"
proof -
  obtain bm where b: "mem_inv (set (page_refs (trace_refs text))) {} (booted env bm)"
    "frames_known {} (booted env bm)" "abs_mem (booted env bm) = (\<lambda>_. None)"
    "swap_init (mkstemp_ok env) (bitmap_ok env) (swap_opt env) (start_state env) = Ok (0, booted env bm)"
    "init_pagetable (booted env bm) = booted env bm"
    using boot_ok[OF fit] by blast
  have "fresh_run (booted env bm)" using b(3) by (simp add: fresh_run_def start_fields)
  from online_run[OF fit len alg(2) b(1,2) this] show ?thesis
    using b tx alg(1) by (auto simp: sim_main_def replay_trace_eq Let_def)
qed

end
