(* ===== verification/Sim_Props.thy ===== *)
theory Sim_Props
  imports Simulator
begin

text \<open>
  The properties of the virtual memory simulator, each with an instance at a concrete input.
\<close>

declare split_paired_All [simp del] split_paired_Ex [simp del]

section \<open>Runs of the program\<close>

text \<open>A small machine for the instances: two or five frames, four references to three pages.\<close>

definition demo_trace :: "(char \<times> u64) list" where
  "demo_trace = [(CHR ''S'', 0x1000), (CHR ''L'', 0x2000), (CHR ''M'', 0x3000), (CHR ''L'', 0x1000)]"

definition demo_env :: "string \<Rightarrow> u32 \<Rightarrow> environment" where
  "demo_env name m =
     \<lparr>trace_opt = Some (Some (print_trace demo_trace)), stdin_text = [], mem_opt = m, swap_opt = 4,
      alg_opt = Some name, mkstemp_ok = True, bitmap_ok = True, fclose_ok = True,
      disk_limit = 1000, table_limit = 4096, garbage = (\<lambda>i. 7), random_values = (\<lambda>i. i)\<rparr>"

lemma demo_plain: "\<forall>(t, v) \<in> set demo_trace. plain_type t"
  by (simp add: demo_trace_def plain_type_def isspace_def)

lemma demo_refs: "trace_refs (print_trace demo_trace) = demo_trace"
  by (rule trace_refs_print[OF demo_plain])

lemma demo_pages: "page_refs demo_trace = [(0, 1), (0, 2), (0, 3), (0, 1)]"
  by (simp add: page_refs_def demo_trace_def page_of_def PGDIR_INDEX_def PGTBL_INDEX_def
      PGDIR_SHIFT_def PAGE_SHIFT_def PTRS_PER_PGTBL_def drop_bit_eq_div)

lemma demo_fits: "0 < unat m \<Longrightarrow> unat m \<le> 2 ^ 20 \<Longrightarrow> fits (demo_env name m) demo_trace"
  unfolding fits_def demo_pages
  by (simp add: demo_env_def demo_trace_def PGDIR_INDEX_def PGDIR_SHIFT_def PTRS_PER_PGDIR_def
      drop_bit_eq_div card_insert_if)

text \<open>C1: with \<open>rand\<close>, \<open>lru\<close>, \<open>fifo\<close> or \<open>clock\<close>, the program runs any trace of fewer than
  \<open>2^31\<close> references that fits its resources to the end; every page then has the contents it has in a memory without paging,
  each reference counts once, as a hit or a miss, and no two pages share a frame.\<close>

theorem sim_main_transparent:
  assumes fit: "fits env (trace_refs text)" and len: "length (trace_refs text) < 2 ^ 31"
    and tx: "trace_opt env = Some (Some text)"
    and alg: "alg_opt env = Some name" "name \<in> {''rand'', ''lru'', ''fifo'', ''clock''}"
  shows "\<exists>s. sim_main env = Ok s \<and> good_run (trace_refs text) s"
  by (rule sim_main_good[OF fit len tx alg])

theorem sim_main_transparent_witness:
  "\<exists>s. sim_main (demo_env ''clock'' 2) = Ok s \<and> good_run demo_trace s"
  using sim_main_transparent[of "demo_env ''clock'' 2" "print_trace demo_trace" "''clock''"]
    demo_fits[of 2 "''clock''"]
  by (simp add: demo_refs) (simp add: demo_env_def demo_trace_def)

text \<open>C13: the same for the optimal algorithm, when the trace has only reference lines, fewer than
  \<open>2^30\<close> (its lists are grown in loops over an int), and there are at least five frames (its
  hash table has a bucket for every five).\<close>

theorem sim_main_opt_transparent:
  assumes fit: "fits env tr" and len: "length tr < 2 ^ 30"
    and tx: "trace_opt env = Some (Some (print_trace tr))"
    and plain: "\<forall>(t, v) \<in> set tr. plain_type t" and m: "5 \<le> unat (mem_opt env)"
    and alg: "alg_opt env = Some ''opt''"
  shows "\<exists>s. sim_main env = Ok s \<and> good_run tr s"
proof -
  obtain bm where b: "mem_inv (set (page_refs tr)) {} (booted env bm)"
    "frames_known {} (booted env bm)" "abs_mem (booted env bm) = (\<lambda>_. None)"
    "swap_init (mkstemp_ok env) (bitmap_ok env) (swap_opt env) (start_state env) = Ok (0, booted env bm)"
    "init_pagetable (booted env bm) = booted env bm"
    using boot_ok[OF fit] by blast
  have fresh: "fresh_run (booted env bm)" using b(3) by (simp add: fresh_run_def start_fields)
  have len31: "length tr < 2 ^ 31" using len by simp
  from opt_booted[OF fit b(1,2) tx plain m len31] obtain s where
    s: "opt_init (booted env bm) = Ok s" "same_mem (booted env bm) s"
      "opt.ready (map (\<lambda>(t, v). page_number v) tr) (set (page_refs tr)) (length tr) {} s" by blast
  from opt.good_replay[OF s(3) trace_ok_fits[OF fit] fresh_same[OF s(2) fresh]] show ?thesis
    using b tx alg s(1) trace_refs_print[OF plain]
    by (auto simp: sim_main_def replay_trace_eq Let_def algs_def)
qed

theorem sim_main_opt_transparent_witness:
  "\<exists>s. sim_main (demo_env ''opt'' 5) = Ok s \<and> good_run demo_trace s"
  using sim_main_opt_transparent[of "demo_env ''opt'' 5" demo_trace] demo_fits[of 5 "''opt''"] demo_plain
  by (simp add: demo_env_def demo_trace_def)

section \<open>Which references miss\<close>

text \<open>C11: with \<open>fifo\<close>, the misses of a run of fewer than \<open>2^31\<close> references are those of an
  abstract cache of as many pages as there are frames, which throws out the page that came in
  first.\<close>

theorem fifo_misses:
  assumes fit: "fits env (trace_refs text)" and len: "length (trace_refs text) < 2 ^ 31"
    and tx: "trace_opt env = Some (Some text)" and alg: "alg_opt env = Some ''fifo''"
  shows "\<exists>s. sim_main env = Ok s \<and>
           miss_count s = int (cache_misses (fifo_step (unat (mem_opt env))) [] (page_refs (trace_refs text)))"
proof -
  let ?tr = "trace_refs text"
  obtain bm where b: "mem_inv (set (page_refs ?tr)) {} (booted env bm)" "frames_known {} (booted env bm)"
    "swap_init (mkstemp_ok env) (bitmap_ok env) (swap_opt env) (start_state env) = Ok (0, booted env bm)"
    "init_pagetable (booted env bm) = booted env bm"
    using boot_ok[OF fit] by blast
  let ?s = "fifo_init (booted env bm)"
  have init: "memsize ?s = unat (mem_opt env)" "miss_count ?s = 0"
    by (simp_all add: fifo_init_def start_fields)
  from fifo_replay[OF fifo_booted[OF fit b(1,2) len] trace_ok_fits[OF fit]] obtain s' where "replay fifo_ref fifo_evict ?tr ?s = Ok s'"
    "miss_count s' = miss_count ?s + int (cache_misses (fifo_step (memsize ?s)) (pages_of ?s []) (page_refs ?tr))"
    by blast
  then show ?thesis
    using b tx alg by (auto simp: sim_main_def replay_trace_eq Let_def algs_def init pages_of_def)
qed

theorem fifo_misses_witness: "\<exists>s. sim_main (demo_env ''fifo'' 2) = Ok s \<and> miss_count s = 4"
proof -
  have "cache_misses (fifo_step 2) [] (page_refs demo_trace) = 4"
    by (simp add: demo_pages fifo_step_def)
  then show ?thesis
    using fifo_misses[of "demo_env ''fifo'' 2" "print_trace demo_trace"] demo_fits[of 2 "''fifo''"]
    by (simp add: demo_refs) (simp add: demo_env_def demo_trace_def)
qed

text \<open>C12: with \<open>lru\<close>, the misses of a run of fewer than \<open>2^31\<close> references are those of an
  abstract cache that throws out the page used longest ago.\<close>

theorem lru_misses:
  assumes fit: "fits env (trace_refs text)" and len: "length (trace_refs text) < 2 ^ 31"
    and tx: "trace_opt env = Some (Some text)" and alg: "alg_opt env = Some ''lru''"
  shows "\<exists>s. sim_main env = Ok s \<and>
           miss_count s = int (cache_misses (lru_step (unat (mem_opt env))) [] (page_refs (trace_refs text)))"
proof -
  let ?tr = "trace_refs text"
  obtain bm where b: "mem_inv (set (page_refs ?tr)) {} (booted env bm)" "frames_known {} (booted env bm)"
    "swap_init (mkstemp_ok env) (bitmap_ok env) (swap_opt env) (start_state env) = Ok (0, booted env bm)"
    "init_pagetable (booted env bm) = booted env bm"
    using boot_ok[OF fit] by blast
  let ?s = "lru_init (booted env bm)"
  have init: "memsize ?s = unat (mem_opt env)" "miss_count ?s = 0"
    by (simp_all add: lru_init_def start_fields)
  from lru_replay[OF lru_booted[OF fit b(1,2) len] trace_ok_fits[OF fit]] obtain s' where "replay lru_ref lru_evict ?tr ?s = Ok s'"
    "miss_count s' = miss_count ?s + int (cache_misses (lru_step (memsize ?s)) (pages_of ?s []) (page_refs ?tr))"
    by blast
  then show ?thesis
    using b tx alg by (auto simp: sim_main_def replay_trace_eq Let_def algs_def init pages_of_def)
qed

theorem lru_misses_witness: "\<exists>s. sim_main (demo_env ''lru'' 2) = Ok s \<and> miss_count s = 4"
proof -
  have "cache_misses (lru_step 2) [] (page_refs demo_trace) = 4"
    by (simp add: demo_pages lru_step_def)
  then show ?thesis
    using lru_misses[of "demo_env ''lru'' 2" "print_trace demo_trace"] demo_fits[of 2 "''lru''"]
    by (simp add: demo_refs) (simp add: demo_env_def demo_trace_def)
qed

section \<open>The choice of the victim\<close>

text \<open>C14: when every frame holds a page, the sweep of the clock ends within one turn: it clears
  the reference bits of the frames it passes, all of which were set, changes nothing else, and
  returns the first frame whose bit is clear.\<close>

theorem clock_second_chance:
  assumes "mem_inv T {..< memsize s} s" and "clock_arm s < memsize s"
  shows "\<exists>j t. clock_evict s = Ok (int (clock_arm t), t\<lparr>clock_arm := (clock_arm t + 1) mod memsize s\<rparr>) \<and>
           same_mem s t \<and> j \<le> memsize s \<and> clock_arm t = (clock_arm s + j) mod memsize s \<and>
           (\<forall>i < j. refd_frame s ((clock_arm s + i) mod memsize s)) \<and> \<not> refd_frame t (clock_arm t) \<and>
           (\<forall>f < memsize s. refd_frame t f \<longleftrightarrow>
              refd_frame s f \<and> (\<forall>i < j. f \<noteq> (clock_arm s + i) mod memsize s))"
  using clock_evict_swept[OF assms] unfolding swept_def by blast

text \<open>One frame, which holds page \<open>(0, 1)\<close>, referenced and dirty.\<close>

definition one_entry :: pte where
  "one_entry = \<lparr>frame = 7, swap_off = INVALID_SWAP\<rparr>"

definition one_page :: sim where
  "one_page = (start_state (demo_env ''clock'' 1))
     \<lparr>coremap := [\<lparr>in_use = True, pte_ptr = Some (0, 1), page = 1\<rparr>],
      pgdir := (\<lambda>_. None)(0 := Some ((\<lambda>_. \<lparr>frame = 0, swap_off = INVALID_SWAP\<rparr>)(1 := one_entry))),
      swapmap := \<lparr>nbits = 32, words_of = [0]\<rparr>\<rparr>"

lemma one_page_inv: "mem_inv {(0, 1)} {..< memsize one_page} one_page"
proof -
  have fl: "pte_valid one_entry" "pte_dirty one_entry" "frame_no one_entry = 0" "touched one_entry"
    "swap_off one_entry = INVALID_SWAP"
    by (simp_all add: one_entry_def pte_valid_def pte_dirty_def frame_no_def touched_def PG_VALID_def
        PG_DIRTY_def PAGE_SHIFT_def drop_bit_eq_div)
  have no: "\<not> touched \<lparr>frame = 0, swap_off = INVALID_SWAP\<rparr>" "\<not> pte_valid \<lparr>frame = 0, swap_off = INVALID_SWAP\<rparr>"
    by (simp_all add: touched_def flag_bits)
  have at: "pte_at one_page r = (if r = (0, 1) then Some one_entry
      else if fst r = 0 \<and> snd r < 4096 then Some \<lparr>frame = 0, swap_off = INVALID_SWAP\<rparr> else None)" for r
    by (cases r) (auto simp: one_page_def pt_lookup_def PTRS_PER_PGDIR_def PTRS_PER_PGTBL_def)
  have m: "memsize one_page = 1" "coremap one_page = [\<lparr>in_use = True, pte_ptr = Some (0, 1), page = 1\<rparr>]"
    by (simp_all add: one_page_def start_state_def demo_env_def)
  have off: "swap_off e = INVALID_SWAP" if "pte_at one_page r = Some e" for r e
    using that fl(5) by (auto simp: at split: if_splits)
  have "mem_ok 0 {(0, 1)} {..< memsize one_page} one_page"
  proof (rule mem_okI)
    show "frames_ok {..< memsize one_page} one_page"
      using fl by (simp add: frames_ok_def m at)
    have "bm_inv \<lparr>nbits = 32, words_of = [0]\<rparr>" "bm_used \<lparr>nbits = 32, words_of = [0]\<rparr> = {}"
      by (auto simp: bm_inv_def bm_used_def bm_bit_def)
    then show "slots_ok 0 {(0, 1)} one_page"
      using off by (simp add: slots_ok_def swap_inv_def one_page_def start_state_def demo_env_def SIMPAGESIZE_def)
    have "{d. d < PTRS_PER_PGDIR \<and> pgdir one_page d = None} \<subseteq> {..< PTRS_PER_PGDIR}" by auto
    then have "card {d. d < PTRS_PER_PGDIR \<and> pgdir one_page d = None} \<le> card {..< PTRS_PER_PGDIR}"
      by (intro card_mono) simp_all
    then show "tables_ok one_page"
      by (simp add: tables_ok_def PTRS_PER_PGDIR_def one_page_def start_state_def demo_env_def)
    fix r e assume "pte_at one_page r = Some e"
    then show "entry_ok 0 {(0, 1)} {..< memsize one_page} one_page r e"
      using fl no by (auto simp: at entry_ok_def m split: if_splits)
  qed
  then show ?thesis by (auto simp: mem_inv_def)
qed

theorem clock_second_chance_witness: "\<exists>s'. clock_evict one_page = Ok (0, s')"
proof -
  have "clock_arm one_page < memsize one_page" "memsize one_page = 1"
    by (simp_all add: one_page_def start_state_def demo_env_def)
  with clock_second_chance[OF one_page_inv] show ?thesis by fastforce
qed

text \<open>C15: when the page list has the references left, \<open>opt_evict\<close> returns a frame whose page is
  used again last, going by the pages recorded for the frames, and leaves the state as it is.\<close>

theorem opt_evicts_farthest:
  assumes "opt_pinv pl n g s" and "memsize s = length (coremap s)" and "0 < memsize s"
  shows "\<exists>f < memsize s. opt_evict s = Ok (int f, s) \<and>
     (\<forall>h < memsize s. next_use pl (curRef s) (page (coremap s ! h)) \<le>
                       next_use pl (curRef s) (page (coremap s ! f)))"
  by (rule opt_evict_farthest[OF assms])

theorem opt_evicts_farthest_witness:
  "\<exists>s f. memsize s = 5 \<and> f < 5 \<and> opt_evict s = Ok (int f, s)"
proof -
  let ?s = "start_state (demo_env ''opt'' 5)"
  have "trace_file ?s = Some (print_trace demo_trace)" "close_ok ?s" "5 \<le> memsize ?s" "memsize ?s < 2 ^ 31"
    "length demo_trace < 2 ^ 31"
    by (simp_all add: start_state_def demo_env_def demo_trace_def)
  from opt_init_ok[OF this(1,2) demo_plain this(3-5)] obtain s where
    s: "same_mem ?s s" "opt_pinv (map (\<lambda>(t, v). page_number v) demo_trace) (length demo_trace) {} s"
    unfolding opt_bounded_def by blast
  have "memsize s = 5" "length (coremap s) = 5"
    using s(1) same_mem_nth(1)[OF s(1)] by (simp_all add: same_mem_def start_state_def demo_env_def)
  with opt_evicts_farthest[OF s(2)] show ?thesis by auto
qed

text \<open>C30: \<open>opt_init\<close> with fewer than five frames divides by zero on any trace that is not empty.\<close>

theorem opt_needs_five_frames:
  assumes "trace_file s = Some (print_trace rs)" "close_ok s" and "\<forall>(t, v) \<in> set rs. plain_type t"
    and "memsize s < 5" and "rs \<noteq> []"
  shows "opt_init s = Undef"
  by (rule opt_init_small[OF assms])

theorem opt_needs_five_frames_witness: "opt_init (start_state (demo_env ''opt'' 4)) = Undef"
  by (rule opt_needs_five_frames[OF _ _ demo_plain])
    (simp_all add: demo_env_def start_state_def demo_trace_def)

section \<open>The trace file\<close>

text \<open>C29: a trace written one reference per line is read back alike by both readers:
  \<open>replay_trace\<close> gets the references, \<open>makePageList\<close> their page numbers in the same order.\<close>

theorem trace_readers_agree:
  assumes "\<forall>(t, v) \<in> set rs. plain_type t"
  shows "trace_refs (print_trace rs) = rs \<and>
    (\<exists>l. makePageList (Some (print_trace rs)) True = Ok l \<and> dl_inv l \<and>
         dl_abs l = map (\<lambda>(t, v). Some (page_number v)) rs)"
  using trace_refs_print[OF assms] makePageList_print[OF assms] by blast

theorem trace_readers_agree_witness: "trace_refs (print_trace demo_trace) = demo_trace"
  using trace_readers_agree[OF demo_plain] by blast

end
