(* ===== verification/Data_Props.thy ===== *)
theory Data_Props
  imports Sim_Globals
begin

text \<open>
  The properties of the containers and of the swap space of the simulator, each with an
  instance at a concrete input.
\<close>

section \<open>The bitmap of swap slots\<close>

text \<open>C17: \<open>bitmap_alloc\<close> gives out the least free slot and marks only it, or fails when every
  slot is used; it never trips its assertions.\<close>

theorem bitmap_alloc_least:
  assumes "bm_inv b"
  shows "(bitmap_alloc b = Ok (None, b) \<and> bm_used b = {..< unat (nbits b)}) \<or>
         (\<exists>i b'. bitmap_alloc b = Ok (Some (word_of_nat i), b') \<and> i < unat (nbits b) \<and>
            i \<notin> bm_used b \<and> {..< i} \<subseteq> bm_used b \<and> bm_inv b' \<and>
            bm_used b' = insert i (bm_used b) \<and> nbits b' = nbits b)"
  by (rule bitmap_alloc_cases[OF assms])

theorem bitmap_alloc_least_witness:
  "\<exists>b b'. bitmap_create True 40 = Ok (Some b) \<and> bitmap_alloc b = Ok (Some 0, b') \<and> bm_used b' = {0}"
proof -
  from bitmap_create_ok[of 40] obtain b where b: "bitmap_create True 40 = Ok (Some b)" "bm_inv b"
    "bm_used b = {}" "nbits b = 40" by auto
  have "bm_used b \<noteq> {..< unat (nbits b)}"
  proof
    assume "bm_used b = {..< unat (nbits b)}"
    moreover have "0 \<in> {..< unat (nbits b)}" using b(4) by simp
    ultimately show False using b(3) by simp
  qed
  with bitmap_alloc_least[OF b(2)] b(3) obtain i b' where
    i: "bitmap_alloc b = Ok (Some (word_of_nat i), b')" "{..< i} \<subseteq> {}" "bm_used b' = insert i {}"
    by metis
  then have "i = 0" using i(2) by (metis empty_iff lessThan_iff not_gr_zero subsetD)
  with b i show ?thesis by (intro exI[of _ b] exI[of _ b']) simp
qed

section \<open>Swapping\<close>

text \<open>A state for the instances: two frames and a swap file of 32 slots, the first \<open>k\<close> in use.\<close>

definition swap_state :: "u32 \<Rightarrow> nat \<Rightarrow> core" where
  "swap_state w k =
     \<lparr>memsize = 2, coremap = [], pgdir = (\<lambda>_. None), physmem = (\<lambda>i. word_of_nat i),
      swapmap = \<lparr>nbits = 32, words_of = [w]\<rparr>, swapfile = (\<lambda>_. 0), file_size = SIMPAGESIZE * k,
      file_limit = 1000, tables_left = 0, hit_count = 0, miss_count = 0, ref_count = 0,
      evict_clean_count = 0, evict_dirty_count = 0\<rparr>"

lemma swap_state_inv: "swap_inv 0 (swap_state 0 0)" "swap_inv 32 (swap_state WORD_ALLBITS 32)"
proof -
  have "bm_used \<lparr>nbits = 32, words_of = [0]\<rparr> = {}" "bm_inv \<lparr>nbits = 32, words_of = [0]\<rparr>"
    by (auto simp: bm_used_def bm_inv_def bm_bit_def)
  then show "swap_inv 0 (swap_state 0 0)"
    by (simp add: swap_inv_def swap_state_def SIMPAGESIZE_def)
  have "bit WORD_ALLBITS i" if "i < 32" for i using that all_bits[of WORD_ALLBITS] by simp
  then have "bm_used \<lparr>nbits = 32, words_of = [WORD_ALLBITS]\<rparr> = {..< 32}"
    "bm_inv \<lparr>nbits = 32, words_of = [WORD_ALLBITS]\<rparr>"
    by (auto simp: bm_used_def bm_inv_def bm_bit_def)
  then show "swap_inv 32 (swap_state WORD_ALLBITS 32)"
    by (simp add: swap_inv_def swap_state_def SIMPAGESIZE_def)
qed

text \<open>C16: a frame written to a new slot of the swap file and read back into any frame gives the
  same bytes, and the frames other than the target keep theirs.\<close>

theorem swap_roundtrip:
  assumes inv: "swap_inv k s" and f: "f < memsize s" "h < memsize s" "memsize s \<le> 2 ^ 20"
    and room: "k < unat (nbits (swapmap s))"
  shows "\<exists>off s1 s2. swap_pageout f INVALID_SWAP s = Ok (off, s1) \<and> off \<noteq> INVALID_SWAP \<and>
           swap_inv (Suc k) s1 \<and> swap_pagein h off s1 = Ok (0, s2) \<and>
           frame_bytes s2 h = frame_bytes s f \<and> (\<forall>g. g \<noteq> h \<longrightarrow> frame_bytes s2 g = frame_bytes s g)"
proof -
  from swap_pageout_new[OF inv f(1,3) room] obtain bm where
    out: "swap_pageout f INVALID_SWAP s = Ok (slot_off k, write_slot f k (s\<lparr>swapmap := bm\<rparr>))"
    and inv1: "swap_inv (Suc k) (write_slot f k (s\<lparr>swapmap := bm\<rparr>))" by blast
  let ?s1 = "write_slot f k (s\<lparr>swapmap := bm\<rparr>)"
  let ?s2 = "?s1\<lparr>physmem := copy_bytes (physmem ?s1) (h * SIMPAGESIZE) (swapfile ?s1) (SIMPAGESIZE * k) SIMPAGESIZE\<rparr>"
  have "swap_pagein h (slot_off k) ?s1 = Ok (0, ?s2)"
    using f by (intro swap_pagein_ok[OF inv1]) (simp_all add: write_slot_def)
  moreover have "frame_bytes ?s2 h = frame_bytes s f"
    using frame_bytes_pagein[of ?s1 h k] slot_bytes_write[of f k "s\<lparr>swapmap := bm\<rparr>"]
    by (simp add: frame_bytes_def)
  moreover have "frame_bytes ?s2 g = frame_bytes s g" if "g \<noteq> h" for g
    using frame_bytes_copy_other[of h g ?s1 "swapfile ?s1" "SIMPAGESIZE * k"] that
    by (simp add: frame_bytes_def write_slot_def)
  ultimately show ?thesis
    using out inv1 by (intro exI[of _ "slot_off k"] exI[of _ ?s1] exI[of _ ?s2]) simp
qed

theorem swap_roundtrip_witness:
  "\<exists>off s1 s2. swap_pageout 0 INVALID_SWAP (swap_state 0 0) = Ok (off, s1) \<and>
     swap_pagein 1 off s1 = Ok (0, s2) \<and> frame_bytes s2 1 = frame_bytes (swap_state 0 0) 0"
  using swap_roundtrip[OF swap_state_inv(1), of 0 1] by (auto simp: swap_state_def)

text \<open>C31: when every frame is taken, the swap file is full and the victim is dirty and has no slot,
  \<open>allocate_frame\<close> still gives its frame away: nothing is written to the swap file, and the entry
  of the victim is marked as on swap with the offset \<open>INVALID_SWAP\<close>. Whenever a frame can be
  found for that page again, \<open>find_physpage\<close> stops at a failed assertion.\<close>

theorem swap_full_loses_page:
  assumes "\<forall>i < memsize s. in_use (coremap s ! i)" "length (coremap s) = memsize s"
    and "evict s = Ok (int f, s1)" "same_mem s s1" "f < memsize s"
    and "pte_ptr (coremap s ! f) = Some r" "pte_at s r = Some e" "pte_dirty e" "swap_off e = INVALID_SWAP"
    and "swap_inv k s" "k = unat (nbits (swapmap s))" "evict_dirty_count s < INT_MAX"
  shows "(\<exists>e' s'. allocate_frame evict p s = Ok (int f, s') \<and> pte_ptr (coremap s' ! f) = Some p \<and>
       swapfile s' = swapfile s \<and> swapmap s' = swapmap s \<and>
       pte_at s' r = Some e' \<and> \<not> pte_valid e' \<and> pte_onswap e' \<and> swap_off e' = INVALID_SWAP) \<and>
    (\<forall>t d v type ref evict' i t' d'.
       pte_at t r = Some d \<and> \<not> pte_valid d \<and> pte_onswap d \<and>
       r = (unat (PGDIR_INDEX v), unat (PGTBL_INDEX v)) \<and> miss_count t < INT_MAX \<and>
       allocate_frame evict' r (t\<lparr>miss_count := miss_count t + 1\<rparr>) = Ok (i, t') \<and>
       pte_at t' r = Some d' \<and> swap_off d' = INVALID_SWAP \<longrightarrow>
       find_physpage ref evict' v type t = Abort)"
  using allocate_frame_full[of s evict f s1 r e k p] assms lost_page_aborts by blast

text \<open>The swap file of 32 slots full, and the only frame held by page \<open>(0, 1)\<close>, which is dirty.\<close>

definition full_state :: core where
  "full_state = (swap_state WORD_ALLBITS 32)
     \<lparr>memsize := 1, coremap := [\<lparr>in_use = True, pte_ptr = Some (0, 1), page = 1\<rparr>],
      pgdir := (\<lambda>_. None)(0 := Some (\<lambda>_. \<lparr>frame = 7, swap_off = INVALID_SWAP\<rparr>))\<rparr>"

theorem swap_full_loses_page_witness:
  "\<exists>e' s'. allocate_frame (\<lambda>s. Ok (0, s)) (0, 2) full_state = Ok (0, s') \<and>
     pte_at s' (0, 1) = Some e' \<and> \<not> pte_valid e' \<and> swap_off e' = INVALID_SWAP"
proof -
  have m: "memsize full_state = 1" "coremap full_state = [\<lparr>in_use = True, pte_ptr = Some (0, 1), page = 1\<rparr>]"
    "evict_dirty_count full_state < INT_MAX" "unat (nbits (swapmap full_state)) = 32"
    by (simp_all add: full_state_def swap_state_def INT_MAX_def)
  have at: "pte_at full_state (0, 1) = Some \<lparr>frame = 7, swap_off = INVALID_SWAP\<rparr>"
    by (simp add: full_state_def pt_lookup_def PTRS_PER_PGDIR_def PTRS_PER_PGTBL_def)
  have inv: "swap_inv 32 full_state"
    using swap_state_inv(2) swap_inv_cong[of full_state "swap_state WORD_ALLBITS 32" 32]
    by (simp add: full_state_def)
  note full = swap_full_loses_page[of full_state "\<lambda>s. Ok (0, s)" 0 full_state "(0, 1)"
      "\<lparr>frame = 7, swap_off = INVALID_SWAP\<rparr>" 32 "(0, 2)", THEN conjunct1]
  have "\<exists>e' s'. allocate_frame (\<lambda>s. Ok (0, s)) (0, 2) full_state = Ok (int 0, s') \<and>
      pte_ptr (coremap s' ! 0) = Some (0, 2) \<and> swapfile s' = swapfile full_state \<and>
      swapmap s' = swapmap full_state \<and>
      pte_at s' (0, 1) = Some e' \<and> \<not> pte_valid e' \<and> pte_onswap e' \<and> swap_off e' = INVALID_SWAP"
    by (rule full) (simp_all add: m at[simplified] inv pte_dirty_def PG_DIRTY_def)
  then show ?thesis by auto
qed

section \<open>Containers\<close>

text \<open>C32: the hash table is a map: a lookup gives the value of the key, insertion and removal
  change it at that key only and return the old value.\<close>

theorem hash_table_is_map:
  assumes "ht_inv t"
  shows "hashTableGet t k = Ok (ht_map t k) \<and>
         (\<exists>t'. hashTableSet t k v = Ok (ht_map t k, t') \<and> ht_inv t' \<and> ht_map t' = (ht_map t)(k := Some v)) \<and>
         (\<exists>t'. hashTableRemove t k = Ok (ht_map t k, t') \<and> ht_inv t' \<and> ht_map t' = (ht_map t)(k := None))"
  using ht.get_law[OF assms] ht.set_law[OF assms] ht.remove_law[OF assms] by blast

theorem hash_table_is_map_witness:
  "\<exists>t' t''. hashTableSet (makeHashTable 2) 7 (1 :: nat) = Ok (None, t') \<and> hashTableGet t' 7 = Ok (Some 1) \<and>
     hashTableRemove t' 7 = Ok (Some 1, t'') \<and> hashTableGet t'' 7 = Ok None"
proof -
  have mk: "ht_inv (makeHashTable 2 :: nat hash_table)" "ht_map (makeHashTable 2 :: nat hash_table) = (\<lambda>k. None)"
    by (simp_all add: makeHashTable_ok)
  from hash_table_is_map[OF mk(1), of 7 1] mk(2) obtain t' where
    t': "hashTableSet (makeHashTable 2) 7 (1 :: nat) = Ok (None, t')" "ht_inv t'"
      "ht_map t' = (\<lambda>k. None)(7 := Some 1)" by auto
  from hash_table_is_map[OF t'(2), of 7 1] t'(3) obtain t'' where
    t'': "hashTableGet t' 7 = Ok (Some 1)" "hashTableRemove t' 7 = Ok (Some 1, t'')" "ht_inv t''"
      "ht_map t'' = ((\<lambda>k. None)(7 := Some 1))(7 := None)" by auto
  from hashTableGet_ok[OF t''(3), of 7] t''(4) t'(1) t''(1,2) show ?thesis by auto
qed

end
