(* ===== verification/Ext2_Disk.thy ===== *)
theory Ext2_Disk
  imports Prelude
begin

text \<open>
  The ext2 image as \<^verbatim>\<open>a3/ext2_helper.h\<close> sees it (lines 30 to 176 and 352 to 406): 128
  KiB of bytes mapped into memory, the structures of \<^verbatim>\<open>a3/ext2.h\<close> as offsets of their
  fields, the functions that find blocks and inodes, the block numbers of an inode, the two
  bitmaps and the counters of free blocks and inodes. A pointer into the image is an offset.
\<close>

section \<open>Results and accesses\<close>

text \<open>
  The mapping is shared with the image file, so what a command has written stays when it leaves
  through \<open>exit\<close>: \<open>Quit\<close> has the exit code and the image. \<open>Fault\<close> is an access outside the
  mapping or through a null pointer.
\<close>

datatype 'a fsres = Ret 'a | Quit int bytes | Fault

fun bind_f :: "'a fsres \<Rightarrow> ('a \<Rightarrow> 'b fsres) \<Rightarrow> 'b fsres" where
  "bind_f (Ret x) k = k x"
| "bind_f (Quit c d) k = Quit c d"
| "bind_f Fault k = Fault"

lemma bind_f_cong [fundef_cong]:
  "m = m' \<Longrightarrow> (\<And>x. m' = Ret x \<Longrightarrow> k x = k' x) \<Longrightarrow> bind_f m k = bind_f m' k'"
  by (cases m') auto

lemma bind_f_assoc: "bind_f (bind_f m f) g = bind_f m (\<lambda>x. bind_f (f x) g)"
  by (cases m) auto

lemma bind_f_Ret_right [simp]: "bind_f m Ret = m"
  by (cases m) auto

lemma bind_f_eq_Ret: "bind_f m k = Ret y \<longleftrightarrow> (\<exists>x. m = Ret x \<and> k x = Ret y)"
  by (cases m) auto

text \<open>The length of the mapping, and little-endian fields of \<open>n\<close> bytes in it.\<close>

definition DISK_SIZE :: nat where "DISK_SIZE = 131072"

definition rd :: "nat \<Rightarrow> bytes \<Rightarrow> nat \<Rightarrow> nat fsres" where
  "rd n d a = (if a + n \<le> DISK_SIZE then Ret (load_le n d a) else Fault)"

definition wr :: "nat \<Rightarrow> bytes \<Rightarrow> nat \<Rightarrow> nat \<Rightarrow> bytes fsres" where
  "wr n d a v = (if a + n \<le> DISK_SIZE then Ret (store_le n v d a) else Fault)"

definition rd_byte :: "bytes \<Rightarrow> nat \<Rightarrow> u8 fsres" where
  "rd_byte d a = (if a < DISK_SIZE then Ret (d a) else Fault)"

definition wr_byte :: "bytes \<Rightarrow> nat \<Rightarrow> u8 \<Rightarrow> bytes fsres" where
  "wr_byte d a b = (if a < DISK_SIZE then Ret (d(a := b)) else Fault)"

lemma rd_ok [simp]: "a + n \<le> DISK_SIZE \<Longrightarrow> rd n d a = Ret (load_le n d a)"
  by (simp add: rd_def)

lemma wr_ok [simp]: "a + n \<le> DISK_SIZE \<Longrightarrow> wr n d a v = Ret (store_le n v d a)"
  by (simp add: wr_def)

lemma byte_ok [simp]:
  "a < DISK_SIZE \<Longrightarrow> rd_byte d a = Ret (d a)" "a < DISK_SIZE \<Longrightarrow> wr_byte d a b = Ret (d(a := b))"
  by (simp_all add: rd_byte_def wr_byte_def)

section \<open>The structures of \<open>ext2.h\<close>\<close>

definition EXT2_BLOCK_SIZE :: nat where "EXT2_BLOCK_SIZE = 1024"

text \<open>\<open>struct ext2_super_block\<close>\<close>

definition s_inodes_count :: nat where "s_inodes_count = 0"
definition s_free_blocks_count :: nat where "s_free_blocks_count = 12"
definition s_free_inodes_count :: nat where "s_free_inodes_count = 16"

text \<open>\<open>struct ext2_group_desc\<close>\<close>

definition bg_block_bitmap :: nat where "bg_block_bitmap = 0"
definition bg_inode_bitmap :: nat where "bg_inode_bitmap = 4"
definition bg_inode_table :: nat where "bg_inode_table = 8"
definition bg_free_blocks_count :: nat where "bg_free_blocks_count = 12"
definition bg_free_inodes_count :: nat where "bg_free_inodes_count = 14"
definition bg_used_dirs_count :: nat where "bg_used_dirs_count = 16"

text \<open>\<open>struct ext2_inode\<close> (128 bytes)\<close>

definition inode_size :: nat where "inode_size = 128"
definition i_mode :: nat where "i_mode = 0"
definition i_size :: nat where "i_size = 4"
definition i_ctime :: nat where "i_ctime = 12"
definition i_dtime :: nat where "i_dtime = 20"
definition i_links_count :: nat where "i_links_count = 26"
definition i_blocks :: nat where "i_blocks = 28"
definition i_block :: nat where "i_block = 40"

text \<open>\<open>struct ext2_dir_entry_2\<close>\<close>

definition e_inode :: nat where "e_inode = 0"
definition rec_len :: nat where "rec_len = 4"
definition name_len :: nat where "name_len = 6"
definition file_type :: nat where "file_type = 7"
definition e_name :: nat where "e_name = 8"

named_theorems ext2_layout
  \<comment> \<open>the offsets of the fields\<close>

lemmas [ext2_layout] = DISK_SIZE_def EXT2_BLOCK_SIZE_def s_inodes_count_def s_free_blocks_count_def
  s_free_inodes_count_def bg_block_bitmap_def bg_inode_bitmap_def bg_inode_table_def
  bg_free_blocks_count_def bg_free_inodes_count_def bg_used_dirs_count_def inode_size_def
  i_mode_def i_size_def i_ctime_def i_dtime_def i_links_count_def i_blocks_def i_block_def
  e_inode_def rec_len_def name_len_def file_type_def e_name_def

text \<open>
  The declarations: name, size of an element in bytes, number of elements (the name of a
  directory entry is a flexible array). No field needs padding before it, which
  \<open>layout_matches\<close> checks together with the offsets above.
\<close>

definition super_block_fields :: "(string \<times> nat \<times> nat) list" where
  "super_block_fields =
    [(''s_inodes_count'', 4, 1), (''s_blocks_count'', 4, 1), (''s_r_blocks_count'', 4, 1),
      (''s_free_blocks_count'', 4, 1), (''s_free_inodes_count'', 4, 1),
      (''s_first_data_block'', 4, 1), (''s_log_block_size'', 4, 1), (''s_log_frag_size'', 4, 1),
      (''s_blocks_per_group'', 4, 1), (''s_frags_per_group'', 4, 1),
      (''s_inodes_per_group'', 4, 1), (''s_mtime'', 4, 1), (''s_wtime'', 4, 1),
      (''s_mnt_count'', 2, 1), (''s_max_mnt_count'', 2, 1), (''s_magic'', 2, 1),
      (''s_state'', 2, 1), (''s_errors'', 2, 1), (''s_minor_rev_level'', 2, 1),
      (''s_lastcheck'', 4, 1), (''s_checkinterval'', 4, 1), (''s_creator_os'', 4, 1),
      (''s_rev_level'', 4, 1), (''s_def_resuid'', 2, 1), (''s_def_resgid'', 2, 1),
      (''s_first_ino'', 4, 1), (''s_inode_size'', 2, 1), (''s_block_group_nr'', 2, 1),
      (''s_feature_compat'', 4, 1), (''s_feature_incompat'', 4, 1),
      (''s_feature_ro_compat'', 4, 1), (''s_uuid'', 1, 16), (''s_volume_name'', 1, 16),
      (''s_last_mounted'', 1, 64), (''s_algorithm_usage_bitmap'', 4, 1),
      (''s_prealloc_blocks'', 1, 1), (''s_prealloc_dir_blocks'', 1, 1), (''s_padding1'', 2, 1),
      (''s_journal_uuid'', 1, 16), (''s_journal_inum'', 4, 1), (''s_journal_dev'', 4, 1),
      (''s_last_orphan'', 4, 1), (''s_hash_seed'', 4, 4), (''s_def_hash_version'', 1, 1),
      (''s_reserved_char_pad'', 1, 1), (''s_reserved_word_pad'', 2, 1),
      (''s_default_mount_opts'', 4, 1), (''s_first_meta_bg'', 4, 1), (''s_reserved'', 4, 190)]"

definition group_desc_fields :: "(string \<times> nat \<times> nat) list" where
  "group_desc_fields =
    [(''bg_block_bitmap'', 4, 1), (''bg_inode_bitmap'', 4, 1), (''bg_inode_table'', 4, 1),
      (''bg_free_blocks_count'', 2, 1), (''bg_free_inodes_count'', 2, 1),
      (''bg_used_dirs_count'', 2, 1), (''bg_pad'', 2, 1), (''bg_reserved'', 4, 3)]"

definition inode_fields :: "(string \<times> nat \<times> nat) list" where
  "inode_fields =
    [(''i_mode'', 2, 1), (''i_uid'', 2, 1), (''i_size'', 4, 1), (''i_atime'', 4, 1),
      (''i_ctime'', 4, 1), (''i_mtime'', 4, 1), (''i_dtime'', 4, 1), (''i_gid'', 2, 1),
      (''i_links_count'', 2, 1), (''i_blocks'', 4, 1), (''i_flags'', 4, 1), (''osd1'', 4, 1),
      (''i_block'', 4, 15), (''i_generation'', 4, 1), (''i_file_acl'', 4, 1),
      (''i_dir_acl'', 4, 1), (''i_faddr'', 4, 1), (''extra'', 4, 3)]"

definition dir_entry_fields :: "(string \<times> nat \<times> nat) list" where
  "dir_entry_fields =
    [(''inode'', 4, 1), (''rec_len'', 2, 1), (''name_len'', 1, 1), (''file_type'', 1, 1),
      (''name'', 1, 0)]"

primrec offset_of :: "string \<Rightarrow> (string \<times> nat \<times> nat) list \<Rightarrow> nat" where
  "offset_of f [] = 0"
| "offset_of f (x # xs) = (case x of (g, sz, n) \<Rightarrow> if g = f then 0 else sz * n + offset_of f xs)"

primrec aligned_from :: "nat \<Rightarrow> (string \<times> nat \<times> nat) list \<Rightarrow> bool" where
  "aligned_from a [] = True"
| "aligned_from a (x # xs) = (case x of (g, sz, n) \<Rightarrow> a mod sz = 0 \<and> aligned_from (a + sz * n) xs)"

definition struct_size :: "(string \<times> nat \<times> nat) list \<Rightarrow> nat" where
  "struct_size xs = sum_list (map (\<lambda>(g, sz, n). sz * n) xs)"

lemma layout_matches:
  "aligned_from 0 super_block_fields" "aligned_from 0 group_desc_fields"
  "aligned_from 0 inode_fields" "aligned_from 0 dir_entry_fields"
  "struct_size super_block_fields = EXT2_BLOCK_SIZE" "struct_size group_desc_fields = 32"
  "struct_size inode_fields = inode_size" "struct_size dir_entry_fields = e_name"
  "offset_of ''s_inodes_count'' super_block_fields = s_inodes_count"
  "offset_of ''s_free_blocks_count'' super_block_fields = s_free_blocks_count"
  "offset_of ''s_free_inodes_count'' super_block_fields = s_free_inodes_count"
  "offset_of ''bg_block_bitmap'' group_desc_fields = bg_block_bitmap"
  "offset_of ''bg_inode_bitmap'' group_desc_fields = bg_inode_bitmap"
  "offset_of ''bg_inode_table'' group_desc_fields = bg_inode_table"
  "offset_of ''bg_free_blocks_count'' group_desc_fields = bg_free_blocks_count"
  "offset_of ''bg_free_inodes_count'' group_desc_fields = bg_free_inodes_count"
  "offset_of ''bg_used_dirs_count'' group_desc_fields = bg_used_dirs_count"
  "offset_of ''i_mode'' inode_fields = i_mode" "offset_of ''i_size'' inode_fields = i_size"
  "offset_of ''i_ctime'' inode_fields = i_ctime" "offset_of ''i_dtime'' inode_fields = i_dtime"
  "offset_of ''i_links_count'' inode_fields = i_links_count"
  "offset_of ''i_blocks'' inode_fields = i_blocks" "offset_of ''i_block'' inode_fields = i_block"
  "offset_of ''inode'' dir_entry_fields = e_inode" "offset_of ''rec_len'' dir_entry_fields = rec_len"
  "offset_of ''name_len'' dir_entry_fields = name_len"
  "offset_of ''file_type'' dir_entry_fields = file_type"
  "offset_of ''name'' dir_entry_fields = e_name"
  by (simp_all add: super_block_fields_def group_desc_fields_def inode_fields_def dir_entry_fields_def
      struct_size_def ext2_layout)

section \<open>Finding blocks and inodes\<close>

definition INDIRECT1_INDEX :: nat where "INDIRECT1_INDEX = 12"
definition BLOCK_NUMS_PER_BLOCK :: nat where "BLOCK_NUMS_PER_BLOCK = EXT2_BLOCK_SIZE div 4"
definition INODE_BLOCK_LIMIT :: nat where "INODE_BLOCK_LIMIT = INDIRECT1_INDEX + BLOCK_NUMS_PER_BLOCK"
definition LAST_RESERVED_BLOCK :: nat where "LAST_RESERVED_BLOCK = 22"
definition LAST_RESERVED_INODE :: nat where "LAST_RESERVED_INODE = 11"

lemma INODE_BLOCK_LIMIT_eq: "INODE_BLOCK_LIMIT = 268"
  by (simp add: INODE_BLOCK_LIMIT_def INDIRECT1_INDEX_def BLOCK_NUMS_PER_BLOCK_def EXT2_BLOCK_SIZE_def)

text \<open>The product is one of unsigned ints.\<close>

definition get_block :: "nat \<Rightarrow> nat" where
  "get_block block_ind = (EXT2_BLOCK_SIZE * block_ind) mod 2 ^ 32"

definition get_super_block :: nat where "get_super_block = get_block 1"

definition get_group_descriptor :: nat where "get_group_descriptor = get_block 2"

definition get_block_bitmap :: "bytes \<Rightarrow> nat fsres" where
  "get_block_bitmap d =
     bind_f (rd 4 d (get_group_descriptor + bg_block_bitmap)) (\<lambda>b. Ret (get_block b))"

definition get_inode_bitmap :: "bytes \<Rightarrow> nat fsres" where
  "get_inode_bitmap d =
     bind_f (rd 4 d (get_group_descriptor + bg_inode_bitmap)) (\<lambda>b. Ret (get_block b))"

definition get_inode_table :: "bytes \<Rightarrow> nat fsres" where
  "get_inode_table d =
     bind_f (rd 4 d (get_group_descriptor + bg_inode_table)) (\<lambda>b. Ret (get_block b))"

text \<open>Subtraction of one from an \<open>unsigned int\<close>.\<close>

definition minus_one :: "nat \<Rightarrow> nat" where
  "minus_one n = (n + (2 ^ 32 - 1)) mod 2 ^ 32"

definition get_inode :: "bytes \<Rightarrow> nat \<Rightarrow> nat fsres" where
  "get_inode d inode_num =
     bind_f (get_inode_table d) (\<lambda>t. Ret (t + inode_size * minus_one inode_num))"

definition get_root_inode :: "bytes \<Rightarrow> nat fsres" where
  "get_root_inode d = get_inode d 2"

text \<open>A pointer to an entry may be null, and so is the result then.\<close>

definition get_inode_from_entry :: "bytes \<Rightarrow> nat option \<Rightarrow> nat option fsres" where
  "get_inode_from_entry d entry =
     (case entry of None \<Rightarrow> Ret None
      | Some e \<Rightarrow>
          bind_f (rd 4 d (e + e_inode)) (\<lambda>n. bind_f (get_inode d n) (\<lambda>i. Ret (Some i))))"

definition get_inode_block_number :: "bytes \<Rightarrow> nat \<Rightarrow> nat \<Rightarrow> nat fsres" where
  "get_inode_block_number d inode index =
     (if index < INDIRECT1_INDEX then rd 4 d (inode + i_block + 4 * index)
      else if INDIRECT1_INDEX \<le> index \<and> index < INODE_BLOCK_LIMIT then
        bind_f (rd 4 d (inode + i_block + 4 * INDIRECT1_INDEX)) (\<lambda>indir_block_num.
        if indir_block_num = 0 then Ret 0
        else rd 4 d (get_block indir_block_num + 4 * (index - INDIRECT1_INDEX)))
      else Ret 0)"

definition set_inode_block_number :: "bytes \<Rightarrow> nat \<Rightarrow> nat \<Rightarrow> nat \<Rightarrow> bytes fsres" where
  "set_inode_block_number d inode index block_num =
     (if index < INDIRECT1_INDEX then wr 4 d (inode + i_block + 4 * index) block_num
      else if INDIRECT1_INDEX \<le> index \<and> index < INODE_BLOCK_LIMIT then
        bind_f (rd 4 d (inode + i_block + 4 * INDIRECT1_INDEX)) (\<lambda>indir_block_num.
        if indir_block_num = 0 then Ret d
        else wr 4 d (get_block indir_block_num + 4 * (index - INDIRECT1_INDEX)) block_num)
      else Ret d)"

section \<open>Bitmaps and counters\<close>

definition get_bitmap_val :: "bytes \<Rightarrow> nat \<Rightarrow> nat \<Rightarrow> bool fsres" where
  "get_bitmap_val d bitmap bt =
     (let index = bt div 8; shift = bt mod 8 in
      bind_f (rd_byte d (bitmap + index)) (\<lambda>b.
      let result = drop_bit shift b AND 1 in Ret (result \<noteq> 0)))"

definition set_bitmap_val :: "bytes \<Rightarrow> nat \<Rightarrow> nat \<Rightarrow> bool \<Rightarrow> bytes fsres" where
  "set_bitmap_val d bitmap bt val =
     (let index = bt div 8; shift = bt mod 8; one_hot = push_bit shift 1 :: u8 in
      bind_f (rd_byte d (bitmap + index)) (\<lambda>b.
      wr_byte d (bitmap + index) (if val then b OR one_hot else b AND NOT one_hot)))"

definition get_block_usage :: "bytes \<Rightarrow> nat \<Rightarrow> bool fsres" where
  "get_block_usage d block_num =
     bind_f (get_block_bitmap d) (\<lambda>m. get_bitmap_val d m (minus_one block_num))"

definition get_inode_usage :: "bytes \<Rightarrow> nat \<Rightarrow> bool fsres" where
  "get_inode_usage d inode_num =
     bind_f (get_inode_bitmap d) (\<lambda>m. get_bitmap_val d m (minus_one inode_num))"

definition set_block_usage :: "bytes \<Rightarrow> nat \<Rightarrow> bool \<Rightarrow> bytes fsres" where
  "set_block_usage d block_num is_used =
     bind_f (get_block_bitmap d) (\<lambda>m. set_bitmap_val d m (minus_one block_num) is_used)"

definition set_inode_usage :: "bytes \<Rightarrow> nat \<Rightarrow> bool \<Rightarrow> bytes fsres" where
  "set_inode_usage d inode_num is_used =
     bind_f (get_inode_bitmap d) (\<lambda>m. set_bitmap_val d m (minus_one inode_num) is_used)"

text \<open>\<open>field += count\<close> on a field of \<open>n\<close> bytes.\<close>

definition add_field :: "nat \<Rightarrow> bytes \<Rightarrow> nat \<Rightarrow> int \<Rightarrow> bytes fsres" where
  "add_field n d a c =
     bind_f (rd n d a) (\<lambda>v. wr n d a (nat ((int v + c) mod 2 ^ (8 * n))))"

definition increase_free_blocks_count :: "bytes \<Rightarrow> int \<Rightarrow> bytes fsres" where
  "increase_free_blocks_count d c =
     bind_f (add_field 4 d (get_super_block + s_free_blocks_count) c) (\<lambda>d.
     add_field 2 d (get_group_descriptor + bg_free_blocks_count) c)"

definition increase_free_inodes_count :: "bytes \<Rightarrow> int \<Rightarrow> bytes fsres" where
  "increase_free_inodes_count d c =
     bind_f (add_field 4 d (get_super_block + s_free_inodes_count) c) (\<lambda>d.
     add_field 2 d (get_group_descriptor + bg_free_inodes_count) c)"

end
