(* ===== verification/Ext2_Alloc.thy ===== *)
theory Ext2_Alloc
  imports Ext2_Disk
begin

text \<open>
  Allocation and freeing of blocks and inodes (\<^verbatim>\<open>a3/ext2_helper.h\<close>, lines 408 to 512,
  627 to 644 and 702 to 770). The search for free blocks has no bound in the code; it ends
  because the bitmap it reads is inside the mapping.
\<close>

section \<open>Blocks\<close>

definition memset_block :: "bytes \<Rightarrow> nat \<Rightarrow> bytes fsres" where
  "memset_block d a =
     (if a + EXT2_BLOCK_SIZE \<le> DISK_SIZE then Ret (memset d a 0 EXT2_BLOCK_SIZE) else Fault)"

lemma block_usage_bound:
  "get_block_usage d bn = Ret u \<Longrightarrow> minus_one bn div 8 < DISK_SIZE"
  by (auto simp: get_block_usage_def get_bitmap_val_def rd_byte_def bind_f_eq_Ret Let_def split: if_splits)

text \<open>The loop of \<open>allocate_blocks\<close>: the blocks found so far, and how many are wanted.\<close>

function alloc_blocks_loop :: "nat \<Rightarrow> nat \<Rightarrow> nat list \<Rightarrow> bytes \<Rightarrow> (nat list \<times> bytes) fsres" where
  "alloc_blocks_loop num_blocks block_num ret d =
     (if length ret < num_blocks then
        bind_f (get_block_usage d block_num) (\<lambda>used.
        if \<not> used then
          bind_f (set_block_usage d block_num True) (\<lambda>d1.
          bind_f (memset_block d1 (get_block block_num)) (\<lambda>d2.
          alloc_blocks_loop num_blocks ((block_num + 1) mod 2 ^ 32) (ret @ [block_num]) d2))
        else alloc_blocks_loop num_blocks ((block_num + 1) mod 2 ^ 32) ret d)
      else Ret (ret, d))"
  by pat_completeness auto

termination
proof (relation "measure (\<lambda>(n, b, r, d). if b < 2 ^ 32 then 8 * DISK_SIZE + 1 - b else 8 * DISK_SIZE + 2)")
  have dec: "(if (b + 1) mod 2 ^ 32 < 2 ^ 32 then 8 * DISK_SIZE + 1 - (b + 1) mod 2 ^ 32 else 8 * DISK_SIZE + 2)
      < (if b < 2 ^ 32 then 8 * DISK_SIZE + 1 - b else 8 * DISK_SIZE + 2)"
    if "get_block_usage d b = Ret u" for b u d
  proof (cases "b < 2 ^ 32")
    case True
    from block_usage_bound[OF that] have m: "minus_one b < 8 * DISK_SIZE" by simp
    have "b \<noteq> 0"
    proof
      assume "b = 0"
      with m show False by (simp add: minus_one_def DISK_SIZE_def)
    qed
    with True have "minus_one b = b - 1"
      by (simp add: minus_one_def mod_if)
    with m \<open>b \<noteq> 0\<close> have "b \<le> 8 * DISK_SIZE" by simp
    then show ?thesis using True by (simp add: DISK_SIZE_def)
  next
    case False
    then show ?thesis by simp
  qed
  fix n b d used d1 d2 and r :: "nat list"
  show "get_block_usage d b = Ret used \<Longrightarrow>
      ((n, (b + 1) mod 2 ^ 32, r @ [b], d2), n, b, r, d)
      \<in> measure (\<lambda>(n, b, r, d). if b < 2 ^ 32 then 8 * DISK_SIZE + 1 - b else 8 * DISK_SIZE + 2)"
    and "get_block_usage d b = Ret used \<Longrightarrow>
      ((n, (b + 1) mod 2 ^ 32, r, d), n, b, r, d)
      \<in> measure (\<lambda>(n, b, r, d). if b < 2 ^ 32 then 8 * DISK_SIZE + 1 - b else 8 * DISK_SIZE + 2)"
    using dec by simp_all
qed simp

declare alloc_blocks_loop.simps [simp del]

definition allocate_blocks :: "bytes \<Rightarrow> nat \<Rightarrow> (nat list \<times> bytes) fsres" where
  "allocate_blocks d num_blocks =
     bind_f (rd 4 d (get_super_block + s_free_blocks_count)) (\<lambda>free.
     if free < num_blocks then Quit 1 d
     else
       bind_f (increase_free_blocks_count d (- int num_blocks)) (\<lambda>d.
       alloc_blocks_loop num_blocks (LAST_RESERVED_BLOCK + 1) [] d))"

definition allocate_one_block :: "bytes \<Rightarrow> (nat \<times> bytes) fsres" where
  "allocate_one_block d = bind_f (allocate_blocks d 1) (\<lambda>(arr, d). Ret (hd arr, d))"

definition free_block :: "bytes \<Rightarrow> nat \<Rightarrow> bytes fsres" where
  "free_block d block_num =
     bind_f (increase_free_blocks_count d 1) (\<lambda>d. set_block_usage d block_num False)"

text \<open>The number of the new block, or 0 if the index was occupied.\<close>

definition allocate_block_on_inode :: "bytes \<Rightarrow> nat \<Rightarrow> nat \<Rightarrow> (nat \<times> bytes) fsres" where
  "allocate_block_on_inode d inode block_ind =
     bind_f (get_inode_block_number d inode block_ind) (\<lambda>b.
     if b \<noteq> 0 then Ret (0, d)
     else
       bind_f (allocate_one_block d) (\<lambda>(block_num, d).
       bind_f (set_inode_block_number d inode block_ind block_num) (\<lambda>d.
       bind_f (add_field 4 d (inode + i_blocks) 2) (\<lambda>d.
       Ret (block_num, d)))))"

section \<open>Inodes\<close>

fun clear_blocks :: "nat list \<Rightarrow> nat \<Rightarrow> bytes \<Rightarrow> bytes fsres" where
  "clear_blocks [] inode d = Ret d"
| "clear_blocks (i # is) inode d =
     bind_f (set_inode_block_number d inode i 0) (clear_blocks is inode)"

function inode_loop :: "nat \<Rightarrow> bytes \<Rightarrow> (nat \<times> bytes) fsres" where
  "inode_loop inode_num d =
     bind_f (rd 4 d (get_super_block + s_inodes_count)) (\<lambda>n.
     if inode_num \<le> n then
       bind_f (get_inode_usage d inode_num) (\<lambda>used.
       if \<not> used then
         bind_f (set_inode_usage d inode_num True) (\<lambda>d.
         bind_f (get_inode d inode_num) (\<lambda>inode.
         bind_f (clear_blocks [0..<INODE_BLOCK_LIMIT] inode d) (\<lambda>d.
         Ret (inode_num, d))))
       else inode_loop (inode_num + 1) d)
     else Ret (0, d))"
  by pat_completeness auto

termination
proof (relation "measure (\<lambda>(i, d). load_le 4 d (get_super_block + s_inodes_count) + 1 - i)")
  fix i n u d
  assume "rd 4 d (get_super_block + s_inodes_count) = Ret n" and "i \<le> n"
  then have "i < load_le 4 d (get_super_block + s_inodes_count) + 1"
    by (simp add: rd_def split: if_splits)
  then show "((i + 1, d), i, d)
      \<in> measure (\<lambda>(i, d). load_le 4 d (get_super_block + s_inodes_count) + 1 - i)"
    by simp
qed simp

declare inode_loop.simps [simp del]

text \<open>0 if the bitmap has no free inode although the counter says so.\<close>

definition allocate_inode :: "bytes \<Rightarrow> (nat \<times> bytes) fsres" where
  "allocate_inode d =
     bind_f (rd 4 d (get_super_block + s_free_inodes_count)) (\<lambda>free.
     if free = 0 then Quit 1 d
     else
       bind_f (increase_free_inodes_count d (- 1)) (\<lambda>d.
       inode_loop (LAST_RESERVED_INODE + 1) d))"

fun free_blocks_loop :: "nat list \<Rightarrow> nat \<Rightarrow> bytes \<Rightarrow> bytes fsres" where
  "free_blocks_loop [] inode d = Ret d"
| "free_blocks_loop (i # is) inode d =
     bind_f (get_inode_block_number d inode i) (\<lambda>block_num.
     if block_num = 0 then free_blocks_loop is inode d
     else
       bind_f (free_block d block_num) (\<lambda>d.
       bind_f (set_inode_block_number d inode i 0) (\<lambda>d.
       free_blocks_loop is inode d)))"

text \<open>\<open>now\<close> is what \<open>time(0)\<close> gives.\<close>

definition free_inode :: "nat \<Rightarrow> bytes \<Rightarrow> nat \<Rightarrow> bytes fsres" where
  "free_inode now d inode_num =
     bind_f (get_inode d inode_num) (\<lambda>inode.
     bind_f (wr 4 d (inode + i_dtime) now) (\<lambda>d.
     bind_f (wr 4 d (inode + i_size) 0) (\<lambda>d.
     bind_f (wr 4 d (inode + i_blocks) 0) (\<lambda>d.
     bind_f (increase_free_inodes_count d 1) (\<lambda>d.
     bind_f (set_inode_usage d inode_num False) (\<lambda>d.
     free_blocks_loop (rev [0..<INODE_BLOCK_LIMIT]) inode d))))))"

section \<open>New inodes\<close>

definition EXT2_S_IFLNK :: nat where "EXT2_S_IFLNK = 0xA000"
definition EXT2_S_IFDIR :: nat where "EXT2_S_IFDIR = 0x4000"
definition EXT2_FT_REG_FILE :: nat where "EXT2_FT_REG_FILE = 1"
definition EXT2_FT_DIR :: nat where "EXT2_FT_DIR = 2"
definition EXT2_FT_SYMLINK :: nat where "EXT2_FT_SYMLINK = 7"

definition allocate_dir_inode :: "nat \<Rightarrow> bytes \<Rightarrow> (nat \<times> bytes) fsres" where
  "allocate_dir_inode now d =
     bind_f (allocate_inode d) (\<lambda>(dir_inode_num, d).
     bind_f (get_inode d dir_inode_num) (\<lambda>dir_inode.
     bind_f (wr 2 d (dir_inode + i_mode) EXT2_S_IFDIR) (\<lambda>d.
     bind_f (wr 4 d (dir_inode + i_size) EXT2_BLOCK_SIZE) (\<lambda>d.
     bind_f (wr 4 d (dir_inode + i_ctime) now) (\<lambda>d.
     bind_f (wr 4 d (dir_inode + i_dtime) 0) (\<lambda>d.
     bind_f (wr 4 d (dir_inode + i_blocks) 0) (\<lambda>d.
     bind_f (wr 2 d (dir_inode + i_links_count) 1) (\<lambda>d.
     bind_f (add_field 2 d (get_group_descriptor + bg_used_dirs_count) 1) (\<lambda>d.
     Ret (dir_inode_num, d))))))))))"

text \<open>The common part of \<open>allocate_link_inode\<close> and \<open>allocate_file_inode\<close>.\<close>

definition allocate_plain_inode :: "nat \<Rightarrow> nat \<Rightarrow> nat \<Rightarrow> bytes \<Rightarrow> (nat \<times> bytes) fsres" where
  "allocate_plain_inode mode sz now d =
     bind_f (allocate_inode d) (\<lambda>(inode_num, d).
     bind_f (get_inode d inode_num) (\<lambda>inode.
     bind_f (wr 2 d (inode + i_mode) mode) (\<lambda>d.
     bind_f (wr 4 d (inode + i_size) sz) (\<lambda>d.
     bind_f (wr 4 d (inode + i_ctime) now) (\<lambda>d.
     bind_f (wr 4 d (inode + i_dtime) 0) (\<lambda>d.
     bind_f (wr 4 d (inode + i_blocks) 0) (\<lambda>d.
     bind_f (wr 2 d (inode + i_links_count) 1) (\<lambda>d.
     Ret (inode_num, d)))))))))"

definition allocate_link_inode :: "nat \<Rightarrow> bytes \<Rightarrow> string \<Rightarrow> (nat \<times> bytes) fsres" where
  "allocate_link_inode now d source = allocate_plain_inode EXT2_S_IFLNK (length source) now d"

definition allocate_file_inode :: "nat \<Rightarrow> bytes \<Rightarrow> nat \<Rightarrow> (nat \<times> bytes) fsres" where
  "allocate_file_inode now d sz = allocate_plain_inode EXT2_FT_REG_FILE sz now d"

section \<open>Text on the disk\<close>

definition char_byte :: "char \<Rightarrow> u8" where
  "char_byte c = word_of_nat (of_char c)"

definition byte_char :: "u8 \<Rightarrow> char" where
  "byte_char b = char_of (unat b)"

lemma byte_char_byte [simp]: "byte_char (char_byte c) = c"
proof -
  have "(of_char c :: nat) < 2 ^ LENGTH(8)" using nat_of_char_less_256[of c] by simp
  then show ?thesis unfolding byte_char_def char_byte_def by (simp add: unat_word_of_nat)
qed

text \<open>Copying bytes and characters into the image.\<close>

fun write_bytes :: "bytes \<Rightarrow> nat \<Rightarrow> u8 list \<Rightarrow> bytes fsres" where
  "write_bytes d a [] = Ret d"
| "write_bytes d a (b # bs) = bind_f (wr_byte d a b) (\<lambda>d. write_bytes d (a + 1) bs)"

definition write_string :: "bytes \<Rightarrow> nat \<Rightarrow> string \<Rightarrow> bytes fsres" where
  "write_string d a s = write_bytes d a (map char_byte s)"

text \<open>\<open>strcpy\<close> copies the terminator, too. \<open>ENAMETOOLONG\<close> is 36.\<close>

definition write_path_to_symlink_inode :: "bytes \<Rightarrow> nat \<Rightarrow> string \<Rightarrow> bytes fsres" where
  "write_path_to_symlink_inode d inode content =
     (if length content < EXT2_BLOCK_SIZE then
        bind_f (allocate_block_on_inode d inode 0) (\<lambda>(block_num, d).
        write_string d (get_block block_num) (content @ [char_of (0 :: nat)]))
      else Quit 36 d)"

end
