(* ===== verification/Ext2_Dir.thy ===== *)
theory Ext2_Dir
  imports Ext2_Alloc
begin

text \<open>
  Directory entries (\<^verbatim>\<open>a3/ext2_helper.h\<close>, lines 112 to 123, 180 to 316, 514 to 700 and
  774 to 821). The entries of a block are chained by \<open>rec_len\<close>; a walk over them ends when it
  leaves the block or meets an entry of length 0. A pointer to an entry is its offset in the
  image, \<open>None\<close> is NULL.
\<close>

section \<open>Predicates\<close>

definition get_shifted_dir_entry :: "nat \<Rightarrow> nat \<Rightarrow> nat" where
  "get_shifted_dir_entry entry shift = entry + shift"

definition get_next_dir_entry :: "bytes \<Rightarrow> nat \<Rightarrow> nat fsres" where
  "get_next_dir_entry d entry =
     bind_f (rd 2 d (entry + rec_len)) (\<lambda>r. Ret (get_shifted_dir_entry entry r))"

definition has_type :: "nat \<Rightarrow> bytes \<Rightarrow> nat option \<Rightarrow> bool fsres" where
  "has_type ft d entry =
     (case entry of None \<Rightarrow> Ret False
      | Some e \<Rightarrow> bind_f (rd 1 d (e + file_type)) (\<lambda>t. Ret (t = ft)))"

definition is_file :: "bytes \<Rightarrow> nat option \<Rightarrow> bool fsres" where
  "is_file = has_type EXT2_FT_REG_FILE"

definition is_directory :: "bytes \<Rightarrow> nat option \<Rightarrow> bool fsres" where
  "is_directory = has_type EXT2_FT_DIR"

definition is_link :: "bytes \<Rightarrow> nat option \<Rightarrow> bool fsres" where
  "is_link = has_type EXT2_FT_SYMLINK"

text \<open>The distance is unsigned: an entry before the start is not in the block.\<close>

definition is_entry_in_block :: "nat \<Rightarrow> nat \<Rightarrow> bool" where
  "is_entry_in_block start entry \<longleftrightarrow> start \<le> entry \<and> entry - start < EXT2_BLOCK_SIZE"

definition is_valid_dir_entry :: "bytes \<Rightarrow> nat \<Rightarrow> nat \<Rightarrow> bool fsres" where
  "is_valid_dir_entry d start entry =
     (if is_entry_in_block start entry
      then bind_f (rd 2 d (entry + rec_len)) (\<lambda>r. Ret (0 < r))
      else Ret False)"

fun name_loop :: "bytes \<Rightarrow> nat \<Rightarrow> string \<Rightarrow> bool fsres" where
  "name_loop d a [] = Ret True"
| "name_loop d a (c # cs) =
     bind_f (rd_byte d a) (\<lambda>b. if byte_char b \<noteq> c then Ret False else name_loop d (a + 1) cs)"

definition entry_name_comparison :: "bytes \<Rightarrow> nat \<Rightarrow> string \<Rightarrow> bool fsres" where
  "entry_name_comparison d entry name =
     bind_f (rd 1 d (entry + name_len)) (\<lambda>n.
     if n \<noteq> length name then Ret False else name_loop d (entry + e_name) name)"

text \<open>All walks over a block get on: the fact their termination rests on.\<close>

lemma walk_decreases:
  assumes "is_valid_dir_entry d start cur = Ret True" and "get_next_dir_entry d cur = Ret next"
  shows "start + EXT2_BLOCK_SIZE - next < start + EXT2_BLOCK_SIZE - cur"
  using assms
  by (auto simp: is_valid_dir_entry_def is_entry_in_block_def get_next_dir_entry_def
      get_shifted_dir_entry_def bind_f_eq_Ret EXT2_BLOCK_SIZE_def split: if_splits)

function empty_loop :: "bytes \<Rightarrow> nat \<Rightarrow> nat \<Rightarrow> bool fsres" where
  "empty_loop d start cur =
     bind_f (is_valid_dir_entry d start cur) (\<lambda>v.
     if \<not> v then Ret True
     else
       bind_f (rd 1 d (cur + name_len)) (\<lambda>n.
       if 0 < n then Ret False
       else bind_f (get_next_dir_entry d cur) (\<lambda>next. empty_loop d start next)))"
  by pat_completeness auto

termination
  by (relation "measure (\<lambda>(d, start, cur). start + EXT2_BLOCK_SIZE - cur)") (auto simp: walk_decreases)

declare empty_loop.simps [simp del]

definition is_entry_block_empty :: "bytes \<Rightarrow> nat \<Rightarrow> bool fsres" where
  "is_entry_block_empty d start = empty_loop d start start"

section \<open>Finding an entry\<close>

text \<open>The pair of the entry found and the one before it (NULL for the first of a block).\<close>

function pair_loop :: "bytes \<Rightarrow> nat \<Rightarrow> nat \<Rightarrow> nat option \<Rightarrow> string \<Rightarrow> (nat option \<times> nat) option fsres" where
  "pair_loop d start cur prev name =
     bind_f (is_valid_dir_entry d start cur) (\<lambda>v.
     if \<not> v then Ret None
     else
       bind_f (entry_name_comparison d cur name) (\<lambda>m.
       if m then Ret (Some (prev, cur))
       else bind_f (get_next_dir_entry d cur) (\<lambda>next. pair_loop d start next (Some cur) name)))"
  by pat_completeness auto

termination
  by (relation "measure (\<lambda>(d, start, cur, prev, name). start + EXT2_BLOCK_SIZE - cur)")
    (auto simp: walk_decreases)

declare pair_loop.simps [simp del]

definition block_matching_pair :: "bytes \<Rightarrow> nat \<Rightarrow> string \<Rightarrow> (nat option \<times> nat) option fsres" where
  "block_matching_pair d start name = pair_loop d start start None name"

fun find_entry_loop :: "nat list \<Rightarrow> bytes \<Rightarrow> nat \<Rightarrow> string \<Rightarrow> (nat option \<times> nat) option fsres" where
  "find_entry_loop [] d inode name = Ret None"
| "find_entry_loop (i # is) d inode name =
     bind_f (get_inode_block_number d inode i) (\<lambda>block_num.
     if block_num = 0 then find_entry_loop is d inode name
     else
       bind_f (block_matching_pair d (get_block block_num) name) (\<lambda>match.
       if match \<noteq> None then Ret match else find_entry_loop is d inode name))"

definition find_matching_pair :: "bytes \<Rightarrow> nat \<Rightarrow> string option \<Rightarrow> (nat option \<times> nat) option fsres" where
  "find_matching_pair d inode name =
     (case name of None \<Rightarrow> Ret None | Some n \<Rightarrow> find_entry_loop [0..<INODE_BLOCK_LIMIT] d inode n)"

definition find_matching_entry :: "bytes \<Rightarrow> nat \<Rightarrow> string option \<Rightarrow> nat option fsres" where
  "find_matching_entry d inode name =
     bind_f (find_matching_pair d inode name) (\<lambda>pair. Ret (map_option snd pair))"

section \<open>Deleting an entry\<close>

text \<open>The first entry of a block loses its name, any other is skipped by the one before it.\<close>

definition unlink_pair :: "bytes \<Rightarrow> nat option \<times> nat \<Rightarrow> bytes fsres" where
  "unlink_pair d pair =
     (case pair of (prev, cur) \<Rightarrow>
        (case prev of
           None \<Rightarrow> wr 1 d (cur + name_len) 0
         | Some p \<Rightarrow> bind_f (rd 2 d (cur + rec_len)) (\<lambda>r. add_field 2 d (p + rec_len) (int r))))"

fun delete_loop :: "nat list \<Rightarrow> bytes \<Rightarrow> nat \<Rightarrow> string \<Rightarrow> bytes fsres" where
  "delete_loop [] d inode name = Ret d"
| "delete_loop (i # is) d inode name =
     bind_f (get_inode_block_number d inode i) (\<lambda>block_num.
     if block_num = 0 then delete_loop is d inode name
     else
       let start = get_block block_num in
       bind_f (block_matching_pair d start name) (\<lambda>pair.
       case pair of
         None \<Rightarrow> delete_loop is d inode name
       | Some p \<Rightarrow>
           bind_f (unlink_pair d p) (\<lambda>d.
           bind_f (is_entry_block_empty d start) (\<lambda>empty.
           if empty then
             bind_f (set_inode_block_number d inode i 0) (\<lambda>d. free_block d block_num)
           else Ret d))))"

definition delete_child_entry :: "bytes \<Rightarrow> nat option \<Rightarrow> string \<Rightarrow> bytes fsres" where
  "delete_child_entry d parent_entry name =
     (case parent_entry of None \<Rightarrow> Fault
      | Some p \<Rightarrow>
          bind_f (rd 4 d (p + e_inode)) (\<lambda>n.
          bind_f (get_inode d n) (\<lambda>parent_inode.
          delete_loop [0..<INODE_BLOCK_LIMIT] d parent_inode name)))"

section \<open>Adding an entry\<close>

text \<open>The padding is 4, not 0, when the length is already a multiple of 4.\<close>

definition total_entry_length :: "nat \<Rightarrow> nat" where
  "total_entry_length n =
     (let raw_length = 4 + 2 + 2 * 1 + n * 1; padding = 4 - raw_length mod 4
      in (raw_length + padding) mod 2 ^ 16)"

definition min_rec_len :: "bytes \<Rightarrow> nat \<Rightarrow> nat fsres" where
  "min_rec_len d entry = bind_f (rd 1 d (entry + name_len)) (\<lambda>n. Ret (total_entry_length n))"

text \<open>Subtraction of two \<open>unsigned short\<close>s into an \<open>unsigned short\<close>.\<close>

definition minus_short :: "nat \<Rightarrow> nat \<Rightarrow> nat" where
  "minus_short a b = nat ((int a - int b) mod 2 ^ 16)"

text \<open>The entry \<open>cur\<close> is cut off after its name, and the new entry put into the rest.\<close>

definition split_entry ::
  "bytes \<Rightarrow> nat \<Rightarrow> nat \<Rightarrow> nat \<Rightarrow> nat \<Rightarrow> string \<Rightarrow> nat \<Rightarrow> bytes fsres" where
  "split_entry d cur cur_min ret inode_number name ft =
     (let n = length name mod 256 in
     bind_f (rd 2 d (cur + rec_len)) (\<lambda>old_rec_len.
     bind_f (wr 2 d (cur + rec_len) cur_min) (\<lambda>d.
     bind_f (write_string d (ret + e_name) (take n name)) (\<lambda>d.
     bind_f (wr 1 d (ret + name_len) n) (\<lambda>d.
     bind_f (rd 2 d (cur + rec_len)) (\<lambda>r.
     bind_f (wr 2 d (ret + rec_len) (minus_short old_rec_len r)) (\<lambda>d.
     bind_f (wr 1 d (ret + file_type) ft) (\<lambda>d.
     wr 4 d (ret + e_inode) inode_number))))))))"

function insert_loop ::
  "bytes \<Rightarrow> nat \<Rightarrow> nat \<Rightarrow> nat \<Rightarrow> string \<Rightarrow> nat \<Rightarrow> (nat option \<times> bytes) fsres" where
  "insert_loop d start cur inode_number name ft =
     bind_f (is_valid_dir_entry d start cur) (\<lambda>v.
     if \<not> v then Ret (None, d)
     else
       bind_f (min_rec_len d cur) (\<lambda>cur_min.
       bind_f (rd 2 d (cur + rec_len)) (\<lambda>r.
       let space_left = minus_short r cur_min; space_needed = total_entry_length (length name mod 256) in
       if space_needed \<le> space_left then
         let ret = get_shifted_dir_entry cur cur_min in
         if \<not> is_entry_in_block start ret then Ret (None, d)
         else bind_f (split_entry d cur cur_min ret inode_number name ft) (\<lambda>d. Ret (Some ret, d))
       else bind_f (get_next_dir_entry d cur) (\<lambda>next. insert_loop d start next inode_number name ft))))"
  by pat_completeness auto

termination
  by (relation "measure (\<lambda>(d, start, cur, n, name, ft). start + EXT2_BLOCK_SIZE - cur)")
    (auto simp: walk_decreases)

declare insert_loop.simps [simp del]

definition make_entry_in_existing_block ::
  "bytes \<Rightarrow> nat \<Rightarrow> nat \<Rightarrow> string \<Rightarrow> nat \<Rightarrow> (nat option \<times> bytes) fsres" where
  "make_entry_in_existing_block d start inode_number name ft =
     insert_loop d start start inode_number name ft"

fun existing_loop ::
  "nat list \<Rightarrow> bytes \<Rightarrow> nat \<Rightarrow> nat \<Rightarrow> string \<Rightarrow> nat \<Rightarrow> (nat option \<times> bytes) fsres" where
  "existing_loop [] d inode child name ft = Ret (None, d)"
| "existing_loop (i # is) d inode child name ft =
     bind_f (get_inode_block_number d inode i) (\<lambda>block_num.
     if block_num = 0 then existing_loop is d inode child name ft
     else
       bind_f (make_entry_in_existing_block d (get_block block_num) child name ft) (\<lambda>(attempt, d).
       if attempt \<noteq> None then Ret (attempt, d) else existing_loop is d inode child name ft))"

text \<open>The first entry of a new block takes all of it.\<close>

definition first_entry :: "bytes \<Rightarrow> nat \<Rightarrow> nat \<Rightarrow> string \<Rightarrow> nat \<Rightarrow> bytes fsres" where
  "first_entry d start child name ft =
     bind_f (wr 4 d (start + e_inode) child) (\<lambda>d.
     bind_f (write_string d (start + e_name) name) (\<lambda>d.
     bind_f (wr 1 d (start + name_len) (length name)) (\<lambda>d.
     bind_f (wr 2 d (start + rec_len) EXT2_BLOCK_SIZE) (\<lambda>d.
     wr 1 d (start + file_type) ft))))"

fun new_loop ::
  "nat list \<Rightarrow> bytes \<Rightarrow> nat \<Rightarrow> nat \<Rightarrow> string \<Rightarrow> nat \<Rightarrow> (nat option \<times> bytes) fsres" where
  "new_loop [] d inode child name ft = Ret (None, d)"
| "new_loop (i # is) d inode child name ft =
     bind_f (allocate_block_on_inode d inode i) (\<lambda>(block_num, d).
     if block_num = 0 then new_loop is d inode child name ft
     else
       let start = get_block block_num in
       bind_f (first_entry d start child name ft) (\<lambda>d. Ret (Some start, d)))"

definition make_entry_in_inode ::
  "bytes \<Rightarrow> nat \<Rightarrow> nat \<Rightarrow> string \<Rightarrow> nat \<Rightarrow> (nat option \<times> bytes) fsres" where
  "make_entry_in_inode d inode child name ft =
     bind_f (existing_loop [0..<INODE_BLOCK_LIMIT] d inode child name ft) (\<lambda>(attempt, d).
     if attempt \<noteq> None then Ret (attempt, d)
     else new_loop [0..<INODE_BLOCK_LIMIT] d inode child name ft)"

section \<open>Printing\<close>

text \<open>\<open>strcmp(s, lit) == 0\<close> for a string that starts at \<open>a\<close> in the image.\<close>

fun strcmp_eq :: "bytes \<Rightarrow> nat \<Rightarrow> string \<Rightarrow> bool fsres" where
  "strcmp_eq d a [] = bind_f (rd_byte d a) (\<lambda>b. Ret (b = 0))"
| "strcmp_eq d a (c # cs) =
     bind_f (rd_byte d a) (\<lambda>b. if byte_char b \<noteq> c then Ret False else strcmp_eq d (a + 1) cs)"

fun read_name :: "nat \<Rightarrow> bytes \<Rightarrow> nat \<Rightarrow> string fsres" where
  "read_name 0 d a = Ret []"
| "read_name (Suc n) d a =
     bind_f (rd_byte d a) (\<lambda>b. bind_f (read_name n d (a + 1)) (\<lambda>cs. Ret (byte_char b # cs)))"

text \<open>The line printed for an entry.\<close>

definition print_dir_name :: "bytes \<Rightarrow> nat \<Rightarrow> string fsres" where
  "print_dir_name d dir = bind_f (rd 1 d (dir + name_len)) (\<lambda>n. read_name n d (dir + e_name))"

definition print_entry :: "bytes \<Rightarrow> nat \<Rightarrow> bool \<Rightarrow> string list fsres" where
  "print_entry d cur show_dots =
     bind_f
       (if \<not> show_dots then
          bind_f (strcmp_eq d (cur + e_name) ''.'') (\<lambda>dot.
          if dot then Ret True else strcmp_eq d (cur + e_name) ''..'')
        else Ret False) (\<lambda>skip.
     if skip then Ret []
     else
       bind_f (rd 1 d (cur + name_len)) (\<lambda>n.
       if n \<noteq> 0 then bind_f (print_dir_name d cur) (\<lambda>l. Ret [l]) else Ret []))"

function print_loop :: "bytes \<Rightarrow> nat \<Rightarrow> nat \<Rightarrow> bool \<Rightarrow> string list fsres" where
  "print_loop d start cur show_dots =
     bind_f (is_valid_dir_entry d start cur) (\<lambda>v.
     if \<not> v then Ret []
     else
       bind_f (print_entry d cur show_dots) (\<lambda>ls.
       bind_f (get_next_dir_entry d cur) (\<lambda>next.
       bind_f (print_loop d start next show_dots) (\<lambda>ms. Ret (ls @ ms)))))"
  by pat_completeness auto

termination
  by (relation "measure (\<lambda>(d, start, cur, dots). start + EXT2_BLOCK_SIZE - cur)") (auto simp: walk_decreases)

declare print_loop.simps [simp del]

definition print_block_contents :: "bytes \<Rightarrow> nat \<Rightarrow> bool \<Rightarrow> string list fsres" where
  "print_block_contents d start show_dots = print_loop d start start show_dots"

fun contents_loop :: "nat list \<Rightarrow> bytes \<Rightarrow> nat \<Rightarrow> bool \<Rightarrow> string list fsres" where
  "contents_loop [] d inode show_dots = Ret []"
| "contents_loop (i # is) d inode show_dots =
     bind_f (get_inode_block_number d inode i) (\<lambda>block_num.
     if block_num = 0 then contents_loop is d inode show_dots
     else
       bind_f (print_block_contents d (get_block block_num) show_dots) (\<lambda>ls.
       bind_f (contents_loop is d inode show_dots) (\<lambda>ms. Ret (ls @ ms))))"

definition print_dir_contents :: "bytes \<Rightarrow> nat option \<Rightarrow> bool \<Rightarrow> string list fsres" where
  "print_dir_contents d entry show_dots =
     bind_f (get_inode_from_entry d entry) (\<lambda>inode.
     case inode of None \<Rightarrow> Fault
     | Some i \<Rightarrow> contents_loop [0..<INODE_BLOCK_LIMIT] d i show_dots)"

end
