(* ===== verification/Ext2_Cmd.thy ===== *)
theory Ext2_Cmd
  imports Ext2_Dir Dyn_List
begin

text \<open>
  Paths and the five commands of \<^verbatim>\<open>a3\<close>: \<open>split_path\<close> and \<open>traverse_path\<close> of
  \<^verbatim>\<open>ext2_helper.h\<close>, and \<^verbatim>\<open>ext2_ls.c\<close>, \<^verbatim>\<open>ext2_cp.c\<close>, \<^verbatim>\<open>ext2_ln.c\<close>,
  \<^verbatim>\<open>ext2_mkdir.c\<close>, \<^verbatim>\<open>ext2_rm.c\<close> from the parsed arguments on. \<open>now\<close> is the time.
\<close>

section \<open>Paths\<close>

text \<open>A call of a function of \<open>list.h\<close>; what it leaves undefined is a fault.\<close>

fun of_list_op :: "'a outcome \<Rightarrow> 'a fsres" where
  "of_list_op (Ok x) = Ret x"
| "of_list_op _ = Fault"

definition deref_string :: "string option \<Rightarrow> string fsres" where
  "deref_string p = (case p of None \<Rightarrow> Fault | Some s \<Rightarrow> Ret s)"

text \<open>\<open>strtok(s, "/")\<close>: the next token and what follows the slash after it.\<close>

definition strtok :: "string \<Rightarrow> (string \<times> string) option" where
  "strtok s =
     (let s1 = dropWhile (\<lambda>c. c = CHR ''/'') s in
      if s1 = [] then None
      else Some (takeWhile (\<lambda>c. c \<noteq> CHR ''/'') s1, drop 1 (dropWhile (\<lambda>c. c \<noteq> CHR ''/'') s1)))"

text \<open>
  \<open>strtok\<close> puts a terminator after each token it finds, so what is left of the string it was
  called on ends with the first token.
\<close>

definition strtok_buffer :: "string \<Rightarrow> string" where
  "strtok_buffer s =
     takeWhile (\<lambda>c. c = CHR ''/'') s
     @ takeWhile (\<lambda>c. c \<noteq> CHR ''/'') (dropWhile (\<lambda>c. c = CHR ''/'') s)"

lemma strtok_shorter: "strtok s = Some (t, r) \<Longrightarrow> length r < length s"
proof -
  assume a: "strtok s = Some (t, r)"
  let ?s1 = "dropWhile (\<lambda>c. c = CHR ''/'') s"
  from a have ne: "?s1 \<noteq> []" and r: "r = drop 1 (dropWhile (\<lambda>c. c \<noteq> CHR ''/'') ?s1)"
    by (auto simp: strtok_def Let_def split: if_splits)
  from hd_dropWhile[OF ne] have "takeWhile (\<lambda>c. c \<noteq> CHR ''/'') ?s1 = [] \<Longrightarrow> False"
    using ne by (cases ?s1) (auto split: if_splits)
  moreover have "length (dropWhile (\<lambda>c. c \<noteq> CHR ''/'') ?s1) \<le> length ?s1" "length ?s1 \<le> length s"
    by (rule length_dropWhile_le)+
  moreover have "0 < length ?s1" using ne by simp
  ultimately show ?thesis unfolding r by (simp only: length_drop)
qed

function split_loop :: "string \<Rightarrow> string dlist \<Rightarrow> string dlist fsres" where
  "split_loop s tokens =
     (case strtok s of
        None \<Rightarrow> Ret tokens
      | Some (token, rest) \<Rightarrow>
          bind_f (of_list_op (listAppend tokens (Some token))) (\<lambda>tokens. split_loop rest tokens))"
  by pat_completeness auto

termination
  by (relation "measure (\<lambda>(s, l). length s)") (auto dest: strtok_shorter)

declare split_loop.simps [simp del]

definition split_path :: "string \<Rightarrow> string dlist fsres" where
  "split_path path =
     bind_f (of_list_op (listAppend (makeList 5) (Some ''.''))) (\<lambda>tokens. split_loop path tokens)"

fun traverse_loop ::
  "nat \<Rightarrow> nat \<Rightarrow> string dlist \<Rightarrow> nat option \<Rightarrow> nat \<Rightarrow> bytes \<Rightarrow> nat option fsres" where
  "traverse_loop 0 ind l entry inode d = Ret entry"
| "traverse_loop (Suc n) ind l entry inode d =
     (if ind < length (contents l) then
        bind_f (find_matching_entry d inode (contents l ! ind)) (\<lambda>entry.
        case entry of
          None \<Rightarrow> Ret None
        | Some e \<Rightarrow>
            bind_f (is_directory d (Some e)) (\<lambda>dir.
            if \<not> dir then Ret (if ind = count l - 1 then Some e else None)
            else
              bind_f (get_inode_from_entry d (Some e)) (\<lambda>i.
              case i of None \<Rightarrow> Fault | Some inode \<Rightarrow> traverse_loop n (Suc ind) l (Some e) inode d)))
      else Fault)"

definition traverse_path :: "bytes \<Rightarrow> string dlist \<Rightarrow> nat option fsres" where
  "traverse_path d path_components =
     bind_f (get_root_inode d) (\<lambda>inode.
     traverse_loop (count path_components) 0 path_components None inode d)"

section \<open>\<open>ext2_ls\<close>\<close>

definition ENOENT :: int where "ENOENT = 2"
definition EEXIST :: int where "EEXIST = 17"
definition EISDIR :: int where "EISDIR = 21"

text \<open>The lines printed.\<close>

definition ext2_ls :: "bytes \<Rightarrow> string \<Rightarrow> bool \<Rightarrow> string list fsres" where
  "ext2_ls d path show_dots =
     bind_f (split_path path) (\<lambda>path_components.
     bind_f (traverse_path d path_components) (\<lambda>entry.
     if entry = None then Quit ENOENT d
     else
       bind_f (is_file d entry) (\<lambda>f.
       bind_f (if f then Ret True else is_link d entry) (\<lambda>fl.
       if fl then
         bind_f (of_list_op (listPeek path_components)) (\<lambda>p. bind_f (deref_string p) (\<lambda>n. Ret [n]))
       else
         bind_f (is_directory d entry) (\<lambda>dir.
         if dir then print_dir_contents d entry show_dots else Ret [])))))"

section \<open>\<open>ext2_rm\<close>\<close>

definition ext2_rm :: "nat \<Rightarrow> bytes \<Rightarrow> string \<Rightarrow> bytes fsres" where
  "ext2_rm now d path =
     bind_f (split_path path) (\<lambda>path_components.
     bind_f (of_list_op (listPeek path_components)) (\<lambda>file_name.
     bind_f (traverse_path d path_components) (\<lambda>entry.
     bind_f (get_inode_from_entry d entry) (\<lambda>inode.
     case (entry, inode) of
       (Some e, Some ino) \<Rightarrow>
         bind_f (is_directory d entry) (\<lambda>dir.
         if dir then Quit EISDIR d
         else
           bind_f (of_list_op (listPop path_components)) (\<lambda>(_, path_components).
           bind_f (traverse_path d path_components) (\<lambda>parent_entry.
           bind_f (deref_string file_name) (\<lambda>name.
           bind_f (delete_child_entry d parent_entry name) (\<lambda>d.
           bind_f (add_field 2 d (ino + i_links_count) (- 1)) (\<lambda>d.
           bind_f (rd 2 d (ino + i_links_count)) (\<lambda>links.
           if links \<le> 0 then bind_f (rd 4 d (e + e_inode)) (\<lambda>n. free_inode now d n)
           else Ret d)))))))
     | _ \<Rightarrow> Quit ENOENT d))))"

section \<open>\<open>ext2_mkdir\<close>\<close>

text \<open>One of the three entries; without room for it the inode is freed again.\<close>

definition entry_or_undo ::
  "nat \<Rightarrow> nat \<Rightarrow> bytes \<Rightarrow> nat \<Rightarrow> nat \<Rightarrow> string \<Rightarrow> bytes fsres" where
  "entry_or_undo now dir_inode_num d inode child name =
     bind_f (make_entry_in_inode d inode child name EXT2_FT_DIR) (\<lambda>(attempt, d).
     if attempt = None then bind_f (free_inode now d dir_inode_num) (\<lambda>d. Quit 1 d) else Ret d)"

definition ext2_mkdir :: "nat \<Rightarrow> bytes \<Rightarrow> string \<Rightarrow> bytes fsres" where
  "ext2_mkdir now d path =
     bind_f (split_path path) (\<lambda>path_components.
     bind_f (of_list_op (listPop path_components)) (\<lambda>(new_dir, path_components).
     if count path_components = 0 then Quit EEXIST d
     else
       bind_f (traverse_path d path_components) (\<lambda>parent_entry.
       case parent_entry of
         None \<Rightarrow> Quit ENOENT d
       | Some parent \<Rightarrow>
           bind_f (is_directory d parent_entry) (\<lambda>dir.
           if \<not> dir then Quit ENOENT d
           else
             bind_f (of_list_op (listAppend path_components new_dir)) (\<lambda>path_components.
             bind_f (traverse_path d path_components) (\<lambda>old.
             if old \<noteq> None then Quit EEXIST d
             else
               bind_f (allocate_dir_inode now d) (\<lambda>(dir_inode_num, d).
               bind_f (get_inode d dir_inode_num) (\<lambda>dir_inode.
               bind_f (entry_or_undo now dir_inode_num d dir_inode dir_inode_num ''.'') (\<lambda>d.
               bind_f (rd 4 d (parent + e_inode)) (\<lambda>parent_num.
               bind_f (entry_or_undo now dir_inode_num d dir_inode parent_num ''..'') (\<lambda>d.
               bind_f (rd 4 d (parent + e_inode)) (\<lambda>parent_num.
               bind_f (get_inode d parent_num) (\<lambda>parent_inode.
               bind_f (deref_string new_dir) (\<lambda>name.
               entry_or_undo now dir_inode_num d parent_inode dir_inode_num name))))))))))))))"

section \<open>\<open>ext2_ln\<close>\<close>

definition ext2_ln :: "nat \<Rightarrow> bytes \<Rightarrow> string \<Rightarrow> string \<Rightarrow> bool \<Rightarrow> bytes fsres" where
  "ext2_ln now d source dest is_sym_link =
     bind_f (split_path source) (\<lambda>src_components.
     let source = strtok_buffer source in
     bind_f (traverse_path d src_components) (\<lambda>src_entry.
     bind_f (split_path dest) (\<lambda>dst_components.
     bind_f (traverse_path d dst_components) (\<lambda>dst_entry.
     case src_entry of
       None \<Rightarrow> Quit ENOENT d
     | Some src \<Rightarrow>
         bind_f (is_directory d src_entry) (\<lambda>src_dir.
         if src_dir then Quit EISDIR d
         else
           bind_f (is_directory d dst_entry) (\<lambda>dst_dir.
           if dst_dir then Quit EISDIR d
           else if dst_entry \<noteq> None then Quit EEXIST d
           else
             bind_f (of_list_op (listPop dst_components)) (\<lambda>(dst_file_name, dst_components).
             bind_f (traverse_path d dst_components) (\<lambda>dst_parent_entry.
             if dst_parent_entry = None then Quit EEXIST d
             else
               bind_f (get_inode_from_entry d dst_parent_entry) (\<lambda>i.
               case i of
                 None \<Rightarrow> Fault
               | Some dst_parent_inode \<Rightarrow>
                   bind_f
                     (if is_sym_link then
                        bind_f (allocate_link_inode now d source) (\<lambda>(sym_inode_num, d).
                        bind_f (get_inode d sym_inode_num) (\<lambda>sym_inode.
                        bind_f (write_path_to_symlink_inode d sym_inode source) (\<lambda>d.
                        bind_f (deref_string dst_file_name) (\<lambda>name.
                        bind_f (make_entry_in_inode d dst_parent_inode sym_inode_num name EXT2_FT_SYMLINK)
                          (\<lambda>(attempt, d).
                        if attempt = None
                        then bind_f (free_inode now d sym_inode_num) (\<lambda>d. Ret (attempt, d))
                        else Ret (attempt, d))))))
                      else
                        bind_f (rd 4 d (src + e_inode)) (\<lambda>n.
                        bind_f (deref_string dst_file_name) (\<lambda>name.
                        bind_f (make_entry_in_inode d dst_parent_inode n name EXT2_FT_REG_FILE)
                          (\<lambda>(attempt, d).
                        bind_f (rd 4 d (src + e_inode)) (\<lambda>n.
                        bind_f (get_inode d n) (\<lambda>src_inode.
                        bind_f (add_field 2 d (src_inode + i_links_count) 1) (\<lambda>d.
                        Ret (attempt, d))))))))
                     (\<lambda>(attempt, d). if attempt = None then Quit 1 d else Ret d))))))))))"

section \<open>\<open>ext2_cp\<close>\<close>

definition get_required_block_count :: "nat \<Rightarrow> nat" where
  "get_required_block_count f_size = ((f_size + EXT2_BLOCK_SIZE - 1) mod 2 ^ 32) div EXT2_BLOCK_SIZE"

text \<open>The new blocks go to the indices of the inode that are free.\<close>

function attach_loop :: "nat \<Rightarrow> nat \<Rightarrow> nat list \<Rightarrow> nat \<Rightarrow> bytes \<Rightarrow> bytes fsres" where
  "attach_loop i cur_ind blocks inode d =
     (if cur_ind < length blocks then
        bind_f (get_inode_block_number d inode i) (\<lambda>b.
        if b = 0 then
          bind_f (set_inode_block_number d inode i (blocks ! cur_ind)) (\<lambda>d.
          attach_loop (i + 1) (cur_ind + 1) blocks inode d)
        else attach_loop (i + 1) cur_ind blocks inode d)
      else Ret d)"
  by pat_completeness auto

termination
proof (relation "measures [\<lambda>(i, c, bs, inode, d). length bs - c, \<lambda>(i, c, bs, inode, d). INODE_BLOCK_LIMIT - i]")
  fix i c :: nat and bs inode d b
  assume "get_inode_block_number d inode i = Ret b" and "b \<noteq> 0"
  then have "i < INODE_BLOCK_LIMIT"
    by (auto simp: get_inode_block_number_def INODE_BLOCK_LIMIT_eq INDIRECT1_INDEX_def split: if_splits)
  then show "((i + 1, c, bs, inode, d), i, c, bs, inode, d)
      \<in> measures [\<lambda>(i, c, bs, inode, d). length bs - c, \<lambda>(i, c, bs, inode, d). INODE_BLOCK_LIMIT - i]"
    by simp
qed auto

declare attach_loop.simps [simp del]

text \<open>\<open>content\<close> is what is left to read of the file.\<close>

fun data_loop :: "nat list \<Rightarrow> nat list \<Rightarrow> nat \<Rightarrow> u8 list \<Rightarrow> bytes \<Rightarrow> bytes fsres" where
  "data_loop [] blocks inode content d = Ret d"
| "data_loop (i # is) blocks inode content d =
     (let buffer = take EXT2_BLOCK_SIZE content; content = drop EXT2_BLOCK_SIZE content in
      if 0 < length buffer then
        (if i < length blocks then
           bind_f (set_inode_block_number d inode i (blocks ! i)) (\<lambda>d.
           bind_f (write_bytes d (get_block (blocks ! i)) buffer) (\<lambda>d.
           data_loop is blocks inode content d))
         else Fault)
      else
        bind_f (set_inode_block_number d inode i 0) (\<lambda>d. data_loop is blocks inode content d))"

text \<open>The inode of an existing file, or a new one with its entry in the parent directory.\<close>

definition cp_inode ::
  "nat \<Rightarrow> bytes \<Rightarrow> nat option \<Rightarrow> nat option \<Rightarrow> string option \<Rightarrow> nat \<Rightarrow> nat \<Rightarrow> (nat \<times> bytes) fsres" where
  "cp_inode now d dest_entry dst_parent_entry dest_name f_size num_blocks_needed =
     (if dest_entry \<noteq> None then
        bind_f (get_inode_from_entry d dest_entry) (\<lambda>i.
        case i of None \<Rightarrow> Fault | Some inode \<Rightarrow> Ret (inode, d))
      else if INODE_BLOCK_LIMIT < num_blocks_needed then Quit 1 d
      else
        bind_f (allocate_file_inode now d f_size) (\<lambda>(inode_num, d).
        bind_f (get_inode d inode_num) (\<lambda>inode.
        bind_f (get_inode_from_entry d dst_parent_entry) (\<lambda>p.
        case p of
          None \<Rightarrow> Fault
        | Some parent \<Rightarrow>
            bind_f (deref_string dest_name) (\<lambda>name.
            bind_f (make_entry_in_inode d parent inode_num name EXT2_FT_REG_FILE) (\<lambda>(_, d).
            Ret (inode, d)))))))"

text \<open>\<open>files\<close> are the files that \<open>fopen\<close> can open for reading, with their contents.\<close>

definition ext2_cp ::
  "nat \<Rightarrow> (string \<Rightarrow> u8 list option) \<Rightarrow> bytes \<Rightarrow> string \<Rightarrow> string \<Rightarrow> bytes fsres" where
  "ext2_cp now files d source dest =
     bind_f (split_path source) (\<lambda>src_components.
     let source = strtok_buffer source in
     bind_f (of_list_op (listPop src_components)) (\<lambda>(src_name, _).
     bind_f (split_path dest) (\<lambda>dest_components.
     bind_f (traverse_path d dest_components) (\<lambda>dest_entry.
     bind_f (is_directory d dest_entry) (\<lambda>dir.
     bind_f
       (if dir then
          bind_f (of_list_op (listAppend dest_components src_name)) (\<lambda>dest_components.
          bind_f (traverse_path d dest_components) (\<lambda>dest_entry. Ret (dest_entry, dest_components)))
        else Ret (dest_entry, dest_components)) (\<lambda>(dest_entry, dest_components).
     bind_f (of_list_op (listPop dest_components)) (\<lambda>(dest_name, dest_components).
     case files source of
       None \<Rightarrow> Quit ENOENT d
     | Some content \<Rightarrow>
         let f_size = length content; num_blocks_needed = get_required_block_count f_size in
         bind_f (allocate_blocks d num_blocks_needed) (\<lambda>(blocks, d).
         bind_f (traverse_path d dest_components) (\<lambda>dst_parent_entry.
         if dst_parent_entry = None then Quit EEXIST d
         else
           bind_f (cp_inode now d dest_entry dst_parent_entry dest_name f_size num_blocks_needed)
             (\<lambda>(inode, d).
           bind_f (attach_loop 0 0 blocks inode d) (\<lambda>d.
           bind_f (data_loop [0..<INODE_BLOCK_LIMIT] blocks inode content d) (\<lambda>d.
           bind_f (wr 2 d (inode + i_mode) EXT2_FT_REG_FILE) (\<lambda>d.
           bind_f (wr 4 d (inode + i_ctime) now) (\<lambda>d.
           bind_f (wr 4 d (inode + i_dtime) 0) (\<lambda>d.
           bind_f (wr 4 d (inode + i_blocks) (num_blocks_needed * 2)) (\<lambda>d.
           wr 4 d (inode + i_size) f_size))))))))))))))))"

end
