(* ===== verification/Ext2_Inv.thy ===== *)
theory Ext2_Inv
  imports Ext2_Alloc
begin

text \<open>
  The effect of the elementary accesses on an image with the geometry of the images of
  \<^verbatim>\<open>a3\<close> (one group of 128 blocks and 32 inodes; block bitmap in block 3, inode bitmap in
  block 4, inode table from block 5 on): bitmaps as sets of numbers, inodes as 128-byte regions,
  and which bytes each operation changes. The locale \<open>bit_store\<close> is the contract of a bitmap,
  interpreted for blocks and for inodes.
\<close>

section \<open>Fields and frames\<close>

text \<open>The images agree on a set of addresses.\<close>

definition agree :: "nat set \<Rightarrow> bytes \<Rightarrow> bytes \<Rightarrow> bool" where
  "agree A d d' \<longleftrightarrow> (\<forall>a \<in> A. d a = d' a)"

lemma agree_refl [simp]: "agree A d d"
  by (simp add: agree_def)

lemma agree_trans: "agree A d e \<Longrightarrow> agree A e f \<Longrightarrow> agree A d f"
  by (simp add: agree_def)

lemma agree_sym: "agree A d e \<Longrightarrow> agree A e d"
  by (simp add: agree_def)

lemma agree_subset: "agree A d d' \<Longrightarrow> B \<subseteq> A \<Longrightarrow> agree B d d'"
  by (auto simp: agree_def)

lemma agree_load: "agree A d d' \<Longrightarrow> {a ..< a + n} \<subseteq> A \<Longrightarrow> load_le n d' a = load_le n d a"
  by (rule load_le_eq) (auto simp: agree_def)

lemma agree_store: "{a ..< a + n} \<inter> A = {} \<Longrightarrow> agree A d (store_le n v d a)"
  by (auto simp: agree_def store_le_def)

lemma agree_memset: "{a ..< a + n} \<inter> A = {} \<Longrightarrow> agree A d (memset d a b n)"
  by (auto simp: agree_def memset_def)

lemma agree_upd: "a \<notin> A \<Longrightarrow> agree A d (d(a := b))"
  by (auto simp: agree_def)

lemma load_upd_other: "\<not> (a \<le> x \<and> x < a + n) \<Longrightarrow> load_le n (d(x := b)) a = load_le n d a"
  by (rule load_le_eq) auto

lemma load_1: "load_le 1 d a = unat (d a)"
  by simp

lemma store_zero: "store_le n 0 d a = memset d a 0 n"
  by (auto simp: store_le_def memset_def)

lemma memset_memset: "memset (memset d a b n) (a + n) b m = memset d a b (n + m)"
  by (auto simp: memset_def)

lemma load_memset_zero: "b \<le> a \<Longrightarrow> a + n \<le> b + k \<Longrightarrow> load_le n (memset d b 0 k) a = 0"
  by (induction n arbitrary: a) (auto simp: memset_def)

lemma load_store_part: "load_le n (store_le n v m a) a = v" if "v < 256 ^ n"
  using that by (simp add: load_store_same)

section \<open>Geometry\<close>

definition geometry :: "bytes \<Rightarrow> bool" where
  "geometry d \<longleftrightarrow> load_le 4 d 2048 = 3 \<and> load_le 4 d 2052 = 4 \<and> load_le 4 d 2056 = 5 \<and> load_le 4 d 1024 = 32"

text \<open>The bytes the geometry is read from.\<close>

definition geo_bytes :: "nat set" where
  "geo_bytes = {1024 ..< 1028} \<union> {2048 ..< 2060}"

lemma geometry_agree: "agree geo_bytes d d' \<Longrightarrow> geometry d' = geometry d"
proof -
  assume a: "agree geo_bytes d d'"
  have "load_le 4 d' x = load_le 4 d x" if "x \<in> {1024, 2048, 2052, 2056}" for x
    using that by (intro agree_load[OF a]) (auto simp: geo_bytes_def)
  then show ?thesis by (simp add: geometry_def)
qed

lemma get_block_small: "b < 4194304 \<Longrightarrow> get_block b = 1024 * b"
  by (simp add: get_block_def EXT2_BLOCK_SIZE_def)

lemma super_group [simp]: "get_super_block = 1024" "get_group_descriptor = 2048"
  by (simp_all add: get_super_block_def get_group_descriptor_def get_block_def EXT2_BLOCK_SIZE_def)

lemma geo_blocks:
  assumes "geometry d"
  shows "get_block_bitmap d = Ret 3072" "get_inode_bitmap d = Ret 4096" "get_inode_table d = Ret 5120"
  using assms
  by (simp_all add: get_block_bitmap_def get_inode_bitmap_def get_inode_table_def ext2_layout
      geometry_def get_block_def)

lemma minus_one_pos: "0 < n \<Longrightarrow> n \<le> 2 ^ 32 \<Longrightarrow> minus_one n = n - 1"
  by (simp add: minus_one_def mod_if)

definition inode_at :: "nat \<Rightarrow> nat" where
  "inode_at n = 5120 + 128 * (n - 1)"

lemma get_inode_ok: "geometry d \<Longrightarrow> 0 < n \<Longrightarrow> n \<le> 32 \<Longrightarrow> get_inode d n = Ret (inode_at n)"
  by (simp add: get_inode_def geo_blocks inode_size_def minus_one_pos inode_at_def)

lemma get_root_inode_ok: "geometry d \<Longrightarrow> get_root_inode d = Ret (inode_at 2)"
  by (simp add: get_root_inode_def get_inode_ok)

section \<open>Bitmaps\<close>

text \<open>Bit \<open>n\<close> of the bitmap at \<open>a\<close>, and the image with that bit set to \<open>v\<close>.\<close>

definition bit_at :: "bytes \<Rightarrow> nat \<Rightarrow> nat \<Rightarrow> bool" where
  "bit_at d a n = bit (d (a + n div 8)) (n mod 8)"

definition put_bit :: "nat \<Rightarrow> nat \<Rightarrow> bool \<Rightarrow> bytes \<Rightarrow> bytes" where
  "put_bit a n v d =
     d(a + n div 8 := (if v then d (a + n div 8) OR push_bit (n mod 8) 1
                       else d (a + n div 8) AND NOT (push_bit (n mod 8) 1)))"

lemma bit_one_hot: "m < 8 \<Longrightarrow> bit (2 ^ m :: u8) k \<longleftrightarrow> k = m"
  by (auto simp: bit_exp_iff possible_bit_def)

lemma bit_put_bit: "bit_at (put_bit a n v d) a m = (if m = n then v else bit_at d a m)"
proof (cases "m div 8 = n div 8")
  case True
  then have "m = n \<longleftrightarrow> m mod 8 = n mod 8" by (metis div_mod_decomp)
  with True show ?thesis
    by (auto simp: bit_at_def put_bit_def bit_or_iff bit_and_iff bit_not_iff bit_one_hot possible_bit_def)
next
  case False
  then show ?thesis by (auto simp: bit_at_def put_bit_def)
qed

lemma put_bit_other: "x \<noteq> a + n div 8 \<Longrightarrow> put_bit a n v d x = d x"
  by (simp add: put_bit_def)

lemma agree_put_bit: "a + n div 8 \<notin> A \<Longrightarrow> agree A d (put_bit a n v d)"
  by (auto simp: agree_def put_bit_def)

lemma get_bitmap_val_ok: "a + n div 8 < DISK_SIZE \<Longrightarrow> get_bitmap_val d a n = Ret (bit_at d a n)"
  by (auto simp: get_bitmap_val_def bit_at_def Let_def bit_iff_odd_drop_bit and_one_eq odd_iff_mod_2_eq_one)

lemma set_bitmap_val_ok: "a + n div 8 < DISK_SIZE \<Longrightarrow> set_bitmap_val d a n v = Ret (put_bit a n v d)"
  by (simp add: set_bitmap_val_def put_bit_def Let_def)

text \<open>Blocks and inodes in use.\<close>

definition block_used :: "bytes \<Rightarrow> nat \<Rightarrow> bool" where
  "block_used d b = bit_at d 3072 (b - 1)"

definition inode_used :: "bytes \<Rightarrow> nat \<Rightarrow> bool" where
  "inode_used d n = bit_at d 4096 (n - 1)"

definition mark_block :: "nat \<Rightarrow> bool \<Rightarrow> bytes \<Rightarrow> bytes" where
  "mark_block b v d = put_bit 3072 (b - 1) v d"

definition mark_inode :: "nat \<Rightarrow> bool \<Rightarrow> bytes \<Rightarrow> bytes" where
  "mark_inode n v d = put_bit 4096 (n - 1) v d"

lemma block_usage_ok:
  assumes "geometry d" and "0 < b" and "b \<le> 8192"
  shows "get_block_usage d b = Ret (block_used d b)" "set_block_usage d b v = Ret (mark_block b v d)"
  using assms
  by (simp_all add: get_block_usage_def set_block_usage_def geo_blocks minus_one_pos get_bitmap_val_ok
      set_bitmap_val_ok block_used_def mark_block_def DISK_SIZE_def)

lemma inode_usage_ok:
  assumes "geometry d" and "0 < n" and "n \<le> 8192"
  shows "get_inode_usage d n = Ret (inode_used d n)" "set_inode_usage d n v = Ret (mark_inode n v d)"
  using assms
  by (simp_all add: get_inode_usage_def set_inode_usage_def geo_blocks minus_one_pos get_bitmap_val_ok
      set_bitmap_val_ok inode_used_def mark_inode_def DISK_SIZE_def)

text \<open>The bytes of the block bitmap (for 128 blocks) and of the inode bitmap.\<close>

lemma mark_block_other: "b < 129 \<Longrightarrow> \<not> (3072 \<le> a \<and> a < 3088) \<Longrightarrow> mark_block b v d a = d a"
proof -
  assume "b < 129" "\<not> (3072 \<le> a \<and> a < 3088)"
  moreover from \<open>b < 129\<close> have "(b - 1) div 8 < 16" by (simp add: less_mult_imp_div_less)
  ultimately have "a \<noteq> 3072 + (b - 1) div 8" by linarith
  then show ?thesis by (simp add: mark_block_def put_bit_other)
qed

lemma mark_inode_other: "n < 33 \<Longrightarrow> \<not> (4096 \<le> a \<and> a < 4100) \<Longrightarrow> mark_inode n v d a = d a"
proof -
  assume "n < 33" "\<not> (4096 \<le> a \<and> a < 4100)"
  moreover from \<open>n < 33\<close> have "(n - 1) div 8 < 4" by (simp add: less_mult_imp_div_less)
  ultimately have "a \<noteq> 4096 + (n - 1) div 8" by linarith
  then show ?thesis by (simp add: mark_inode_def put_bit_other)
qed

lemma agree_mark_block: "b < 129 \<Longrightarrow> A \<inter> {3072 ..< 3088} = {} \<Longrightarrow> agree A d (mark_block b v d)"
  unfolding agree_def by (auto intro!: mark_block_other[symmetric])

lemma agree_mark_inode: "n < 33 \<Longrightarrow> A \<inter> {4096 ..< 4100} = {} \<Longrightarrow> agree A d (mark_inode n v d)"
  unfolding agree_def by (auto intro!: mark_inode_other[symmetric])

section \<open>The contract of a bitmap\<close>

locale bit_store =
  fixes good :: "bytes \<Rightarrow> bool" and ok :: "nat \<Rightarrow> bool"
    and get :: "bytes \<Rightarrow> nat \<Rightarrow> bool fsres"
    and put :: "bytes \<Rightarrow> nat \<Rightarrow> bool \<Rightarrow> bytes fsres"
    and used :: "bytes \<Rightarrow> nat \<Rightarrow> bool"
  assumes get_used: "good d \<Longrightarrow> ok n \<Longrightarrow> get d n = Ret (used d n)"
    and put_used: "good d \<Longrightarrow> ok n \<Longrightarrow>
      \<exists>d'. put d n v = Ret d' \<and> good d' \<and> (\<forall>m. ok m \<longrightarrow> used d' m = (if m = n then v else used d m))"
begin

lemma get_after_put:
  assumes "good d" "ok n" "ok m" "put d n v = Ret d'"
  shows "get d' m = Ret (if m = n then v else used d m)"
  using put_used[OF assms(1,2), of v] assms(3,4) get_used by auto

text \<open>A bit set and cleared again is as before.\<close>

lemma put_put:
  assumes "good d" "ok n"
  shows "\<exists>d' d''. put d n v = Ret d' \<and> put d' n (used d n) = Ret d'' \<and> (\<forall>m. ok m \<longrightarrow> get d'' m = get d m)"
proof -
  from put_used[OF assms, of v] obtain d' where d': "put d n v = Ret d'" "good d'"
    "\<forall>m. ok m \<longrightarrow> used d' m = (if m = n then v else used d m)" by blast
  from put_used[OF d'(2) assms(2), of "used d n"] obtain d'' where d'': "put d' n (used d n) = Ret d''"
    "good d''" "\<forall>m. ok m \<longrightarrow> used d'' m = (if m = n then used d n else used d' m)" by blast
  have "get d'' m = get d m" if "ok m" for m
    using get_used[OF d''(2) that] get_used[OF assms(1) that] d'' d' that by auto
  with d'(1) d''(1) show ?thesis by blast
qed

end

lemma geo_disjoint: "geo_bytes \<inter> {3072 ..< 3088} = {}" "geo_bytes \<inter> {4096 ..< 4100} = {}"
  by (auto simp: geo_bytes_def)

lemma geometry_mark:
  assumes "geometry d"
  shows "b < 129 \<Longrightarrow> geometry (mark_block b v d)" "n < 33 \<Longrightarrow> geometry (mark_inode n v d)"
proof -
  show "geometry (mark_block b v d)" if "b < 129"
    using assms geometry_agree[OF agree_mark_block[OF that geo_disjoint(1)]] by simp
  show "geometry (mark_inode n v d)" if "n < 33"
    using assms geometry_agree[OF agree_mark_inode[OF that geo_disjoint(2)]] by simp
qed

lemma used_mark:
  "0 < b \<Longrightarrow> 0 < c \<Longrightarrow> block_used (mark_block b v d) c = (if c = b then v else block_used d c)"
  "0 < b \<Longrightarrow> 0 < c \<Longrightarrow> inode_used (mark_inode b v d) c = (if c = b then v else inode_used d c)"
  by (auto simp: block_used_def mark_block_def inode_used_def mark_inode_def bit_put_bit)

interpretation block_bits: bit_store geometry "\<lambda>b. 0 < b \<and> b < 129" get_block_usage set_block_usage block_used
  by unfold_locales (auto simp: block_usage_ok used_mark geometry_mark)

interpretation inode_bits: bit_store geometry "\<lambda>n. 0 < n \<and> n < 33" get_inode_usage set_inode_usage inode_used
  by unfold_locales (auto simp: inode_usage_ok used_mark geometry_mark)

end
