(* ===== verification/Ext2_Chain.thy ===== *)
theory Ext2_Chain
  imports Ext2_Dir Ext2_Inv
begin

text \<open>
  A block of directory entries as a list: \<open>chain\<close> says that entries follow each other without
  gaps from one address to another, \<open>block_list\<close> gives the names, inodes and types of those in
  use. Searching, deleting, adding and printing are list operations on it. The relational view of
  a linked structure in memory, with a frame rule for writes outside, follows the usual treatment
  of linked lists.
\<close>

section \<open>Entries\<close>

definition rlen :: "bytes \<Rightarrow> nat \<Rightarrow> nat" where "rlen d e = load_le 2 d (e + rec_len)"
definition nlen :: "bytes \<Rightarrow> nat \<Rightarrow> nat" where "nlen d e = load_le 1 d (e + name_len)"
definition ftype :: "bytes \<Rightarrow> nat \<Rightarrow> nat" where "ftype d e = load_le 1 d (e + file_type)"
definition einode :: "bytes \<Rightarrow> nat \<Rightarrow> nat" where "einode d e = load_le 4 d (e + e_inode)"

definition ename :: "bytes \<Rightarrow> nat \<Rightarrow> string" where
  "ename d e = map (\<lambda>i. byte_char (d (e + e_name + i))) [0..<nlen d e]"

type_synonym dirent = "string \<times> nat \<times> nat"

definition entry_at :: "bytes \<Rightarrow> nat \<Rightarrow> dirent" where
  "entry_at d e = (ename d e, einode d e, ftype d e)"

lemma length_ename [simp]: "length (ename d e) = nlen d e"
  by (simp add: ename_def)

lemma field_bounds: "nlen d e < 256" "rlen d e < 65536" "ftype d e < 256" "einode d e < 2 ^ 32"
  using load_le_bound[of 1 d "e + name_len"] load_le_bound[of 2 d "e + rec_len"]
    load_le_bound[of 1 d "e + file_type"] load_le_bound[of 4 d "e + e_inode"]
  by (simp_all add: nlen_def rlen_def ftype_def einode_def)

lemma entry_agree:
  assumes a: "agree A d d'" and s: "{e ..< e + 8 + nlen d e} \<subseteq> A"
  shows "rlen d' e = rlen d e" "nlen d' e = nlen d e" "ftype d' e = ftype d e"
    "einode d' e = einode d e" "ename d' e = ename d e" "entry_at d' e = entry_at d e"
proof -
  have "load_le n d' x = load_le n d x" if "e \<le> x" "x + n \<le> e + 8" for n x
    using that s by (intro agree_load[OF a]) auto
  then show f: "rlen d' e = rlen d e" "nlen d' e = nlen d e" "ftype d' e = ftype d e"
    "einode d' e = einode d e"
    by (simp_all add: rlen_def nlen_def ftype_def einode_def ext2_layout del: load_le.simps One_nat_def)
  show n: "ename d' e = ename d e"
  proof -
    have "d' (e + e_name + i) = d (e + e_name + i)" if "i < nlen d e" for i
      using a s that by (simp add: agree_def e_name_def subset_eq)
    then show ?thesis by (simp add: ename_def f)
  qed
  show "entry_at d' e = entry_at d e" by (simp add: entry_at_def f n)
qed

section \<open>Chains\<close>

primrec chain :: "bytes \<Rightarrow> nat \<Rightarrow> nat list \<Rightarrow> nat \<Rightarrow> bool" where
  "chain d a [] z \<longleftrightarrow> a = z"
| "chain d a (e # es) z \<longleftrightarrow> e = a \<and> 8 + nlen d e \<le> rlen d e \<and> chain d (e + rlen d e) es z"

lemma chain_append: "chain d a (xs @ ys) z \<longleftrightarrow> (\<exists>m. chain d a xs m \<and> chain d m ys z)"
  by (induction xs arbitrary: a) auto

lemma chain_le: "chain d a es z \<Longrightarrow> a \<le> z"
  by (induction es arbitrary: a) force+

lemma chain_mem:
  "chain d a es z \<Longrightarrow> e \<in> set es \<Longrightarrow> a \<le> e \<and> e + rlen d e \<le> z \<and> 8 + nlen d e \<le> rlen d e"
proof (induction es arbitrary: a)
  case Nil
  then show ?case by simp
next
  case (Cons x xs)
  from Cons.prems(1) have c: "x = a" "8 + nlen d x \<le> rlen d x" "chain d (x + rlen d x) xs z" by auto
  show ?case
  proof (cases "e = x")
    case True
    with c chain_le[OF c(3)] show ?thesis by simp
  next
    case False
    with Cons.prems(2) Cons.IH[OF c(3)] c(1) show ?thesis by auto
  qed
qed

lemma chain_agree:
  "agree {a ..< z} d d' \<Longrightarrow> chain d a es z \<Longrightarrow> chain d' a es z"
proof (induction es arbitrary: a)
  case Nil
  then show ?case by simp
next
  case (Cons e es)
  then have c: "e = a" "8 + nlen d e \<le> rlen d e" "chain d (e + rlen d e) es z" by auto
  from chain_le[OF c(3)] c have "{e ..< e + 8 + nlen d e} \<subseteq> {a ..< z}" by auto
  note f = entry_agree(1,2)[OF Cons.prems(1) this]
  have "agree {e + rlen d e ..< z} d d'"
    by (rule agree_subset[OF Cons.prems(1)]) (use c(1) in auto)
  from Cons.IH[OF this c(3)] show ?case using c f by simp
qed

lemma chain_entries_agree:
  assumes "agree {a ..< z} d d'" "chain d a es z" "e \<in> set es"
  shows "rlen d' e = rlen d e" "nlen d' e = nlen d e" "ename d' e = ename d e"
    "entry_at d' e = entry_at d e" "ftype d' e = ftype d e" "einode d' e = einode d e"
proof -
  have "{e ..< e + 8 + nlen d e} \<subseteq> {a ..< z}" using chain_mem[OF assms(2,3)] by auto
  from entry_agree[OF assms(1) this] show "rlen d' e = rlen d e" "nlen d' e = nlen d e"
    "ename d' e = ename d e" "entry_at d' e = entry_at d e" "ftype d' e = ftype d e"
    "einode d' e = einode d e" by auto
qed

text \<open>The entries in use, and the condition that each has the room the code wants for it.\<close>

definition block_list :: "bytes \<Rightarrow> nat list \<Rightarrow> dirent list" where
  "block_list d es = map (entry_at d) (filter (\<lambda>e. 0 < nlen d e) es)"

definition roomy :: "bytes \<Rightarrow> nat list \<Rightarrow> bool" where
  "roomy d es \<longleftrightarrow> (\<forall>e \<in> set es. total_entry_length (nlen d e) \<le> rlen d e)"

lemma block_list_simps [simp]:
  "block_list d [] = []" "block_list d (xs @ ys) = block_list d xs @ block_list d ys"
  "block_list d (e # es) = (if 0 < nlen d e then [entry_at d e] else []) @ block_list d es"
  by (simp_all add: block_list_def)

lemma roomy_simps [simp]:
  "roomy d []" "roomy d (xs @ ys) \<longleftrightarrow> roomy d xs \<and> roomy d ys"
  "roomy d (e # es) \<longleftrightarrow> total_entry_length (nlen d e) \<le> rlen d e \<and> roomy d es"
  by (auto simp: roomy_def)

lemma block_list_agree:
  assumes "agree {a ..< z} d d'" "chain d a es z"
  shows "block_list d' es = block_list d es" "roomy d' es = roomy d es"
proof -
  have "filter (\<lambda>e. 0 < nlen d' e) es = filter (\<lambda>e. 0 < nlen d e) es"
    using chain_entries_agree(2)[OF assms] by (intro filter_cong) auto
  then show "block_list d' es = block_list d es"
    using chain_entries_agree(4)[OF assms] by (simp add: block_list_def)
  show "roomy d' es = roomy d es"
    using chain_entries_agree(1,2)[OF assms] by (simp add: roomy_def)
qed

section \<open>Walking over a block\<close>

text \<open>A block that lies in the image and is a chain.\<close>

definition entry_block :: "bytes \<Rightarrow> nat \<Rightarrow> nat list \<Rightarrow> bool" where
  "entry_block d s es \<longleftrightarrow> s + 1024 \<le> DISK_SIZE \<and> chain d s es (s + 1024)"

lemma walk_step:
  assumes "chain d e (e # es) (s + 1024)" and "s \<le> e" and "s + 1024 \<le> DISK_SIZE"
  shows "is_valid_dir_entry d s e = Ret True" "get_next_dir_entry d e = Ret (e + rlen d e)"
    "e + 8 + nlen d e \<le> s + 1024" "0 < rlen d e"
proof -
  from chain_mem[OF assms(1), of e] have "e + rlen d e \<le> s + 1024" "8 + nlen d e \<le> rlen d e" by auto
  then show "is_valid_dir_entry d s e = Ret True" "get_next_dir_entry d e = Ret (e + rlen d e)"
    "e + 8 + nlen d e \<le> s + 1024" "0 < rlen d e"
    using assms(2,3)
    by (auto simp: is_valid_dir_entry_def is_entry_in_block_def EXT2_BLOCK_SIZE_def get_next_dir_entry_def
        get_shifted_dir_entry_def rlen_def rec_len_def)
qed

lemma walk_end: "is_valid_dir_entry d s (s + 1024) = Ret False"
  by (simp add: is_valid_dir_entry_def is_entry_in_block_def EXT2_BLOCK_SIZE_def)

lemma name_loop_ok:
  "a + length cs \<le> DISK_SIZE \<Longrightarrow>
     name_loop d a cs = Ret (map (\<lambda>i. byte_char (d (a + i))) [0..<length cs] = cs)"
proof (induction cs arbitrary: a)
  case Nil
  then show ?case by simp
next
  case (Cons c cs)
  have m: "map (\<lambda>i. byte_char (d (a + i))) [0..<length (c # cs)]
      = byte_char (d a) # map (\<lambda>i. byte_char (d (Suc a + i))) [0..<length cs]"
    by (simp only: length_Cons upt_conv_Cons map_Suc_upt[symmetric]) (simp add: map_Suc_upt[symmetric] del: upt_Suc)
  show ?case
    using Cons.IH[of "Suc a"] Cons.prems unfolding m by simp
qed

lemma name_comparison_ok:
  assumes "e + 8 + nlen d e \<le> DISK_SIZE"
  shows "entry_name_comparison d e name = Ret (ename d e = name)"
proof (cases "nlen d e = length name")
  case True
  then show ?thesis
    using assms name_loop_ok[of "e + 8" name d]
    by (simp add: entry_name_comparison_def nlen_def ename_def e_name_def name_len_def)
next
  case False
  then have "ename d e \<noteq> name" by auto
  then show ?thesis
    using False assms by (simp add: entry_name_comparison_def nlen_def name_len_def)
qed

text \<open>The reference search: the first entry with a property, with the entry before it.\<close>

fun locate :: "nat option \<Rightarrow> (nat \<Rightarrow> bool) \<Rightarrow> nat list \<Rightarrow> (nat option \<times> nat) option" where
  "locate prev P [] = None"
| "locate prev P (e # es) = (if P e then Some (prev, e) else locate (Some e) P es)"

lemma pair_loop_ok:
  assumes "chain d cur es (s + 1024)" "s \<le> cur" "s + 1024 \<le> DISK_SIZE"
  shows "pair_loop d s cur prev name = Ret (locate prev (\<lambda>e. ename d e = name) es)"
  using assms
proof (induction es arbitrary: cur prev)
  case Nil
  then show ?case by (subst pair_loop.simps) (simp add: walk_end)
next
  case (Cons e es)
  then have c: "e = cur" "chain d e (e # es) (s + 1024)" "chain d (e + rlen d e) es (s + 1024)" "s \<le> e"
    by auto
  note w = walk_step[OF c(2,4) Cons.prems(3)]
  show ?case
    using w Cons.IH[OF c(3) _ Cons.prems(3)] c(1,4) Cons.prems(3)
    by (subst pair_loop.simps) (simp add: name_comparison_ok)
qed

lemma block_matching_pair_ok:
  "entry_block d s es \<Longrightarrow> block_matching_pair d s name = Ret (locate None (\<lambda>e. ename d e = name) es)"
  by (simp add: block_matching_pair_def entry_block_def pair_loop_ok)

lemma empty_loop_ok:
  assumes "chain d cur es (s + 1024)" "s \<le> cur" "s + 1024 \<le> DISK_SIZE"
  shows "empty_loop d s cur = Ret (\<forall>e \<in> set es. nlen d e = 0)"
  using assms
proof (induction es arbitrary: cur)
  case Nil
  then show ?case by (subst empty_loop.simps) (simp add: walk_end)
next
  case (Cons e es)
  then have c: "e = cur" "chain d e (e # es) (s + 1024)" "chain d (e + rlen d e) es (s + 1024)" "s \<le> e"
    by auto
  note w = walk_step[OF c(2,4) Cons.prems(3)]
  have "rd 1 d (e + name_len) = Ret (nlen d e)"
    using w(3) Cons.prems(3) by (simp add: nlen_def name_len_def)
  then show ?case
    using w Cons.IH[OF c(3) _ Cons.prems(3)] c(1,4)
    by (subst empty_loop.simps) auto
qed

lemma is_entry_block_empty_ok:
  "entry_block d s es \<Longrightarrow> is_entry_block_empty d s = Ret (block_list d es = [])"
  by (auto simp: is_entry_block_empty_def entry_block_def empty_loop_ok block_list_def filter_empty_conv)

text \<open>What the reference search finds.\<close>

lemma locate_SomeD:
  "locate prev P es = Some (q, e) \<Longrightarrow>
     \<exists>xs ys. es = xs @ e # ys \<and> P e \<and> (\<forall>x \<in> set xs. \<not> P x) \<and>
             q = (if xs = [] then prev else Some (last xs))"
proof (induction prev P es rule: locate.induct)
  case (1 prev P)
  then show ?case by simp
next
  case (2 prev P x es)
  show ?case
  proof (cases "P x")
    case True
    with 2(2) show ?thesis by (intro exI[of _ "[]"] exI[of _ es]) auto
  next
    case False
    with 2 obtain xs ys where "es = xs @ e # ys" "P e" "\<forall>x \<in> set xs. \<not> P x"
      "q = (if xs = [] then Some x else Some (last xs))" by auto
    with False show ?thesis by (intro exI[of _ "x # xs"] exI[of _ ys]) auto
  qed
qed

lemma locate_None: "locate prev P es = None \<longleftrightarrow> (\<forall>e \<in> set es. \<not> P e)"
  by (induction prev P es rule: locate.induct) auto

end
