(* ===== verification/Ext2_Chain_Ops.thy ===== *)
theory Ext2_Chain_Ops
  imports Ext2_Chain
begin

text \<open>
  Adding, deleting and printing the entries of one block, as operations on the list of its
  entries. Adding is correct for blocks in which every entry has the room that
  \<open>total_entry_length\<close> asks for; \<open>insert_overwrites\<close> shows what happens otherwise.
\<close>

section \<open>Sizes\<close>

lemma tel_eq:
  assumes "n < 256"
  shows "total_entry_length n = 12 + 4 * (n div 4)"
proof -
  have "(8 + n) mod 4 = n mod 4" by (simp add: mod_add_eq[of 8 4 n, symmetric])
  moreover have "n mod 4 < 4" by simp
  moreover have "n = 4 * (n div 4) + n mod 4" by simp
  ultimately have "8 + n + (4 - (8 + n) mod 4) = 12 + 4 * (n div 4)" by linarith
  moreover have "4 * (n div 4) \<le> n" by simp
  ultimately show ?thesis using assms by (simp add: total_entry_length_def Let_def)
qed

lemma tel_bounds: "n < 256 \<Longrightarrow> 8 + n < total_entry_length n \<and> total_entry_length n \<le> 12 + n"
  using dividend_less_times_div[of 4 n] times_div_less_eq_dividend[of 4 n] by (simp add: tel_eq)

lemma tel_mono: "m \<le> n \<Longrightarrow> n < 256 \<Longrightarrow> total_entry_length m \<le> total_entry_length n"
  by (simp add: tel_eq div_le_mono)

lemma minus_short_ok: "b \<le> a \<Longrightarrow> a < 65536 \<Longrightarrow> minus_short a b = a - b"
  by (simp add: minus_short_def of_nat_diff[symmetric] del: of_nat_diff)

lemma minus_short_wraps: "a < b \<Longrightarrow> b \<le> 65536 \<Longrightarrow> minus_short a b = a + 65536 - b"
proof -
  assume ab: "a < b" "b \<le> 65536"
  then have "(int a - int b) mod 65536 = int a - int b + 65536"
    by (intro mod_pos_pos_trivial[THEN trans[OF mod_add_self2[symmetric]]]) auto
  with ab show ?thesis by (simp add: minus_short_def)
qed

section \<open>Writing bytes\<close>

definition put_bytes :: "nat \<Rightarrow> u8 list \<Rightarrow> bytes \<Rightarrow> bytes" where
  "put_bytes a bs d = (\<lambda>i. if a \<le> i \<and> i < a + length bs then bs ! (i - a) else d i)"

lemma put_bytes_Nil [simp]: "put_bytes a [] d = d"
  by (rule ext) (auto simp: put_bytes_def)

lemma put_bytes_Cons: "put_bytes a (b # bs) d = put_bytes (Suc a) bs (d(a := b))"
  by (rule ext) (auto simp: put_bytes_def nth_Cons' Suc_diff_Suc)

lemma write_bytes_ok: "a + length bs \<le> DISK_SIZE \<Longrightarrow> write_bytes d a bs = Ret (put_bytes a bs d)"
  by (induction bs arbitrary: a d) (simp_all add: put_bytes_Cons)

lemma put_bytes_other: "\<not> (a \<le> x \<and> x < a + length bs) \<Longrightarrow> put_bytes a bs d x = d x"
  by (auto simp: put_bytes_def)

lemma load_put_bytes_other:
  "x + n \<le> a \<or> a + length bs \<le> x \<Longrightarrow> load_le n (put_bytes a bs d) x = load_le n d x"
  by (rule load_le_eq) (auto simp: put_bytes_def)

lemma put_bytes_nth: "i < length bs \<Longrightarrow> put_bytes a bs d (a + i) = bs ! i"
  by (simp add: put_bytes_def)

section \<open>Adding an entry\<close>

text \<open>What \<open>split_entry\<close> makes of the image.\<close>

definition added :: "bytes \<Rightarrow> nat \<Rightarrow> nat \<Rightarrow> nat \<Rightarrow> nat \<Rightarrow> string \<Rightarrow> nat \<Rightarrow> bytes" where
  "added d cur cm new ino name ft =
     store_le 4 ino
       (store_le 1 ft
         (store_le 2 (minus_short (rlen d cur) cm)
           (store_le 1 (length name)
             (put_bytes (new + 8) (map char_byte name) (store_le 2 cm d (cur + 4))) (new + 6))
           (new + 4))
         (new + 7))
       new"

lemma split_entry_ok:
  assumes "length name < 256" "cm < 65536" "cur + 8 \<le> new" "new + 8 + length name \<le> DISK_SIZE"
  shows "split_entry d cur cm new ino name ft = Ret (added d cur cm new ino name ft)"
  using assms
  by (simp add: split_entry_def added_def ext2_layout[unfolded DISK_SIZE_def] rlen_def write_string_def
      write_bytes_ok load_store_simps load_put_bytes_other Let_def del: load_le.simps One_nat_def)

lemma added_other:
  assumes "\<not> (cur + 4 \<le> x \<and> x < cur + 6)" "\<not> (new \<le> x \<and> x < new + 8 + length name)"
  shows "added d cur cm new ino name ft x = d x"
proof -
  have "x < new \<or> new + 8 + length name \<le> x" using assms(2) by auto
  then show ?thesis
    using assms(1) by (auto simp: added_def put_bytes_other)
qed

lemma added_new:
  fixes d :: bytes
  assumes "length name < 256" "ft < 256" "ino < 2 ^ 32" "cm < 65536" "cur + 8 \<le> new"
  defines "d' \<equiv> added d cur cm new ino name ft"
  shows "rlen d' new = minus_short (rlen d cur) cm" "nlen d' new = length name" "ftype d' new = ft"
    "einode d' new = ino" "ename d' new = name" "rlen d' cur = cm"
proof -
  have m: "minus_short (rlen d cur) cm < 65536" by (simp add: minus_short_def nat_less_iff)
  note ls = load_store_simps load_put_bytes_other
  show "rlen d' new = minus_short (rlen d cur) cm" and n: "nlen d' new = length name"
    and "ftype d' new = ft" "einode d' new = ino" "rlen d' cur = cm"
    using assms m
    by (simp_all add: added_def rlen_def nlen_def ftype_def einode_def ext2_layout ls
        del: load_le.simps One_nat_def)
  have "d' (new + 8 + i) = map char_byte name ! i" if "i < length name" for i
    using that put_bytes_nth[of i "map char_byte name" "new + 8"] by (simp add: d'_def added_def)
  then show "ename d' new = name"
    by (auto simp: ename_def n e_name_def intro: nth_equalityI)
qed

text \<open>The chain after the insertion.\<close>

lemma chain_added:
  assumes c: "chain d a (xs @ e # ys) z" and len: "length name < 256" "0 < length name"
    and ft: "ft < 256" "ino < 2 ^ 32"
    and room: "total_entry_length (nlen d e) + total_entry_length (length name) \<le> rlen d e"
  defines "new \<equiv> e + total_entry_length (nlen d e)"
  defines "d' \<equiv> added d e (total_entry_length (nlen d e)) new ino name ft"
  shows "chain d' a (xs @ e # new # ys) z" "agree (- {a ..< z}) d d'"
    "block_list d' (xs @ e # new # ys) = block_list d (xs @ [e]) @ (name, ino, ft) # block_list d ys"
    "roomy d (xs @ e # ys) \<Longrightarrow> roomy d' (xs @ e # new # ys)"
    "x \<in> set (xs @ e # ys) \<Longrightarrow> entry_at d' x = entry_at d x"
proof -
  let ?cm = "total_entry_length (nlen d e)"
  note tb = tel_bounds[OF field_bounds(1), of d e] tel_bounds[OF len(1)]
  have cm: "?cm < 65536" "?cm \<le> rlen d e" "e + 8 \<le> new"
    using tb field_bounds(1)[of d e] room by (auto simp: new_def)
  note ms = minus_short_ok[OF cm(2) field_bounds(2)]
  note new = added_new[OF len(1) ft cm(1,3), of d, folded d'_def, unfolded ms]
  from c obtain m where cx: "chain d a xs m" "m = e" "chain d (e + rlen d e) ys z"
    by (auto simp: chain_append)
  have le: "a \<le> e" "e + rlen d e \<le> z"
    using chain_mem[OF c, of e] by auto
  have out: "d' x = d x" if "\<not> (e + 4 \<le> x \<and> x < e + 6)" "\<not> (new \<le> x \<and> x < e + rlen d e)" for x
    using that room tb by (auto simp: d'_def new_def intro!: added_other)
  show ag: "agree (- {a ..< z}) d d'"
    using le cm tb by (auto simp: agree_def new_def intro!: out[symmetric])
  have "e + 6 \<le> e + rlen d e" using tb room by linarith
  then have agx: "agree {a ..< e} d d'" and agy: "agree {e + rlen d e ..< z} d d'"
    using cm by (auto simp: agree_def intro!: out[symmetric])
  have e: "rlen d' e = ?cm" "nlen d' e = nlen d e" "entry_at d' e = entry_at d e"
  proof -
    show "rlen d' e = ?cm" by (rule new(6))
    have l: "load_le n d' x = load_le n d x" if "x = e \<or> e + 6 \<le> x" "x + n \<le> e + 8 + nlen d e" "x = e \<Longrightarrow> n = 4" for n x
      using that tb by (intro load_le_eq) (auto simp: new_def intro!: out)
    show n: "nlen d' e = nlen d e"
      using l[of "e + 6" 1] by (simp add: nlen_def name_len_def del: load_le.simps One_nat_def)
    have "ename d' e = ename d e"
      using tb by (auto simp: ename_def n new_def e_name_def intro!: arg_cong[where f = byte_char] out)
    then show "entry_at d' e = entry_at d e"
      using l[of e 4] l[of "e + 7" 1]
      by (simp add: entry_at_def einode_def ftype_def e_inode_def file_type_def del: load_le.simps One_nat_def)
  qed
  have en: "entry_at d' new = (name, ino, ft)" using new by (simp add: entry_at_def)
  have cx': "chain d' a xs e" using chain_agree[OF agx] cx(1,2) by simp
  have cy': "chain d' (e + rlen d e) ys z" using chain_agree[OF agy] cx(3) by simp
  have "new + (rlen d e - ?cm) = e + rlen d e" using cm by (simp add: new_def)
  then show "chain d' a (xs @ e # new # ys) z"
    using cx' cy' e new room tb by (auto simp: chain_append new_def)
  note bx = block_list_agree[OF agx] and by' = block_list_agree[OF agy cx(3)]
  have bx: "block_list d' xs = block_list d xs" "roomy d' xs = roomy d xs"
    using block_list_agree[OF agx] cx(1,2) by auto
  show "block_list d' (xs @ e # new # ys) = block_list d (xs @ [e]) @ (name, ino, ft) # block_list d ys"
    using bx by' e en new(2) len(2) by simp
  show "roomy d' (xs @ e # new # ys)" if "roomy d (xs @ e # ys)"
    using that bx by' e new room by simp
  show "entry_at d' x = entry_at d x" if "x \<in> set (xs @ e # ys)"
    using that e(3) chain_entries_agree(4)[OF agx, of xs x] chain_entries_agree(4)[OF agy cx(3), of x] cx(1,2)
    by auto
qed

text \<open>Room for a name of length \<open>n\<close> after the entry \<open>e\<close>.\<close>

definition has_room :: "bytes \<Rightarrow> nat \<Rightarrow> nat \<Rightarrow> bool" where
  "has_room d n e \<longleftrightarrow> total_entry_length (nlen d e) + total_entry_length n \<le> rlen d e"

lemma insert_loop_ok:
  assumes "chain d cur es (s + 1024)" "s \<le> cur" "s + 1024 \<le> DISK_SIZE" "roomy d es" "length name < 256"
  shows "insert_loop d s cur ino name ft =
    (case locate None (has_room d (length name)) es of
       None \<Rightarrow> Ret (None, d)
     | Some (_, e) \<Rightarrow>
         let cm = total_entry_length (nlen d e) in
         Ret (Some (e + cm), added d e cm (e + cm) ino name ft))"
  using assms
proof (induction es arbitrary: cur)
  case Nil
  then show ?case by (subst insert_loop.simps) (simp add: walk_end)
next
  case (Cons e es)
  then have c: "e = cur" "chain d e (e # es) (s + 1024)" "chain d (e + rlen d e) es (s + 1024)" "s \<le> e"
    by auto
  note w = walk_step[OF c(2,4) Cons.prems(3)]
  let ?cm = "total_entry_length (nlen d e)" and ?tn = "total_entry_length (length name)"
  from Cons.prems(4) have cm: "?cm \<le> rlen d e" by simp
  have rd: "min_rec_len d e = Ret ?cm" "rd 2 d (e + rec_len) = Ret (rlen d e)"
    using w(3) Cons.prems(3)
    by (simp_all add: min_rec_len_def nlen_def rlen_def name_len_def rec_len_def)
  note ms = minus_short_ok[OF cm field_bounds(2)]
  note tb = tel_bounds[OF field_bounds(1), of d e] tel_bounds[OF Cons.prems(5)]
  have end_le: "e + rlen d e \<le> s + 1024" using chain_le[OF c(3)] .
  show ?case
  proof (cases "has_room d (length name) e")
    case True
    then have r: "?cm + ?tn \<le> rlen d e" by (simp add: has_room_def)
    have "is_entry_in_block s (e + ?cm)"
      using r tb end_le c(4) by (auto simp: is_entry_in_block_def EXT2_BLOCK_SIZE_def)
    moreover have "split_entry d e ?cm (e + ?cm) ino name ft = Ret (added d e ?cm (e + ?cm) ino name ft)"
      using r tb end_le Cons.prems(3,5) field_bounds(2)[of d e] by (intro split_entry_ok) auto
    moreover have "?tn \<le> rlen d e - ?cm" using r by simp
    ultimately show ?thesis
      using w rd ms c(1) Cons.prems(5) True
      by (subst insert_loop.simps) (simp add: get_shifted_dir_entry_def Let_def)
  next
    case False
    then have "\<not> ?tn \<le> rlen d e - ?cm" using cm by (simp add: has_room_def)
    then show ?thesis
      using w rd ms c(1,4) False Cons.IH[OF c(3) _ Cons.prems(3) _ Cons.prems(5)] Cons.prems(4,5)
      by (subst insert_loop.simps) (simp add: Let_def, cases es, auto)
  qed
qed

section \<open>An entry without the room\<close>

text \<open>The search and the insertion pass the entries that do not match and have no room.\<close>

lemma pair_loop_prefix:
  assumes "chain d cur es m" "s \<le> cur" "m \<le> s + 1024" "s + 1024 \<le> DISK_SIZE"
    and "\<forall>e \<in> set es. ename d e \<noteq> name"
  shows "\<exists>q. pair_loop d s cur prev name = pair_loop d s m q name"
  using assms
proof (induction es arbitrary: cur prev)
  case Nil
  then show ?case by auto
next
  case (Cons e es)
  then have c: "e = cur" "8 + nlen d e \<le> rlen d e" "chain d (e + rlen d e) es m" by auto
  have le: "e + rlen d e \<le> m" using chain_le[OF c(3)] .
  have "is_valid_dir_entry d s e = Ret True" "get_next_dir_entry d e = Ret (e + rlen d e)"
    "entry_name_comparison d e name = Ret False"
    using c le Cons.prems(2-5)
    by (auto simp: is_valid_dir_entry_def is_entry_in_block_def EXT2_BLOCK_SIZE_def get_next_dir_entry_def
        get_shifted_dir_entry_def rlen_def rec_len_def name_comparison_ok)
  then have "pair_loop d s cur prev name = pair_loop d s (e + rlen d e) (Some e) name"
    using c(1) by (subst pair_loop.simps) simp
  moreover have "\<exists>q. pair_loop d s (e + rlen d e) (Some e) name = pair_loop d s m q name"
    using Cons.IH[OF c(3)] c(1) Cons.prems by auto
  ultimately show ?case by simp
qed

lemma insert_loop_prefix:
  assumes "chain d cur es m" "s \<le> cur" "m \<le> s + 1024" "s + 1024 \<le> DISK_SIZE" "roomy d es"
    and "length name < 256" "\<forall>e \<in> set es. \<not> has_room d (length name) e"
  shows "insert_loop d s cur ino name ft = insert_loop d s m ino name ft"
  using assms
proof (induction es arbitrary: cur)
  case Nil
  then show ?case by simp
next
  case (Cons e es)
  then have c: "e = cur" "8 + nlen d e \<le> rlen d e" "chain d (e + rlen d e) es m" by auto
  have le: "e + rlen d e \<le> m" using chain_le[OF c(3)] .
  have "is_valid_dir_entry d s e = Ret True" "get_next_dir_entry d e = Ret (e + rlen d e)"
    "min_rec_len d e = Ret (total_entry_length (nlen d e))" "rd 2 d (e + rec_len) = Ret (rlen d e)"
    using c le Cons.prems(2-4)
    by (auto simp: is_valid_dir_entry_def is_entry_in_block_def EXT2_BLOCK_SIZE_def get_next_dir_entry_def
        get_shifted_dir_entry_def rlen_def rec_len_def min_rec_len_def nlen_def name_len_def)
  moreover have cm: "total_entry_length (nlen d e) \<le> rlen d e" using Cons.prems(5) by simp
  note minus_short_ok[OF cm field_bounds(2)]
  moreover have "\<not> total_entry_length (length name) \<le> rlen d e - total_entry_length (nlen d e)"
  proof -
    have "\<not> has_room d (length name) e" using Cons.prems(7) by simp
    with cm show ?thesis unfolding has_room_def by linarith
  qed
  ultimately have "insert_loop d s cur ino name ft = insert_loop d s (e + rlen d e) ino name ft"
    using c(1) Cons.prems(6) by (subst insert_loop.simps) (simp add: Let_def)
  then show ?case using Cons.IH[OF c(3)] c(1) Cons.prems by simp
qed

text \<open>
  A name whose length is a multiple of 4 fills its entry to the end (as \<^verbatim>\<open>mke2fs\<close> and the
  kernel lay entries out). The room left is then computed as a negative number in an unsigned
  short: the new entry is put over the next one, and the walk over the block ends there.
\<close>

lemma insert_overwrites:
  assumes b: "entry_block d s (xs @ e # y # ys)" and r: "roomy d xs" "\<forall>x \<in> set xs. \<not> has_room d (length name) x"
    and tight: "rlen d e = 8 + nlen d e" "nlen d e mod 4 = 0"
    and name: "length name < 256" and t: "ft < 256" "ino < 2 ^ 32"
  defines "new \<equiv> e + 12 + nlen d e"
  defines "d' \<equiv> added d e (12 + nlen d e) new ino name ft"
  assumes fit: "new + 8 + length name \<le> s + 1024"
  shows "make_entry_in_existing_block d s ino name ft = Ret (Some new, d')"
    and "e + rlen d e = y \<and> y < new \<and> new < y + 8"
    and "n \<noteq> name \<Longrightarrow> n \<notin> ename d ` set (xs @ [e]) \<Longrightarrow> block_matching_pair d' s n = Ret None"
proof -
  from b have bl: "s + 1024 \<le> DISK_SIZE" and c: "chain d s (xs @ e # y # ys) (s + 1024)"
    by (auto simp: entry_block_def)
  then have cx: "chain d s xs e" and cy: "chain d y (y # ys) (s + 1024)" and y: "y = e + rlen d e"
    by (auto simp: chain_append)
  have se: "s \<le> e" "e \<le> s + 1024" using chain_le[OF cx] fit by (auto simp: new_def)
  have tel: "total_entry_length (nlen d e) = 12 + nlen d e"
    using tight(2) field_bounds(1)[of d e] by (simp add: tel_eq minus_mod_eq_mult_div[symmetric])
  have nl: "nlen d e < 256" by (rule field_bounds)
  have ms: "minus_short (rlen d e) (12 + nlen d e) = 65532"
    using tight nl by (simp add: minus_short_wraps)
  have tn: "total_entry_length (length name) \<le> 65532" using tel_bounds[OF name] name by simp
  have "is_valid_dir_entry d s e = Ret True" "min_rec_len d e = Ret (12 + nlen d e)"
    "rd 2 d (e + rec_len) = Ret (rlen d e)" "is_entry_in_block s new"
    using tel fit bl se tight
    by (auto simp: is_valid_dir_entry_def is_entry_in_block_def EXT2_BLOCK_SIZE_def new_def
        rlen_def rec_len_def min_rec_len_def nlen_def name_len_def)
  moreover have "split_entry d e (12 + nlen d e) new ino name ft = Ret d'"
    unfolding d'_def using name nl fit bl by (intro split_entry_ok) (auto simp: new_def)
  ultimately have "insert_loop d s e ino name ft = Ret (Some new, d')"
    using ms tn name by (subst insert_loop.simps) (simp add: Let_def get_shifted_dir_entry_def new_def add.assoc)
  then show "make_entry_in_existing_block d s ino name ft = Ret (Some new, d')"
    using insert_loop_prefix[OF cx _ se(2) bl r(1) name r(2)]
    by (simp add: make_entry_in_existing_block_def)
  show "e + rlen d e = y \<and> y < new \<and> new < y + 8" using y tight by (simp add: new_def)
  show "block_matching_pair d' s n = Ret None" if n: "n \<noteq> name" "n \<notin> ename d ` set (xs @ [e])"
  proof -
    note nw = added_new[OF name t, of "12 + nlen d e" e new d, folded d'_def]
    have "12 + nlen d e < 65536" "e + 8 \<le> new" using nl by (auto simp: new_def)
    note nw = nw[OF this]
    have out: "d' x = d x" if "\<not> (e + 4 \<le> x \<and> x < e + 6)" "x < new" for x
      using that unfolding d'_def by (intro added_other) auto
    have ag: "agree {s ..< e} d d'" by (auto simp: agree_def new_def intro!: out[symmetric])
    have cx': "chain d' s xs e" using chain_agree[OF ag cx] .
    have nx: "\<forall>x \<in> set xs. ename d' x \<noteq> n"
      using chain_entries_agree(3)[OF ag cx] n(2) by auto
    have "d' (e + 6) = d (e + 6)" by (rule out) (auto simp: new_def)
    then have ne: "nlen d' e = nlen d e" by (simp add: nlen_def name_len_def)
    have "ename d' e = ename d e"
      by (auto simp: ename_def ne new_def e_name_def intro!: arg_cong[where f = byte_char] out)
    then have en: "ename d' e \<noteq> n" using n(2) by auto
    have ce: "chain d' s (xs @ [e]) new"
      using cx' ne nw(6) by (auto simp: chain_append new_def)
    from pair_loop_prefix[OF ce _ _ bl, of n None] fit nx en obtain q where
      q: "pair_loop d' s s None n = pair_loop d' s new q n" by auto
    have nb: "new + 8 + nlen d' new \<le> DISK_SIZE" using nw(2) fit bl by simp
    have "is_valid_dir_entry d' s new = Ret True" "get_next_dir_entry d' new = Ret (new + 65532)"
      using nw(1) ms fit bl se
      by (auto simp: is_valid_dir_entry_def is_entry_in_block_def EXT2_BLOCK_SIZE_def get_next_dir_entry_def
          get_shifted_dir_entry_def rlen_def rec_len_def new_def)
    moreover have "\<not> is_entry_in_block s (new + 65532)"
      using se by (auto simp: is_entry_in_block_def EXT2_BLOCK_SIZE_def new_def)
    then have "is_valid_dir_entry d' s (new + 65532) = Ret False"
      by (simp add: is_valid_dir_entry_def)
    moreover have "entry_name_comparison d' new n = Ret False"
      using name_comparison_ok[OF nb] nw(5) n(1) by simp
    ultimately have "pair_loop d' s new q n = Ret None"
      by (subst pair_loop.simps, simp, subst pair_loop.simps, simp)
    with q show ?thesis by (simp add: block_matching_pair_def)
  qed
qed

section \<open>Deleting an entry\<close>

text \<open>The list without the first entry of a name.\<close>

definition drop_name :: "string \<Rightarrow> dirent list \<Rightarrow> dirent list" where
  "drop_name name xs =
     takeWhile (\<lambda>x. fst x \<noteq> name) xs @ drop 1 (dropWhile (\<lambda>x. fst x \<noteq> name) xs)"

lemma drop_name_split:
  "fst x = name \<Longrightarrow> name \<notin> fst ` set xs \<Longrightarrow> drop_name name (xs @ x # ys) = xs @ ys"
proof -
  assume a: "fst x = name" "name \<notin> fst ` set xs"
  then have "\<And>z. z \<in> set xs \<Longrightarrow> fst z \<noteq> name" by (metis imageI)
  with a(1) show ?thesis by (simp add: drop_name_def)
qed

lemma fst_entry_at [simp]: "fst (entry_at d e) = ename d e"
  by (simp add: entry_at_def)

lemma unlink_first:
  assumes c: "chain d a (e # ys) z" and z: "z \<le> DISK_SIZE"
  defines "d' \<equiv> store_le 1 0 d (e + 6)"
  shows "unlink_pair d (None, e) = Ret d'" "chain d' a (e # ys) z" "agree (- {a ..< z}) d d'"
    "block_list d' (e # ys) = block_list d ys" "roomy d (e # ys) \<Longrightarrow> roomy d' (e # ys)"
    "x \<in> set (e # ys) \<Longrightarrow> einode d' x = einode d x"
proof -
  from c have ca: "e = a" "8 + nlen d e \<le> rlen d e" "chain d (e + rlen d e) ys z" by auto
  have le: "e + rlen d e \<le> z" using chain_le[OF ca(3)] .
  have f: "nlen d' e = 0" "rlen d' e = rlen d e" "einode d' e = einode d e"
    by (simp_all add: d'_def nlen_def rlen_def einode_def ext2_layout load_store_simps del: load_le.simps One_nat_def)
  have ag: "agree {e + rlen d e ..< z} d d'"
    unfolding d'_def by (rule agree_store) (use ca(2) in auto)
  show "unlink_pair d (None, e) = Ret d'"
    using le ca(2) z by (simp add: unlink_pair_def d'_def name_len_def)
  show "chain d' a (e # ys) z" using chain_agree[OF ag ca(3)] f ca by simp
  show "agree (- {a ..< z}) d d'"
    unfolding d'_def by (rule agree_store) (use ca le in auto)
  show "block_list d' (e # ys) = block_list d ys"
    using f block_list_agree(1)[OF ag ca(3)] by simp
  show "roomy d' (e # ys)" if "roomy d (e # ys)"
  proof -
    have "total_entry_length 0 \<le> total_entry_length (nlen d e)"
      using tel_mono[of 0 "nlen d e"] field_bounds(1) by simp
    with that f block_list_agree(2)[OF ag ca(3)] show ?thesis by simp
  qed
  show "einode d' x = einode d x" if "x \<in> set (e # ys)"
    using that f(3) chain_entries_agree(6)[OF ag ca(3)] by auto
qed

lemma unlink_later:
  assumes c: "chain d a (xs @ p # e # ys) z" and z: "z \<le> DISK_SIZE" "z \<le> a + 1024"
  defines "d' \<equiv> store_le 2 (rlen d p + rlen d e) d (p + 4)"
  shows "unlink_pair d (Some p, e) = Ret d'" "chain d' a (xs @ p # ys) z" "agree (- {a ..< z}) d d'"
    "block_list d' (xs @ p # ys) = block_list d (xs @ p # ys)"
    "roomy d (xs @ p # e # ys) \<Longrightarrow> roomy d' (xs @ p # ys)"
    "x \<in> set (xs @ p # e # ys) \<Longrightarrow> einode d' x = einode d x"
proof -
  from c obtain m where cx: "chain d a xs m" "m = p" "e = p + rlen d p" "8 + nlen d p \<le> rlen d p"
    "8 + nlen d e \<le> rlen d e" "chain d (e + rlen d e) ys z" by (auto simp: chain_append)
  have le: "a \<le> p" "e + rlen d e \<le> z" using chain_le[OF cx(1)] chain_le[OF cx(6)] cx(2) by auto
  have sum: "rlen d p + rlen d e < 65536" using le cx(3) z(2) by simp
  have f: "nlen d' p = nlen d p" "rlen d' p = rlen d p + rlen d e" "einode d' p = einode d p"
    "ftype d' p = ftype d p" "einode d' e = einode d e"
    using cx(3,4) sum
    by (simp_all add: d'_def nlen_def rlen_def einode_def ftype_def ext2_layout load_store_simps del: load_le.simps One_nat_def)
  have "d' (p + 8 + i) = d (p + 8 + i)" for i by (simp add: d'_def)
  then have "ename d' p = ename d p" by (simp add: ename_def f e_name_def)
  then have ent: "entry_at d' p = entry_at d p" by (simp add: entry_at_def f)
  have agx: "agree {a ..< p} d d'" and agy: "agree {e + rlen d e ..< z} d d'"
    unfolding d'_def by (rule agree_store, use cx(3,4) in auto)+
  have "add_field 2 d (p + rec_len) (int (rlen d e)) = Ret d'"
    using le cx(3,4) z(1) sum
    by (simp add: add_field_def d'_def rlen_def rec_len_def of_nat_add[symmetric] del: of_nat_add)
  then show "unlink_pair d (Some p, e) = Ret d'"
    using le cx(5) z(1) by (simp add: unlink_pair_def rlen_def rec_len_def)
  show "chain d' a (xs @ p # ys) z"
    using chain_agree[OF agx] chain_agree[OF agy cx(6)] f cx by (auto simp: chain_append add.assoc)
  show "agree (- {a ..< z}) d d'"
    unfolding d'_def by (rule agree_store) (use cx(3,4) le in auto)
  have bx: "block_list d' xs = block_list d xs" "roomy d' xs = roomy d xs"
    using block_list_agree[OF agx] cx(1,2) by auto
  then show "block_list d' (xs @ p # ys) = block_list d (xs @ p # ys)"
    using block_list_agree(1)[OF agy cx(6)] f ent by simp
  show "roomy d' (xs @ p # ys)" if "roomy d (xs @ p # e # ys)"
    using that bx block_list_agree(2)[OF agy cx(6)] f by simp
  show "einode d' x = einode d x" if x: "x \<in> set (xs @ p # e # ys)"
  proof -
    consider "x \<in> set xs" | "x = p \<or> x = e" | "x \<in> set ys" using x by auto
    then show ?thesis
    proof cases
      case 1
      then show ?thesis using chain_entries_agree(6)[OF agx] cx(1,2) by simp
    next
      case 2
      then show ?thesis using f(3,5) by auto
    next
      case 3
      then show ?thesis by (rule chain_entries_agree(6)[OF agy cx(6)])
    qed
  qed
qed

lemma unlink_pair_ok:
  assumes b: "entry_block d s es" and l: "locate None (\<lambda>e. ename d e = name) es = Some p"
    and n: "name \<noteq> []"
  obtains d' es' where "unlink_pair d p = Ret d'" "agree (- {s ..< s + 1024}) d d'" "entry_block d' s es'"
    "block_list d' es' = drop_name name (block_list d es)" "roomy d es \<Longrightarrow> roomy d' es'"
    "\<forall>x \<in> set es. einode d' x = einode d x"
proof -
  obtain q e where p: "p = (q, e)" by (cases p)
  from locate_SomeD[OF l[unfolded p]] obtain xs ys where s: "es = xs @ e # ys" "ename d e = name"
    "\<forall>x \<in> set xs. ename d x \<noteq> name" "q = (if xs = [] then None else Some (last xs))" by auto
  from b have c: "chain d s es (s + 1024)" "s + 1024 \<le> DISK_SIZE" by (auto simp: entry_block_def)
  have ne: "0 < nlen d e" using s(2) n length_ename[of d e] by (cases "nlen d e") auto
  have "name \<notin> fst ` set (block_list d xs)" using s(3) by (auto simp: block_list_def)
  with s ne drop_name_split[of "entry_at d e" name "block_list d xs" "block_list d ys"]
  have dn: "drop_name name (block_list d es) = block_list d xs @ block_list d ys" by simp
  show thesis
  proof (cases "xs = []")
    case True
    note u = unlink_first[of d s e ys "s + 1024"]
    show thesis
      by (rule that[of "store_le 1 0 d (e + 6)" es]) (use u c s True p dn in \<open>auto simp: entry_block_def\<close>)
  next
    case False
    define x xs0 where "x = last xs" and "xs0 = butlast xs"
    with False have xs: "xs = xs0 @ [x]" by simp
    then have es: "es = xs0 @ x # e # ys" "p = (Some x, e)" using s p False x_def by auto
    note u = unlink_later[OF c(1)[unfolded es] c(2)]
    show thesis
      by (rule that[of "store_le 2 (rlen d x + rlen d e) d (x + 4)" "xs0 @ x # ys"])
        (use u c(2) dn xs es in \<open>auto simp: entry_block_def\<close>)
  qed
qed

section \<open>Printing\<close>

text \<open>A C string of the image ends with a zero byte; the name of an entry need not.\<close>

definition terminated :: "bytes \<Rightarrow> nat \<Rightarrow> bool" where
  "terminated d e \<longleftrightarrow> d (e + 8 + nlen d e) = 0 \<and> (\<forall>i < nlen d e. d (e + 8 + i) \<noteq> 0)"

lemma byte_char_eq_iff: "byte_char b = c \<longleftrightarrow> b = char_byte c"
proof
  assume "byte_char b = c"
  then have "char_byte c = word_of_nat (of_char (char_of (unat b) :: char))"
    by (simp add: char_byte_def byte_char_def)
  also have "\<dots> = b"
    using unsigned_less[of b, where ?'a = nat] by simp
  finally show "b = char_byte c" by simp
qed simp

lemma strcmp_eq_ok:
  assumes "terminated d e" "e + 9 + nlen d e \<le> DISK_SIZE" "k \<le> nlen d e" "\<forall>c \<in> set lit. char_byte c \<noteq> 0"
  shows "strcmp_eq d (e + 8 + k) lit = Ret (drop k (ename d e) = lit)"
  using assms(3,4)
proof (induction lit arbitrary: k)
  case Nil
  then show ?case using assms(1,2) by (auto simp: terminated_def) (metis le_neq_implies_less)
next
  case (Cons c cs)
  show ?case
  proof (cases "k < nlen d e")
    case True
    then have "drop k (ename d e) = byte_char (d (e + 8 + k)) # drop (Suc k) (ename d e)"
      by (subst Cons_nth_drop_Suc[symmetric]) (auto simp: ename_def e_name_def)
    then show ?thesis
      using True assms(2) Cons.IH[of "Suc k"] Cons.prems(2) by (simp add: add.assoc)
  next
    case False
    then have k: "k = nlen d e" using Cons.prems(1) by simp
    then have "byte_char (d (e + 8 + k)) \<noteq> c"
      using assms(1) Cons.prems(2) by (auto simp: terminated_def byte_char_eq_iff)
    then show ?thesis using k assms(2) by simp
  qed
qed

lemma read_name_ok: "a + n \<le> DISK_SIZE \<Longrightarrow> read_name n d a = Ret (map (\<lambda>i. byte_char (d (a + i))) [0..<n])"
proof (induction n arbitrary: a)
  case (Suc n)
  have "map (\<lambda>i. byte_char (d (a + i))) [0..<Suc n]
      = byte_char (d a) # map (\<lambda>i. byte_char (d (Suc a + i))) [0..<n]"
    by (simp only: upt_conv_Cons[of 0 "Suc n"] map_Suc_upt[symmetric]) (simp add: map_Suc_upt[symmetric] del: upt_Suc)
  then show ?case using Suc.IH[of "Suc a"] Suc.prems by simp
qed simp

definition dot_names :: "string set" where "dot_names = {''.'', ''..''}"

text \<open>The lines of one entry.\<close>

definition shown :: "bool \<Rightarrow> dirent list \<Rightarrow> string list" where
  "shown dots xs = filter (\<lambda>n. dots \<or> n \<notin> dot_names) (map fst xs)"

lemma shown_simps [simp]:
  "shown dots [] = []" "shown dots (xs @ ys) = shown dots xs @ shown dots ys"
  "shown dots (x # xs) = (if dots \<or> fst x \<notin> dot_names then [fst x] else []) @ shown dots xs"
  by (simp_all add: shown_def)

lemma print_entry_ok:
  assumes "e + 9 + nlen d e \<le> DISK_SIZE" and "\<not> dots \<Longrightarrow> terminated d e"
  shows "print_entry d e dots = Ret (shown dots (block_list d [e]))"
proof -
  have n: "rd 1 d (e + name_len) = Ret (nlen d e)"
    using assms(1) by (simp add: nlen_def name_len_def)
  have pn: "print_dir_name d e = Ret (ename d e)"
    using assms(1) n read_name_ok[of "e + 8" "nlen d e" d]
    by (simp add: print_dir_name_def e_name_def ename_def)
  show ?thesis
  proof (cases dots)
    case True
    then show ?thesis using n pn by (simp add: print_entry_def)
  next
    case False
    have dot: "char_byte CHR ''.'' \<noteq> 0" by (simp add: char_byte_def)
    have "strcmp_eq d (e + e_name) ''.'' = Ret (ename d e = ''.'')"
      "strcmp_eq d (e + e_name) ''..'' = Ret (ename d e = ''..'')"
      using strcmp_eq_ok[OF assms(2)[OF False] assms(1), of 0 "''.''"]
        strcmp_eq_ok[OF assms(2)[OF False] assms(1), of 0 "''..''"] dot
      by (simp_all add: e_name_def del: strcmp_eq.simps)
    then show ?thesis
      using False n pn length_ename[of d e] by (auto simp: print_entry_def dot_names_def simp del: strcmp_eq.simps)
  qed
qed

lemma print_loop_ok:
  assumes "chain d cur es (s + 1024)" "s \<le> cur" "s + 1024 \<le> DISK_SIZE" "roomy d es"
    and "\<not> dots \<Longrightarrow> \<forall>e \<in> set es. terminated d e"
  shows "print_loop d s cur dots = Ret (shown dots (block_list d es))"
  using assms
proof (induction es arbitrary: cur)
  case Nil
  then show ?case by (subst print_loop.simps) (simp add: walk_end)
next
  case (Cons e es)
  then have c: "e = cur" "chain d e (e # es) (s + 1024)" "chain d (e + rlen d e) es (s + 1024)" "s \<le> e"
    by auto
  note w = walk_step[OF c(2,4) Cons.prems(3)]
  have "e + 9 + nlen d e \<le> DISK_SIZE"
    using chain_le[OF c(3)] Cons.prems(3,4) tel_bounds[OF field_bounds(1), of d e] by simp
  then have "print_entry d e dots = Ret (shown dots (block_list d [e]))"
    using Cons.prems(5) by (intro print_entry_ok) auto
  then show ?case
    using w Cons.IH[OF c(3) _ Cons.prems(3)] c(1,4) Cons.prems(4,5)
    by (subst print_loop.simps) auto
qed

lemma print_block_contents_ok:
  "entry_block d s es \<Longrightarrow> roomy d es \<Longrightarrow> (\<not> dots \<Longrightarrow> \<forall>e \<in> set es. terminated d e) \<Longrightarrow>
     print_block_contents d s dots = Ret (shown dots (block_list d es))"
  by (simp add: print_block_contents_def entry_block_def print_loop_ok)

end
