(* ===== verification/Ext2_Alloc_Inv.thy ===== *)
theory Ext2_Alloc_Inv
  imports Ext2_Inv
begin

text \<open>
  Allocation and freeing on an image with the standard geometry: which block or inode is chosen,
  and exactly which bytes change. An inode is treated as having direct blocks only when its
  pointer to an indirect block is 0.
\<close>

section \<open>Counters\<close>

definition free_blocks :: "bytes \<Rightarrow> nat" where "free_blocks d = load_le 4 d 1036"
definition free_inodes :: "bytes \<Rightarrow> nat" where "free_inodes d = load_le 4 d 1040"

definition bump :: "nat \<Rightarrow> nat \<Rightarrow> int \<Rightarrow> bytes \<Rightarrow> bytes" where
  "bump n a c d = store_le n (nat ((int (load_le n d a) + c) mod 2 ^ (8 * n))) d a"

lemma add_field_ok: "a + n \<le> DISK_SIZE \<Longrightarrow> add_field n d a c = Ret (bump n a c d)"
  by (simp add: add_field_def bump_def)

lemma agree_bump: "{a ..< a + n} \<inter> A = {} \<Longrightarrow> agree A d (bump n a c d)"
  by (simp add: bump_def agree_store)

lemma load_bump: "load_le n (bump n a c d) a = nat ((int (load_le n d a) + c) mod 2 ^ (8 * n))"
proof -
  have "(256 :: nat) ^ n = 2 ^ (8 * n)" by (simp add: power_mult)
  moreover have "nat ((int (load_le n d a) + c) mod 2 ^ (8 * n)) < 2 ^ (8 * n)"
    by (simp add: nat_less_iff)
  ultimately show ?thesis by (simp add: bump_def load_store_part)
qed

definition bump_blocks :: "int \<Rightarrow> bytes \<Rightarrow> bytes" where
  "bump_blocks c d = bump 2 2060 c (bump 4 1036 c d)"

definition bump_inodes :: "int \<Rightarrow> bytes \<Rightarrow> bytes" where
  "bump_inodes c d = bump 2 2062 c (bump 4 1040 c d)"

text \<open>The bytes of the counters and of the two bitmaps.\<close>

definition count_bytes :: "nat set" where
  "count_bytes = {1036 ..< 1044} \<union> {2060 ..< 2066}"

definition map_bytes :: "nat set" where
  "map_bytes = {3072 ..< 3088} \<union> {4096 ..< 4100}"

lemma bump_counts:
  "increase_free_blocks_count d c = Ret (bump_blocks c d)"
  "increase_free_inodes_count d c = Ret (bump_inodes c d)"
  by (simp_all add: increase_free_blocks_count_def increase_free_inodes_count_def bump_blocks_def
      bump_inodes_def add_field_ok ext2_layout)

lemma agree_bump_counts:
  assumes "A \<inter> count_bytes = {}"
  shows "agree A d (bump_blocks c d)" "agree A d (bump_inodes c d)"
proof -
  have s: "{a ..< a + n} \<inter> A = {}" if "{a ..< a + n} \<subseteq> count_bytes" for a n
    using assms that by blast
  show "agree A d (bump_blocks c d)" "agree A d (bump_inodes c d)"
    unfolding bump_blocks_def bump_inodes_def
    by (rule agree_trans[OF agree_bump agree_bump]; rule s; auto simp: count_bytes_def)+
qed

lemma bump_free:
  "free_blocks (bump_blocks c d) = nat ((int (free_blocks d) + c) mod 2 ^ 32)"
  "free_inodes (bump_blocks c d) = free_inodes d"
  "free_inodes (bump_inodes c d) = nat ((int (free_inodes d) + c) mod 2 ^ 32)"
  "free_blocks (bump_inodes c d) = free_blocks d"
proof -
  have "load_le 4 (bump 2 a c e) x = load_le 4 e x" if "x + 4 \<le> a" for a e x
    using that by (simp add: bump_def load_store_other)
  moreover have "load_le 4 (bump 4 a c e) x = load_le 4 e x" if "x + 4 \<le> a \<or> a + 4 \<le> x" for a e x
    using that by (simp add: bump_def load_store_other)
  ultimately show "free_blocks (bump_blocks c d) = nat ((int (free_blocks d) + c) mod 2 ^ 32)"
    "free_inodes (bump_blocks c d) = free_inodes d"
    "free_inodes (bump_inodes c d) = nat ((int (free_inodes d) + c) mod 2 ^ 32)"
    "free_blocks (bump_inodes c d) = free_blocks d"
    using load_bump[of 4 1036 c d] load_bump[of 4 1040 c d]
    by (simp_all add: free_blocks_def free_inodes_def bump_blocks_def bump_inodes_def)
qed

lemma geometry_bump [simp]:
  "geometry (bump_blocks c d) = geometry d" "geometry (bump_inodes c d) = geometry d"
proof -
  have "geo_bytes \<inter> count_bytes = {}" by (auto simp: geo_bytes_def count_bytes_def)
  from agree_bump_counts[OF this] show "geometry (bump_blocks c d) = geometry d"
    "geometry (bump_inodes c d) = geometry d" by (simp_all add: geometry_agree)
qed

lemma used_agree:
  assumes "agree A d d'" "map_bytes \<subseteq> A"
  shows "b < 129 \<Longrightarrow> block_used d' b = block_used d b" "n < 33 \<Longrightarrow> inode_used d' n = inode_used d n"
proof -
  show "block_used d' b = block_used d b" if "b < 129"
  proof -
    have "(b - 1) div 8 < 16" using that by (simp add: less_mult_imp_div_less)
    then have "3072 + (b - 1) div 8 \<in> A" using assms(2) by (auto simp: map_bytes_def)
    then show ?thesis using assms(1) by (simp add: block_used_def bit_at_def agree_def)
  qed
  show "inode_used d' n = inode_used d n" if "n < 33"
  proof -
    have "(n - 1) div 8 < 4" using that by (simp add: less_mult_imp_div_less)
    then have "4096 + (n - 1) div 8 \<in> A" using assms(2) by (auto simp: map_bytes_def)
    then show ?thesis using assms(1) by (simp add: inode_used_def bit_at_def agree_def)
  qed
qed

lemma used_bump [simp]:
  "b < 129 \<Longrightarrow> block_used (bump_blocks c d) b = block_used d b"
  "n < 33 \<Longrightarrow> inode_used (bump_blocks c d) n = inode_used d n"
  "b < 129 \<Longrightarrow> block_used (bump_inodes c d) b = block_used d b"
  "n < 33 \<Longrightarrow> inode_used (bump_inodes c d) n = inode_used d n"
proof -
  have "map_bytes \<inter> count_bytes = {}" by (auto simp: map_bytes_def count_bytes_def)
  note ag = agree_bump_counts[OF this]
  show "b < 129 \<Longrightarrow> block_used (bump_blocks c d) b = block_used d b"
    "n < 33 \<Longrightarrow> inode_used (bump_blocks c d) n = inode_used d n"
    "b < 129 \<Longrightarrow> block_used (bump_inodes c d) b = block_used d b"
    "n < 33 \<Longrightarrow> inode_used (bump_inodes c d) n = inode_used d n"
    using used_agree[OF ag(1) subset_refl] used_agree[OF ag(2) subset_refl] by auto
qed

section \<open>Blocks\<close>

definition block_bytes :: "nat \<Rightarrow> nat set" where
  "block_bytes b = {1024 * b ..< 1024 * b + 1024}"

lemma block_bytes_disjoint: "b \<noteq> c \<Longrightarrow> block_bytes b \<inter> block_bytes c = {}"
proof -
  assume "b \<noteq> c"
  then consider "b + 1 \<le> c" | "c + 1 \<le> b" by linarith
  then show ?thesis
  proof cases
    case 1
    then have "1024 * b + 1024 \<le> 1024 * c" by simp
    then show ?thesis by (auto simp: block_bytes_def)
  next
    case 2
    then have "1024 * c + 1024 \<le> 1024 * b" by simp
    then show ?thesis by (auto simp: block_bytes_def)
  qed
qed

text \<open>The metadata lies below block 9.\<close>

lemma block_bytes_above: "9 \<le> b \<Longrightarrow> a \<in> block_bytes b \<Longrightarrow> 9216 \<le> a"
  by (auto simp: block_bytes_def)

definition claim :: "nat \<Rightarrow> bytes \<Rightarrow> bytes" where
  "claim b d = memset (mark_block b True d) (1024 * b) 0 1024"

lemma claim_geometry: "geometry d \<Longrightarrow> 9 \<le> b \<Longrightarrow> b < 128 \<Longrightarrow> geometry (claim b d)"
  unfolding claim_def
  by (subst geometry_agree[OF agree_memset]) (auto simp: geo_bytes_def intro: geometry_mark)

lemma claim_used:
  assumes "9 \<le> b" "b < 128" "0 < c"
  shows "c < 129 \<Longrightarrow> block_used (claim b d) c = (c = b \<or> block_used d c)"
    "c < 33 \<Longrightarrow> inode_used (claim b d) c = inode_used d c"
proof -
  have ag: "agree map_bytes (mark_block b True d) (claim b d)"
    unfolding claim_def by (rule agree_memset) (use assms in \<open>auto simp: map_bytes_def\<close>)
  show "block_used (claim b d) c = (c = b \<or> block_used d c)" if "c < 129"
    using used_agree(1)[OF ag subset_refl that] used_mark(1)[of b c] assms by simp
  have "agree {4096 ..< 4100} d (mark_block b True d)"
    by (rule agree_mark_block) (use assms in auto)
  moreover have "(c - 1) div 8 < 4" if "c < 33" using that by (simp add: less_mult_imp_div_less)
  ultimately have "inode_used (mark_block b True d) c = inode_used d c" if "c < 33"
    using that by (auto simp: inode_used_def bit_at_def agree_def)
  then show "inode_used (claim b d) c = inode_used d c" if "c < 33"
    using used_agree(2)[OF ag subset_refl that] that by simp
qed

lemma claim_bytes:
  assumes "9 \<le> b" "b < 128"
  shows "a \<in> block_bytes b \<Longrightarrow> claim b d a = 0"
    "a \<notin> block_bytes b \<Longrightarrow> a \<notin> map_bytes \<Longrightarrow> claim b d a = d a"
  using assms mark_block_other[of b a True d] by (auto simp: claim_def memset_def block_bytes_def map_bytes_def)

definition claims :: "nat list \<Rightarrow> bytes \<Rightarrow> bytes" where
  "claims bs d = fold claim bs d"

lemma claims_simps [simp]: "claims [] d = d" "claims (b # bs) d = claims bs (claim b d)"
  by (simp_all add: claims_def)

lemma claims_ok:
  assumes "set bs \<subseteq> {9 ..< 128}" "geometry d"
  shows "geometry (claims bs d)"
    "0 < c \<Longrightarrow> c < 129 \<Longrightarrow> block_used (claims bs d) c = (c \<in> set bs \<or> block_used d c)"
    "0 < c \<Longrightarrow> c < 33 \<Longrightarrow> inode_used (claims bs d) c = inode_used d c"
    "a \<notin> map_bytes \<Longrightarrow> (\<forall>b \<in> set bs. a \<notin> block_bytes b) \<Longrightarrow> claims bs d a = d a"
  using assms
proof (induction bs arbitrary: d)
  case Nil
  {
    case 1 then show ?case by simp
  next
    case 2 then show ?case by simp
  next
    case 3 then show ?case by simp
  next
    case 4 then show ?case by simp
  }
next
  case (Cons b bs)
  {
    case 1
    then show ?case using Cons.IH(1)[of "claim b d"] claim_geometry by simp
  next
    case 2
    then show ?case
      using Cons.IH(2)[of "claim b d"] claim_geometry claim_used(1)[of b c d] by auto
  next
    case 3
    then show ?case
      using Cons.IH(3)[of "claim b d"] claim_geometry claim_used(2)[of b c d] by simp
  next
    case 4
    then show ?case
      using Cons.IH(4)[of "claim b d"] claim_geometry claim_bytes(2)[of b a d] by simp
  }
qed

lemma claims_zero:
  assumes "set bs \<subseteq> {9 ..< 128}" "b \<in> set bs" "a \<in> block_bytes b"
  shows "claims bs d a = 0"
  using assms
proof (induction bs arbitrary: d)
  case Nil
  then show ?case by simp
next
  case (Cons c bs)
  show ?case
  proof (cases "b \<in> set bs")
    case True
    with Cons show ?thesis by simp
  next
    case False
    have keep: "claims bs e a = e a" if "set bs \<subseteq> {9 ..< 128}" "b \<notin> set bs" "9 \<le> b" "a \<in> block_bytes b" for bs e
      using that
    proof (induction bs arbitrary: e)
      case (Cons x xs)
      then have "a \<notin> block_bytes x" using block_bytes_disjoint[of b x] by auto
      moreover have "a \<notin> map_bytes" using block_bytes_above[OF Cons.prems(3,4)] by (auto simp: map_bytes_def)
      ultimately show ?case using Cons claim_bytes(2)[of x a e] by simp
    qed simp
    from False Cons.prems have "c = b" "9 \<le> b" "b < 128" by auto
    then show ?thesis using keep[of bs "claim b d"] False Cons.prems claim_bytes(1) by simp
  qed
qed

text \<open>The free blocks from \<open>k\<close> on; block 127 is the last.\<close>

definition free_from :: "bytes \<Rightarrow> nat \<Rightarrow> nat list" where
  "free_from d k = filter (\<lambda>b. \<not> block_used d b) [k..<128]"

lemma free_from_step: "k < 128 \<Longrightarrow>
    free_from d k = (if block_used d k then [] else [k]) @ free_from d (k + 1)"
  by (simp add: free_from_def upt_conv_Cons)

lemma free_from_cong: "(\<And>b. k \<le> b \<Longrightarrow> b < 128 \<Longrightarrow> block_used d b = block_used d' b) \<Longrightarrow> free_from d k = free_from d' k"
  by (auto simp: free_from_def intro: filter_cong)

lemma alloc_blocks_loop_ok:
  assumes "geometry d" "9 \<le> bn" "bn \<le> 128" "length ret \<le> n"
    and "n \<le> length ret + length (free_from d bn)"
  shows "alloc_blocks_loop n bn ret d =
    Ret (ret @ take (n - length ret) (free_from d bn), claims (take (n - length ret) (free_from d bn)) d)"
  using assms
proof (induction "128 - bn" arbitrary: bn ret d)
  case 0
  then have "free_from d bn = []" "length ret = n" by (simp_all add: free_from_def)
  then show ?case by (subst alloc_blocks_loop.simps) simp
next
  case (Suc k)
  then have bn: "bn < 128" "128 - (bn + 1) = k" by simp_all
  show ?case
  proof (cases "length ret = n")
    case True
    then show ?thesis by (subst alloc_blocks_loop.simps) simp
  next
    case False
    then have lt: "length ret < n" using Suc.prems(4) by simp
    note u = block_usage_ok[OF Suc.prems(1), of bn]
    have nx: "(bn + 1) mod 2 ^ 32 = bn + 1" using bn(1) by simp
    show ?thesis
    proof (cases "block_used d bn")
      case True
      then have ff: "free_from d bn = free_from d (bn + 1)" using free_from_step[OF bn(1)] by simp
      have "alloc_blocks_loop n bn ret d = alloc_blocks_loop n (bn + 1) ret d"
        using u Suc.prems(2) bn(1) True lt nx by (subst alloc_blocks_loop.simps) simp
      then show ?thesis
        using Suc.hyps(1)[of "bn + 1" d ret] bn Suc.prems ff by simp
    next
      case False
      then have ff: "free_from d bn = bn # free_from d (bn + 1)" using free_from_step[OF bn(1)] by simp
      have same: "free_from (claim bn d) (bn + 1) = free_from d (bn + 1)"
        using Suc.prems(2) bn(1) by (intro free_from_cong) (simp add: claim_used)
      have ms: "memset_block (mark_block bn True d) (get_block bn) = Ret (claim bn d)"
        using bn(1) by (simp add: memset_block_def claim_def get_block_small EXT2_BLOCK_SIZE_def DISK_SIZE_def)
      have "alloc_blocks_loop n bn ret d = alloc_blocks_loop n (bn + 1) (ret @ [bn]) (claim bn d)"
        using u Suc.prems(2) bn(1) False lt nx ms by (subst alloc_blocks_loop.simps) simp
      also have "\<dots> = Ret ((ret @ [bn]) @ take (n - length (ret @ [bn])) (free_from (claim bn d) (bn + 1)),
          claims (take (n - length (ret @ [bn])) (free_from (claim bn d) (bn + 1))) (claim bn d))"
        using bn Suc.prems ff same lt claim_geometry[OF Suc.prems(1,2) bn(1)]
        by (intro Suc.hyps(1)) simp_all
      finally show ?thesis
        using ff same lt by (simp add: take_Cons')
    qed
  qed
qed

lemma free_from_set: "set (free_from d k) \<subseteq> {k ..< 128}" "distinct (free_from d k)"
  "sorted_wrt (<) (free_from d k)"
  by (auto simp: free_from_def sorted_wrt_filter)

lemma free_from_bump [simp]: "free_from (bump_blocks c d) k = free_from d k"
  "free_from (bump_inodes c d) k = free_from d k"
  by (rule free_from_cong, simp)+

lemma allocate_blocks_ok:
  assumes "geometry d" "n \<le> free_blocks d" "n \<le> length (free_from d 23)"
  shows "allocate_blocks d n =
    Ret (take n (free_from d 23), claims (take n (free_from d 23)) (bump_blocks (- int n) d))"
proof -
  have "rd 4 d (get_super_block + s_free_blocks_count) = Ret (free_blocks d)"
    by (simp add: free_blocks_def ext2_layout)
  moreover have "alloc_blocks_loop n 23 [] (bump_blocks (- int n) d)
      = Ret ([] @ take (n - length []) (free_from d 23),
          claims (take (n - length []) (free_from d 23)) (bump_blocks (- int n) d))"
    using alloc_blocks_loop_ok[of "bump_blocks (- int n) d" 23 "[]" n] assms by simp
  ultimately show ?thesis
    using assms(2) by (simp add: allocate_blocks_def bump_counts LAST_RESERVED_BLOCK_def)
qed

lemma allocate_blocks_refused: "free_blocks d < n \<Longrightarrow> allocate_blocks d n = Quit 1 d"
  by (simp add: allocate_blocks_def free_blocks_def ext2_layout)

lemma allocate_one_block_ok:
  "geometry d \<Longrightarrow> 0 < free_blocks d \<Longrightarrow> free_from d 23 = b # bs \<Longrightarrow>
     allocate_one_block d = Ret (b, claim b (bump_blocks (- 1) d))"
  using allocate_blocks_ok[of d 1] by (simp add: allocate_one_block_def)

lemma free_block_ok:
  "geometry d \<Longrightarrow> 0 < b \<Longrightarrow> b < 129 \<Longrightarrow> free_block d b = Ret (mark_block b False (bump_blocks 1 d))"
  by (simp add: free_block_def bump_counts block_usage_ok)

end
