(* ===== verification/Ext2_Inode_Inv.thy ===== *)
theory Ext2_Inode_Inv
  imports Ext2_Alloc_Inv
begin

text \<open>
  Inodes on an image with the standard geometry: reading and writing the block numbers of an
  inode that has no indirect block, choosing a free inode, initializing and freeing it.
\<close>

section \<open>Block numbers\<close>

definition inode_bytes :: "nat \<Rightarrow> nat set" where
  "inode_bytes n = {inode_at n ..< inode_at n + 128}"

lemma inode_at_bounds: "0 < n \<Longrightarrow> n \<le> 32 \<Longrightarrow> 5120 \<le> inode_at n \<and> inode_at n + 128 \<le> 9216"
  by (simp add: inode_at_def)

lemma inode_bytes_disjoint:
  "0 < m \<Longrightarrow> 0 < n \<Longrightarrow> m \<noteq> n \<Longrightarrow> inode_bytes m \<inter> inode_bytes n = {}"
proof -
  assume "0 < m" "0 < n" "m \<noteq> n"
  then consider "m + 1 \<le> n" | "n + 1 \<le> m" by linarith
  then show ?thesis
  proof cases
    case 1
    with \<open>0 < m\<close> have "inode_at m + 128 \<le> inode_at n" by (simp add: inode_at_def)
    then show ?thesis by (auto simp: inode_bytes_def)
  next
    case 2
    with \<open>0 < n\<close> have "inode_at n + 128 \<le> inode_at m" by (simp add: inode_at_def)
    then show ?thesis by (auto simp: inode_bytes_def)
  qed
qed

definition bnum :: "bytes \<Rightarrow> nat \<Rightarrow> nat \<Rightarrow> nat" where
  "bnum d inode i = load_le 4 d (inode + 40 + 4 * i)"

text \<open>No indirect block.\<close>

definition direct :: "bytes \<Rightarrow> nat \<Rightarrow> bool" where
  "direct d inode \<longleftrightarrow> inode + 128 \<le> DISK_SIZE \<and> bnum d inode 12 = 0"

lemma get_block_number_ok:
  "direct d inode \<Longrightarrow> get_inode_block_number d inode i = Ret (if i < 12 then bnum d inode i else 0)"
  by (simp add: get_inode_block_number_def direct_def bnum_def INDIRECT1_INDEX_def INODE_BLOCK_LIMIT_eq
      i_block_def)

definition put_bnum :: "nat \<Rightarrow> nat \<Rightarrow> nat \<Rightarrow> bytes \<Rightarrow> bytes" where
  "put_bnum inode i b d = (if i < 12 then store_le 4 b d (inode + 40 + 4 * i) else d)"

lemma set_block_number_ok: "direct d inode \<Longrightarrow> set_inode_block_number d inode i b = Ret (put_bnum inode i b d)"
  by (simp add: set_inode_block_number_def put_bnum_def direct_def bnum_def INDIRECT1_INDEX_def
      INODE_BLOCK_LIMIT_eq i_block_def)

lemma bnum_put_bnum:
  "bnum (put_bnum inode i b d) inode j = (if i = j \<and> i < 12 then b mod 2 ^ 32 else bnum d inode j)"
proof (cases "i = j")
  case True
  then show ?thesis by (simp add: bnum_def put_bnum_def load_store_same)
next
  case False
  then have "inode + 40 + 4 * j + 4 \<le> inode + 40 + 4 * i \<or> inode + 40 + 4 * i + 4 \<le> inode + 40 + 4 * j"
    by linarith
  with False show ?thesis by (simp add: bnum_def put_bnum_def load_store_other)
qed

lemma direct_put_bnum [simp]: "direct (put_bnum inode i b d) inode = direct d inode"
  using bnum_put_bnum[of inode i b d 12] by (auto simp: direct_def)

lemma agree_put_bnum: "A \<inter> {inode + 40 ..< inode + 88} = {} \<Longrightarrow> agree A d (put_bnum inode i b d)"
  unfolding put_bnum_def by (auto intro!: agree_store)

lemma bnum_agree: "agree A d d' \<Longrightarrow> {inode ..< inode + 128} \<subseteq> A \<Longrightarrow> i \<le> 12 \<Longrightarrow> bnum d' inode i = bnum d inode i"
  unfolding bnum_def by (erule agree_load) auto

lemma direct_agree: "agree A d d' \<Longrightarrow> {inode ..< inode + 128} \<subseteq> A \<Longrightarrow> direct d' inode = direct d inode"
  using bnum_agree[of A d d' inode 12] by (auto simp: direct_def)

text \<open>The blocks of an inode, in the order of their indices.\<close>

definition inode_blocks :: "bytes \<Rightarrow> nat \<Rightarrow> nat list" where
  "inode_blocks d inode = filter (\<lambda>b. b \<noteq> 0) (map (bnum d inode) [0..<12])"

lemma inode_blocks_agree:
  "agree A d d' \<Longrightarrow> {inode ..< inode + 128} \<subseteq> A \<Longrightarrow> inode_blocks d' inode = inode_blocks d inode"
  unfolding inode_blocks_def by (intro arg_cong[where f = "filter (\<lambda>b. b \<noteq> 0)"] map_cong refl bnum_agree) auto

text \<open>A loop over all indices of an inode visits its blocks.\<close>

lemma index_split: "[0..<INODE_BLOCK_LIMIT] = [0..<12] @ [12..<268]"
  by (simp add: INODE_BLOCK_LIMIT_eq upt_add_eq_append[of 0 12 256, simplified])

section \<open>Choosing an inode\<close>

lemma clear_blocks_append:
  "clear_blocks (xs @ ys) inode d = bind_f (clear_blocks xs inode d) (clear_blocks ys inode)"
proof (induction xs arbitrary: d)
  case (Cons x xs)
  then show ?case by (cases "set_inode_block_number d inode x 0") simp_all
qed simp

lemma clear_blocks_Nil: "clear_blocks [] inode = Ret"
  by (rule ext) simp

lemma clear_direct:
  "k \<le> 12 \<Longrightarrow> inode + 128 \<le> DISK_SIZE \<Longrightarrow>
     clear_blocks [0..<k] inode d = Ret (memset d (inode + 40) 0 (4 * k))"
proof (induction k)
  case 0
  then show ?case by (auto simp: memset_def fun_eq_iff)
next
  case (Suc k)
  then have "clear_blocks [0..<Suc k] inode d
      = set_inode_block_number (memset d (inode + 40) 0 (4 * k)) inode k 0"
    by (simp add: clear_blocks_append clear_blocks_Nil)
  also have "\<dots> = Ret (store_le 4 0 (memset d (inode + 40) 0 (4 * k)) (inode + 40 + 4 * k))"
    using Suc.prems by (simp add: set_inode_block_number_def INDIRECT1_INDEX_def i_block_def)
  finally show ?case
    using memset_memset[of d "inode + 40" 0 "4 * k" 4] by (simp add: store_zero ac_simps)
qed

lemma clear_rest: "direct d inode \<Longrightarrow> \<forall>i \<in> set is. 12 \<le> i \<Longrightarrow> clear_blocks is inode d = Ret d"
  by (induction "is") (simp_all add: set_block_number_ok put_bnum_def)

lemma clear_all:
  assumes "direct d inode"
  shows "clear_blocks [0..<INODE_BLOCK_LIMIT] inode d = Ret (memset d (inode + 40) 0 48)"
proof -
  have "bnum (memset d (inode + 40) 0 48) inode 12 = bnum d inode 12"
    by (simp add: bnum_def load_memset_other)
  then have "direct (memset d (inode + 40) 0 48) inode" using assms by (simp add: direct_def)
  from clear_rest[OF this, of "[12..<268]"] assms show ?thesis
    by (simp add: index_split clear_blocks_append clear_direct direct_def del: upt_rec_numeral)
qed

text \<open>The free inodes from \<open>k\<close> on.\<close>

definition free_inodes_from :: "bytes \<Rightarrow> nat \<Rightarrow> nat list" where
  "free_inodes_from d k = filter (\<lambda>n. \<not> inode_used d n) [k..<33]"

lemma free_inodes_from_cong:
  "(\<And>n. k \<le> n \<Longrightarrow> n < 33 \<Longrightarrow> inode_used d n = inode_used d' n) \<Longrightarrow> free_inodes_from d k = free_inodes_from d' k"
  by (auto simp: free_inodes_from_def intro: filter_cong)

lemma free_inodes_from_bump [simp]:
  "free_inodes_from (bump_inodes c d) k = free_inodes_from d k"
  "free_inodes_from (bump_blocks c d) k = free_inodes_from d k"
  by (rule free_inodes_from_cong, simp)+

lemma inodes_count_ok: "geometry d \<Longrightarrow> rd 4 d (1024 + s_inodes_count) = Ret 32"
  by (simp add: geometry_def ext2_layout)

lemma inode_loop_ok:
  assumes "geometry d" "0 < k" "k \<le> 33" "free_inodes_from d k = n # ns" "direct d (inode_at n)"
  shows "inode_loop k d = Ret (n, memset (mark_inode n True d) (inode_at n + 40) 0 48)"
  using assms
proof (induction "33 - k" arbitrary: k)
  case 0
  then show ?case by (simp add: free_inodes_from_def)
next
  case (Suc j)
  then have k: "k < 33" by simp
  have st: "free_inodes_from d k = (if inode_used d k then [] else [k]) @ free_inodes_from d (k + 1)"
    using k by (simp add: free_inodes_from_def upt_conv_Cons)
  note u = inode_usage_ok[OF Suc.prems(1), of k]
  show ?case
  proof (cases "inode_used d k")
    case True
    then have "inode_loop k d = inode_loop (k + 1) d"
      using k u Suc.prems(2) by (subst inode_loop.simps) (simp add: inodes_count_ok[OF Suc.prems(1)])
    then show ?thesis using Suc.hyps(1)[of "k + 1"] Suc.hyps(2) Suc.prems st True by simp
  next
    case False
    with st Suc.prems(4) have n: "n = k" by simp
    have g: "geometry (mark_inode k True d)" using geometry_mark(2)[OF Suc.prems(1)] k by simp
    have "agree {inode_at k ..< inode_at k + 128} d (mark_inode k True d)"
      by (rule agree_mark_inode) (use k inode_at_bounds[of k] Suc.prems(2) in auto)
    then have "direct (mark_inode k True d) (inode_at k)"
      using direct_agree Suc.prems(5) n by blast
    then show ?thesis
      using k u Suc.prems(2) False n g
      by (subst inode_loop.simps) (simp add: inodes_count_ok[OF Suc.prems(1)] get_inode_ok clear_all)
  qed
qed

text \<open>The image after \<open>allocate_inode\<close>.\<close>

definition fresh_inode :: "nat \<Rightarrow> bytes \<Rightarrow> bytes" where
  "fresh_inode n d = memset (mark_inode n True (bump_inodes (- 1) d)) (inode_at n + 40) 0 48"

lemma agree_inode_bump: "0 < n \<Longrightarrow> n \<le> 32 \<Longrightarrow> agree {inode_at n ..< inode_at n + 128} d (bump_inodes c d)"
  by (rule agree_bump_counts) (auto simp: count_bytes_def inode_at_def)

lemma free_inodes_from_set: "set (free_inodes_from d k) \<subseteq> {k ..< 33}"
  by (auto simp: free_inodes_from_def)

lemma allocate_inode_ok:
  assumes "geometry d" "0 < free_inodes d" "free_inodes_from d 12 = n # ns" "direct d (inode_at n)"
  shows "allocate_inode d = Ret (n, fresh_inode n d)"
proof -
  have "free_inodes_from (bump_inodes (- 1) d) 12 = n # ns"
    using assms(3) by simp
  moreover from free_inodes_from_set[of d 12] assms(3) have "12 \<le> n" "n \<le> 32" by auto
  then have "direct (bump_inodes (- 1) d) (inode_at n)"
    using direct_agree[OF agree_inode_bump, of n] assms(4) by simp
  moreover have "rd 4 d (get_super_block + s_free_inodes_count) = Ret (free_inodes d)"
    by (simp add: free_inodes_def ext2_layout)
  ultimately show ?thesis
    using assms inode_loop_ok[of "bump_inodes (- 1) d" 12 n ns]
    by (simp add: allocate_inode_def bump_counts LAST_RESERVED_INODE_def fresh_inode_def)
qed

lemma allocate_inode_refused: "free_inodes d = 0 \<Longrightarrow> allocate_inode d = Quit 1 d"
  by (simp add: allocate_inode_def free_inodes_def ext2_layout)

lemma fresh_inode_ok:
  assumes "geometry d" "12 \<le> n" "n \<le> 32"
  shows "geometry (fresh_inode n d)" "agree (- (inode_bytes n \<union> {4096 ..< 4100} \<union> count_bytes)) d (fresh_inode n d)"
    "free_inodes (fresh_inode n d) = nat ((int (free_inodes d) - 1) mod 2 ^ 32)"
    "free_blocks (fresh_inode n d) = free_blocks d"
    "0 < m \<Longrightarrow> m < 33 \<Longrightarrow> inode_used (fresh_inode n d) m = (m = n \<or> inode_used d m)"
    "b < 129 \<Longrightarrow> block_used (fresh_inode n d) b = block_used d b"
    "i < 12 \<Longrightarrow> bnum (fresh_inode n d) (inode_at n) i = 0"
proof -
  let ?d1 = "bump_inodes (- 1) d" and ?d2 = "mark_inode n True (bump_inodes (- 1) d)"
  have at: "5120 \<le> inode_at n" "inode_at n + 128 \<le> 9216" using inode_at_bounds[of n] assms by auto
  have a1: "agree (- count_bytes) d ?d1" by (rule agree_bump_counts) auto
  have a2: "agree (- {4096 ..< 4100}) ?d1 ?d2" by (rule agree_mark_inode) (use assms in auto)
  have a3: "agree (- inode_bytes n) ?d2 (fresh_inode n d)"
    unfolding fresh_inode_def by (rule agree_memset) (auto simp: inode_bytes_def)
  show "agree (- (inode_bytes n \<union> {4096 ..< 4100} \<union> count_bytes)) d (fresh_inode n d)"
    by (rule agree_trans[OF agree_subset[OF a1] agree_trans[OF agree_subset[OF a2] agree_subset[OF a3]]]) auto
  have g2: "geometry ?d2" using geometry_mark(2)[of ?d1 n] assms by simp
  have "geo_bytes \<subseteq> - inode_bytes n" using at by (auto simp: geo_bytes_def inode_bytes_def)
  from geometry_agree[OF agree_subset[OF a3 this]] g2 show "geometry (fresh_inode n d)" by simp
  have l: "load_le 4 (fresh_inode n d) x = load_le 4 ?d1 x" if "x + 4 \<le> 4096" for x
  proof -
    have "load_le 4 (fresh_inode n d) x = load_le 4 ?d2 x"
      by (rule agree_load[OF a3]) (use that at in \<open>auto simp: inode_bytes_def\<close>)
    also have "\<dots> = load_le 4 ?d1 x"
      by (rule agree_load[OF a2]) (use that in auto)
    finally show ?thesis .
  qed
  show "free_inodes (fresh_inode n d) = nat ((int (free_inodes d) - 1) mod 2 ^ 32)"
    using l[of 1040] bump_free(3)[of "- 1" d] by (simp add: free_inodes_def)
  show "free_blocks (fresh_inode n d) = free_blocks d"
    using l[of 1036] bump_free(4)[of "- 1" d] by (simp add: free_blocks_def)
  have mb: "map_bytes \<subseteq> - inode_bytes n" using at by (auto simp: map_bytes_def inode_bytes_def)
  show "inode_used (fresh_inode n d) m = (m = n \<or> inode_used d m)" if "0 < m" "m < 33"
    using used_agree(2)[OF a3 mb that(2)] used_mark(2)[of n m True ?d1] assms(2) that by simp
  have "agree {3072 ..< 3088} ?d1 ?d2" by (rule agree_subset[OF a2]) auto
  moreover have "(b - 1) div 8 < 16" if "b < 129" using that by (simp add: less_mult_imp_div_less)
  ultimately have "block_used ?d2 b = block_used ?d1 b" if "b < 129"
    using that by (auto simp: block_used_def bit_at_def agree_def)
  then show "block_used (fresh_inode n d) b = block_used d b" if "b < 129"
    using used_agree(1)[OF a3 mb that] that by simp
  show "bnum (fresh_inode n d) (inode_at n) i = 0" if "i < 12"
    using that by (simp add: bnum_def fresh_inode_def load_memset_zero)
qed

section \<open>Initializing an inode\<close>

definition fill_inode :: "nat \<Rightarrow> nat \<Rightarrow> nat \<Rightarrow> nat \<Rightarrow> bytes \<Rightarrow> bytes" where
  "fill_inode mode sz now inode d =
     store_le 2 1 (store_le 4 0 (store_le 4 0 (store_le 4 now (store_le 4 sz
       (store_le 2 mode d inode) (inode + 4)) (inode + 12)) (inode + 20)) (inode + 28)) (inode + 26)"

definition links :: "bytes \<Rightarrow> nat \<Rightarrow> nat" where "links d inode = load_le 2 d (inode + 26)"

lemma agree_fill_inode:
  "A \<inter> {inode ..< inode + 32} = {} \<Longrightarrow> agree A d (fill_inode mode sz now inode d)"
  unfolding fill_inode_def
  by (intro agree_trans[OF _ agree_store] agree_store; force)

lemma fill_inode_fields:
  "links (fill_inode mode sz now inode d) inode = 1"
  "load_le 2 (fill_inode mode sz now inode d) inode = mode mod 65536"
  "load_le 4 (fill_inode mode sz now inode d) (inode + 4) = sz mod 2 ^ 32"
  "bnum (fill_inode mode sz now inode d) inode i = bnum d inode i"
  by (simp_all add: links_def fill_inode_def bnum_def load_store_simps del: load_le.simps One_nat_def)

lemma allocate_plain_inode_ok:
  assumes "geometry d" "0 < free_inodes d" "free_inodes_from d 12 = n # ns" "direct d (inode_at n)"
  shows "allocate_plain_inode mode sz now d = Ret (n, fill_inode mode sz now (inode_at n) (fresh_inode n d))"
proof -
  from free_inodes_from_set[of d 12] assms(3) have n: "12 \<le> n" "n \<le> 32" by auto
  then have "inode_at n + 128 \<le> DISK_SIZE" using inode_at_bounds[of n] by (simp add: DISK_SIZE_def)
  then show ?thesis
    using n allocate_inode_ok[OF assms] fresh_inode_ok(1)[OF assms(1) n]
    by (simp add: allocate_plain_inode_def get_inode_ok fill_inode_def i_mode_def i_size_def i_ctime_def
        i_dtime_def i_blocks_def i_links_count_def)
qed

lemma allocate_dir_inode_ok:
  assumes "geometry d" "0 < free_inodes d" "free_inodes_from d 12 = n # ns" "direct d (inode_at n)"
  shows "allocate_dir_inode now d =
    Ret (n, bump 2 2064 1 (fill_inode 0x4000 1024 now (inode_at n) (fresh_inode n d)))"
proof -
  from free_inodes_from_set[of d 12] assms(3) have n: "12 \<le> n" "n \<le> 32" by auto
  then have "inode_at n + 128 \<le> DISK_SIZE" using inode_at_bounds[of n] by (simp add: DISK_SIZE_def)
  then show ?thesis
    using n allocate_inode_ok[OF assms] fresh_inode_ok(1)[OF assms(1) n]
    by (simp add: allocate_dir_inode_def get_inode_ok fill_inode_def i_mode_def i_size_def i_ctime_def
        i_dtime_def i_blocks_def i_links_count_def add_field_ok bg_used_dirs_count_def EXT2_S_IFDIR_def
        EXT2_BLOCK_SIZE_def DISK_SIZE_def)
qed

section \<open>Freeing an inode\<close>

definition release :: "nat \<Rightarrow> nat \<Rightarrow> bytes \<Rightarrow> bytes" where
  "release inode i d =
     (if bnum d inode i = 0 then d
      else put_bnum inode i 0 (mark_block (bnum d inode i) False (bump_blocks 1 d)))"

text \<open>The blocks of the inode are blocks of the image, and the inode is in the inode table.\<close>

definition sound_inode :: "bytes \<Rightarrow> nat \<Rightarrow> bool" where
  "sound_inode d inode \<longleftrightarrow> 5120 \<le> inode \<and> inode + 128 \<le> 9216 \<and> direct d inode \<and> (\<forall>i < 12. bnum d inode i < 128)"

lemma release_ok:
  assumes "geometry d" "sound_inode d inode" "i < 12"
  shows "geometry (release inode i d)" "sound_inode (release inode i d) inode"
    "bnum (release inode i d) inode j = (if j = i then 0 else bnum d inode j) \<or> 12 < j"
    "agree (- ({inode + 40 ..< inode + 88} \<union> {3072 ..< 3088} \<union> count_bytes)) d (release inode i d)"
    "0 < b \<Longrightarrow> b < 129 \<Longrightarrow> block_used (release inode i d) b = (block_used d b \<and> b \<noteq> bnum d inode i)"
    "free_blocks (release inode i d) =
      (if bnum d inode i = 0 then free_blocks d else (free_blocks d + 1) mod 2 ^ 32)"
proof -
  let ?b = "bnum d inode i" and ?d1 = "bump_blocks 1 d" and ?d2 = "mark_block (bnum d inode i) False (bump_blocks 1 d)"
  have bounds: "5120 \<le> inode" "inode + 128 \<le> 9216" "?b < 128"
    using assms by (auto simp: sound_inode_def)
  have a1: "agree (- count_bytes) d ?d1" by (rule agree_bump_counts) auto
  have a2: "agree (- {3072 ..< 3088}) ?d1 ?d2" by (rule agree_mark_block) (use bounds in auto)
  have a3: "agree (- {inode + 40 ..< inode + 88}) ?d2 (put_bnum inode i 0 ?d2)"
    by (rule agree_put_bnum) auto
  have a12: "agree (- ({3072 ..< 3088} \<union> count_bytes)) d ?d2"
    by (rule agree_trans[OF agree_subset[OF a1] agree_subset[OF a2]]) auto
  have a: "agree (- ({inode + 40 ..< inode + 88} \<union> {3072 ..< 3088} \<union> count_bytes)) d (put_bnum inode i 0 ?d2)"
    by (rule agree_trans[OF agree_subset[OF a12] agree_subset[OF a3]]) auto
  then show "agree (- ({inode + 40 ..< inode + 88} \<union> {3072 ..< 3088} \<union> count_bytes)) d (release inode i d)"
    by (simp add: release_def)
  have in12: "{inode ..< inode + 128} \<subseteq> - ({3072 ..< 3088} \<union> count_bytes)"
    using bounds by (auto simp: count_bytes_def)
  have bn: "bnum (put_bnum inode i 0 ?d2) inode j = (if j = i then 0 else bnum d inode j)" if "j \<le> 12" for j
    using bnum_put_bnum[of inode i 0 ?d2 j] bnum_agree[OF a12 in12 that] assms(3) by simp
  then show "bnum (release inode i d) inode j = (if j = i then 0 else bnum d inode j) \<or> 12 < j"
    by (cases "12 < j") (auto simp: release_def)
  show "sound_inode (release inode i d) inode"
    using assms bn by (auto simp: release_def sound_inode_def direct_def)
  have "geo_bytes \<subseteq> - {inode + 40 ..< inode + 88}" using bounds by (auto simp: geo_bytes_def)
  from geometry_agree[OF agree_subset[OF a3 this]]
  have "geometry (put_bnum inode i 0 ?d2) = geometry ?d2" .
  moreover have "geometry ?d2" using geometry_mark(1)[of ?d1 ?b] assms(1) bounds by simp
  ultimately show "geometry (release inode i d)" using assms(1) by (simp add: release_def)
  have mb: "map_bytes \<subseteq> - {inode + 40 ..< inode + 88}" using bounds by (auto simp: map_bytes_def)
  show "block_used (release inode i d) b = (block_used d b \<and> b \<noteq> bnum d inode i)" if "0 < b" "b < 129"
    using used_agree(1)[OF a3 mb that(2)] used_mark(1)[of ?b b False ?d1] that
    by (auto simp: release_def)
  have "free_blocks (put_bnum inode i 0 ?d2) = free_blocks ?d1"
  proof -
    have "free_blocks (put_bnum inode i 0 ?d2) = free_blocks ?d2"
      unfolding free_blocks_def by (rule agree_load[OF a3]) (use bounds in auto)
    also have "\<dots> = free_blocks ?d1"
      unfolding free_blocks_def by (rule agree_load[OF a2]) auto
    finally show ?thesis .
  qed
  then show "free_blocks (release inode i d) =
      (if ?b = 0 then free_blocks d else (free_blocks d + 1) mod 2 ^ 32)"
    using bump_free(1)[of 1 d] by (simp add: release_def nat_add_distrib nat_mod_distrib)
qed

lemma free_blocks_loop_ok:
  assumes "geometry d" "sound_inode d inode"
  shows "free_blocks_loop is inode d = Ret (fold (release inode) (filter (\<lambda>i. i < 12) is) d)"
  using assms
proof (induction "is" arbitrary: d)
  case Nil
  then show ?case by simp
next
  case (Cons i "is")
  have gb: "get_inode_block_number d inode i = Ret (if i < 12 then bnum d inode i else 0)"
    using Cons.prems by (simp add: get_block_number_ok sound_inode_def)
  show ?case
  proof (cases "i < 12 \<and> bnum d inode i \<noteq> 0")
    case False
    then show ?thesis using gb Cons by (auto simp: release_def)
  next
    case True
    let ?d1 = "mark_block (bnum d inode i) False (bump_blocks 1 d)"
    have b: "0 < bnum d inode i" "bnum d inode i < 129"
      using True Cons.prems by (auto simp: sound_inode_def less_Suc_eq)
    have "agree {inode ..< inode + 128} d ?d1"
    proof (rule agree_trans[OF agree_bump_counts(1) agree_mark_block])
      show "{inode ..< inode + 128} \<inter> count_bytes = {}" "{inode ..< inode + 128} \<inter> {3072 ..< 3088} = {}"
        using Cons.prems by (auto simp: sound_inode_def count_bytes_def)
    qed (rule b)
    then have "direct ?d1 inode"
      using direct_agree[OF _ subset_refl] Cons.prems by (simp add: sound_inode_def)
    then have "set_inode_block_number ?d1 inode i 0 = Ret (release inode i d)"
      using True by (simp add: set_block_number_ok release_def)
    then show ?thesis
      using True gb free_block_ok[OF Cons.prems(1) b] Cons.IH[OF release_ok(1,2)[OF Cons.prems]] by simp
  qed
qed

text \<open>All blocks of the inode are released.\<close>

lemma fold_release:
  assumes "geometry d" "sound_inode d inode" "set is \<subseteq> {..< 12}" "distinct is"
    and "\<forall>i \<in> set is. \<forall>j \<in> set is. bnum d inode i = bnum d inode j \<longrightarrow> bnum d inode i = 0 \<or> i = j"
  defines "d' \<equiv> fold (release inode) is d" and "bs \<equiv> filter (\<lambda>b. b \<noteq> 0) (map (bnum d inode) is)"
  shows "geometry d'" "sound_inode d' inode"
    "agree (- ({inode + 40 ..< inode + 88} \<union> {3072 ..< 3088} \<union> count_bytes)) d d'"
    "0 < b \<Longrightarrow> b < 129 \<Longrightarrow> block_used d' b = (block_used d b \<and> b \<notin> set bs)"
    "free_blocks d + length bs < 2 ^ 32 \<Longrightarrow> free_blocks d' = free_blocks d + length bs"
    "i \<in> set is \<Longrightarrow> bnum d' inode i = 0"
    "i < 12 \<Longrightarrow> i \<notin> set is \<Longrightarrow> bnum d' inode i = bnum d inode i"
  using assms(1-5) unfolding d'_def bs_def
proof (induction "is" arbitrary: d)
  case Nil
  { case 1 then show ?case by simp
  next case 2 then show ?case by simp
  next case 3 then show ?case by simp
  next case 4 then show ?case by simp
  next case 5 then show ?case by simp
  next case 6 then show ?case by simp
  next case 7 then show ?case by simp }
next
  case (Cons k "is")
  have step: "geometry (release inode k d)" "sound_inode (release inode k d) inode" "set is \<subseteq> {..< 12}" "distinct is"
    "\<forall>i \<in> set is. bnum (release inode k d) inode i = bnum d inode i"
    if "geometry d" "sound_inode d inode" "set (k # is) \<subseteq> {..< 12}" "distinct (k # is)" for d
  proof -
    show "geometry (release inode k d)" "sound_inode (release inode k d) inode" "set is \<subseteq> {..< 12}" "distinct is"
      using that release_ok(1,2)[OF that(1,2), of k] by auto
    show "\<forall>i \<in> set is. bnum (release inode k d) inode i = bnum d inode i"
    proof
      fix i assume "i \<in> set is"
      with that have "k < 12" "i < 12" "i \<noteq> k" by auto
      then show "bnum (release inode k d) inode i = bnum d inode i"
        using release_ok(3)[OF that(1,2), of k i] by simp
    qed
  qed
  have mb: "map (bnum (release inode k d) inode) is = map (bnum d inode) is"
    if "geometry d" "sound_inode d inode" "set (k # is) \<subseteq> {..< 12}" "distinct (k # is)" for d
    using step(5)[OF that] by simp
  have inj: "\<forall>i \<in> set is. \<forall>j \<in> set is. bnum (release inode k d) inode i = bnum (release inode k d) inode j
      \<longrightarrow> bnum (release inode k d) inode i = 0 \<or> i = j"
    if "geometry d" "sound_inode d inode" "set (k # is) \<subseteq> {..< 12}" "distinct (k # is)"
      "\<forall>i \<in> set (k # is). \<forall>j \<in> set (k # is). bnum d inode i = bnum d inode j \<longrightarrow> bnum d inode i = 0 \<or> i = j" for d
    using step(5)[OF that(1-4)] that(5) by simp
  {
    case 1
    then show ?case using Cons.IH(1)[OF step(1-4) inj] by simp
  next
    case 2
    then show ?case using Cons.IH(2)[OF step(1-4) inj] by simp
  next
    case 3
    then have "k < 12" by simp
    from 3 show ?case
      using agree_trans[OF release_ok(4)[OF 3(1,2) \<open>k < 12\<close>] Cons.IH(3)[OF step(1-4) inj]] by simp
  next
    case 4
    then have "k < 12" by simp
    from 4 show ?case
      using Cons.IH(4)[OF 4(1,2) step(1-4)[OF 4(3-6)] inj[OF 4(3-7)]]
        release_ok(5)[OF 4(3,4) \<open>k < 12\<close> 4(1,2)] mb[OF 4(3-6)] by auto
  next
    case 5
    then have "k < 12" by simp
    from 5 show ?case
      using Cons.IH(5)[OF _ step(1-4)[OF 5(2-5)] inj[OF 5(2-6)]]
        release_ok(6)[OF 5(2,3) \<open>k < 12\<close>] mb[OF 5(2-5)] by (auto split: if_splits)
  next
    case 6
    then have "k < 12" by simp
    show ?case
    proof (cases "i \<in> set is")
      case True
      then show ?thesis using Cons.IH(6)[OF True step(1-4)[OF 6(2-5)] inj[OF 6(2-6)]] by simp
    next
      case False
      with 6 have "i = k" by simp
      then have "i < 12" using \<open>k < 12\<close> by simp
      from \<open>i = k\<close> False show ?thesis
        using Cons.IH(7)[OF \<open>i < 12\<close> _ step(1-4)[OF 6(2-5)] inj[OF 6(2-6)]]
          release_ok(3)[OF 6(2,3) \<open>k < 12\<close>, of k] \<open>k < 12\<close> by simp
    qed
  next
    case 7
    then have "k < 12" "i \<noteq> k" "i \<notin> set is" by auto
    then show ?case
      using Cons.IH(7)[OF 7(1) _ step(1-4)[OF 7(3-6)] inj[OF 7(3-7)]]
        release_ok(3)[OF 7(3,4) \<open>k < 12\<close>, of i] 7(1) by simp
  }
qed

end
