(* ===== verification/Ext2_Tree.thy ===== *)
theory Ext2_Tree
  imports Ext2_Cmd Ext2_Chain_Ops Ext2_Inode_Inv
begin

text \<open>
  The directory tree of an image: \<open>dir_map d n\<close> maps the names in the directory with inode
  \<open>n\<close> to inode numbers and file types. On a well-formed tree (\<open>tree_ok\<close>) searching a
  directory is looking up this map, traversing a path is following it (\<open>follow\<close>), and
  listing a directory gives its names. Paths are split at slashes as \<open>tokens\<close> says.
\<close>

section \<open>The entries of a block\<close>

function entries_from :: "bytes \<Rightarrow> nat \<Rightarrow> nat \<Rightarrow> nat list" where
  "entries_from d s cur =
     (if s \<le> cur \<and> cur < s + 1024 \<and> 0 < rlen d cur then cur # entries_from d s (cur + rlen d cur) else [])"
  by pat_completeness auto

termination
  by (relation "measure (\<lambda>(d, s, cur). s + 1024 - cur)") auto

declare entries_from.simps [simp del]

definition entries :: "bytes \<Rightarrow> nat \<Rightarrow> nat list" where
  "entries d b = entries_from d (1024 * b) (1024 * b)"

lemma entries_from_chain:
  "chain d cur es (s + 1024) \<Longrightarrow> s \<le> cur \<Longrightarrow> entries_from d s cur = es"
proof (induction es arbitrary: cur)
  case Nil
  then show ?case by (subst entries_from.simps) simp
next
  case (Cons e es)
  then have c: "e = cur" "8 + nlen d e \<le> rlen d e" "chain d (e + rlen d e) es (s + 1024)" by auto
  have "e + rlen d e \<le> s + 1024" using chain_le[OF c(3)] .
  then show ?case using c Cons.prems(2) Cons.IH[OF c(3)] by (subst entries_from.simps) auto
qed

lemma entries_block: "entry_block d (1024 * b) es \<Longrightarrow> entries d b = es"
  by (simp add: entries_def entry_block_def entries_from_chain)

definition good_block :: "bytes \<Rightarrow> nat \<Rightarrow> bool" where
  "good_block d b \<longleftrightarrow> entry_block d (1024 * b) (entries d b) \<and> roomy d (entries d b)"

lemma good_blockI: "entry_block d (1024 * b) es \<Longrightarrow> roomy d es \<Longrightarrow> good_block d b"
  using entries_block by (fastforce simp: good_block_def)

lemma good_block_agree:
  assumes "agree (block_bytes b) d d'" "good_block d b"
  shows "good_block d' b" "entries d' b = entries d b" "block_list d' (entries d b) = block_list d (entries d b)"
    "e \<in> set (entries d b) \<Longrightarrow> entry_at d' e = entry_at d e"
proof -
  have ag: "agree {1024 * b ..< 1024 * b + 1024} d d'" using assms(1) by (simp add: block_bytes_def)
  from assms(2) have c: "chain d (1024 * b) (entries d b) (1024 * b + 1024)" and ds: "1024 * b + 1024 \<le> DISK_SIZE"
    by (auto simp: good_block_def entry_block_def)
  have "entry_block d' (1024 * b) (entries d b)"
    using chain_agree[OF ag c] ds by (simp add: entry_block_def)
  moreover have "roomy d' (entries d b)"
    using block_list_agree(2)[OF ag c] assms(2) by (simp add: good_block_def)
  ultimately show "good_block d' b" "entries d' b = entries d b"
    using good_blockI entries_block by blast+
  show "block_list d' (entries d b) = block_list d (entries d b)" using block_list_agree(1)[OF ag c] .
  show "entry_at d' e = entry_at d e" if "e \<in> set (entries d b)" using chain_entries_agree(4)[OF ag c that] .
qed

section \<open>Directories\<close>

definition dir_blocks :: "bytes \<Rightarrow> nat \<Rightarrow> nat list" where
  "dir_blocks d n = inode_blocks d (inode_at n)"

definition dir_list :: "bytes \<Rightarrow> nat \<Rightarrow> dirent list" where
  "dir_list d n = concat (map (\<lambda>b. block_list d (entries d b)) (dir_blocks d n))"

definition dir_map :: "bytes \<Rightarrow> nat \<Rightarrow> string \<Rightarrow> (nat \<times> nat) option" where
  "dir_map d n = map_of (dir_list d n)"

definition dir_ok :: "bytes \<Rightarrow> nat \<Rightarrow> bool" where
  "dir_ok d n \<longleftrightarrow> 0 < n \<and> n \<le> 32 \<and> direct d (inode_at n) \<and> distinct (dir_blocks d n) \<and>
     (\<forall>b \<in> set (dir_blocks d n). 9 \<le> b \<and> b < 128 \<and> good_block d b)"

text \<open>A set of directories, with the root, that contains all the directories it names.\<close>

definition tree_ok :: "bytes \<Rightarrow> nat set \<Rightarrow> bool" where
  "tree_ok d D \<longleftrightarrow> geometry d \<and> 2 \<in> D \<and> (\<forall>n \<in> D. dir_ok d n \<and> distinct (map fst (dir_list d n)) \<and>
     (\<forall>(name, m, t) \<in> set (dir_list d n). 0 < m \<and> m \<le> 32 \<and> (t = EXT2_FT_DIR \<longrightarrow> m \<in> D)))"

text \<open>The reference search in a list of blocks.\<close>

fun find_in :: "bytes \<Rightarrow> string \<Rightarrow> nat list \<Rightarrow> (nat option \<times> nat) option" where
  "find_in d name [] = None"
| "find_in d name (b # bs) =
     (case locate None (\<lambda>e. ename d e = name) (entries d b) of
        None \<Rightarrow> find_in d name bs | Some p \<Rightarrow> Some p)"

definition blocks_at :: "bytes \<Rightarrow> nat \<Rightarrow> nat list \<Rightarrow> nat list" where
  "blocks_at d inode is = filter (\<lambda>b. b \<noteq> 0) (map (bnum d inode) (filter (\<lambda>i. i < 12) is))"

lemma blocks_at_all: "blocks_at d inode [0..<INODE_BLOCK_LIMIT] = inode_blocks d inode"
proof -
  have "filter (\<lambda>i. i < 12) [0..<12 :: nat] = [0..<12]" "filter (\<lambda>i. i < 12) [12..<268 :: nat] = []"
    by (auto simp: filter_empty_conv intro: filter_True simp del: upt_rec_numeral)
  then show ?thesis by (simp add: blocks_at_def index_split inode_blocks_def del: upt_rec_numeral)
qed

lemma blocks_at_Cons:
  "blocks_at d inode (i # is) = (if i < 12 \<and> bnum d inode i \<noteq> 0 then [bnum d inode i] else []) @ blocks_at d inode is"
  by (simp add: blocks_at_def)

lemma block_address: "b < 128 \<Longrightarrow> get_block b = 1024 * b"
  by (simp add: get_block_small)

lemma find_entry_loop_ok:
  assumes "direct d inode" "\<forall>b \<in> set (blocks_at d inode is). b < 128 \<and> good_block d b"
  shows "find_entry_loop is d inode name = Ret (find_in d name (blocks_at d inode is))"
  using assms
proof (induction "is")
  case Nil
  then show ?case by (simp add: blocks_at_def)
next
  case (Cons i "is")
  have rest: "find_entry_loop is d inode name = Ret (find_in d name (blocks_at d inode is))"
    using Cons by (simp add: blocks_at_Cons)
  show ?case
  proof (cases "i < 12 \<and> bnum d inode i \<noteq> 0")
    case False
    then show ?thesis using Cons.prems(1) rest by (auto simp: get_block_number_ok blocks_at_Cons)
  next
    case True
    then have b: "bnum d inode i < 128" "good_block d (bnum d inode i)"
      using Cons.prems(2) by (auto simp: blocks_at_Cons)
    have "block_matching_pair d (1024 * bnum d inode i) name
        = Ret (locate None (\<lambda>e. ename d e = name) (entries d (bnum d inode i)))"
      using b(2) by (intro block_matching_pair_ok) (simp add: good_block_def)
    then show ?thesis
      using True b(1) Cons.prems(1) rest
      by (auto simp: get_block_number_ok blocks_at_Cons block_address split: option.splits)
  qed
qed

lemma find_in_None:
  "name \<noteq> [] \<Longrightarrow> find_in d name bs = None \<longleftrightarrow>
     name \<notin> fst ` set (concat (map (\<lambda>b. block_list d (entries d b)) bs))"
proof (induction bs)
  case (Cons b bs)
  have "locate None (\<lambda>e. ename d e = name) (entries d b) = None
      \<longleftrightarrow> name \<notin> fst ` set (block_list d (entries d b))"
  proof -
    have "ename d e = name \<Longrightarrow> 0 < nlen d e" for e
      using Cons.prems length_ename[of d e] by (cases "nlen d e") auto
    then show ?thesis by (auto simp: locate_None block_list_def image_iff) (metis less_irrefl)
  qed
  with Cons show ?case by (auto split: option.splits)
qed simp

lemma find_in_Some:
  assumes "find_in d name bs = Some (q, e)" "name \<noteq> []"
  shows "\<exists>b \<in> set bs. e \<in> set (entries d b) \<and> locate None (\<lambda>e. ename d e = name) (entries d b) = Some (q, e)"
    and "ename d e = name"
    and "map_of (concat (map (\<lambda>b. block_list d (entries d b)) bs)) name = Some (einode d e, ftype d e)"
proof -
  have "(\<exists>b \<in> set bs. e \<in> set (entries d b) \<and> locate None (\<lambda>e. ename d e = name) (entries d b) = Some (q, e))
    \<and> ename d e = name
    \<and> map_of (concat (map (\<lambda>b. block_list d (entries d b)) bs)) name = Some (einode d e, ftype d e)"
    using assms
  proof (induction bs)
    case Nil
    then show ?case by simp
  next
    case (Cons b bs)
    show ?case
    proof (cases "locate None (\<lambda>e. ename d e = name) (entries d b)")
      case None
      then have "name \<notin> fst ` set (block_list d (entries d b))"
        using find_in_None[OF Cons.prems(2), of d "[b]"] by simp
      then have "map_of (block_list d (entries d b)) name = None" by (simp add: map_of_eq_None_iff)
      then show ?thesis using Cons None by (auto simp: map_add_def split: option.splits)
    next
      case (Some p)
      with Cons.prems have p: "p = (q, e)" by simp
      from locate_SomeD[OF Some[unfolded p]] obtain xs ys where
        x: "entries d b = xs @ e # ys" "ename d e = name" "\<forall>x \<in> set xs. ename d x \<noteq> name" by auto
      have "0 < nlen d e" using x(2) Cons.prems(2) length_ename[of d e] by (cases "nlen d e") auto
      moreover have "name \<notin> fst ` set (block_list d xs)" using x(3) by (auto simp: block_list_def)
      then have "map_of (block_list d xs) name = None" by (simp add: map_of_eq_None_iff)
      ultimately have "map_of (block_list d (entries d b)) name = Some (einode d e, ftype d e)"
        using x(1,2) by (simp add: map_add_def entry_at_def)
      then have "map_of (concat (map (\<lambda>b. block_list d (entries d b)) (b # bs))) name = Some (einode d e, ftype d e)"
        by (simp only: list.map concat.simps map_of_append map_add_find_right)
      then show ?thesis using x Some p by auto
    qed
  qed
  then show "\<exists>b \<in> set bs. e \<in> set (entries d b) \<and> locate None (\<lambda>e. ename d e = name) (entries d b) = Some (q, e)"
    and "ename d e = name"
    and "map_of (concat (map (\<lambda>b. block_list d (entries d b)) bs)) name = Some (einode d e, ftype d e)" by auto
qed

text \<open>Searching a directory is looking up its map.\<close>

lemma find_matching_entry_ok:
  assumes "dir_ok d n" "name \<noteq> []"
  shows "find_matching_entry d (inode_at n) (Some name) = Ret (map_option snd (find_in d name (dir_blocks d n)))"
    and "map_option snd (find_in d name (dir_blocks d n)) = None \<longleftrightarrow> dir_map d n name = None"
    and "find_in d name (dir_blocks d n) = Some (q, e) \<Longrightarrow>
      dir_map d n name = Some (einode d e, ftype d e) \<and> e + 8 \<le> DISK_SIZE"
proof -
  have b: "\<forall>b \<in> set (blocks_at d (inode_at n) [0..<INODE_BLOCK_LIMIT]). b < 128 \<and> good_block d b"
    using assms(1) by (simp add: blocks_at_all dir_ok_def dir_blocks_def)
  have dr: "direct d (inode_at n)" using assms(1) by (simp add: dir_ok_def)
  show "find_matching_entry d (inode_at n) (Some name) = Ret (map_option snd (find_in d name (dir_blocks d n)))"
    using find_entry_loop_ok[OF dr b]
    by (simp add: find_matching_entry_def find_matching_pair_def blocks_at_all dir_blocks_def)
  show "map_option snd (find_in d name (dir_blocks d n)) = None \<longleftrightarrow> dir_map d n name = None"
    using find_in_None[OF assms(2)] by (simp add: dir_map_def dir_list_def map_of_eq_None_iff)
  show "dir_map d n name = Some (einode d e, ftype d e) \<and> e + 8 \<le> DISK_SIZE"
    if f: "find_in d name (dir_blocks d n) = Some (q, e)"
  proof -
    from find_in_Some[OF f assms(2)] obtain b where x: "b \<in> set (dir_blocks d n)" "e \<in> set (entries d b)"
      "map_of (dir_list d n) name = Some (einode d e, ftype d e)" by (auto simp: dir_list_def)
    then have "entry_block d (1024 * b) (entries d b)" using assms(1) by (auto simp: dir_ok_def good_block_def)
    then have "e + 8 \<le> DISK_SIZE"
      using chain_mem[of d "1024 * b" "entries d b" "1024 * b + 1024" e] x(2) by (auto simp: entry_block_def)
    with x(3) show ?thesis by (simp add: dir_map_def)
  qed
qed

lemma dir_map_range:
  assumes "tree_ok d D" "n \<in> D" "dir_map d n name = Some (m, t)"
  shows "0 < m" "m \<le> 32" "t = EXT2_FT_DIR \<Longrightarrow> m \<in> D"
proof -
  have "(name, m, t) \<in> set (dir_list d n)" using assms(3) by (auto simp: dir_map_def dest: map_of_SomeD)
  with assms(1,2) show "0 < m" "m \<le> 32" "t = EXT2_FT_DIR \<Longrightarrow> m \<in> D"
    by (auto simp: tree_ok_def)
qed

section \<open>Paths\<close>

text \<open>Following names from a directory: the inode and type at the end.\<close>

fun follow :: "(nat \<Rightarrow> string \<Rightarrow> (nat \<times> nat) option) \<Rightarrow> nat \<Rightarrow> string list \<Rightarrow> (nat \<times> nat) option" where
  "follow fs n [] = Some (n, EXT2_FT_DIR)"
| "follow fs n (c # cs) =
     (case fs n c of
        None \<Rightarrow> None
      | Some (m, t) \<Rightarrow> if t = EXT2_FT_DIR then follow fs m cs else if cs = [] then Some (m, t) else None)"

text \<open>An entry in the image, of one of the directories, stands for an inode and a type.\<close>

definition located :: "bytes \<Rightarrow> nat set \<Rightarrow> nat \<Rightarrow> bool" where
  "located d D e \<longleftrightarrow> (\<exists>n \<in> D. \<exists>b \<in> set (dir_blocks d n). e \<in> set (entries d b))"

definition points :: "bytes \<Rightarrow> nat set \<Rightarrow> nat option \<Rightarrow> (nat \<times> nat) option \<Rightarrow> bool" where
  "points d D eo v \<longleftrightarrow>
     (case eo of None \<Rightarrow> v = None
      | Some e \<Rightarrow> v = Some (einode d e, ftype d e) \<and> e + 8 \<le> DISK_SIZE \<and> located d D e)"

lemma is_directory_ok: "e + 8 \<le> DISK_SIZE \<Longrightarrow> is_directory d (Some e) = Ret (ftype d e = EXT2_FT_DIR)"
  by (simp add: is_directory_def has_type_def ftype_def file_type_def del: load_le.simps One_nat_def)

lemma traverse_loop_ok:
  assumes t: "tree_ok d D" and l: "dl_inv l" "dl_abs l = map Some names" "[] \<notin> set names"
    and n: "n \<in> D" "k \<le> length names" "k < length names \<or> points d D eo (Some (n, EXT2_FT_DIR))"
  shows "\<exists>e. traverse_loop (length names - k) k l eo (inode_at n) d = Ret e \<and>
             points d D e (follow (dir_map d) n (drop k names))"
  using n
proof (induction "length names - k" arbitrary: k eo n)
  case 0
  then show ?case by auto
next
  case (Suc j)
  then have k: "k < length names" "length names - k = Suc j" "length names - Suc k = j" by simp_all
  have cnt: "count l = length names" using length_dl_abs[OF l(1)] l(2) by simp
  then have "contents l ! k = Some (names ! k)"
    using nth_dl_abs[OF l(1), of k] k(1) l(2) by simp
  moreover have "k < length (contents l)" using l(1) k(1) cnt by (simp add: dl_inv_def)
  ultimately have st: "traverse_loop (length names - k) k l eo (inode_at n) d =
    bind_f (find_matching_entry d (inode_at n) (Some (names ! k))) (\<lambda>entry.
        case entry of
          None \<Rightarrow> Ret None
        | Some e \<Rightarrow>
            bind_f (is_directory d (Some e)) (\<lambda>dir.
            if \<not> dir then Ret (if k = count l - 1 then Some e else None)
            else
              bind_f (get_inode_from_entry d (Some e)) (\<lambda>i.
              case i of None \<Rightarrow> Fault | Some inode \<Rightarrow> traverse_loop j (Suc k) l (Some e) inode d)))"
    using k(2) by simp
  have ne: "names ! k \<noteq> []" using l(3) k(1) nth_mem by metis
  have dk: "dir_ok d n" using t Suc.prems(1) by (simp add: tree_ok_def)
  note f = find_matching_entry_ok[OF dk ne]
  have dr: "drop k names = names ! k # drop (Suc k) names" using k(1) by (rule Cons_nth_drop_Suc[symmetric])
  show ?case
  proof (cases "find_in d (names ! k) (dir_blocks d n)")
    case None
    then show ?thesis unfolding st dr using f(1,2) by (auto simp: points_def)
  next
    case (Some p)
    then obtain q e where p: "find_in d (names ! k) (dir_blocks d n) = Some (q, e)" by (cases p) auto
    have lo: "located d D e"
      using find_in_Some(1)[OF p ne] Suc.prems(1) by (auto simp: located_def)
    from f(3)[OF p] have m: "dir_map d n (names ! k) = Some (einode d e, ftype d e)" and e: "e + 8 \<le> DISK_SIZE"
      by auto
    note r = dir_map_range[OF t Suc.prems(1) m]
    show ?thesis
    proof (cases "ftype d e = EXT2_FT_DIR")
      case False
      then show ?thesis
        unfolding st dr using f(1) p m e k(1) cnt lo by (auto simp: points_def is_directory_ok)
    next
      case True
      have gi: "get_inode_from_entry d (Some e) = Ret (Some (inode_at (einode d e)))"
      proof -
        have "rd 4 d (e + e_inode) = Ret (einode d e)" using e by (simp add: einode_def e_inode_def)
        then show ?thesis using get_inode_ok[OF _ r(1,2)] t by (simp add: get_inode_from_entry_def tree_ok_def)
      qed
      have "\<exists>e'. traverse_loop (length names - Suc k) (Suc k) l (Some e) (inode_at (einode d e)) d = Ret e' \<and>
             points d D e' (follow (dir_map d) (einode d e) (drop (Suc k) names))"
        using True e k r(3) lo by (intro Suc.hyps(1)) (auto simp: points_def)
      then show ?thesis unfolding st dr using f(1) p m True e gi k(3) by (auto simp: is_directory_ok)
    qed
  qed
qed

lemma traverse_path_ok:
  assumes "tree_ok d D" "dl_inv l" "dl_abs l = map Some names" "[] \<notin> set names" "names \<noteq> []"
  shows "\<exists>e. traverse_path d l = Ret e \<and> points d D e (follow (dir_map d) 2 names)"
proof -
  have "count l = length names" using length_dl_abs[OF assms(2)] assms(3) by simp
  moreover have "get_root_inode d = Ret (inode_at 2)" "2 \<in> D"
    using assms(1) get_root_inode_ok by (simp_all add: tree_ok_def)
  ultimately show ?thesis
    using traverse_loop_ok[OF assms(1-4), of 2 0 None] assms(5) by (simp add: traverse_path_def)
qed

end
