(* ===== verification/Ext2_Path.thy ===== *)
theory Ext2_Path
  imports Ext2_Tree
begin

text \<open>
  Splitting of paths and \<open>ext2_ls\<close>: \<open>split_path\<close> gives ``.'' and the non-empty parts between
  slashes, and \<open>strtok\<close> cuts the string it works on after the first of them; \<open>ext2_ls\<close>
  prints what the directory tree says.
\<close>

section \<open>Splitting\<close>

fun split_slash :: "string \<Rightarrow> string list" where
  "split_slash [] = [[]]"
| "split_slash (c # cs) =
     (if c = CHR ''/'' then [] # split_slash cs
      else (case split_slash cs of [] \<Rightarrow> [[c]] | t # ts \<Rightarrow> (c # t) # ts))"

definition tokens :: "string \<Rightarrow> string list" where
  "tokens s = filter (\<lambda>t. t \<noteq> []) (split_slash s)"

lemma split_slash_ne: "split_slash s \<noteq> []"
  by (induction s) (auto split: list.splits)

lemma split_slash_word:
  "CHR ''/'' \<notin> set t \<Longrightarrow> split_slash t = [t]"
  "CHR ''/'' \<notin> set t \<Longrightarrow> split_slash (t @ CHR ''/'' # r) = t # split_slash r"
  by (induction t) auto

lemma tokens_slashes: "set p \<subseteq> {CHR ''/''} \<Longrightarrow> tokens (p @ s) = tokens s"
  by (induction p) (auto simp: tokens_def)

lemma tokens_word:
  "CHR ''/'' \<notin> set t \<Longrightarrow> t \<noteq> [] \<Longrightarrow> r = [] \<or> r = CHR ''/'' # q \<Longrightarrow>
     tokens (t @ r) = t # tokens (drop 1 r)"
  by (auto simp: tokens_def split_slash_word)

lemma dropWhile_cases:
  "dropWhile (\<lambda>c. c \<noteq> x) s = [] \<or> dropWhile (\<lambda>c. c \<noteq> x) s = x # drop 1 (dropWhile (\<lambda>c. c \<noteq> x) s)"
  by (induction s) auto

lemma strtok_tokens: "tokens s = (case strtok s of None \<Rightarrow> [] | Some (t, r) \<Rightarrow> t # tokens r)"
proof -
  let ?p = "takeWhile (\<lambda>c. c = CHR ''/'') s" and ?s1 = "dropWhile (\<lambda>c. c = CHR ''/'') s"
  have "set ?p \<subseteq> {CHR ''/''}" by (auto dest: set_takeWhileD)
  from tokens_slashes[OF this, of ?s1] have t1: "tokens s = tokens ?s1" by simp
  show ?thesis
  proof (cases "?s1 = []")
    case True
    from t1 have "tokens s = tokens []" unfolding True .
    with True show ?thesis by (simp add: strtok_def tokens_def)
  next
    case False
    let ?t = "takeWhile (\<lambda>c. c \<noteq> CHR ''/'') ?s1" and ?r = "dropWhile (\<lambda>c. c \<noteq> CHR ''/'') ?s1"
    have nt: "CHR ''/'' \<notin> set ?t" by (auto dest: set_takeWhileD)
    have "?t \<noteq> []"
    proof
      assume "?t = []"
      then have "hd ?s1 = CHR ''/''" using False by (cases ?s1) (auto split: if_splits)
      then show False using hd_dropWhile[OF False] by simp
    qed
    moreover have "?r = [] \<or> ?r = CHR ''/'' # drop 1 ?r"
      by (rule dropWhile_cases)
    ultimately have "tokens (?t @ ?r) = ?t # tokens (drop 1 ?r)"
      using tokens_word[OF nt] by blast
    then have "tokens ?s1 = ?t # tokens (drop 1 ?r)" by (simp only: takeWhile_dropWhile_id)
    moreover have "strtok s = Some (?t, drop 1 ?r)"
      using False unfolding strtok_def Let_def by (simp only: if_False)
    ultimately show ?thesis using t1 by (simp only: option.case prod.case)
  qed
qed

lemma split_loop_ok:
  "dl_inv l \<Longrightarrow> dl_abs l = map Some ts \<Longrightarrow>
     \<exists>l'. split_loop s l = Ret l' \<and> dl_inv l' \<and> dl_abs l' = map Some (ts @ tokens s)"
proof (induction s l arbitrary: ts rule: split_loop.induct)
  case (1 s l)
  show ?case
  proof (cases "strtok s")
    case None
    then show ?thesis using 1(2,3) strtok_tokens[of s] by (subst split_loop.simps) simp
  next
    case (Some p)
    then obtain t r where p: "strtok s = Some (t, r)" by (cases p) auto
    from listAppend_ok[OF 1(2), of "Some t"] obtain l1 where
      l1: "listAppend l (Some t) = Ok l1" "dl_inv l1" "dl_abs l1 = map Some (ts @ [t])"
      using 1(3) by auto
    from 1(1)[OF p refl _ l1(2,3)] l1(1) obtain l' where
      "split_loop r l1 = Ret l'" "dl_inv l'" "dl_abs l' = map Some ((ts @ [t]) @ tokens r)" by auto
    then show ?thesis using p l1(1) strtok_tokens[of s] by (subst split_loop.simps) auto
  qed
qed

lemma split_path_ok:
  obtains l where "split_path path = Ret l" "dl_inv l" "dl_abs l = map Some (''.'' # tokens path)"
proof -
  have e: "dl_inv (makeList 5 :: string dlist)" "dl_abs (makeList 5 :: string dlist) = []"
    using makeList_ok[of 5] by auto
  obtain l0 where l0: "listAppend (makeList 5) (Some ''.'') = Ok l0" "dl_inv l0" "dl_abs l0 = map Some [''.'']"
    using listAppend_ok[OF e(1), of "Some ''.''"] e(2) by auto
  from split_loop_ok[OF l0(2,3), of path] that show thesis
    by (auto simp: split_path_def l0(1))
qed

lemma tokens_ne: "[] \<notin> set (''.'' # tokens path)"
  by (simp add: tokens_def)

lemma strtok_buffer_plain: "CHR ''/'' \<notin> set s \<Longrightarrow> strtok_buffer s = s"
proof -
  assume a: "CHR ''/'' \<notin> set s"
  then have "takeWhile (\<lambda>c. c = CHR ''/'') s = []" "dropWhile (\<lambda>c. c = CHR ''/'') s = s"
    by (cases s; auto)+
  with a show ?thesis by (auto simp: strtok_buffer_def intro!: takeWhile_eq_all_conv[THEN iffD2])
qed

text \<open>The components of a path, as inode number and type.\<close>

definition resolve :: "bytes \<Rightarrow> string list \<Rightarrow> (nat \<times> nat) option" where
  "resolve d names = follow (dir_map d) 2 names"

lemma follow_range:
  assumes "tree_ok d D" "n \<in> D" "follow (dir_map d) n names = Some (m, t)"
  shows "0 < m \<and> m \<le> 32 \<and> (t = EXT2_FT_DIR \<longrightarrow> m \<in> D)"
  using assms(2,3)
proof (induction names arbitrary: n)
  case Nil
  then show ?case using assms(1) by (auto simp: tree_ok_def dir_ok_def)
next
  case (Cons c cs)
  then obtain k u where k: "dir_map d n c = Some (k, u)" by (auto split: option.splits)
  note r = dir_map_range[OF assms(1) Cons.prems(1) k]
  show ?case
  proof (cases "u = EXT2_FT_DIR")
    case True
    then show ?thesis using Cons.IH[OF r(3)] Cons.prems(2) k by simp
  next
    case False
    then show ?thesis using Cons.prems(2) k r by (auto split: if_splits)
  qed
qed

lemma resolve_range:
  "tree_ok d D \<Longrightarrow> resolve d names = Some (m, t) \<Longrightarrow> 0 < m \<and> m \<le> 32 \<and> (t = EXT2_FT_DIR \<longrightarrow> m \<in> D)"
proof -
  assume t: "tree_ok d D" and r: "resolve d names = Some (m, t)"
  from t have "2 \<in> D" by (simp add: tree_ok_def)
  from follow_range[OF t this] r show ?thesis by (simp add: resolve_def)
qed

section \<open>\<open>ext2_ls\<close>\<close>

lemma has_type_ok: "e + 8 \<le> DISK_SIZE \<Longrightarrow> has_type ft d (Some e) = Ret (ftype d e = ft)"
  by (simp add: has_type_def ftype_def file_type_def del: load_le.simps One_nat_def)

lemma contents_loop_ok:
  assumes "direct d inode" "\<forall>b \<in> set (blocks_at d inode is). b < 128 \<and> good_block d b"
    and "\<not> dots \<Longrightarrow> \<forall>b \<in> set (blocks_at d inode is). \<forall>e \<in> set (entries d b). terminated d e"
  shows "contents_loop is d inode dots =
    Ret (shown dots (concat (map (\<lambda>b. block_list d (entries d b)) (blocks_at d inode is))))"
  using assms
proof (induction "is")
  case Nil
  then show ?case by (simp add: blocks_at_def)
next
  case (Cons i "is")
  have rest: "contents_loop is d inode dots =
    Ret (shown dots (concat (map (\<lambda>b. block_list d (entries d b)) (blocks_at d inode is))))"
    by (rule Cons.IH[OF Cons.prems(1)]) (use Cons.prems(2,3) in \<open>auto simp: blocks_at_Cons\<close>)
  show ?case
  proof (cases "i < 12 \<and> bnum d inode i \<noteq> 0")
    case False
    then show ?thesis using Cons.prems(1) rest by (auto simp: get_block_number_ok blocks_at_Cons)
  next
    case True
    then have b: "bnum d inode i < 128" "good_block d (bnum d inode i)"
      "\<not> dots \<Longrightarrow> \<forall>e \<in> set (entries d (bnum d inode i)). terminated d e"
      using Cons.prems(2,3) by (auto simp: blocks_at_Cons)
    have "print_block_contents d (1024 * bnum d inode i) dots
        = Ret (shown dots (block_list d (entries d (bnum d inode i))))"
      using b(2,3) by (intro print_block_contents_ok) (auto simp: good_block_def)
    then show ?thesis
      using True b(1) Cons.prems(1) rest
      by (simp add: get_block_number_ok blocks_at_Cons block_address)
  qed
qed

text \<open>The names of the entries end with a zero byte in the image.\<close>

definition names_terminated :: "bytes \<Rightarrow> nat \<Rightarrow> bool" where
  "names_terminated d n \<longleftrightarrow> (\<forall>b \<in> set (dir_blocks d n). \<forall>e \<in> set (entries d b). terminated d e)"

lemma print_dir_ok:
  assumes t: "tree_ok d D" and n: "n \<in> D" and e: "einode d e = n" "e + 8 \<le> DISK_SIZE"
    and tm: "\<not> dots \<Longrightarrow> names_terminated d n"
  shows "print_dir_contents d (Some e) dots = Ret (shown dots (dir_list d n))"
proof -
  have dk: "dir_ok d n" using t n by (simp add: tree_ok_def)
  have "rd 4 d (e + e_inode) = Ret n" using e by (simp add: einode_def e_inode_def)
  then have "get_inode_from_entry d (Some e) = Ret (Some (inode_at n))"
    using get_inode_ok[of d n] t dk by (simp add: get_inode_from_entry_def tree_ok_def dir_ok_def)
  moreover have "contents_loop [0..<INODE_BLOCK_LIMIT] d (inode_at n) dots = Ret (shown dots (dir_list d n))"
    using dk tm unfolding dir_list_def dir_blocks_def blocks_at_all[symmetric]
    by (intro contents_loop_ok)
      (auto simp: dir_ok_def dir_blocks_def names_terminated_def blocks_at_all)
  ultimately show ?thesis by (simp add: print_dir_contents_def)
qed

lemma traverse_split:
  assumes "tree_ok d D"
  obtains l e where "split_path path = Ret l" "dl_inv l" "dl_abs l = map Some (''.'' # tokens path)"
    "traverse_path d l = Ret e" "points d D e (resolve d (''.'' # tokens path))"
proof -
  obtain l where l: "split_path path = Ret l" "dl_inv l" "dl_abs l = map Some (''.'' # tokens path)"
    by (rule split_path_ok)
  from traverse_path_ok[OF assms l(2,3) tokens_ne] that[OF l] show thesis
    by (auto simp: resolve_def)
qed

lemma ext2_ls_ok:
  assumes t: "tree_ok d D"
    and tm: "\<And>m. resolve d (''.'' # tokens path) = Some (m, EXT2_FT_DIR) \<Longrightarrow> \<not> dots \<Longrightarrow> names_terminated d m"
  shows "ext2_ls d path dots =
    (case resolve d (''.'' # tokens path) of
       None \<Rightarrow> Quit ENOENT d
     | Some (m, ft) \<Rightarrow>
         Ret (if ft = EXT2_FT_DIR then shown dots (dir_list d m)
              else if ft = EXT2_FT_REG_FILE \<or> ft = EXT2_FT_SYMLINK then [last (''.'' # tokens path)]
              else []))"
proof -
  obtain l e where l: "split_path path = Ret l" "dl_inv l" "dl_abs l = map Some (''.'' # tokens path)"
    "traverse_path d l = Ret e" "points d D e (resolve d (''.'' # tokens path))"
    by (rule traverse_split[OF t])
  have pk: "listPeek l = Ok (Some (last (''.'' # tokens path)))"
    using listPeek_ok[OF l(2)] l(3) by (simp add: last_map)
  show ?thesis
  proof (cases e)
    case None
    then show ?thesis using l by (simp add: ext2_ls_def points_def)
  next
    case (Some a)
    then have v: "resolve d (''.'' # tokens path) = Some (einode d a, ftype d a)" "a + 8 \<le> DISK_SIZE"
      using l(5) by (auto simp: points_def)
    show ?thesis
    proof (cases "ftype d a = EXT2_FT_DIR")
      case True
      then have "einode d a \<in> D" using resolve_range[OF t v(1)] by simp
      from print_dir_ok[OF t this refl v(2), of dots] tm True v(1) show ?thesis
        using l Some v True
        by (simp add: ext2_ls_def is_file_def is_link_def is_directory_def has_type_ok
            EXT2_FT_REG_FILE_def EXT2_FT_DIR_def EXT2_FT_SYMLINK_def)
    next
      case False
      then show ?thesis
        using l Some v pk
        by (simp add: ext2_ls_def is_file_def is_link_def is_directory_def has_type_ok deref_string_def)
    qed
  qed
qed

end
