(* ===== verification/Ext2_Dir_Add.thy ===== *)
theory Ext2_Dir_Add
  imports Ext2_Path
begin

text \<open>
  \<open>make_entry_in_inode\<close> on a directory: the entry goes into the first block with room or into a
  new block, and the directory then lists one entry more; \<open>add_frame\<close> says which bytes changed.
\<close>

section \<open>Frames for directories\<close>

definition dir_bytes :: "bytes \<Rightarrow> nat \<Rightarrow> nat set" where
  "dir_bytes d n = inode_bytes n \<union> (\<Union>b \<in> set (dir_blocks d n). block_bytes b)"

lemma dir_frame:
  assumes "agree (dir_bytes d n) d d'"
  shows "dir_blocks d' n = dir_blocks d n"
    "\<forall>b \<in> set (dir_blocks d n). good_block d b \<Longrightarrow> dir_list d' n = dir_list d n"
    "dir_ok d n \<Longrightarrow> dir_ok d' n"
proof -
  have i: "agree (inode_bytes n) d d'" by (rule agree_subset[OF assms]) (auto simp: dir_bytes_def)
  then show blocks: "dir_blocks d' n = dir_blocks d n"
    unfolding dir_blocks_def by (intro inode_blocks_agree) (auto simp: inode_bytes_def)
  have b: "agree (block_bytes b) d d'" if "b \<in> set (dir_blocks d n)" for b
    by (rule agree_subset[OF assms]) (use that in \<open>auto simp: dir_bytes_def\<close>)
  have list: "dir_list d' n = dir_list d n" if "\<forall>b \<in> set (dir_blocks d n). good_block d b"
    using that good_block_agree(2,3)[OF b] unfolding dir_list_def blocks
    by (intro arg_cong[where f = concat] map_cong) auto
  then show "\<forall>b \<in> set (dir_blocks d n). good_block d b \<Longrightarrow> dir_list d' n = dir_list d n" .
  have "direct d' (inode_at n) = direct d (inode_at n)"
    by (rule direct_agree[OF i]) (simp add: inode_bytes_def)
  then show "dir_ok d n \<Longrightarrow> dir_ok d' n"
    using good_block_agree(1)[OF b] by (auto simp: dir_ok_def blocks)
qed

lemma dir_frame_map: "agree (dir_bytes d n) d d' \<Longrightarrow> dir_ok d n \<Longrightarrow> dir_map d' n = dir_map d n"
  using dir_frame(2)[of d n d'] by (simp add: dir_map_def dir_ok_def)

section \<open>Into an existing block\<close>

definition room_in :: "bytes \<Rightarrow> nat \<Rightarrow> nat \<Rightarrow> bool" where
  "room_in d k b \<longleftrightarrow> (\<exists>e \<in> set (entries d b). has_room d k e)"

text \<open>One entry more.\<close>

definition extends :: "dirent \<Rightarrow> dirent list \<Rightarrow> dirent list \<Rightarrow> bool" where
  "extends x L M \<longleftrightarrow> (\<exists>xs ys. L = xs @ ys \<and> M = xs @ x # ys)"

lemma extends_concat:
  "extends x L M \<Longrightarrow> extends x (A @ L @ B) (A @ M @ B)"
proof -
  assume "extends x L M"
  then obtain xs ys where "L = xs @ ys" "M = xs @ x # ys" by (auto simp: extends_def)
  then show ?thesis unfolding extends_def by (intro exI[of _ "A @ xs"] exI[of _ "ys @ B"]) simp
qed

lemma extends_map_of:
  "extends (a, v) L M \<Longrightarrow> a \<notin> fst ` set L \<Longrightarrow> map_of M = (map_of L)(a \<mapsto> v)"
proof -
  assume "extends (a, v) L M" "a \<notin> fst ` set L"
  then obtain xs ys where x: "L = xs @ ys" "M = xs @ (a, v) # ys"
    by (auto simp: extends_def)
  then have "a \<notin> fst ` set xs" using \<open>a \<notin> fst ` set L\<close> by auto
  then have "a \<notin> dom (map_of xs)" by (simp add: dom_map_of_conv_image_fst)
  then show ?thesis using x(1,2) by (auto simp: map_add_upd_left)
qed

lemma extends_set: "extends x L M \<Longrightarrow> set M = insert x (set L)"
  by (auto simp: extends_def)

lemma extends_distinct:
  "extends (a, v) L M \<Longrightarrow> distinct (map fst L) \<Longrightarrow> a \<notin> fst ` set L \<Longrightarrow> distinct (map fst M)"
  by (auto simp: extends_def)

lemma insert_in_block:
  assumes "good_block d b" "length name < 256" "name \<noteq> []" "ft < 256" "ino < 2 ^ 32"
  shows "\<not> room_in d (length name) b \<Longrightarrow>
      make_entry_in_existing_block d (1024 * b) ino name ft = Ret (None, d)"
    and "room_in d (length name) b \<Longrightarrow> \<exists>e d'.
      make_entry_in_existing_block d (1024 * b) ino name ft = Ret (Some e, d') \<and>
      agree (- block_bytes b) d d' \<and> good_block d' b \<and>
      extends (name, ino, ft) (block_list d (entries d b)) (block_list d' (entries d' b)) \<and>
      (\<forall>x \<in> set (entries d b). x \<in> set (entries d' b) \<and> entry_at d' x = entry_at d x)"
proof -
  from assms(1) have c: "chain d (1024 * b) (entries d b) (1024 * b + 1024)"
    and ds: "1024 * b + 1024 \<le> DISK_SIZE" and rm: "roomy d (entries d b)"
    by (auto simp: good_block_def entry_block_def)
  have loop: "make_entry_in_existing_block d (1024 * b) ino name ft =
    (case locate None (has_room d (length name)) (entries d b) of
       None \<Rightarrow> Ret (None, d)
     | Some (_, e) \<Rightarrow>
         let cm = total_entry_length (nlen d e) in
         Ret (Some (e + cm), added d e cm (e + cm) ino name ft))"
    unfolding make_entry_in_existing_block_def by (rule insert_loop_ok[OF c _ ds rm assms(2)]) simp
  show "make_entry_in_existing_block d (1024 * b) ino name ft = Ret (None, d)"
    if "\<not> room_in d (length name) b"
  proof -
    have "locate None (has_room d (length name)) (entries d b) = None"
      using that by (auto simp: locate_None room_in_def)
    with loop show ?thesis by simp
  qed
  show "\<exists>e d'. make_entry_in_existing_block d (1024 * b) ino name ft = Ret (Some e, d') \<and>
      agree (- block_bytes b) d d' \<and> good_block d' b \<and>
      extends (name, ino, ft) (block_list d (entries d b)) (block_list d' (entries d' b)) \<and>
      (\<forall>x \<in> set (entries d b). x \<in> set (entries d' b) \<and> entry_at d' x = entry_at d x)"
    if "room_in d (length name) b"
  proof -
    have "locate None (has_room d (length name)) (entries d b) \<noteq> None"
      using that by (auto simp: locate_None room_in_def)
    then obtain q e where l: "locate None (has_room d (length name)) (entries d b) = Some (q, e)" by auto
    from locate_SomeD[OF l] obtain xs ys where x: "entries d b = xs @ e # ys" "has_room d (length name) e"
      by auto
    let ?cm = "total_entry_length (nlen d e)"
    let ?d' = "added d e ?cm (e + ?cm) ino name ft"
    note a = chain_added[OF c[unfolded x(1)] assms(2) _ assms(4,5) x(2)[unfolded has_room_def]]
    have eb: "entry_block ?d' (1024 * b) (xs @ e # (e + ?cm) # ys)"
      using a(1) ds assms(3) by (simp add: entry_block_def)
    have "good_block ?d' b"
      using good_blockI[OF eb] a(4) rm x(1) assms(3) by simp
    moreover have "extends (name, ino, ft) (block_list d (entries d b)) (block_list ?d' (entries ?d' b))"
      unfolding entries_block[OF eb] extends_def x(1)
      using a(3) assms(3)
      by (intro exI[of _ "block_list d (xs @ [e])"] exI[of _ "block_list d ys"]) simp
    moreover have "\<forall>z \<in> set (entries d b). z \<in> set (entries ?d' b) \<and> entry_at ?d' z = entry_at d z"
      unfolding entries_block[OF eb] x(1) using a(5) assms(3) by auto
    moreover have "agree (- block_bytes b) d ?d'"
      using a(2) assms(3) by (simp add: block_bytes_def)
    moreover have "make_entry_in_existing_block d (1024 * b) ino name ft = Ret (Some (e + ?cm), ?d')"
      using loop l by (simp add: Let_def)
    ultimately show ?thesis by blast
  qed
qed

lemma existing_loop_none:
  assumes "direct d inode" "\<forall>b \<in> set (blocks_at d inode is). b < 128 \<and> good_block d b \<and> \<not> room_in d (length name) b"
    and "length name < 256" "name \<noteq> []" "ft < 256" "ino < 2 ^ 32"
  shows "existing_loop is d inode ino name ft = Ret (None, d)"
  using assms(1,2)
proof (induction "is")
  case (Cons i "is")
  have rest: "existing_loop is d inode ino name ft = Ret (None, d)"
    by (rule Cons.IH[OF Cons.prems(1)]) (use Cons.prems(2) in \<open>auto simp: blocks_at_Cons\<close>)
  show ?case
  proof (cases "i < 12 \<and> bnum d inode i \<noteq> 0")
    case False
    then show ?thesis using Cons.prems(1) rest by (auto simp: get_block_number_ok)
  next
    case True
    then have "bnum d inode i < 128" "good_block d (bnum d inode i)" "\<not> room_in d (length name) (bnum d inode i)"
      using Cons.prems(2) by (auto simp: blocks_at_Cons)
    then show ?thesis
      using True Cons.prems(1) rest insert_in_block(1)[OF _ assms(3-6)]
      by (simp add: get_block_number_ok block_address)
  qed
qed simp

lemma existing_loop_room:
  assumes "direct d inode" "\<forall>b \<in> set (blocks_at d inode is). b < 128 \<and> good_block d b"
    and "length name < 256" "name \<noteq> []" "ft < 256" "ino < 2 ^ 32"
    and "\<exists>b \<in> set (blocks_at d inode is). room_in d (length name) b"
  shows "\<exists>b e d'. b \<in> set (blocks_at d inode is) \<and> existing_loop is d inode ino name ft = Ret (Some e, d') \<and>
      agree (- block_bytes b) d d' \<and> good_block d' b \<and>
      extends (name, ino, ft) (block_list d (entries d b)) (block_list d' (entries d' b)) \<and>
      (\<forall>x \<in> set (entries d b). x \<in> set (entries d' b) \<and> entry_at d' x = entry_at d x)"
  using assms(1,2,7)
proof (induction "is")
  case Nil
  then show ?case by (simp add: blocks_at_def)
next
  case (Cons i "is")
  show ?case
  proof (cases "i < 12 \<and> bnum d inode i \<noteq> 0")
    case False
    then have b: "blocks_at d inode (i # is) = blocks_at d inode is" by (auto simp: blocks_at_Cons)
    have "existing_loop (i # is) d inode ino name ft = existing_loop is d inode ino name ft"
      using False Cons.prems(1) by (auto simp: get_block_number_ok)
    with b Cons.IH[OF Cons.prems(1)] Cons.prems(2,3) show ?thesis by simp
  next
    case True
    let ?b = "bnum d inode i"
    have bs: "blocks_at d inode (i # is) = ?b # blocks_at d inode is" using True by (simp add: blocks_at_Cons)
    have g: "?b < 128" "good_block d ?b" using Cons.prems(2) bs by auto
    note ib = insert_in_block[OF g(2) assms(3-6)]
    show ?thesis
    proof (cases "room_in d (length name) ?b")
      case True
      from ib(2)[OF True] obtain e d' where
        r: "make_entry_in_existing_block d (1024 * ?b) ino name ft = Ret (Some e, d')"
          "agree (- block_bytes ?b) d d'" "good_block d' ?b"
          "extends (name, ino, ft) (block_list d (entries d ?b)) (block_list d' (entries d' ?b))"
          "\<forall>x \<in> set (entries d ?b). x \<in> set (entries d' ?b) \<and> entry_at d' x = entry_at d x" by blast
      then have "existing_loop (i # is) d inode ino name ft = Ret (Some e, d')"
        using \<open>i < 12 \<and> ?b \<noteq> 0\<close> Cons.prems(1) g(1) by (simp add: get_block_number_ok block_address)
      with r bs show ?thesis by auto
    next
      case False
      then have "existing_loop (i # is) d inode ino name ft = existing_loop is d inode ino name ft"
        using ib(1) \<open>i < 12 \<and> ?b \<noteq> 0\<close> Cons.prems(1) g(1) by (simp add: get_block_number_ok block_address)
      moreover have "\<exists>b \<in> set (blocks_at d inode is). room_in d (length name) b"
        using Cons.prems(3) False bs by auto
      ultimately show ?thesis using Cons.IH[OF Cons.prems(1)] Cons.prems(2) bs by auto
    qed
  qed
qed

section \<open>Into a new block\<close>

text \<open>What is left of the image to allocate from is consistent.\<close>

definition alloc_ok :: "bytes \<Rightarrow> bool" where
  "alloc_ok d \<longleftrightarrow> geometry d \<and> free_blocks d \<le> length (free_from d 23) \<and>
     free_inodes d \<le> length (free_inodes_from d 12) \<and>
     (\<forall>n. 12 \<le> n \<and> n \<le> 32 \<and> \<not> inode_used d n \<longrightarrow> direct d (inode_at n))"

text \<open>The image after a block \<open>b\<close> was put at index \<open>i\<close> of an inode.\<close>

definition with_block :: "nat \<Rightarrow> nat \<Rightarrow> nat \<Rightarrow> bytes \<Rightarrow> bytes" where
  "with_block inode i b d = bump 4 (inode + 28) 2 (put_bnum inode i b (claim b (bump_blocks (- 1) d)))"

lemma with_block_ok:
  assumes "geometry d" "5120 \<le> inode" "inode + 128 \<le> 9216" "direct d inode" "i < 12" "9 \<le> b" "b < 128"
  shows "agree (- ({inode + 28 ..< inode + 88} \<union> {3072 ..< 3088} \<union> count_bytes \<union> block_bytes b)) d (with_block inode i b d)"
    "geometry (with_block inode i b d)" "direct (with_block inode i b d) inode"
    "j \<le> 12 \<Longrightarrow> bnum (with_block inode i b d) inode j = (if j = i then b else bnum d inode j)"
    "0 < c \<Longrightarrow> c < 129 \<Longrightarrow> block_used (with_block inode i b d) c = (c = b \<or> block_used d c)"
    "0 < c \<Longrightarrow> c < 33 \<Longrightarrow> inode_used (with_block inode i b d) c = inode_used d c"
    "free_blocks (with_block inode i b d) = nat ((int (free_blocks d) - 1) mod 2 ^ 32)"
    "free_inodes (with_block inode i b d) = free_inodes d"
    "a \<in> block_bytes b \<Longrightarrow> with_block inode i b d a = 0"
proof -
  let ?d1 = "bump_blocks (- 1) d"
  let ?d2 = "claim b ?d1"
  let ?d3 = "put_bnum inode i b ?d2"
  let ?d4 = "with_block inode i b d"
  have a1: "agree (- count_bytes) d ?d1" by (rule agree_bump_counts) auto
  have a2: "agree (- ({3072 ..< 3088} \<union> block_bytes b)) ?d1 ?d2"
  proof -
    have "agree (- {3072 ..< 3088}) ?d1 (mark_block b True ?d1)" by (rule agree_mark_block) (use assms in auto)
    moreover have "agree (- block_bytes b) (mark_block b True ?d1) ?d2"
      unfolding claim_def by (rule agree_memset) (auto simp: block_bytes_def)
    ultimately show ?thesis by (auto intro: agree_trans agree_subset)
  qed
  have a3: "agree (- {inode + 40 ..< inode + 88}) ?d2 ?d3" by (rule agree_put_bnum) auto
  have a4: "agree (- {inode + 28 ..< inode + 32}) ?d3 ?d4"
    unfolding with_block_def by (rule agree_bump) auto
  have a34: "agree (- {inode + 28 ..< inode + 88}) ?d2 ?d4"
    by (rule agree_trans[OF agree_subset[OF a3] agree_subset[OF a4]]) auto
  have a12: "agree (- ({3072 ..< 3088} \<union> count_bytes \<union> block_bytes b)) d ?d2"
    by (rule agree_trans[OF agree_subset[OF a1] agree_subset[OF a2]]) auto
  show "agree (- ({inode + 28 ..< inode + 88} \<union> {3072 ..< 3088} \<union> count_bytes \<union> block_bytes b)) d ?d4"
    by (rule agree_trans[OF agree_subset[OF a12] agree_subset[OF a34]]) auto
  have g2: "geometry ?d2" using assms by (intro claim_geometry) simp_all
  have "geo_bytes \<subseteq> - {inode + 28 ..< inode + 88}" using assms(2) by (auto simp: geo_bytes_def)
  from geometry_agree[OF agree_subset[OF a34 this]] g2 show "geometry ?d4" by simp
  have in2: "{inode ..< inode + 128} \<subseteq> - ({3072 ..< 3088} \<union> count_bytes \<union> block_bytes b)"
    using assms(2,3,6) by (auto simp: count_bytes_def block_bytes_def)
  show bn: "bnum ?d4 inode j = (if j = i then b else bnum d inode j)" if "j \<le> 12" for j
  proof -
    have "bnum ?d4 inode j = bnum ?d3 inode j"
      unfolding bnum_def by (rule agree_load[OF a4]) auto
    also have "\<dots> = (if j = i then b else bnum ?d2 inode j)"
      using bnum_put_bnum[of inode i b ?d2 j] assms(5,7) by auto
    also have "bnum ?d2 inode j = bnum d inode j" by (rule bnum_agree[OF a12 in2 that])
    finally show ?thesis by simp
  qed
  show "direct ?d4 inode" using bn[of 12] assms(4,5) by (simp add: direct_def)
  have mb: "map_bytes \<subseteq> - {inode + 28 ..< inode + 88}" using assms(2) by (auto simp: map_bytes_def)
  show "block_used ?d4 c = (c = b \<or> block_used d c)" if "0 < c" "c < 129"
    using used_agree(1)[OF a34 mb that(2)] claim_used(1)[OF assms(6,7) that, of ?d1] that by simp
  show "inode_used ?d4 c = inode_used d c" if "0 < c" "c < 33"
    using used_agree(2)[OF a34 mb that(2)] claim_used(2)[OF assms(6,7) that, of ?d1] that by simp
  have l: "load_le 4 ?d4 x = load_le 4 ?d1 x" if "x + 4 \<le> 3072" for x
  proof -
    have "load_le 4 ?d4 x = load_le 4 ?d2 x"
      by (rule agree_load[OF a34]) (use that assms(2) in auto)
    also have "\<dots> = load_le 4 ?d1 x"
      by (rule agree_load[OF a2]) (use that assms(6) in \<open>auto simp: block_bytes_def\<close>)
    finally show ?thesis .
  qed
  show "free_blocks ?d4 = nat ((int (free_blocks d) - 1) mod 2 ^ 32)"
    using l[of 1036] bump_free(1)[of "- 1" d] by (simp add: free_blocks_def)
  show "free_inodes ?d4 = free_inodes d"
    using l[of 1040] bump_free(2)[of "- 1" d] by (simp add: free_inodes_def)
  show "?d4 a = 0" if "a \<in> block_bytes b"
  proof -
    have "a \<notin> {inode + 28 ..< inode + 88}" using that assms(3,6) by (auto simp: block_bytes_def)
    then have "?d4 a = ?d2 a" using a34 by (simp add: agree_def)
    then show ?thesis using claim_bytes(1)[OF assms(6,7) that] by simp
  qed
qed

lemma allocate_block_on_inode_ok:
  assumes "geometry d" "5120 \<le> inode" "inode + 128 \<le> 9216" "direct d inode"
  shows "i < 12 \<Longrightarrow> bnum d inode i \<noteq> 0 \<Longrightarrow> allocate_block_on_inode d inode i = Ret (0, d)"
    and "i < 12 \<Longrightarrow> bnum d inode i = 0 \<Longrightarrow> 0 < free_blocks d \<Longrightarrow> free_from d 23 = b # bs \<Longrightarrow>
      allocate_block_on_inode d inode i = Ret (b, with_block inode i b d)"
proof -
  show "i < 12 \<Longrightarrow> bnum d inode i \<noteq> 0 \<Longrightarrow> allocate_block_on_inode d inode i = Ret (0, d)"
    using assms(4) by (simp add: allocate_block_on_inode_def get_block_number_ok)
  assume i: "i < 12" "bnum d inode i = 0" "0 < free_blocks d" "free_from d 23 = b # bs"
  then have b: "23 \<le> b" "b < 128" using free_from_set(1)[of d 23] by auto
  let ?d2 = "claim b (bump_blocks (- 1) d)"
  have "agree {inode ..< inode + 128} d ?d2"
  proof (rule agree_trans)
    show "agree {inode ..< inode + 128} d (bump_blocks (- 1) d)"
      by (rule agree_bump_counts) (use assms(2,3) in \<open>auto simp: count_bytes_def\<close>)
    have "claim b (bump_blocks (- 1) d) x = bump_blocks (- 1) d x" if "x \<in> {inode ..< inode + 128}" for x
      using that assms(2,3) b by (intro claim_bytes(2)) (auto simp: block_bytes_def map_bytes_def)
    then show "agree {inode ..< inode + 128} (bump_blocks (- 1) d) ?d2" by (simp add: agree_def)
  qed
  then have "direct ?d2 inode" using direct_agree[OF _ subset_refl] assms(4) by blast
  then show "allocate_block_on_inode d inode i = Ret (b, with_block inode i b d)"
    using i assms allocate_one_block_ok[OF assms(1) i(3,4)]
    by (simp add: allocate_block_on_inode_def get_block_number_ok set_block_number_ok with_block_def
        add_field_ok i_blocks_def DISK_SIZE_def)
qed

end
