(* ===== verification/Ext2_Dir_Make.thy ===== *)
theory Ext2_Dir_Make
  imports Ext2_Dir_Add
begin

text \<open>
  The contract of \<open>make_entry_in_inode\<close> on a directory: one entry more, what is allocated was
  free, and nothing outside the directory, the block bitmap and the counters changes.
\<close>

section \<open>The first entry of a block\<close>

definition headed :: "bytes \<Rightarrow> nat \<Rightarrow> nat \<Rightarrow> string \<Rightarrow> nat \<Rightarrow> bytes" where
  "headed d start child name ft =
     store_le 1 ft (store_le 2 1024 (store_le 1 (length name)
       (put_bytes (start + 8) (map char_byte name) (store_le 4 child d start)) (start + 6)) (start + 4)) (start + 7)"

lemma first_entry_ok:
  "start + 8 + length name \<le> DISK_SIZE \<Longrightarrow> first_entry d start child name ft = Ret (headed d start child name ft)"
  by (simp add: first_entry_def headed_def write_string_def write_bytes_ok e_inode_def e_name_def name_len_def
      rec_len_def file_type_def EXT2_BLOCK_SIZE_def)

lemma headed_ok:
  fixes d :: bytes
  assumes "b < 128" "length name < 256" "name \<noteq> []" "ft < 256" "child < 2 ^ 32"
  defines "d' \<equiv> headed d (1024 * b) child name ft"
  shows "agree (- block_bytes b) d d'" "good_block d' b" "block_list d' (entries d' b) = [(name, child, ft)]"
    "k < 256 \<Longrightarrow> room_in d' k b"
proof -
  let ?s = "1024 * b"
  note ls = load_store_simps load_put_bytes_other
  have f: "rlen d' ?s = 1024" "nlen d' ?s = length name" "ftype d' ?s = ft" "einode d' ?s = child"
    using assms
    by (simp_all add: headed_def rlen_def nlen_def ftype_def einode_def e_inode_def name_len_def
        rec_len_def file_type_def ls del: load_le.simps One_nat_def)
  have "d' (?s + 8 + i) = map char_byte name ! i" if "i < length name" for i
    using that put_bytes_nth[of i "map char_byte name" "?s + 8"] by (simp add: d'_def headed_def)
  then have n: "ename d' ?s = name"
    by (auto simp: ename_def f e_name_def intro: nth_equalityI)
  show "agree (- block_bytes b) d d'"
    using assms(1,2) unfolding agree_def d'_def headed_def block_bytes_def
    by (auto simp: put_bytes_other)
  have eb: "entry_block d' ?s [?s]"
    using assms(1,2) f by (simp add: entry_block_def DISK_SIZE_def)
  moreover have "roomy d' [?s]" using tel_bounds[OF assms(2)] assms(2) f by simp
  ultimately show "good_block d' b" by (rule good_blockI)
  show "block_list d' (entries d' b) = [(name, child, ft)]"
    unfolding entries_block[OF eb] using f n assms(3) by (simp add: entry_at_def)
  show "room_in d' k b" if "k < 256"
    unfolding room_in_def has_room_def entries_block[OF eb]
    using tel_bounds[OF assms(2)] tel_bounds[OF that] assms(2) that f by simp
qed

section \<open>The contract\<close>

definition grows :: "bytes \<Rightarrow> nat \<Rightarrow> bytes \<Rightarrow> bool" where
  "grows d n d' \<longleftrightarrow> dir_ok d' n \<and> alloc_ok d' \<and>
     agree (- ({inode_at n + 28 ..< inode_at n + 88} \<union> {3072 ..< 3088} \<union> count_bytes \<union>
               (\<Union>b \<in> set (dir_blocks d' n). block_bytes b))) d d' \<and>
     set (dir_blocks d n) \<subseteq> set (dir_blocks d' n) \<and>
     (\<forall>b \<in> set (dir_blocks d' n) - set (dir_blocks d n). 23 \<le> b \<and> b < 128 \<and> \<not> block_used d b) \<and>
     (\<forall>c. 0 < c \<and> c < 129 \<longrightarrow> block_used d' c = (block_used d c \<or> c \<in> set (dir_blocks d' n))) \<and>
     (\<forall>c. 0 < c \<and> c < 33 \<longrightarrow> inode_used d' c = inode_used d c) \<and>
     (\<forall>b \<in> set (dir_blocks d n). \<forall>e \<in> set (entries d b). e \<in> set (entries d' b) \<and> entry_at d' e = entry_at d e) \<and>
     free_blocks d \<le> free_blocks d' + 1"

text \<open>An entry for a name of length \<open>k\<close> can be made.\<close>

definition can_add :: "bytes \<Rightarrow> nat \<Rightarrow> nat \<Rightarrow> bool" where
  "can_add d n k \<longleftrightarrow> (\<exists>b \<in> set (dir_blocks d n). room_in d k b) \<or>
     0 < free_blocks d \<and> (\<exists>i < 12. bnum d (inode_at n) i = 0)"

lemma alloc_ok_same:
  assumes "alloc_ok d" "agree ({1036 ..< 1044} \<union> geo_bytes \<union> map_bytes \<union> {5120 ..< 9216}) d d'"
  shows "alloc_ok d'"
proof -
  have g: "geometry d'" using geometry_agree[OF agree_subset[OF assms(2)]] assms(1) by (auto simp: alloc_ok_def)
  have u: "block_used d' b = block_used d b" "inode_used d' n = inode_used d n" if "b < 129" "n < 33" for b n
    using used_agree[OF agree_subset[OF assms(2)] subset_refl] that by auto
  have "free_from d' 23 = free_from d 23" by (rule free_from_cong) (simp add: u(1)[of _ 0])
  moreover have "free_inodes_from d' 12 = free_inodes_from d 12"
    by (rule free_inodes_from_cong) (simp add: u(2)[of 0])
  moreover have "free_blocks d' = free_blocks d" "free_inodes d' = free_inodes d"
    unfolding free_blocks_def free_inodes_def by (rule agree_load[OF assms(2)], auto)+
  moreover have "direct d' (inode_at n) = direct d (inode_at n)" if "12 \<le> n" "n \<le> 32" for n
    by (rule direct_agree[OF assms(2)]) (use that in \<open>auto simp: inode_at_def\<close>)
  ultimately show ?thesis using assms(1) g u(2)[of 0] by (auto simp: alloc_ok_def)
qed

lemma free_from_mem: "b \<in> set (free_from d k) \<longleftrightarrow> k \<le> b \<and> b < 128 \<and> \<not> block_used d b"
  by (auto simp: free_from_def)

lemma free_from_taken:
  assumes "free_from d 23 = b # bs" "\<And>c. 0 < c \<Longrightarrow> c < 129 \<Longrightarrow> block_used d' c = (c = b \<or> block_used d c)"
  shows "free_from d' 23 = bs"
proof -
  have "free_from d' k = filter (\<lambda>c. c \<noteq> b) (free_from d k)" if "0 < k" for k
    unfolding free_from_def filter_filter using assms(2) that by (intro filter_cong) auto
  then have "free_from d' 23 = filter (\<lambda>c. c \<noteq> b) (free_from d 23)" by simp
  moreover have "b \<notin> set bs" using free_from_set(2)[of d 23] assms(1) by simp
  ultimately show ?thesis using assms(1) by (auto simp: filter_id_conv)
qed

lemma new_loop_ok:
  assumes "geometry d" "5120 \<le> inode" "inode + 128 \<le> 9216" "direct d inode"
    and "\<forall>j \<in> set xs. j < 12 \<and> bnum d inode j \<noteq> 0" "i < 12" "bnum d inode i = 0"
    and "0 < free_blocks d" "free_from d 23 = b # bs" "length name < 256"
  shows "new_loop (xs @ i # ys) d inode child name ft =
    Ret (Some (1024 * b), headed (with_block inode i b d) (1024 * b) child name ft)"
  using assms(5)
proof (induction xs)
  case Nil
  have b: "23 \<le> b" "b < 128" using free_from_set(1)[of d 23] assms(9) by auto
  then have "1024 * b + 8 + length name \<le> DISK_SIZE" using assms(10) by (simp add: DISK_SIZE_def)
  then show ?case
    using b allocate_block_on_inode_ok(2)[OF assms(1-4,6-9)] by (simp add: block_address first_entry_ok Let_def)
next
  case (Cons j xs)
  then show ?case using allocate_block_on_inode_ok(1)[OF assms(1-4), of j] by simp
qed

lemma upt_split: "i < k \<Longrightarrow> [0..<k] = [0..<i] @ i # [Suc i..<k]"
  using upt_add_eq_append[of 0 i "k - i"] by (simp add: upt_conv_Cons)

text \<open>A directory whose blocks are the same but for one that lists one entry more.\<close>

lemma dir_list_extends:
  assumes "dir_blocks d n = xs @ bs @ ys" "dir_blocks d' n = xs @ b # ys"
    and "\<forall>c \<in> set xs \<union> set ys. block_list d' (entries d' c) = block_list d (entries d c)"
    and "extends x (concat (map (\<lambda>c. block_list d (entries d c)) bs)) (block_list d' (entries d' b))"
  shows "extends x (dir_list d n) (dir_list d' n)"
proof -
  let ?f = "\<lambda>c. block_list d (entries d c)"
  have mx: "map (\<lambda>c. block_list d' (entries d' c)) xs = map ?f xs"
    and my: "map (\<lambda>c. block_list d' (entries d' c)) ys = map ?f ys"
    using assms(3) by auto
  have "dir_list d' n = concat (map ?f xs) @ block_list d' (entries d' b) @ concat (map ?f ys)"
    unfolding dir_list_def assms(2) by (simp only: map_append list.map concat_append concat.simps mx my)
  moreover have "dir_list d n = concat (map ?f xs) @ concat (map ?f bs) @ concat (map ?f ys)"
    unfolding dir_list_def assms(1) by (simp only: map_append concat_append)
  ultimately show ?thesis using extends_concat[OF assms(4)] by simp
qed

lemma dir_list_new:
  assumes bn: "\<And>j. j < 12 \<Longrightarrow> bnum d' (inode_at n) j = (if j = i then b else bnum d (inode_at n) j)"
    and i: "i < 12" "bnum d (inode_at n) i = 0" "b \<noteq> 0"
    and same: "\<forall>c \<in> set (dir_blocks d n). block_list d' (entries d' c) = block_list d (entries d c)"
  shows "\<exists>xs ys. dir_blocks d n = xs @ ys \<and> dir_blocks d' n = xs @ b # ys"
    and "extends x [] (block_list d' (entries d' b)) \<Longrightarrow> extends x (dir_list d n) (dir_list d' n)"
proof -
  let ?f = "\<lambda>d is. filter (\<lambda>b. b \<noteq> 0) (map (bnum d (inode_at n)) is)"
  have sp: "[0..<12] = [0..<i] @ i # [Suc i..<12]"
    by (rule upt_split[OF i(1)])
  have eq: "?f d' is = ?f d is" if "set is \<subseteq> {..< 12} - {i}" for "is"
  proof -
    have "bnum d' (inode_at n) j = bnum d (inode_at n) j" if j: "j \<in> set is" for j
    proof -
      from j \<open>set is \<subseteq> {..< 12} - {i}\<close> have "j < 12" "j \<noteq> i" by auto
      then show ?thesis using bn by simp
    qed
    then have "map (bnum d' (inode_at n)) is = map (bnum d (inode_at n)) is" by simp
    then show ?thesis by (simp only:)
  qed
  have e1: "?f d' [0..<i] = ?f d [0..<i]" and e2: "?f d' [Suc i..<12] = ?f d [Suc i..<12]"
    using i(1) by (intro eq; auto)+
  have bl: "dir_blocks d n = ?f d [0..<i] @ ?f d [Suc i..<12]"
    "dir_blocks d' n = ?f d [0..<i] @ b # ?f d [Suc i..<12]"
    using i bn[of i] e1 e2
    unfolding dir_blocks_def inode_blocks_def sp by auto
  then show "\<exists>xs ys. dir_blocks d n = xs @ ys \<and> dir_blocks d' n = xs @ b # ys" by blast
  assume x: "extends x [] (block_list d' (entries d' b))"
  show "extends x (dir_list d n) (dir_list d' n)"
    by (rule dir_list_extends[where bs = "[]"]) (use bl same x in auto)
qed

text \<open>Adding an entry, in both ways.\<close>

lemma make_entry_existing:
  assumes dk: "dir_ok d n" and al: "alloc_ok d" and used: "\<forall>b \<in> set (dir_blocks d n). block_used d b"
    and name: "length name < 256" "name \<noteq> []" "ft < 256" "ino < 2 ^ 32"
    and room: "\<exists>b \<in> set (dir_blocks d n). room_in d (length name) b"
  shows "\<exists>e d'. make_entry_in_inode d (inode_at n) ino name ft = Ret (Some e, d') \<and> grows d n d' \<and>
      extends (name, ino, ft) (dir_list d n) (dir_list d' n) \<and> free_blocks d' = free_blocks d"
proof -
  have dr: "direct d (inode_at n)" and n: "0 < n" "n \<le> 32" and db: "distinct (dir_blocks d n)"
    and gb: "\<forall>b \<in> set (dir_blocks d n). 9 \<le> b \<and> b < 128 \<and> good_block d b"
    using dk by (auto simp: dir_ok_def)
  have "\<forall>b \<in> set (blocks_at d (inode_at n) [0..<INODE_BLOCK_LIMIT]). b < 128 \<and> good_block d b"
    and "\<exists>b \<in> set (blocks_at d (inode_at n) [0..<INODE_BLOCK_LIMIT]). room_in d (length name) b"
    using gb room by (auto simp: blocks_at_all dir_blocks_def)
  from existing_loop_room[OF dr this(1) name this(2)] obtain b e d' where
    r: "b \<in> set (dir_blocks d n)" "existing_loop [0..<INODE_BLOCK_LIMIT] d (inode_at n) ino name ft = Ret (Some e, d')"
      "agree (- block_bytes b) d d'" "good_block d' b"
      "extends (name, ino, ft) (block_list d (entries d b)) (block_list d' (entries d' b))"
      "\<forall>x \<in> set (entries d b). x \<in> set (entries d' b) \<and> entry_at d' x = entry_at d x"
    by (auto simp: blocks_at_all dir_blocks_def)
  have b9: "9 \<le> b" "b < 128" using gb r(1) by auto
  have at: "inode_at n + 128 \<le> 9216" using inode_at_bounds[OF n] by simp
  have ai: "agree (inode_bytes n) d d'"
    by (rule agree_subset[OF r(3)]) (use at b9 in \<open>auto simp: inode_bytes_def block_bytes_def\<close>)
  have blocks: "dir_blocks d' n = dir_blocks d n"
    unfolding dir_blocks_def by (rule inode_blocks_agree[OF ai]) (simp add: inode_bytes_def)
  have other: "good_block d' c \<and> block_list d' (entries d' c) = block_list d (entries d c) \<and>
      (\<forall>x \<in> set (entries d c). x \<in> set (entries d' c) \<and> entry_at d' x = entry_at d x)"
    if "c \<in> set (dir_blocks d n)" "c \<noteq> b" for c
  proof -
    have "agree (block_bytes c) d d'"
      by (rule agree_subset[OF r(3)]) (use block_bytes_disjoint[OF that(2)] in auto)
    from good_block_agree[OF this] gb that(1) show ?thesis by simp
  qed
  have "direct d' (inode_at n)"
    using direct_agree[OF ai, of "inode_at n"] dr by (simp add: inode_bytes_def)
  then have dk': "dir_ok d' n"
    using n db gb r(4) other unfolding dir_ok_def blocks by (metis (full_types))
  have am: "agree ({1036 ..< 1044} \<union> geo_bytes \<union> map_bytes \<union> {5120 ..< 9216}) d d'"
    by (rule agree_subset[OF r(3)]) (use b9 in \<open>auto simp: geo_bytes_def map_bytes_def block_bytes_def\<close>)
  have u: "block_used d' c = block_used d c" "m < 33 \<Longrightarrow> inode_used d' m = inode_used d m" if "c < 129" for c m
    using used_agree[OF agree_subset[OF am] subset_refl] that by auto
  have ag: "agree (- ({inode_at n + 28 ..< inode_at n + 88} \<union> {3072 ..< 3088} \<union> count_bytes \<union>
      (\<Union>b \<in> set (dir_blocks d' n). block_bytes b))) d d'"
    by (rule agree_subset[OF r(3)]) (use r(1) blocks in auto)
  have fb: "free_blocks d' = free_blocks d"
    unfolding free_blocks_def by (rule agree_load[OF am]) auto
  have "grows d n d'"
  proof -
    have "\<forall>c \<in> set (dir_blocks d n). \<forall>x \<in> set (entries d c). x \<in> set (entries d' c) \<and> entry_at d' x = entry_at d x"
      using other r(6) by (metis (full_types))
    then show ?thesis
      using fb ag dk' alloc_ok_same[OF al am] used u u(2)[of 0] by (auto simp: grows_def blocks)
  qed
  moreover have "extends (name, ino, ft) (dir_list d n) (dir_list d' n)"
  proof -
    from split_list[OF r(1)] obtain xs ys where s: "dir_blocks d n = xs @ b # ys" by blast
    with db have nb: "b \<notin> set xs" "b \<notin> set ys" by auto
    show ?thesis
      by (rule dir_list_extends[where bs = "[b]" and xs = xs and ys = ys])
        (use s nb r(5) other blocks in auto)
  qed
  ultimately show ?thesis using r(2) fb by (auto simp: make_entry_in_inode_def)
qed

lemma make_entry_new:
  assumes dk: "dir_ok d n" and al: "alloc_ok d" and used: "\<forall>b \<in> set (dir_blocks d n). block_used d b" "inode_used d n"
    and name: "length name < 256" "name \<noteq> []" "ft < 256" "ino < 2 ^ 32"
    and room: "\<not> (\<exists>b \<in> set (dir_blocks d n). room_in d (length name) b)"
    and free: "0 < free_blocks d" "\<exists>i < 12. bnum d (inode_at n) i = 0"
  shows "\<exists>e d'. make_entry_in_inode d (inode_at n) ino name ft = Ret (Some e, d') \<and> grows d n d' \<and>
      extends (name, ino, ft) (dir_list d n) (dir_list d' n) \<and>
      (\<exists>b \<in> set (dir_blocks d' n). \<forall>k < 256. room_in d' k b)"
proof -
  have dr: "direct d (inode_at n)" and n: "0 < n" "n \<le> 32" and db: "distinct (dir_blocks d n)"
    and gb: "\<forall>b \<in> set (dir_blocks d n). 9 \<le> b \<and> b < 128 \<and> good_block d b"
    using dk by (auto simp: dir_ok_def)
  have g: "geometry d" using al by (simp add: alloc_ok_def)
  have at: "5120 \<le> inode_at n" "inode_at n + 128 \<le> 9216" using inode_at_bounds[OF n] by auto
  have "existing_loop [0..<INODE_BLOCK_LIMIT] d (inode_at n) ino name ft = Ret (None, d)"
    by (rule existing_loop_none[OF dr _ name]) (use gb room in \<open>auto simp: blocks_at_all dir_blocks_def\<close>)
  then have st: "make_entry_in_inode d (inode_at n) ino name ft = new_loop [0..<INODE_BLOCK_LIMIT] d (inode_at n) ino name ft"
    by (simp add: make_entry_in_inode_def)
  define i where "i = (LEAST i. bnum d (inode_at n) i = 0)"
  have i: "i < 12" "bnum d (inode_at n) i = 0" "\<forall>j < i. bnum d (inode_at n) j \<noteq> 0"
    using free(2) unfolding i_def by (auto intro: LeastI dest: not_less_Least) (meson Least_le le_less_trans)
  have "length (free_from d 23) \<noteq> 0" using al free(1) by (auto simp: alloc_ok_def)
  then obtain b bs where f: "free_from d 23 = b # bs" by (cases "free_from d 23") auto
  have "b \<in> set (free_from d 23)" using f by simp
  then have b: "23 \<le> b" "b < 128" "\<not> block_used d b" using free_from_mem by auto
  let ?w = "with_block (inode_at n) i b d"
  let ?d' = "headed ?w (1024 * b) ino name ft"
  have "[0..<INODE_BLOCK_LIMIT] = [0..<i] @ i # [Suc i..<INODE_BLOCK_LIMIT]"
    using i(1) by (intro upt_split) (simp add: INODE_BLOCK_LIMIT_eq)
  then have res: "make_entry_in_inode d (inode_at n) ino name ft = Ret (Some (1024 * b), ?d')"
    using new_loop_ok[OF g at dr _ i(1,2) free(1) f name(1), of "[0..<i]"] i(1,3) unfolding st by simp
  have b9: "9 \<le> b" using b(1) by simp
  note w = with_block_ok[OF g at dr i(1) b9 b(2)]
  note h = headed_ok[OF b(2) name, where d = ?w]
  have ah: "agree (- block_bytes b) ?w ?d'" by (rule h(1))
  have ai: "agree (inode_bytes n) ?w ?d'"
    by (rule agree_subset[OF ah]) (use at b9 in \<open>auto simp: inode_bytes_def block_bytes_def\<close>)
  have bn: "bnum ?d' (inode_at n) j = (if j = i then b else bnum d (inode_at n) j)" if "j \<le> 12" for j
    using bnum_agree[OF ai _ that, of "inode_at n"] w(4)[OF that] by (simp add: inode_bytes_def)
  have aw: "agree (- ({inode_at n + 28 ..< inode_at n + 88} \<union> {3072 ..< 3088} \<union> count_bytes \<union> block_bytes b)) d ?d'"
    by (rule agree_trans[OF w(1) agree_subset[OF ah]]) auto
  have nb: "b \<notin> set (dir_blocks d n)" using used(1) b(3) by auto
  have other: "good_block ?d' c \<and> block_list ?d' (entries ?d' c) = block_list d (entries d c) \<and>
      (\<forall>x \<in> set (entries d c). x \<in> set (entries ?d' c) \<and> entry_at ?d' x = entry_at d x)"
    if c: "c \<in> set (dir_blocks d n)" for c
  proof -
    have "9 \<le> c" "c \<noteq> b" using gb c nb by auto
    then have "agree (block_bytes c) d ?d'"
      by (intro agree_subset[OF aw])
        (use block_bytes_disjoint[of c b] at in \<open>auto simp: block_bytes_def count_bytes_def\<close>)
    from good_block_agree[OF this] gb c show ?thesis by simp
  qed
  note dl = dir_list_new[where d = d and d' = ?d' and n = n and i = i and b = b]
  have ex: "extends (name, ino, ft) (dir_list d n) (dir_list ?d' n)"
    by (rule dl(2)) (use bn i b other h(3) in \<open>auto simp: extends_def\<close>)
  obtain xs ys where xy: "dir_blocks d n = xs @ ys" "dir_blocks ?d' n = xs @ b # ys"
    using dl(1) bn i b other by (metis (full_types) less_imp_le_nat less_numeral_extra(3) not_numeral_le_zero)
  have dir': "direct ?d' (inode_at n)"
    using bn[of 12] dr i(1) by (simp add: direct_def)
  have dk': "dir_ok ?d' n"
    unfolding dir_ok_def xy(2)
    using n dir' db nb xy(1) gb other b b9 h(2) by auto
  have mb: "map_bytes \<subseteq> - block_bytes b" using b9 by (auto simp: map_bytes_def block_bytes_def)
  have ub: "block_used ?d' c = (block_used d c \<or> c = b)" if "0 < c" "c < 129" for c
    using used_agree(1)[OF ah mb that(2)] w(5)[OF that] by auto
  have ui: "inode_used ?d' c = inode_used d c" if "0 < c" "c < 33" for c
    using used_agree(2)[OF ah mb that(2)] w(6)[OF that] by simp
  have lo: "load_le 4 ?d' x = load_le 4 ?w x" if "x + 4 \<le> 9216" for x
    by (rule agree_load[OF ah]) (use that b9 in \<open>auto simp: block_bytes_def\<close>)
  have fb: "free_blocks ?d' = free_blocks d - 1"
  proof -
    have "free_blocks d < 2 ^ 32" using load_le_bound[of 4 d 1036] by (simp add: free_blocks_def)
    then have "nat ((int (free_blocks d) - 1) mod 2 ^ 32) = free_blocks d - 1"
      using free(1) by (simp add: nat_diff_distrib)
    then show ?thesis using lo[of 1036] w(7) by (simp add: free_blocks_def)
  qed
  have al': "alloc_ok ?d'"
  proof -
    have "geo_bytes \<subseteq> - block_bytes b" using b9 by (auto simp: geo_bytes_def block_bytes_def)
    from geometry_agree[OF agree_subset[OF ah this]] w(2) have "geometry ?d'" by simp
    moreover have "free_from ?d' 23 = bs" by (rule free_from_taken[OF f]) (use ub in auto)
    moreover note fb
    moreover have "free_inodes ?d' = free_inodes d" using lo[of 1040] w(8) by (simp add: free_inodes_def)
    moreover have "free_inodes_from ?d' 12 = free_inodes_from d 12"
      by (rule free_inodes_from_cong) (simp add: ui)
    moreover have "direct ?d' (inode_at m)" if m: "12 \<le> m" "m \<le> 32" "\<not> inode_used ?d' m" for m
    proof -
      have "m \<noteq> n" using ui[of m] m used(2) by auto
      have "{inode_at m ..< inode_at m + 128} \<inter> inode_bytes n = {}"
        using inode_bytes_disjoint[of m n] m n \<open>m \<noteq> n\<close> by (simp add: inode_bytes_def)
      then have "agree {inode_at m ..< inode_at m + 128} d ?d'"
        using inode_at_bounds[of m] m b9
        by (intro agree_subset[OF aw]) (auto simp: inode_bytes_def count_bytes_def block_bytes_def)
      from direct_agree[OF this subset_refl] show ?thesis
        using al m ui[of m] by (auto simp: alloc_ok_def)
    qed
    ultimately show ?thesis
      using al f by (auto simp: alloc_ok_def)
  qed
  have "grows d n ?d'"
    unfolding grows_def
  proof (intro conjI)
    show "agree (- ({inode_at n + 28 ..< inode_at n + 88} \<union> {3072 ..< 3088} \<union> count_bytes \<union>
        (\<Union>b \<in> set (dir_blocks ?d' n). block_bytes b))) d ?d'"
      by (rule agree_subset[OF aw]) (auto simp: xy(2))
    show "\<forall>c. 0 < c \<and> c < 129 \<longrightarrow> block_used ?d' c = (block_used d c \<or> c \<in> set (dir_blocks ?d' n))"
      using ub used(1) xy by auto
    show "\<forall>b \<in> set (dir_blocks d n). \<forall>e \<in> set (entries d b). e \<in> set (entries ?d' b) \<and> entry_at ?d' e = entry_at d e"
      using other by blast
    show "free_blocks d \<le> free_blocks ?d' + 1" using fb by simp
  qed (use dk' al' xy b ui in auto)
  moreover have "\<forall>k < 256. room_in ?d' k b"
    using h(4) by blast
  moreover have "b \<in> set (dir_blocks ?d' n)" using xy(2) by simp
  ultimately show ?thesis using res ex by blast
qed

lemma make_entry_ok:
  assumes "dir_ok d n" "alloc_ok d" "\<forall>b \<in> set (dir_blocks d n). block_used d b" "inode_used d n"
    and "length name < 256" "name \<noteq> []" "ft < 256" "ino < 2 ^ 32" "can_add d n (length name)"
  shows "\<exists>e d'. make_entry_in_inode d (inode_at n) ino name ft = Ret (Some e, d') \<and> grows d n d' \<and>
      extends (name, ino, ft) (dir_list d n) (dir_list d' n)"
proof (cases "\<exists>b \<in> set (dir_blocks d n). room_in d (length name) b")
  case True
  from make_entry_existing[OF assms(1-3,5-8) this] show ?thesis by blast
next
  case False
  then have "0 < free_blocks d" "\<exists>i < 12. bnum d (inode_at n) i = 0"
    using assms(9) by (auto simp: can_add_def)
  from make_entry_new[OF assms(1-8) False this] show ?thesis by blast
qed

end
