(* ===== verification/Ext2_Fs.thy ===== *)
theory Ext2_Fs
  imports Ext2_Dir_Make
begin

text \<open>
  The invariant of an image that the commands keep (\<open>fs_ok\<close>): the tree is well formed, the
  counters do not promise more than the bitmaps have, no block has two owners and every inode
  that an entry names is allocated. \<open>fs_change\<close> is the one frame rule: a change to one inode
  and its blocks keeps the invariant and every other directory and file.
\<close>

section \<open>The invariant\<close>

definition live :: "bytes \<Rightarrow> nat \<Rightarrow> bool" where
  "live d k \<longleftrightarrow> 0 < k \<and> k \<le> 32 \<and> inode_used d k"

definition owns :: "bytes \<Rightarrow> nat \<Rightarrow> bool" where
  "owns d k \<longleftrightarrow> distinct (dir_blocks d k) \<and>
     (\<forall>b \<in> set (dir_blocks d k). 9 \<le> b \<and> b < 128 \<and> block_used d b)"

definition owns_ok :: "bytes \<Rightarrow> bool" where
  "owns_ok d \<longleftrightarrow> (\<forall>k. live d k \<longrightarrow> owns d k) \<and>
     (\<forall>j k. live d j \<and> live d k \<and> j \<noteq> k \<longrightarrow> set (dir_blocks d j) \<inter> set (dir_blocks d k) = {})"

definition names_live :: "bytes \<Rightarrow> nat \<Rightarrow> bool" where
  "names_live d n \<longleftrightarrow> (\<forall>(name, m, t) \<in> set (dir_list d n). live d m)"

definition fs_ok :: "bytes \<Rightarrow> nat set \<Rightarrow> bool" where
  "fs_ok d D \<longleftrightarrow> tree_ok d D \<and> alloc_ok d \<and> owns_ok d \<and> (\<forall>n \<in> D. live d n \<and> names_live d n)"

lemma fs_okD:
  assumes "fs_ok d D"
  shows "tree_ok d D" "alloc_ok d" "owns_ok d" "geometry d" "2 \<in> D"
    "n \<in> D \<Longrightarrow> live d n" "n \<in> D \<Longrightarrow> names_live d n" "n \<in> D \<Longrightarrow> dir_ok d n"
    "n \<in> D \<Longrightarrow> distinct (map fst (dir_list d n))" "live d k \<Longrightarrow> owns d k"
  using assms by (auto simp: fs_ok_def alloc_ok_def tree_ok_def owns_ok_def)

lemma one_owner:
  "fs_ok d D \<Longrightarrow> live d j \<Longrightarrow> live d k \<Longrightarrow> j \<noteq> k \<Longrightarrow> b \<in> set (dir_blocks d j) \<Longrightarrow> b \<notin> set (dir_blocks d k)"
  using fs_okD(3)[of d D] unfolding owns_ok_def by blast

text \<open>A directory whose entries are fine.\<close>

definition names_ok :: "bytes \<Rightarrow> nat set \<Rightarrow> nat \<Rightarrow> bool" where
  "names_ok d D n \<longleftrightarrow> dir_ok d n \<and> distinct (map fst (dir_list d n)) \<and> names_live d n \<and>
     (\<forall>(name, m, t) \<in> set (dir_list d n). t = EXT2_FT_DIR \<longrightarrow> m \<in> D)"

lemma fs_ok_alt:
  "fs_ok d D \<longleftrightarrow> geometry d \<and> 2 \<in> D \<and> alloc_ok d \<and> owns_ok d \<and> (\<forall>n \<in> D. live d n \<and> names_ok d D n)"
proof
  show "fs_ok d D \<Longrightarrow> geometry d \<and> 2 \<in> D \<and> alloc_ok d \<and> owns_ok d \<and> (\<forall>n \<in> D. live d n \<and> names_ok d D n)"
    by (fastforce simp: fs_ok_def tree_ok_def names_ok_def)
  assume a: "geometry d \<and> 2 \<in> D \<and> alloc_ok d \<and> owns_ok d \<and> (\<forall>n \<in> D. live d n \<and> names_ok d D n)"
  then have "\<forall>n \<in> D. \<forall>(name, m, t) \<in> set (dir_list d n). 0 < m \<and> m \<le> 32 \<and> (t = EXT2_FT_DIR \<longrightarrow> m \<in> D)"
    by (fastforce simp: names_ok_def names_live_def live_def)
  with a show "fs_ok d D" by (auto simp: fs_ok_def tree_ok_def names_ok_def)
qed

text \<open>A change to the inode \<open>n\<close> and its blocks.\<close>

lemma fs_change:
  assumes fs: "fs_ok d D" and al: "alloc_ok d'"
    and keep': "\<forall>k. live d k \<and> k \<noteq> n \<longrightarrow> agree (dir_bytes d k) d d' \<and> live d' k"
    and old': "\<forall>k. live d' k \<and> k \<noteq> n \<longrightarrow> live d k"
    and used': "\<forall>c. 9 \<le> c \<and> c < 128 \<and> block_used d c \<longrightarrow> live d n \<and> c \<in> set (dir_blocks d n) \<or> block_used d' c"
    and own': "live d' n \<longrightarrow> owns d' n \<and>
      (\<forall>k. live d k \<and> k \<noteq> n \<longrightarrow> set (dir_blocks d' n) \<inter> set (dir_blocks d k) = {})"
    and D: "D \<subseteq> D'" "D' \<subseteq> insert n D" "n \<in> D' \<longrightarrow> live d' n \<and> names_ok d' D' n"
    and dead: "live d' n \<or> (\<forall>k \<in> D. k \<noteq> n \<longrightarrow> n \<notin> (fst \<circ> snd) ` set (dir_list d k))"
  shows "fs_ok d' D'"
    and "live d k \<Longrightarrow> k \<noteq> n \<Longrightarrow> dir_blocks d' k = dir_blocks d k"
    and "k \<in> D \<Longrightarrow> k \<noteq> n \<Longrightarrow> dir_list d' k = dir_list d k"
proof -
  have keep: "agree (dir_bytes d k) d d' \<and> live d' k" if "live d k" "k \<noteq> n" for k using keep' that by blast
  have old: "live d k" if "live d' k" "k \<noteq> n" for k using old' that by blast
  have used: "live d n \<and> c \<in> set (dir_blocks d n) \<or> block_used d' c" if "9 \<le> c" "c < 128" "block_used d c" for c
    using used' that by blast
  have own: "owns d' n \<and> (\<forall>k. live d k \<and> k \<noteq> n \<longrightarrow> set (dir_blocks d' n) \<inter> set (dir_blocks d k) = {})"
    if "live d' n" using own' that by blast
  note f = fs_okD[OF fs]
  have blocks: "dir_blocks d' k = dir_blocks d k" if "live d k" "k \<noteq> n" for k
    using dir_frame(1) keep[OF that] by blast
  have list: "dir_list d' k = dir_list d k" if "k \<in> D" "k \<noteq> n" for k
    using dir_frame(2)[of d k d'] keep[OF f(6)[OF that(1)] that(2)] f(8)[OF that(1)] by (simp add: dir_ok_def)
  then show "k \<in> D \<Longrightarrow> k \<noteq> n \<Longrightarrow> dir_list d' k = dir_list d k" .
  from blocks show "live d k \<Longrightarrow> k \<noteq> n \<Longrightarrow> dir_blocks d' k = dir_blocks d k" .
  have ow: "owns d' k" if k: "live d' k" for k
  proof (cases "k = n")
    case True
    then show ?thesis using own k by simp
  next
    case False
    from old[OF k False] have lk: "live d k" .
    have "block_used d' b" if b: "b \<in> set (dir_blocks d k)" for b
    proof -
      have "9 \<le> b" "b < 128" "block_used d b" using f(10)[OF lk] b by (auto simp: owns_def)
      moreover have "\<not> (live d n \<and> b \<in> set (dir_blocks d n))"
        using f(3) lk False b by (auto simp: owns_ok_def)
      ultimately show ?thesis using used by blast
    qed
    then show ?thesis using f(10)[OF lk] blocks[OF lk False] by (simp add: owns_def)
  qed
  have half: "set (dir_blocks d' n) \<inter> set (dir_blocks d' k) = {}" if k: "live d' n" "live d' k" "k \<noteq> n" for k
  proof -
    from old[OF k(2,3)] have lk: "live d k" .
    show ?thesis using own[OF k(1)] lk k(3) blocks[OF lk k(3)] by simp
  qed
  have "owns_ok d'"
    unfolding owns_ok_def
  proof (intro conjI allI impI)
    show "owns d' k" if "live d' k" for k using ow[OF that] .
    fix j k assume jk: "live d' j \<and> live d' k \<and> j \<noteq> k"
    show "set (dir_blocks d' j) \<inter> set (dir_blocks d' k) = {}"
    proof (cases "j = n \<or> k = n")
      case True
      then show ?thesis using half[of k] half[of j] jk by blast
    next
      case False
      then have "live d j" "live d k" "dir_blocks d' j = dir_blocks d j" "dir_blocks d' k = dir_blocks d k"
        using jk old blocks by auto
      then show ?thesis using f(3) jk by (simp add: owns_ok_def)
    qed
  qed
  moreover have "live d' k \<and> names_ok d' D' k" if k: "k \<in> D'" for k
  proof (cases "k = n")
    case True
    then show ?thesis using D(3) k by simp
  next
    case False
    with k D(2) have kD: "k \<in> D" by auto
    note lk = f(6)[OF kD]
    have "live d' m" if m: "(name, m, t) \<in> set (dir_list d k)" for name m t
    proof -
      have "live d m" using f(7)[OF kD] m by (auto simp: names_live_def)
      moreover have "m = n \<Longrightarrow> live d' n"
        using dead kD False m by (force simp: image_iff)
      ultimately show ?thesis using keep[of m] by blast
    qed
    then have "names_live d' k" using list[OF kD False] by (auto simp: names_live_def)
    moreover have "dir_ok d' k" using dir_frame(3) keep[OF lk False] f(8)[OF kD] by blast
    moreover have "\<forall>(name, m, t) \<in> set (dir_list d k). t = EXT2_FT_DIR \<longrightarrow> m \<in> D'"
      using f(1) kD D(1) by (fastforce simp: tree_ok_def)
    ultimately show ?thesis
      using keep[OF lk False] f(9)[OF kD] list[OF kD False] by (simp add: names_ok_def)
  qed
  moreover have "geometry d'" using al by (simp add: alloc_ok_def)
  moreover have "2 \<in> D'" using f(5) D(1) by blast
  ultimately show "fs_ok d' D'" using al by (simp add: fs_ok_alt)
qed

text \<open>The case where the blocks of \<open>n\<close> are its old ones or were free.\<close>

lemma fs_step:
  assumes fs: "fs_ok d D" and al: "alloc_ok d'"
    and keep: "\<forall>k. live d k \<and> k \<noteq> n \<longrightarrow> agree (dir_bytes d k) d d' \<and> live d' k"
    and old: "\<forall>k. live d' k \<and> k \<noteq> n \<longrightarrow> live d k"
    and used: "\<forall>c. 9 \<le> c \<and> c < 128 \<and> block_used d c \<longrightarrow> live d n \<and> c \<in> set (dir_blocks d n) \<or> block_used d' c"
    and own: "live d' n \<longrightarrow> owns d' n \<and>
      (\<forall>b \<in> set (dir_blocks d' n). live d n \<and> b \<in> set (dir_blocks d n) \<or> \<not> block_used d b)"
    and D: "D \<subseteq> D'" "D' \<subseteq> insert n D" "n \<in> D' \<longrightarrow> live d' n \<and> names_ok d' D' n"
    and dead: "live d' n \<or> (\<forall>k \<in> D. k \<noteq> n \<longrightarrow> n \<notin> (fst \<circ> snd) ` set (dir_list d k))"
  shows "fs_ok d' D'"
    and "live d k \<Longrightarrow> k \<noteq> n \<Longrightarrow> dir_blocks d' k = dir_blocks d k"
    and "k \<in> D \<Longrightarrow> k \<noteq> n \<Longrightarrow> dir_list d' k = dir_list d k"
proof -
  have o: "live d' n \<longrightarrow> owns d' n \<and>
      (\<forall>k. live d k \<and> k \<noteq> n \<longrightarrow> set (dir_blocks d' n) \<inter> set (dir_blocks d k) = {})"
  proof (intro impI conjI allI)
    assume n: "live d' n"
    then show "owns d' n" using own by blast
    fix k assume k: "live d k \<and> k \<noteq> n"
    have "b \<notin> set (dir_blocks d k)" if b: "b \<in> set (dir_blocks d' n)" for b
    proof (cases "block_used d b")
      case True
      then have "live d n" "b \<in> set (dir_blocks d n)" using own n b by auto
      then show ?thesis using one_owner[OF fs] k by blast
    next
      case False
      then show ?thesis using fs_okD(10)[OF fs] k by (auto simp: owns_def)
    qed
    then show "set (dir_blocks d' n) \<inter> set (dir_blocks d k) = {}" by blast
  qed
  note c = fs_change[OF fs al keep old used o D dead]
  show "fs_ok d' D'" by (rule c(1))
  show "live d k \<Longrightarrow> k \<noteq> n \<Longrightarrow> dir_blocks d' k = dir_blocks d k" by (rule c(2))
  show "k \<in> D \<Longrightarrow> k \<noteq> n \<Longrightarrow> dir_list d' k = dir_list d k" by (rule c(3))
qed

section \<open>Where the bytes of an inode are\<close>

lemma dir_bytes_above:
  assumes "fs_ok d D" "live d k"
  shows "dir_bytes d k \<subseteq> {5120 ..< 131072}"
proof -
  have "5120 \<le> inode_at k \<and> inode_at k + 128 \<le> 9216"
    using assms(2) inode_at_bounds[of k] by (simp add: live_def)
  then have "inode_bytes k \<subseteq> {5120 ..< 131072}" by (auto simp: inode_bytes_def)
  moreover have "block_bytes b \<subseteq> {5120 ..< 131072}" if "b \<in> set (dir_blocks d k)" for b
    using fs_okD(10)[OF assms] that by (auto simp: owns_def block_bytes_def)
  ultimately show ?thesis unfolding dir_bytes_def by blast
qed

lemma dir_bytes_inode:
  assumes "fs_ok d D" "live d k" "k \<noteq> n" "0 < n" "n \<le> 32"
  shows "dir_bytes d k \<inter> inode_bytes n = {}"
proof -
  have "inode_bytes k \<inter> inode_bytes n = {}"
    using assms by (intro inode_bytes_disjoint) (auto simp: live_def)
  moreover have "inode_bytes n \<subseteq> {..< 9216}"
    using inode_at_bounds[OF assms(4,5)] by (auto simp: inode_bytes_def)
  moreover have "block_bytes b \<inter> {..< 9216} = {}" if "b \<in> set (dir_blocks d k)" for b
    using fs_okD(10)[OF assms(1,2)] that by (auto simp: owns_def block_bytes_def)
  ultimately show ?thesis unfolding dir_bytes_def by blast
qed

lemma dir_bytes_block:
  assumes "live d k" "9 \<le> b" "b \<notin> set (dir_blocks d k)"
  shows "dir_bytes d k \<inter> block_bytes b = {}"
proof -
  have "inode_bytes k \<subseteq> {..< 9216}"
    using assms(1) inode_at_bounds[of k] by (auto simp: inode_bytes_def live_def)
  moreover have "block_bytes b \<inter> {..< 9216} = {}" using assms(2) by (auto simp: block_bytes_def)
  moreover have "block_bytes c \<inter> block_bytes b = {}" if "c \<in> set (dir_blocks d k)" for c
    using block_bytes_disjoint[of c b] that assms(3) by auto
  ultimately show ?thesis unfolding dir_bytes_def by blast
qed

section \<open>One entry more\<close>

lemma grows_frame:
  assumes fs: "fs_ok d D" and n: "live d n" and g: "grows d n d'"
  shows "live d' k = live d k" "live d k \<Longrightarrow> k \<noteq> n \<Longrightarrow> agree (dir_bytes d k) d d'"
    "live d k \<Longrightarrow> k \<noteq> n \<Longrightarrow> dir_blocks d' k = dir_blocks d k"
proof -
  let ?B = "\<Union>b \<in> set (dir_blocks d' n). block_bytes b"
  from g have gr: "agree (- ({inode_at n + 28 ..< inode_at n + 88} \<union> {3072 ..< 3088} \<union> count_bytes \<union> ?B)) d d'"
    "\<forall>b \<in> set (dir_blocks d' n) - set (dir_blocks d n). 23 \<le> b \<and> b < 128 \<and> \<not> block_used d b"
    "\<forall>c. 0 < c \<and> c < 33 \<longrightarrow> inode_used d' c = inode_used d c"
    by (simp_all add: grows_def)
  show "live d' k = live d k" using gr(3) by (auto simp: live_def)
  have n32: "0 < n" "n \<le> 32" using n by (auto simp: live_def)
  show frame: "agree (dir_bytes d k) d d'" if k: "live d k" "k \<noteq> n"
  proof (rule agree_subset[OF gr(1)])
    have "b \<notin> set (dir_blocks d k) \<and> 9 \<le> b" if b: "b \<in> set (dir_blocks d' n)" for b
    proof (cases "b \<in> set (dir_blocks d n)")
      case True
      then show ?thesis using one_owner[OF fs n k(1)] k(2) fs_okD(10)[OF fs n] by (auto simp: owns_def)
    next
      case False
      with gr(2) b have "23 \<le> b" "\<not> block_used d b" by auto
      then show ?thesis using fs_okD(10)[OF fs k(1)] by (auto simp: owns_def)
    qed
    then have "dir_bytes d k \<inter> ?B = {}" using dir_bytes_block[OF k(1)] by blast
    moreover have "dir_bytes d k \<inter> {inode_at n + 28 ..< inode_at n + 88} = {}"
      using dir_bytes_inode[OF fs k n32] by (auto simp: inode_bytes_def)
    moreover have "dir_bytes d k \<inter> ({3072 ..< 3088} \<union> count_bytes) = {}"
      using dir_bytes_above[OF fs k(1)] by (auto simp: count_bytes_def)
    ultimately show "dir_bytes d k \<subseteq> - ({inode_at n + 28 ..< inode_at n + 88} \<union> {3072 ..< 3088} \<union> count_bytes \<union> ?B)"
      by blast
  qed
  show "dir_blocks d' k = dir_blocks d k" if "live d k" "k \<noteq> n"
    by (rule dir_frame(1)[OF frame[OF that]])
qed

lemma fs_grow:
  assumes fs: "fs_ok d D" and n: "n \<in> D" and g: "grows d n d'"
    and ex: "extends (name, m, t) (dir_list d n) (dir_list d' n)" and new: "dir_map d n name = None"
    and m: "live d m" "t = EXT2_FT_DIR \<Longrightarrow> m \<in> D"
  shows "fs_ok d' D" "k \<in> D \<Longrightarrow> dir_map d' k = ((dir_map d)(n := (dir_map d n)(name \<mapsto> (m, t)))) k"
proof -
  note f = fs_okD[OF fs]
  note lv = grows_frame(1)[OF fs f(6)[OF n] g] and frame = grows_frame(2)[OF fs f(6)[OF n] g]
  from g have gr: "dir_ok d' n" "alloc_ok d'"
    "\<forall>b \<in> set (dir_blocks d' n) - set (dir_blocks d n). 23 \<le> b \<and> b < 128 \<and> \<not> block_used d b"
    "\<forall>c. 0 < c \<and> c < 129 \<longrightarrow> block_used d' c = (block_used d c \<or> c \<in> set (dir_blocks d' n))"
    by (simp_all add: grows_def)
  have nm: "name \<notin> fst ` set (dir_list d n)" using new by (simp add: dir_map_def map_of_eq_None_iff)
  have own: "owns d' n"
  proof -
    have "9 \<le> b \<and> b < 128" if "b \<in> set (dir_blocks d' n)" for b
      using gr(1) that by (auto simp: dir_ok_def)
    then show ?thesis using gr(1,4) by (fastforce simp: owns_def dir_ok_def)
  qed
  have "names_ok d' D n"
    using gr(1) extends_distinct[OF ex f(9)[OF n] nm] f(7)[OF n] f(1) n m lv
    by (fastforce simp: names_ok_def names_live_def extends_set[OF ex] tree_ok_def)
  moreover have ln: "live d n" using f(6)[OF n] .
  ultimately have h: "\<forall>k. live d k \<and> k \<noteq> n \<longrightarrow> agree (dir_bytes d k) d d' \<and> live d' k"
    "\<forall>k. live d' k \<and> k \<noteq> n \<longrightarrow> live d k"
    "\<forall>c. 9 \<le> c \<and> c < 128 \<and> block_used d c \<longrightarrow> live d n \<and> c \<in> set (dir_blocks d n) \<or> block_used d' c"
    "live d' n \<longrightarrow> owns d' n \<and>
      (\<forall>b \<in> set (dir_blocks d' n). live d n \<and> b \<in> set (dir_blocks d n) \<or> \<not> block_used d b)"
    "D \<subseteq> D" "D \<subseteq> insert n D" "n \<in> D \<longrightarrow> live d' n \<and> names_ok d' D n"
    "live d' n \<or> (\<forall>k \<in> D. k \<noteq> n \<longrightarrow> n \<notin> (fst \<circ> snd) ` set (dir_list d k))"
    using frame lv gr(3) own by (simp_all add: gr(4)) blast+
  note st = fs_step[OF fs gr(2) h]
  from st(1) show "fs_ok d' D" .
  show "dir_map d' k = ((dir_map d)(n := (dir_map d n)(name \<mapsto> (m, t)))) k" if "k \<in> D"
    using st(3)[OF that] extends_map_of[OF ex nm] by (simp add: dir_map_def)
qed

section \<open>A new inode\<close>

definition fresh_like :: "nat \<Rightarrow> bytes \<Rightarrow> bytes \<Rightarrow> bool" where
  "fresh_like n d d' \<longleftrightarrow> geometry d' \<and> agree (- (inode_bytes n \<union> {4096 ..< 4100} \<union> count_bytes)) d d' \<and>
     free_inodes d' = free_inodes d - 1 \<and> free_blocks d' = free_blocks d \<and>
     (\<forall>m. 0 < m \<and> m < 33 \<longrightarrow> inode_used d' m = (m = n \<or> inode_used d m)) \<and>
     (\<forall>b. b < 129 \<longrightarrow> block_used d' b = block_used d b) \<and>
     direct d' (inode_at n) \<and> dir_blocks d' n = []"

lemma fresh_like_fresh:
  assumes "geometry d" "12 \<le> n" "n \<le> 32" "0 < free_inodes d" "direct d (inode_at n)"
  shows "fresh_like n d (fresh_inode n d)"
proof -
  note f = fresh_inode_ok[OF assms(1-3)]
  have at: "5120 \<le> inode_at n" "inode_at n + 128 \<le> 9216" using inode_at_bounds[of n] assms(2,3) by auto
  have "agree {inode_at n + 88 ..< inode_at n + 92} d (fresh_inode n d)"
    unfolding fresh_inode_def
  proof (rule agree_trans[OF agree_trans[OF agree_bump_counts(2) agree_mark_inode] agree_memset])
    show "{inode_at n + 88 ..< inode_at n + 92} \<inter> count_bytes = {}" using at by (auto simp: count_bytes_def)
  qed (use at assms(2,3) in auto)
  then have "bnum (fresh_inode n d) (inode_at n) 12 = bnum d (inode_at n) 12"
    unfolding bnum_def by (rule agree_load) auto
  then have "direct (fresh_inode n d) (inode_at n)" using assms(5) by (simp add: direct_def)
  moreover have "dir_blocks (fresh_inode n d) n = []"
    using f(7) by (auto simp: dir_blocks_def inode_blocks_def filter_empty_conv simp del: upt_rec_numeral)
  moreover have "free_inodes (fresh_inode n d) = free_inodes d - 1"
  proof -
    have "free_inodes d < 2 ^ 32" using load_le_bound[of 4 d 1040] by (simp add: free_inodes_def)
    then show ?thesis using f(3) assms(4) by (simp add: nat_diff_distrib)
  qed
  ultimately show ?thesis using f by (simp add: fresh_like_def)
qed

lemma fresh_like_fill:
  assumes "fresh_like n d e" "0 < n" "n \<le> 32" "agree (- ({inode_at n ..< inode_at n + 32} \<union> {2064 ..< 2066})) e e'"
  shows "fresh_like n d e'"
proof -
  have at: "5120 \<le> inode_at n" "inode_at n + 128 \<le> 9216" using inode_at_bounds[of n] assms(2,3) by auto
  note a = agree_subset[OF assms(4)]
  have "geometry e' = geometry e" by (rule geometry_agree[OF a]) (use at in \<open>auto simp: geo_bytes_def\<close>)
  moreover have "agree (- (inode_bytes n \<union> {4096 ..< 4100} \<union> count_bytes)) e e'"
    by (rule a) (auto simp: inode_bytes_def count_bytes_def)
  then have "agree (- (inode_bytes n \<union> {4096 ..< 4100} \<union> count_bytes)) d e'"
    using assms(1) agree_trans by (auto simp: fresh_like_def)
  moreover have "free_inodes e' = free_inodes e" "free_blocks e' = free_blocks e"
    unfolding free_inodes_def free_blocks_def by (rule agree_load[OF a[OF subset_refl]]; use at in auto)+
  moreover have "map_bytes \<subseteq> - ({inode_at n ..< inode_at n + 32} \<union> {2064 ..< 2066})"
    using at by (auto simp: map_bytes_def)
  note used_agree[OF assms(4) this]
  moreover have "bnum e' (inode_at n) i = bnum e (inode_at n) i" for i
    unfolding bnum_def by (rule agree_load[OF a[OF subset_refl]]) (use at in auto)
  then have "direct e' (inode_at n) = direct e (inode_at n)" "bnum e' (inode_at n) = bnum e (inode_at n)"
    by (auto simp: direct_def)
  then have "direct e' (inode_at n) = direct e (inode_at n)" "dir_blocks e' n = dir_blocks e n"
    unfolding dir_blocks_def inode_blocks_def by (simp_all only:)
  ultimately show ?thesis
    using assms(1) by (simp add: fresh_like_def)
qed


lemma free_inodes_from_taken:
  assumes "free_inodes_from d 12 = n # ns" "\<And>m. 0 < m \<Longrightarrow> m < 33 \<Longrightarrow> inode_used d' m = (m = n \<or> inode_used d m)"
  shows "free_inodes_from d' 12 = ns"
proof -
  have "free_inodes_from d' k = filter (\<lambda>c. c \<noteq> n) (free_inodes_from d k)" if "0 < k" for k
    unfolding free_inodes_from_def filter_filter using assms(2) that by (intro filter_cong) auto
  then have "free_inodes_from d' 12 = filter (\<lambda>c. c \<noteq> n) (free_inodes_from d 12)" by simp
  moreover have "distinct (free_inodes_from d 12)"
    unfolding free_inodes_from_def by (rule distinct_filter[OF distinct_upt])
  then have "n \<notin> set ns" using assms(1) by simp
  ultimately show ?thesis using assms(1) by (auto simp: filter_id_conv)
qed

lemma free_inodes_from_mem: "n \<in> set (free_inodes_from d k) \<longleftrightarrow> k \<le> n \<and> n < 33 \<and> \<not> inode_used d n"
  by (auto simp: free_inodes_from_def)

text \<open>A new inode has no blocks; nothing else changes. It may be made a directory.\<close>

lemma fs_fresh:
  assumes fs: "fs_ok d D" and fr: "fresh_like n d d'" and n: "free_inodes_from d 12 = n # ns" "0 < free_inodes d"
    and D: "D' = D \<or> D' = insert n D"
  shows "fs_ok d' D'" "dir_list d' n = []" "live d' k = (live d k \<or> k = n)" "\<not> live d n" "12 \<le> n" "n \<le> 32"
    "live d k \<Longrightarrow> dir_blocks d' k = dir_blocks d k" "k \<in> D \<Longrightarrow> dir_map d' k = dir_map d k"
    "live d k \<Longrightarrow> agree (dir_bytes d k) d d'"
proof -
  note f = fs_okD[OF fs]
  have "n \<in> set (free_inodes_from d 12)" using n(1) by simp
  then have n12: "12 \<le> n" "n \<le> 32" "\<not> inode_used d n" by (auto simp: free_inodes_from_mem)
  then show "12 \<le> n" "n \<le> 32" "\<not> live d n" by (auto simp: live_def)
  from fr have g: "geometry d'" "agree (- (inode_bytes n \<union> {4096 ..< 4100} \<union> count_bytes)) d d'"
    "free_inodes d' = free_inodes d - 1" "free_blocks d' = free_blocks d"
    "\<And>m. 0 < m \<Longrightarrow> m < 33 \<Longrightarrow> inode_used d' m = (m = n \<or> inode_used d m)"
    "\<And>b. b < 129 \<Longrightarrow> block_used d' b = block_used d b"
    "direct d' (inode_at n)" "dir_blocks d' n = []"
    by (simp_all add: fresh_like_def)
  have lv: "live d' k = (live d k \<or> k = n)" for k using g(5)[of k] n12 by (auto simp: live_def)
  then show "live d' k = (live d k \<or> k = n)" .
  have neq: "k \<noteq> n" if "live d k" for k using that n12 by (auto simp: live_def)
  have frame: "agree (dir_bytes d k) d d'" if k: "live d k" for k
  proof (rule agree_subset[OF g(2)])
    show "dir_bytes d k \<subseteq> - (inode_bytes n \<union> {4096 ..< 4100} \<union> count_bytes)"
      using dir_bytes_inode[OF fs k neq[OF k], of] n12 dir_bytes_above[OF fs k]
      by (auto simp: count_bytes_def)
  qed
  then show "live d k \<Longrightarrow> agree (dir_bytes d k) d d'" .
  show el: "dir_list d' n = []" using g(8) by (simp add: dir_list_def)
  have al: "alloc_ok d'"
  proof -
    have "free_from d' 23 = free_from d 23" by (rule free_from_cong) (simp add: g(6))
    moreover have "free_inodes_from d' 12 = ns" by (rule free_inodes_from_taken[OF n(1) g(5)])
    moreover have "direct d' (inode_at m)" if m: "12 \<le> m" "m \<le> 32" "\<not> inode_used d' m" for m
    proof -
      have "m \<noteq> n" "\<not> inode_used d m" using g(5)[of m] m n12 by auto
      moreover have "inode_bytes m \<inter> inode_bytes n = {}"
        using inode_bytes_disjoint[of m n] m n12 \<open>m \<noteq> n\<close> by simp
      then have "agree {inode_at m ..< inode_at m + 128} d d'"
        using inode_at_bounds[of m] m
        by (intro agree_subset[OF g(2)]) (auto simp: inode_bytes_def count_bytes_def)
      from direct_agree[OF this subset_refl] have "direct d' (inode_at m) = direct d (inode_at m)" .
      ultimately show ?thesis using f(2) m by (auto simp: alloc_ok_def)
    qed
    ultimately show ?thesis using f(2) g(1,3,4) n by (auto simp: alloc_ok_def)
  qed
  have "n \<notin> D" using f(6) neq by blast
  have own: "owns d' n" using g(8) by (simp add: owns_def)
  have nm: "names_ok d' D' n"
    using g(7,8) n12 el by (simp add: names_ok_def dir_ok_def names_live_def)
  have h: "\<forall>k. live d k \<and> k \<noteq> n \<longrightarrow> agree (dir_bytes d k) d d' \<and> live d' k"
    "\<forall>k. live d' k \<and> k \<noteq> n \<longrightarrow> live d k"
    "\<forall>c. 9 \<le> c \<and> c < 128 \<and> block_used d c \<longrightarrow> live d n \<and> c \<in> set (dir_blocks d n) \<or> block_used d' c"
    "live d' n \<longrightarrow> owns d' n \<and>
      (\<forall>b \<in> set (dir_blocks d' n). live d n \<and> b \<in> set (dir_blocks d n) \<or> \<not> block_used d b)"
    "D \<subseteq> D'" "D' \<subseteq> insert n D" "n \<in> D' \<longrightarrow> live d' n \<and> names_ok d' D' n"
    "live d' n \<or> (\<forall>k \<in> D. k \<noteq> n \<longrightarrow> n \<notin> (fst \<circ> snd) ` set (dir_list d k))"
    using frame lv D nm own by (simp_all add: g(6,8)) blast+
  note st = fs_step[OF fs al h]
  from st(1) show "fs_ok d' D'" .
  show "live d k \<Longrightarrow> dir_blocks d' k = dir_blocks d k" using st(2) neq by blast
  show "k \<in> D \<Longrightarrow> dir_map d' k = dir_map d k" using st(3) neq f(6) by (simp add: dir_map_def)
qed

section \<open>Entries the commands hold on to\<close>

lemma located_frame:
  assumes "located d D e" "\<forall>k \<in> D. dir_ok d k" "\<forall>k \<in> D. agree (dir_bytes d k) d d'"
  shows "entry_at d' e = entry_at d e" "located d' D e"
proof -
  from assms(1) obtain k b where k: "k \<in> D" "b \<in> set (dir_blocks d k)" "e \<in> set (entries d b)"
    by (auto simp: located_def)
  have "agree (block_bytes b) d d'"
    by (rule agree_subset[of "dir_bytes d k"]) (use assms(3) k in \<open>auto simp: dir_bytes_def\<close>)
  moreover have "good_block d b" using assms(2) k by (auto simp: dir_ok_def)
  ultimately have g: "entry_at d' e = entry_at d e" "entries d' b = entries d b"
    using good_block_agree(2,4) k(3) by auto
  then show "entry_at d' e = entry_at d e" by simp
  have "dir_blocks d' k = dir_blocks d k" using dir_frame(1) assms(3) k(1) by blast
  then have "b \<in> set (dir_blocks d' k)" "e \<in> set (entries d' b)" using k g(2) by simp_all
  then show "located d' D e" using k(1) unfolding located_def by blast
qed

lemma located_grows:
  assumes fs: "fs_ok d D" and n: "n \<in> D" and g: "grows d n d'" and l: "located d D e"
  shows "entry_at d' e = entry_at d e" "located d' D e"
proof -
  note f = fs_okD[OF fs]
  from l obtain k b where k: "k \<in> D" "b \<in> set (dir_blocks d k)" "e \<in> set (entries d b)"
    by (auto simp: located_def)
  have "entry_at d' e = entry_at d e \<and> located d' D e"
  proof (cases "k = n")
    case True
    have "b \<in> set (dir_blocks d' n)" "e \<in> set (entries d' b)" "entry_at d' e = entry_at d e"
      using g k True unfolding grows_def by blast+
    then show ?thesis using n by (auto simp: located_def)
  next
    case False
    have "agree (dir_bytes d k) d d'" using grows_frame(2)[OF fs f(6)[OF n] g f(6)[OF k(1)] False] .
    moreover have "located d {k} e" using k by (auto simp: located_def)
    ultimately have "entry_at d' e = entry_at d e" "located d' {k} e"
      using located_frame[of d "{k}" e d'] f(8)[OF k(1)] by auto
    then show ?thesis using k(1) by (auto simp: located_def)
  qed
  then show "entry_at d' e = entry_at d e" "located d' D e" by auto
qed

lemma entry_at_fields: "entry_at d' e = entry_at d e \<Longrightarrow> einode d' e = einode d e \<and> ftype d' e = ftype d e"
  by (simp add: entry_at_def)

section \<open>Adding an entry to a directory\<close>

definition enters :: "bytes \<Rightarrow> nat set \<Rightarrow> nat \<Rightarrow> string \<Rightarrow> nat \<times> nat \<Rightarrow> bytes \<Rightarrow> bool" where
  "enters d D n name v d' \<longleftrightarrow> fs_ok d' D \<and> grows d n d' \<and>
     (\<forall>k \<in> D. dir_map d' k = ((dir_map d)(n := (dir_map d n)(name \<mapsto> v))) k)"

lemma live_small: "live d m \<Longrightarrow> m < 2 ^ 32"
  by (simp add: live_def)

lemma fs_make_entry:
  assumes fs: "fs_ok d D" and n: "n \<in> D" and new: "dir_map d n name = None"
    and m: "live d m" "t = EXT2_FT_DIR \<Longrightarrow> m \<in> D" "t < 256"
    and name: "length name < 256" "name \<noteq> []" and add: "can_add d n (length name)"
  shows "\<exists>e d'. make_entry_in_inode d (inode_at n) m name t = Ret (Some e, d') \<and> enters d D n name (m, t) d'"
proof -
  note f = fs_okD[OF fs]
  have "\<forall>b \<in> set (dir_blocks d n). block_used d b" "inode_used d n"
    using f(10)[OF f(6)[OF n]] f(6)[OF n] by (auto simp: owns_def live_def)
  from make_entry_ok[OF f(8)[OF n] f(2) this name m(3) live_small[OF m(1)] add] obtain e d' where
    r: "make_entry_in_inode d (inode_at n) m name t = Ret (Some e, d')" "grows d n d'"
      "extends (name, m, t) (dir_list d n) (dir_list d' n)" by blast
  then show ?thesis using fs_grow[OF fs n r(2,3) new m(1,2)] by (auto simp: enters_def)
qed

lemma room_frame:
  assumes a: "agree (dir_bytes d p) d d'" and p: "dir_ok d p"
  shows "\<exists>b \<in> set (dir_blocks d p). room_in d k b \<Longrightarrow> \<exists>b \<in> set (dir_blocks d' p). room_in d' k b"
    "i < 12 \<Longrightarrow> bnum d' (inode_at p) i = bnum d (inode_at p) i"
proof -
  show "bnum d' (inode_at p) i = bnum d (inode_at p) i" if "i < 12"
    by (rule bnum_agree[OF a]) (use that in \<open>auto simp: dir_bytes_def inode_bytes_def\<close>)
  assume "\<exists>b \<in> set (dir_blocks d p). room_in d k b"
  then obtain b where b: "b \<in> set (dir_blocks d p)" "room_in d k b" by blast
  have gb: "good_block d b" using p b(1) by (auto simp: dir_ok_def)
  have ag: "agree (block_bytes b) d d'"
    by (rule agree_subset[OF a]) (use b(1) in \<open>auto simp: dir_bytes_def\<close>)
  have "has_room d' k x" if x: "x \<in> set (entries d b)" "has_room d k x" for x
    using chain_entries_agree(1,2)[OF ag[unfolded block_bytes_def] _ x(1)] gb x(2)
    by (auto simp: good_block_def entry_block_def has_room_def)
  then have "room_in d' k b" using b(2) good_block_agree(2)[OF ag gb] by (auto simp: room_in_def)
  then show "\<exists>b \<in> set (dir_blocks d' p). room_in d' k b" using b(1) dir_frame(1)[OF a] by auto
qed

text \<open>The first two entries of a directory without blocks share one block.\<close>

lemma fs_first_entries:
  assumes fs: "fs_ok d D" and n: "n \<in> D" and el: "dir_blocks d n = []" and free: "0 < free_blocks d"
    and name: "length x < 256" "x \<noteq> []" "length y < 256" "y \<noteq> []" "x \<noteq> y"
    and m: "live d m" "m \<in> D" "live d p" "p \<in> D"
  shows "\<exists>e d1 e' d2. make_entry_in_inode d (inode_at n) m x EXT2_FT_DIR = Ret (Some e, d1) \<and>
      make_entry_in_inode d1 (inode_at n) p y EXT2_FT_DIR = Ret (Some e', d2) \<and>
      enters d D n x (m, EXT2_FT_DIR) d1 \<and> enters d1 D n y (p, EXT2_FT_DIR) d2 \<and>
      free_blocks d \<le> free_blocks d2 + 1 \<and> dir_map d2 n = [x \<mapsto> (m, EXT2_FT_DIR), y \<mapsto> (p, EXT2_FT_DIR)]"
proof -
  note f = fs_okD[OF fs]
  have dt: "EXT2_FT_DIR < 256" by (simp add: EXT2_FT_DIR_def)
  have dm: "dir_map d n = Map.empty" by (simp add: dir_map_def dir_list_def el)
  have "bnum d (inode_at n) 0 = 0"
  proof (rule ccontr)
    assume "bnum d (inode_at n) 0 \<noteq> 0"
    then have "bnum d (inode_at n) 0 \<in> set (dir_blocks d n)"
      unfolding dir_blocks_def inode_blocks_def set_filter set_map set_upt by (intro CollectI conjI imageI) auto
    with el show False by simp
  qed
  then have z: "\<exists>i < 12. bnum d (inode_at n) i = 0" by (intro exI[of _ 0]) simp
  have "\<not> (\<exists>b \<in> set (dir_blocks d n). room_in d (length x) b)" "\<forall>b \<in> set (dir_blocks d n). block_used d b"
    "inode_used d n"
    using el f(6)[OF n] by (auto simp: live_def)
  from make_entry_new[OF f(8)[OF n] f(2) this(2,3) name(1,2) dt live_small[OF m(1)] this(1) free z] obtain e d1 where
    1: "make_entry_in_inode d (inode_at n) m x EXT2_FT_DIR = Ret (Some e, d1)" "grows d n d1"
      "extends (x, m, EXT2_FT_DIR) (dir_list d n) (dir_list d1 n)" "\<exists>b \<in> set (dir_blocks d1 n). \<forall>k < 256. room_in d1 k b"
    by blast
  have "dir_map d n x = None" using dm by simp
  from fs_grow[OF fs n 1(2,3) this m(1,2)] have e1: "enters d D n x (m, EXT2_FT_DIR) d1"
    using 1(2) by (auto simp: enters_def)
  then have fs1: "fs_ok d1 D" and dm1: "dir_map d1 n = [x \<mapsto> (m, EXT2_FT_DIR)]"
    using n dm by (auto simp: enters_def)
  note f1 = fs_okD[OF fs1]
  have p1: "live d1 p" using grows_frame(1)[OF fs f(6)[OF n] 1(2)] m(3) by simp
  have "\<exists>b \<in> set (dir_blocks d1 n). room_in d1 (length y) b" using 1(4) name(3) by blast
  moreover have "\<forall>b \<in> set (dir_blocks d1 n). block_used d1 b"
    using f1(10)[OF f1(6)[OF n]] by (auto simp: owns_def)
  ultimately obtain e' d2 where
    2: "make_entry_in_inode d1 (inode_at n) p y EXT2_FT_DIR = Ret (Some e', d2)" "grows d1 n d2"
      "extends (y, p, EXT2_FT_DIR) (dir_list d1 n) (dir_list d2 n)" "free_blocks d2 = free_blocks d1"
    using make_entry_existing[OF f1(8)[OF n] f1(2) _ name(3,4) dt live_small[OF p1]] by blast
  have "dir_map d1 n y = None" using dm1 name(5) by simp
  from fs_grow[OF fs1 n 2(2,3) this p1 m(4)] have e2: "enters d1 D n y (p, EXT2_FT_DIR) d2"
    using 2(2) by (auto simp: enters_def)
  then have "dir_map d2 n = [x \<mapsto> (m, EXT2_FT_DIR), y \<mapsto> (p, EXT2_FT_DIR)]"
    using n dm1 by (auto simp: enters_def)
  moreover have "free_blocks d \<le> free_blocks d2 + 1" using 1(2) 2(4) by (simp add: grows_def)
  ultimately show ?thesis using 1(1) 2(1) e1 e2 by blast
qed

section \<open>The first fields of an inode\<close>

lemma fs_header:
  assumes fs: "fs_ok d D" and m: "live d m" and a: "agree (- {inode_at m ..< inode_at m + 32}) d d'"
  shows "fs_ok d' D" "k \<in> D \<Longrightarrow> dir_map d' k = dir_map d k" "live d' k = live d k"
    "live d k \<Longrightarrow> dir_blocks d' k = dir_blocks d k" "live d k \<Longrightarrow> k \<noteq> m \<Longrightarrow> agree (dir_bytes d k) d d'"
    "k \<in> D \<Longrightarrow> dir_list d' k = dir_list d k" "0 < c \<Longrightarrow> c < 129 \<Longrightarrow> block_used d' c = block_used d c"
    "free_blocks d' = free_blocks d" "free_inodes d' = free_inodes d" "direct d' (inode_at m) = direct d (inode_at m)"
proof -
  note f = fs_okD[OF fs]
  have m32: "0 < m" "m \<le> 32" using m by (auto simp: live_def)
  have at: "5120 \<le> inode_at m" "inode_at m + 128 \<le> 9216" using inode_at_bounds[OF m32] by auto
  have "geo_bytes \<subseteq> - {inode_at m ..< inode_at m + 32}" using at by (auto simp: geo_bytes_def)
  from geometry_agree[OF agree_subset[OF a this]] f(4) have g: "geometry d'" by simp
  have mb: "map_bytes \<subseteq> - {inode_at m ..< inode_at m + 32}" using at by (auto simp: map_bytes_def)
  note ua = used_agree[OF a mb]
  have lv: "live d' k = live d k" for k using ua(2)[of k] by (auto simp: live_def)
  have cnt: "free_blocks d' = free_blocks d" "free_inodes d' = free_inodes d"
    unfolding free_blocks_def free_inodes_def by (rule agree_load[OF a]; use at in auto)+
  have bn: "bnum d' (inode_at m) i = bnum d (inode_at m) i" for i
    unfolding bnum_def by (rule agree_load[OF a]) auto
  have dr: "direct d' (inode_at m) = direct d (inode_at m)" by (simp add: direct_def bn)
  have bm: "dir_blocks d' m = dir_blocks d m"
  proof -
    have "bnum d' (inode_at m) = bnum d (inode_at m)" using bn by (rule ext)
    then show ?thesis by (simp only: dir_blocks_def inode_blocks_def)
  qed
  have inode: "inode_bytes k \<inter> {inode_at m ..< inode_at m + 32} = {}" if "0 < k" "k \<noteq> m" for k
    using inode_bytes_disjoint[OF that(1) m32(1) that(2)] by (auto simp: inode_bytes_def)
  have al: "alloc_ok d'"
  proof -
    have "free_from d' 23 = free_from d 23" by (rule free_from_cong) (simp add: ua(1))
    moreover have "free_inodes_from d' 12 = free_inodes_from d 12"
      by (rule free_inodes_from_cong) (simp add: ua(2))
    moreover have "direct d' (inode_at k)" if k: "12 \<le> k" "k \<le> 32" "\<not> inode_used d' k" for k
    proof -
      have nu: "\<not> inode_used d k" using ua(2)[of k] k by simp
      then have "k \<noteq> m" using m by (auto simp: live_def)
      then have "agree {inode_at k ..< inode_at k + 128} d d'"
        using inode[of k] k by (intro agree_subset[OF a]) (auto simp: inode_bytes_def)
      from direct_agree[OF this subset_refl] show ?thesis using f(2) k nu by (simp add: alloc_ok_def)
    qed
    ultimately show ?thesis using f(2) g cnt by (simp add: alloc_ok_def)
  qed
  have fr: "agree (dir_bytes d k) d d'" if k: "live d k" "k \<noteq> m" for k
    by (rule agree_subset[OF a]) (use dir_bytes_inode[OF fs k m32] in \<open>auto simp: inode_bytes_def\<close>)
  have blocks: "dir_blocks d' k = dir_blocks d k" if "live d k" for k
    using bm dir_frame(1)[OF fr[OF that]] by (cases "k = m") auto
  have own: "owns d' m" using f(10)[OF m] bm ua(1) by (auto simp: owns_def)
  have good: "good_block d' b \<and> block_list d' (entries d' b) = block_list d (entries d b)"
    if b: "good_block d b" "9 \<le> b" for b
  proof -
    have "agree (block_bytes b) d d'"
      by (rule agree_subset[OF a]) (use b(2) at in \<open>auto simp: block_bytes_def\<close>)
    from good_block_agree[OF this b(1)] show ?thesis by simp
  qed
  have lm: "dir_list d' m = dir_list d m" if "dir_ok d m"
  proof -
    have "map (\<lambda>b. block_list d' (entries d' b)) (dir_blocks d m) = map (\<lambda>b. block_list d (entries d b)) (dir_blocks d m)"
      using that good by (intro map_cong) (auto simp: dir_ok_def)
    then show ?thesis by (simp only: dir_list_def bm)
  qed
  have nm: "names_ok d' D m" if D: "m \<in> D"
  proof -
    have l: "dir_list d' m = dir_list d m" using lm f(8)[OF D] .
    have "dir_ok d' m" using f(8)[OF D] good dr bm by (auto simp: dir_ok_def)
    moreover have "names_live d' m" using f(7)[OF D] l lv by (auto simp: names_live_def)
    moreover have "\<forall>(x, j, t) \<in> set (dir_list d m). t = EXT2_FT_DIR \<longrightarrow> j \<in> D"
      using f(1) D by (fastforce simp: tree_ok_def)
    ultimately show ?thesis using f(9)[OF D] l by (simp add: names_ok_def)
  qed
  have h: "\<forall>k. live d k \<and> k \<noteq> m \<longrightarrow> agree (dir_bytes d k) d d' \<and> live d' k"
    "\<forall>k. live d' k \<and> k \<noteq> m \<longrightarrow> live d k"
    "\<forall>c. 9 \<le> c \<and> c < 128 \<and> block_used d c \<longrightarrow> live d m \<and> c \<in> set (dir_blocks d m) \<or> block_used d' c"
    "live d' m \<longrightarrow> owns d' m \<and>
      (\<forall>b \<in> set (dir_blocks d' m). live d m \<and> b \<in> set (dir_blocks d m) \<or> \<not> block_used d b)"
    "D \<subseteq> D" "D \<subseteq> insert m D" "m \<in> D \<longrightarrow> live d' m \<and> names_ok d' D m"
    "live d' m \<or> (\<forall>k \<in> D. k \<noteq> m \<longrightarrow> m \<notin> (fst \<circ> snd) ` set (dir_list d k))"
    using fr lv m own bm ua(1) nm by auto
  note s = fs_step[OF fs al h]
  show "fs_ok d' D" by (rule s(1))
  show lk: "dir_list d' k = dir_list d k" if "k \<in> D"
    using s(3)[OF that] lm f(8)[OF that] by (cases "k = m") auto
  then show "k \<in> D \<Longrightarrow> dir_map d' k = dir_map d k" by (simp add: dir_map_def)
  show "live d' k = live d k" by (rule lv)
  show "live d k \<Longrightarrow> dir_blocks d' k = dir_blocks d k" by (rule blocks)
  show "live d k \<Longrightarrow> k \<noteq> m \<Longrightarrow> agree (dir_bytes d k) d d'" by (rule fr)
  show "0 < c \<Longrightarrow> c < 129 \<Longrightarrow> block_used d' c = block_used d c" by (rule ua(1))
  show "free_blocks d' = free_blocks d" "free_inodes d' = free_inodes d" by (rule cnt)+
  show "direct d' (inode_at m) = direct d (inode_at m)" by (rule dr)
qed

end
