(* ===== verification/Ext2_Mkdir.thy ===== *)
theory Ext2_Mkdir
  imports Ext2_Fs
begin

text \<open>
  \<open>ext2_mkdir\<close> on a consistent image: which paths it refuses, and that it otherwise adds one
  directory with \<open>.\<close> and \<open>..\<close> to the tree and keeps the invariant.
\<close>

section \<open>Paths of new files\<close>

definition comps :: "string \<Rightarrow> string list" where
  "comps path = ''.'' # tokens path"

lemma comps_ne [simp]: "comps path \<noteq> []" "[] \<notin> set (comps path)" "[] \<notin> set (butlast (comps path))"
  using tokens_ne[of path] in_set_butlastD[of "[]" "comps path"] by (auto simp: comps_def)

lemma last_comps_ne: "last (comps path) \<noteq> []"
  using comps_ne last_in_set by metis

lemma follow_snoc:
  "follow fs n (p @ [c]) =
     (case follow fs n p of None \<Rightarrow> None | Some (m, t) \<Rightarrow> if t = EXT2_FT_DIR then fs m c else None)"
  by (induction p arbitrary: n) (auto split: option.splits)

lemma traverse_names:
  "tree_ok d D \<Longrightarrow> dl_inv l \<Longrightarrow> dl_abs l = map Some names \<Longrightarrow> [] \<notin> set names \<Longrightarrow> names \<noteq> [] \<Longrightarrow>
     \<exists>e. traverse_path d l = Ret e \<and> points d D e (resolve d names)"
  unfolding resolve_def by (rule traverse_path_ok)

lemma popped:
  assumes "dl_inv l" "dl_abs l = map Some names" "names \<noteq> []"
  shows "\<exists>l'. listPop l = Ok (Some (last names), l') \<and> dl_inv l' \<and> dl_abs l' = map Some (butlast names) \<and>
     count l' = length names - 1"
proof -
  obtain l' where l': "listPop l = Ok (if dl_abs l = [] then None else last (dl_abs l), l')"
    "dl_inv l'" "dl_abs l' = butlast (dl_abs l)"
    using listPop_ok[OF assms(1)] by blast
  moreover have "count l' = length names - 1"
    using length_dl_abs[OF l'(2)] l'(3) assms(2) by simp
  ultimately show ?thesis using assms(2,3) by (auto simp: last_map map_butlast)
qed

section \<open>Refused paths\<close>

definition mkdir_error :: "bytes \<Rightarrow> string \<Rightarrow> int option" where
  "mkdir_error d path =
     (if tokens path = [] then Some EEXIST
      else case resolve d (butlast (comps path)) of
             None \<Rightarrow> Some ENOENT
           | Some (p, t) \<Rightarrow>
               if t \<noteq> EXT2_FT_DIR then Some ENOENT
               else if dir_map d p (last (comps path)) \<noteq> None then Some EEXIST else None)"

definition mkdir_rest :: "nat \<Rightarrow> bytes \<Rightarrow> nat \<Rightarrow> string \<Rightarrow> bytes fsres" where
  "mkdir_rest now d parent name =
     bind_f (allocate_dir_inode now d) (\<lambda>(dir_inode_num, d).
     bind_f (get_inode d dir_inode_num) (\<lambda>dir_inode.
     bind_f (entry_or_undo now dir_inode_num d dir_inode dir_inode_num ''.'') (\<lambda>d.
     bind_f (rd 4 d (parent + e_inode)) (\<lambda>parent_num.
     bind_f (entry_or_undo now dir_inode_num d dir_inode parent_num ''..'') (\<lambda>d.
     bind_f (rd 4 d (parent + e_inode)) (\<lambda>parent_num.
     bind_f (get_inode d parent_num) (\<lambda>parent_inode.
     entry_or_undo now dir_inode_num d parent_inode dir_inode_num name)))))))"

lemma mkdir_split:
  assumes t: "tree_ok d D"
  shows "(\<exists>c. mkdir_error d path = Some c \<and> ext2_mkdir now d path = Quit c d) \<or>
    (\<exists>e p. mkdir_error d path = None \<and> ext2_mkdir now d path = mkdir_rest now d e (last (comps path)) \<and>
       p \<in> D \<and> resolve d (butlast (comps path)) = Some (p, EXT2_FT_DIR) \<and> einode d e = p \<and>
       e + 8 \<le> DISK_SIZE \<and> located d D e \<and> dir_map d p (last (comps path)) = None)"
proof -
  let ?n = "comps path"
  obtain l where l: "split_path path = Ret l" "dl_inv l" "dl_abs l = map Some ?n"
    using split_path_ok[of path] by (metis comps_def)
  obtain l1 where l1: "listPop l = Ok (Some (last ?n), l1)" "dl_inv l1" "dl_abs l1 = map Some (butlast ?n)"
    "count l1 = length (tokens path)"
    using popped[OF l(2,3)] by (auto simp: comps_def)
  show ?thesis
  proof (cases "tokens path = []")
    case True
    then show ?thesis using l l1 by (simp add: mkdir_error_def ext2_mkdir_def)
  next
    case False
    then have ne: "butlast ?n \<noteq> []" by (simp add: comps_def)
    obtain e where e: "traverse_path d l1 = Ret e" "points d D e (resolve d (butlast ?n))"
      using traverse_names[OF t l1(2,3) _ ne] by auto
    show ?thesis
    proof (cases e)
      case None
      then show ?thesis using False l l1 e by (simp add: mkdir_error_def ext2_mkdir_def points_def)
    next
      case (Some a)
      then have a: "resolve d (butlast ?n) = Some (einode d a, ftype d a)" "a + 8 \<le> DISK_SIZE" "located d D a"
        using e(2) by (auto simp: points_def)
      show ?thesis
      proof (cases "ftype d a = EXT2_FT_DIR")
        case False
        then show ?thesis using \<open>tokens path \<noteq> []\<close> l l1 e Some a
          by (simp add: mkdir_error_def ext2_mkdir_def is_directory_ok)
      next
        case True
        then have pD: "einode d a \<in> D" using resolve_range[OF t a(1)] by simp
        obtain l2 where l2: "listAppend l1 (Some (last ?n)) = Ok l2" "dl_inv l2" "dl_abs l2 = map Some ?n"
          using listAppend_ok[OF l1(2), of "Some (last ?n)"] l1(3)
          by (metis append_butlast_last_id comps_ne(1) list.simps(8,9) map_append)
        obtain f where f: "traverse_path d l2 = Ret f" "points d D f (resolve d ?n)"
          using traverse_names[OF t l2(2,3)] by auto
        have "resolve d (butlast ?n @ [last ?n]) = dir_map d (einode d a) (last ?n)"
          using a(1) True unfolding resolve_def follow_snoc by simp
        then have "resolve d ?n = dir_map d (einode d a) (last ?n)" by simp
        then have fN: "f = None \<longleftrightarrow> dir_map d (einode d a) (last ?n) = None"
          using f(2) by (auto simp: points_def split: option.splits)
        have st: "ext2_mkdir now d path = (if f \<noteq> None then Quit EEXIST d else mkdir_rest now d a (last ?n))"
          using \<open>tokens path \<noteq> []\<close> l l1 e Some True l2 f(1) a(2)
          by (simp add: ext2_mkdir_def mkdir_rest_def is_directory_ok deref_string_def)
        show ?thesis
          using \<open>tokens path \<noteq> []\<close> True a pD fN st by (auto simp: mkdir_error_def)
      qed
    qed
  qed
qed

section \<open>The directory that is made\<close>

definition mkdir_room :: "bytes \<Rightarrow> nat \<Rightarrow> nat \<Rightarrow> bool" where
  "mkdir_room d p k \<longleftrightarrow> 0 < free_inodes d \<and> 0 < free_blocks d \<and>
     ((\<exists>b \<in> set (dir_blocks d p). room_in d k b) \<or>
      2 \<le> free_blocks d \<and> (\<exists>i < 12. bnum d (inode_at p) i = 0))"

lemma entry_or_undo_ok:
  "make_entry_in_inode d inode child name EXT2_FT_DIR = Ret (Some e, d') \<Longrightarrow>
     entry_or_undo now n d inode child name = Ret d'"
  by (simp add: entry_or_undo_def)

text \<open>What the file system is after \<open>mkdir\<close>.\<close>

definition with_dir :: "(nat \<Rightarrow> string \<Rightarrow> (nat \<times> nat) option) \<Rightarrow> nat \<Rightarrow> string \<Rightarrow> nat
    \<Rightarrow> nat \<Rightarrow> string \<Rightarrow> (nat \<times> nat) option" where
  "with_dir fs p name n =
     fs(p := (fs p)(name \<mapsto> (n, EXT2_FT_DIR)), n := [''.'' \<mapsto> (n, EXT2_FT_DIR), ''..'' \<mapsto> (p, EXT2_FT_DIR)])"

lemma rd_einode: "e + 8 \<le> DISK_SIZE \<Longrightarrow> rd 4 d (e + e_inode) = Ret (einode d e)"
  by (simp add: einode_def e_inode_def)

lemma mkdir_rest_ok:
  assumes fs: "fs_ok d D" and p: "p \<in> D" and e: "einode d e = p" "e + 8 \<le> DISK_SIZE" "located d D e"
    and new: "dir_map d p name = None" and name: "length name < 256" "name \<noteq> []"
    and room: "mkdir_room d p (length name)"
  shows "\<exists>n d'. mkdir_rest now d e name = Ret d' \<and> \<not> live d n \<and> 12 \<le> n \<and> n \<le> 32 \<and> fs_ok d' (insert n D) \<and>
     (\<forall>k \<in> insert n D. dir_map d' k = with_dir (dir_map d) p name n k) \<and>
     (\<forall>k. live d' k = (live d k \<or> k = n)) \<and>
     (\<forall>k. live d k \<and> k \<noteq> p \<longrightarrow> agree (dir_bytes d k) d d')"
proof -
  note f = fs_okD[OF fs]
  have lp: "live d p" using f(6)[OF p] .
  have "0 < length (free_inodes_from d 12)" using f(2) room unfolding alloc_ok_def mkdir_room_def by linarith
  then obtain n ns where n: "free_inodes_from d 12 = n # ns" by (cases "free_inodes_from d 12") auto
  have fi: "0 < free_inodes d" using room by (simp add: mkdir_room_def)
  have "n \<in> set (free_inodes_from d 12)" using n by simp
  then have n12: "12 \<le> n" "n \<le> 32" "\<not> inode_used d n" by (auto simp: free_inodes_from_mem)
  have dn: "direct d (inode_at n)" using f(2) n12 by (simp add: alloc_ok_def)
  define d1 where "d1 = bump 2 2064 1 (fill_inode 0x4000 1024 now (inode_at n) (fresh_inode n d))"
  have r1: "allocate_dir_inode now d = Ret (n, d1)"
    unfolding d1_def by (rule allocate_dir_inode_ok[OF f(4) fi n dn])
  have "agree (- ({inode_at n ..< inode_at n + 32} \<union> {2064 ..< 2066})) (fresh_inode n d) d1"
    unfolding d1_def by (rule agree_trans[OF agree_fill_inode agree_bump]) auto
  then have fl: "fresh_like n d d1"
    using fresh_like_fill[OF fresh_like_fresh[OF f(4) n12(1,2) fi dn]] n12 by simp
  note F = fs_fresh[OF fs fl n fi disjI2[OF refl]]
  let ?D = "insert n D"
  have np: "n \<noteq> p" using F(4) lp by blast
  have l1: "live d1 n" "live d1 p" using F(3) lp by auto
  have "dir_blocks d1 n = []" "free_blocks d1 = free_blocks d" "geometry d1"
    using fl by (auto simp: fresh_like_def)
  moreover have "0 < free_blocks d" using room by (simp add: mkdir_room_def)
  ultimately obtain e1 d2 e2 d3 where
    2: "make_entry_in_inode d1 (inode_at n) n ''.'' EXT2_FT_DIR = Ret (Some e1, d2)"
       "make_entry_in_inode d2 (inode_at n) p ''..'' EXT2_FT_DIR = Ret (Some e2, d3)"
       "enters d1 ?D n ''.'' (n, EXT2_FT_DIR) d2" "enters d2 ?D n ''..'' (p, EXT2_FT_DIR) d3"
       "free_blocks d \<le> free_blocks d3 + 1"
       "dir_map d3 n = [''.'' \<mapsto> (n, EXT2_FT_DIR), ''..'' \<mapsto> (p, EXT2_FT_DIR)]"
    using fs_first_entries[OF F(1), of n "''.''" "''..''" n p] l1 p by auto
  have fs2: "fs_ok d2 ?D" "grows d1 n d2" and fs3: "fs_ok d3 ?D" "grows d2 n d3"
    using 2(3,4) by (auto simp: enters_def)
  have nD: "n \<in> ?D" by simp
  note g2 = grows_frame[OF F(1) l1(1) fs2(2)]
  have l2: "live d2 n" using g2(1) l1(1) by simp
  note g3 = grows_frame[OF fs2(1) l2 fs3(2)]
  have frame3: "agree (dir_bytes d k) d d3" if k: "live d k" for k
  proof -
    have kn: "k \<noteq> n" using k F(4) by blast
    have k1: "live d1 k" using F(3) k by simp
    have k2: "live d2 k" using g2(1) k1 by simp
    have eq: "dir_bytes d1 k = dir_bytes d k" "dir_bytes d2 k = dir_bytes d k"
      using F(7)[OF k] g2(3)[OF k1 kn] by (simp_all add: dir_bytes_def)
    show ?thesis
      using agree_trans[OF F(9)[OF k] agree_trans[OF g2(2)[OF k1 kn, unfolded eq] g3(2)[OF k2 kn, unfolded eq]]] .
  qed
  have dks: "\<forall>k \<in> D. dir_ok d k" using f(8) by blast
  have "\<forall>k \<in> D. agree (dir_bytes d k) d d1" using F(9) f(6) by blast
  note e1 = located_frame[OF e(3) dks this]
  then have "located d1 ?D e" by (auto simp: located_def)
  from located_grows[OF F(1) nD fs2(2) this]
  have e2: "entry_at d2 e = entry_at d e" "located d2 ?D e" using e1 by auto
  from located_grows[OF fs2(1) nD fs3(2) this(2)]
  have e3: "entry_at d3 e = entry_at d e" using e2 by auto
  have rp: "rd 4 d2 (e + e_inode) = Ret p" "rd 4 d3 (e + e_inode) = Ret p"
    using e(1) entry_at_fields[OF e2(1)] entry_at_fields[OF e3] rd_einode[OF e(2)] by simp_all
  have gi: "get_inode d1 n = Ret (inode_at n)" "get_inode d3 p = Ret (inode_at p)"
    using get_inode_ok fs_okD(4)[OF F(1)] fs_okD(4)[OF fs3(1)] n12 lp by (simp_all add: live_def)
  have p3: "live d3 p" "live d3 n" using g3(1) g2(1) l1 by simp_all
  have pD: "p \<in> ?D" using p by simp
  have "dir_map d3 p = dir_map d p" by (rule dir_frame_map[OF frame3[OF lp] f(8)[OF p]])
  with new have new3: "dir_map d3 p name = None" by simp
  have add: "can_add d3 p (length name)"
  proof (cases "\<exists>b \<in> set (dir_blocks d p). room_in d (length name) b")
    case True
    from room_frame(1)[OF frame3[OF lp] f(8)[OF p] this] show ?thesis by (auto simp: can_add_def)
  next
    case False
    then obtain i where i: "2 \<le> free_blocks d" "i < 12" "bnum d (inode_at p) i = 0"
      using room by (auto simp: mkdir_room_def)
    then show ?thesis using room_frame(2)[OF frame3[OF lp] f(8)[OF p] i(2)] 2(5) by (auto simp: can_add_def)
  qed
  have "EXT2_FT_DIR < 256" by (simp add: EXT2_FT_DIR_def)
  from fs_make_entry[OF fs3(1) pD new3 p3(2) nD this name add] obtain e4 d4 where
    4: "make_entry_in_inode d3 (inode_at p) n name EXT2_FT_DIR = Ret (Some e4, d4)"
       "enters d3 ?D p name (n, EXT2_FT_DIR) d4" by blast
  then have fs4: "fs_ok d4 ?D" "grows d3 p d4" by (auto simp: enters_def)
  note g4 = grows_frame[OF fs3(1) p3(1) fs4(2)]
  have "mkdir_rest now d e name = Ret d4"
    using r1 gi rp 2(1,2) 4(1) by (simp add: mkdir_rest_def entry_or_undo_ok)
  moreover have "dir_map d4 k = with_dir (dir_map d) p name n k" if k: "k \<in> ?D" for k
  proof -
    have "dir_map d3 k = ((dir_map d)(n := [''.'' \<mapsto> (n, EXT2_FT_DIR), ''..'' \<mapsto> (p, EXT2_FT_DIR)])) k"
      using k 2(6) dir_frame_map[OF frame3[OF f(6)] f(8)] by fastforce
    then show ?thesis using 4(2) k np \<open>dir_map d3 p = dir_map d p\<close> by (auto simp: enters_def with_dir_def)
  qed
  moreover have "live d4 k = (live d k \<or> k = n)" for k using g4(1) g3(1) g2(1) F(3) by simp
  moreover have "agree (dir_bytes d k) d d4" if k: "live d k" "k \<noteq> p" for k
  proof -
    have "dir_bytes d3 k = dir_bytes d k" using dir_frame(1)[OF frame3[OF k(1)]] by (simp add: dir_bytes_def)
    moreover have "live d3 k" using g3(1) g2(1) F(3) k(1) by simp
    ultimately show ?thesis using agree_trans[OF frame3[OF k(1)]] g4(2)[OF _ k(2)] by simp
  qed
  ultimately show ?thesis using F(4) n12 fs4(1) by blast
qed

lemma mkdir_rest_refused: "free_inodes d = 0 \<Longrightarrow> mkdir_rest now d e name = Quit 1 d"
  by (simp add: mkdir_rest_def allocate_dir_inode_def allocate_inode_refused)

end
