(* ===== verification/Ext2_Remove.thy ===== *)
theory Ext2_Remove
  imports Ext2_Mkdir
begin

text \<open>
  \<open>ext2_rm\<close> on a consistent image: the name disappears from its directory, a block of the
  directory that becomes empty is freed, and so are the inode and its blocks with the last link.
\<close>

section \<open>Taking a block from a directory\<close>

definition drop_block :: "nat \<Rightarrow> nat \<Rightarrow> bytes \<Rightarrow> bytes" where
  "drop_block inode i d = mark_block (bnum d inode i) False (bump_blocks 1 (put_bnum inode i 0 d))"

lemma drop_block_ok:
  assumes "geometry d" "5120 \<le> inode" "inode + 128 \<le> 9216" "direct d inode" "i < 12"
    and b: "0 < bnum d inode i" "bnum d inode i < 128" and free: "free_blocks d < 2 ^ 32 - 1"
  shows "geometry (drop_block inode i d)"
    "agree (- ({inode + 40 ..< inode + 88} \<union> {3072 ..< 3088} \<union> count_bytes)) d (drop_block inode i d)"
    "j \<le> 12 \<Longrightarrow> bnum (drop_block inode i d) inode j = (if j = i then 0 else bnum d inode j)"
    "0 < c \<Longrightarrow> c < 129 \<Longrightarrow> block_used (drop_block inode i d) c = (block_used d c \<and> c \<noteq> bnum d inode i)"
    "0 < c \<Longrightarrow> c < 33 \<Longrightarrow> inode_used (drop_block inode i d) c = inode_used d c"
    "free_blocks (drop_block inode i d) = free_blocks d + 1" "free_inodes (drop_block inode i d) = free_inodes d"
proof -
  let ?b = "bnum d inode i" and ?d1 = "put_bnum inode i 0 d" and ?d2 = "bump_blocks 1 (put_bnum inode i 0 d)"
  have a1: "agree (- {inode + 40 ..< inode + 88}) d ?d1" by (rule agree_put_bnum) auto
  have a2: "agree (- count_bytes) ?d1 ?d2" by (rule agree_bump_counts) auto
  have a3: "agree (- {3072 ..< 3088}) ?d2 (drop_block inode i d)"
    unfolding drop_block_def by (rule agree_mark_block) (use b in auto)
  show a: "agree (- ({inode + 40 ..< inode + 88} \<union> {3072 ..< 3088} \<union> count_bytes)) d (drop_block inode i d)"
    by (rule agree_trans[OF agree_subset[OF a1] agree_trans[OF agree_subset[OF a2] agree_subset[OF a3]]]) auto
  have "geo_bytes \<subseteq> - {inode + 40 ..< inode + 88}" using assms(2,3) by (auto simp: geo_bytes_def)
  from geometry_agree[OF agree_subset[OF a1 this]] have "geometry ?d2" using assms(1) by simp
  then show "geometry (drop_block inode i d)"
    using geometry_mark(1)[of ?d2 ?b] b by (simp add: drop_block_def)
  have "agree {inode ..< inode + 128} ?d1 (drop_block inode i d)"
    by (rule agree_trans[OF agree_subset[OF a2] agree_subset[OF a3]]) (use assms(2,3) in \<open>auto simp: count_bytes_def\<close>)
  note bn = bnum_agree[OF this subset_refl]
  show "bnum (drop_block inode i d) inode j = (if j = i then 0 else bnum d inode j)" if "j \<le> 12"
    using bn[OF that] bnum_put_bnum[of inode i 0 d j] assms(5) by simp
  have mb: "map_bytes \<subseteq> - {inode + 40 ..< inode + 88}" using assms(2,3) by (auto simp: map_bytes_def)
  note ua = used_agree[OF a1 mb]
  show "block_used (drop_block inode i d) c = (block_used d c \<and> c \<noteq> ?b)" if "0 < c" "c < 129"
    using used_mark(1)[of ?b c False ?d2] b(1) that ua(1)[OF that(2)] by (auto simp: drop_block_def)
  show "inode_used (drop_block inode i d) c = inode_used d c" if "0 < c" "c < 33"
  proof -
    have "4096 + (c - 1) div 8 < 4100" using that by (simp add: less_mult_imp_div_less)
    moreover have "agree {4096 ..< 4100} d (drop_block inode i d)"
      by (rule agree_subset[OF a]) (use assms(2) in \<open>auto simp: count_bytes_def\<close>)
    ultimately have "drop_block inode i d (4096 + (c - 1) div 8) = d (4096 + (c - 1) div 8)"
      unfolding agree_def by (metis atLeastLessThan_iff le_add1)
    then show ?thesis by (simp add: inode_used_def bit_at_def)
  qed
  have l: "load_le 4 (drop_block inode i d) x = load_le 4 ?d2 x" "load_le 4 ?d1 x = load_le 4 d x"
    if "x + 4 \<le> 3072" for x
    by (rule agree_load[OF a3]; use that assms(2) in auto) (rule agree_load[OF a1]; use that assms(2) in auto)
  show "free_inodes (drop_block inode i d) = free_inodes d"
    using l[of 1040] bump_free(2)[of 1 ?d1] by (simp add: free_inodes_def)
  have "free_blocks ?d1 = free_blocks d" using l(2)[of 1036] by (simp add: free_blocks_def)
  then have "free_blocks ?d2 = free_blocks d + 1"
    using bump_free(1)[of 1 ?d1] free by (simp add: nat_add_distrib)
  then show "free_blocks (drop_block inode i d) = free_blocks d + 1"
    using l(1)[of 1036] by (simp add: free_blocks_def)
qed

section \<open>Names without one\<close>

lemma drop_name_append:
  "name \<notin> fst ` set xs \<Longrightarrow> drop_name name (xs @ ys) = xs @ drop_name name ys"
proof -
  assume "name \<notin> fst ` set xs"
  then have "\<And>x. x \<in> set xs \<Longrightarrow> fst x \<noteq> name" by (metis imageI)
  then show ?thesis by (simp add: drop_name_def)
qed

lemma first_name:
  "name \<in> fst ` set xs \<Longrightarrow> \<exists>as x bs. xs = as @ x # bs \<and> fst x = name \<and> name \<notin> fst ` set as"
proof (induction xs)
  case (Cons y ys)
  show ?case
  proof (cases "fst y = name")
    case True
    then show ?thesis by (intro exI[of _ "[]"]) simp
  next
    case False
    with Cons obtain as x bs where "ys = as @ x # bs" "fst x = name" "name \<notin> fst ` set as" by auto
    then show ?thesis using False by (intro exI[of _ "y # as"]) auto
  qed
qed simp

lemma drop_name_append_in:
  "name \<in> fst ` set xs \<Longrightarrow> drop_name name (xs @ ys) = drop_name name xs @ ys"
proof -
  assume "name \<in> fst ` set xs"
  from first_name[OF this] obtain as x bs where s: "xs = as @ x # bs" "fst x = name" "name \<notin> fst ` set as"
    by blast
  then show ?thesis
    using drop_name_split[OF s(2), of as "bs @ ys"] drop_name_split[OF s(2), of as bs] s(1) by simp
qed

lemma drop_name_distinct:
  assumes "distinct (map fst xs)"
  shows "map_of (drop_name name xs) = (map_of xs)(name := None)" "distinct (map fst (drop_name name xs))"
    "set (drop_name name xs) = {x \<in> set xs. fst x \<noteq> name}"
proof -
  have "map_of (drop_name name xs) = (map_of xs)(name := None) \<and> distinct (map fst (drop_name name xs)) \<and>
    set (drop_name name xs) = {x \<in> set xs. fst x \<noteq> name}"
  proof (cases "name \<in> fst ` set xs")
    case True
    from first_name[OF this] obtain as x bs where s: "xs = as @ x # bs" "fst x = name"
      and as: "name \<notin> fst ` set as" by blast
    have bs: "name \<notin> fst ` set bs" using assms s(1,2) by auto
    have "map_of bs name = None" "map_of as name = None" using as bs by (simp_all add: map_of_eq_None_iff)
    then have "map_of (as @ bs) = (map_of xs)(name := None)"
      using s(1,2) by (cases x) (auto simp: fun_eq_iff map_add_def split: option.splits)
    moreover have "\<And>z. z \<in> set as \<union> set bs \<Longrightarrow> fst z \<noteq> name" using as bs by (metis UnE imageI)
    then have "set (as @ bs) = {x \<in> set xs. fst x \<noteq> name}" using s by auto
    ultimately show ?thesis using drop_name_split[OF s(2) as, of bs] s(1) assms by auto
  next
    case False
    then have "drop_name name xs = xs" using drop_name_append[of name xs "[]"] by (simp add: drop_name_def)
    moreover have "map_of xs name = None" using False by (simp add: map_of_eq_None_iff)
    ultimately show ?thesis using False assms by (auto simp: image_iff fun_upd_idem)
  qed
  then show "map_of (drop_name name xs) = (map_of xs)(name := None)" "distinct (map fst (drop_name name xs))"
    "set (drop_name name xs) = {x \<in> set xs. fst x \<noteq> name}" by auto
qed

section \<open>The loop over the blocks\<close>

lemma delete_loop_found:
  assumes "direct d inode" "\<forall>b \<in> set (blocks_at d inode is). b < 128 \<and> good_block d b"
    and "find_in d name (blocks_at d inode is) = Some (q, e)"
  shows "\<exists>i b. i < 12 \<and> b = bnum d inode i \<and> b \<noteq> 0 \<and> b \<in> set (blocks_at d inode is) \<and>
     locate None (\<lambda>e. ename d e = name) (entries d b) = Some (q, e) \<and>
     delete_loop is d inode name =
       bind_f (unlink_pair d (q, e)) (\<lambda>d.
       bind_f (is_entry_block_empty d (1024 * b)) (\<lambda>empty.
       if empty then bind_f (set_inode_block_number d inode i 0) (\<lambda>d. free_block d b) else Ret d))"
  using assms
proof (induction "is")
  case Nil
  then show ?case by (simp add: blocks_at_def)
next
  case (Cons i "is")
  show ?case
  proof (cases "i < 12 \<and> bnum d inode i \<noteq> 0")
    case False
    then have "delete_loop (i # is) d inode name = delete_loop is d inode name"
      "blocks_at d inode (i # is) = blocks_at d inode is"
      using Cons.prems(1) by (auto simp: get_block_number_ok blocks_at_Cons)
    then show ?thesis using Cons by simp
  next
    case True
    let ?b = "bnum d inode i"
    have b: "?b < 128" "good_block d ?b" and bs: "blocks_at d inode (i # is) = ?b # blocks_at d inode is"
      using True Cons.prems(2) by (auto simp: blocks_at_Cons)
    have m: "block_matching_pair d (1024 * ?b) name = Ret (locate None (\<lambda>e. ename d e = name) (entries d ?b))"
      using b(2) by (intro block_matching_pair_ok) (simp add: good_block_def)
    show ?thesis
    proof (cases "locate None (\<lambda>e. ename d e = name) (entries d ?b)")
      case None
      then have "delete_loop (i # is) d inode name = delete_loop is d inode name"
        using True b(1) Cons.prems(1) m by (simp add: get_block_number_ok block_address)
      moreover have "find_in d name (blocks_at d inode is) = Some (q, e)"
        using Cons.prems(3) None bs by simp
      ultimately show ?thesis using Cons.IH[OF Cons.prems(1)] Cons.prems(2) bs by auto
    next
      case (Some p)
      then have "p = (q, e)" using Cons.prems(3) bs by simp
      then show ?thesis
        using True b(1) Cons.prems(1) m Some bs
        by (intro exI[of _ i] exI[of _ ?b]) (simp add: get_block_number_ok block_address)
    qed
  qed
qed

section \<open>One name less\<close>

definition shrinks :: "bytes \<Rightarrow> nat set \<Rightarrow> nat \<Rightarrow> string \<Rightarrow> bytes \<Rightarrow> bool" where
  "shrinks d D n name d' \<longleftrightarrow> fs_ok d' D \<and>
     (\<forall>k \<in> D. dir_map d' k = ((dir_map d)(n := (dir_map d n)(name := None))) k) \<and>
     dir_list d' n = drop_name name (dir_list d n) \<and>
     (\<forall>k. live d' k = live d k) \<and> (\<forall>k. live d k \<and> k \<noteq> n \<longrightarrow> agree (dir_bytes d k) d d') \<and>
     agree ({5120 ..< 9216} - {inode_at n + 40 ..< inode_at n + 88}) d d'"

lemma drop_name_concat:
  assumes "distinct (map fst (concat (map f xs) @ f b @ concat (map f ys)))" "name \<in> fst ` set (f b)"
    and "\<forall>c \<in> set xs \<union> set ys. g c = f c" "concat (map g bs) = drop_name name (f b)"
  shows "concat (map g (xs @ bs @ ys)) = drop_name name (concat (map f xs) @ f b @ concat (map f ys))"
proof -
  have "name \<notin> fst ` set (concat (map f xs))"
    using assms(1,2) by (simp only: map_append distinct_append set_append set_map) blast
  moreover have "map g xs = map f xs" "map g ys = map f ys" using assms(3) by auto
  ultimately show ?thesis
    using assms(2,4) by (simp add: drop_name_append drop_name_append_in del: map_eq_conv)
qed

lemma shrink_core:
  assumes fs: "fs_ok d D" and n: "n \<in> D" and al: "alloc_ok d'" and dr: "direct d' (inode_at n)"
    and frame: "agree (- (block_bytes b \<union> {inode_at n + 40 ..< inode_at n + 88} \<union> {3072 ..< 3088} \<union> count_bytes)) d d'"
    and blocks: "dir_blocks d n = xs @ b # ys" "dir_blocks d' n = xs @ bs @ ys" "bs = [b] \<or> bs = []"
    and used: "\<forall>c. 0 < c \<and> c < 129 \<longrightarrow> block_used d' c = (block_used d c \<and> (bs = [] \<longrightarrow> c \<noteq> b))"
      "\<forall>c. 0 < c \<and> c < 33 \<longrightarrow> inode_used d' c = inode_used d c"
    and good: "bs = [b] \<Longrightarrow> good_block d' b"
    and list: "concat (map (\<lambda>c. block_list d' (entries d' c)) bs) = drop_name name (block_list d (entries d b))"
      "name \<in> fst ` set (block_list d (entries d b))"
  shows "shrinks d D n name d'"
proof -
  note f = fs_okD[OF fs]
  have ln: "live d n" using f(6)[OF n] .
  have lv: "live d' k = live d k" for k using used(2) by (auto simp: live_def)
  have ob: "9 \<le> c" "c < 128" "block_used d c" if "c \<in> set (dir_blocks d n)" for c
    using f(10)[OF ln] that by (auto simp: owns_def)
  have b9: "9 \<le> b" using ob(1)[of b] blocks(1) by simp
  have at: "5120 \<le> inode_at n" "inode_at n + 128 \<le> 9216" using inode_at_bounds[of n] ln by (auto simp: live_def)
  have fr: "agree (dir_bytes d k) d d'" if k: "live d k" "k \<noteq> n" for k
  proof (rule agree_subset[OF frame])
    have "b \<notin> set (dir_blocks d k)" using one_owner[OF fs ln k(1)] k(2) blocks(1) by auto
    from dir_bytes_block[OF k(1) b9 this]
    show "dir_bytes d k \<subseteq> - (block_bytes b \<union> {inode_at n + 40 ..< inode_at n + 88} \<union> {3072 ..< 3088} \<union> count_bytes)"
      using dir_bytes_inode[OF fs k] ln dir_bytes_above[OF fs k(1)]
      by (auto simp: live_def inode_bytes_def count_bytes_def)
  qed
  let ?f = "\<lambda>d c. block_list d (entries d c)"
  have other: "good_block d' c \<and> ?f d' c = ?f d c" if c: "c \<in> set xs \<union> set ys" for c
  proof -
    have cd: "c \<in> set (dir_blocks d n)" "c \<noteq> b" using c blocks(1) f(10)[OF ln] by (auto simp: owns_def)
    have ag: "agree (block_bytes c) d d'"
      by (rule agree_subset[OF frame])
        (use block_bytes_disjoint[OF cd(2)] ob(1)[OF cd(1)] at in \<open>auto simp: block_bytes_def count_bytes_def\<close>)
    have "good_block d c" using f(8)[OF n] cd(1) by (auto simp: dir_ok_def)
    from good_block_agree[OF ag this] show ?thesis by simp
  qed
  have dl: "dir_list d n = concat (map (?f d) xs) @ ?f d b @ concat (map (?f d) ys)"
    by (simp add: dir_list_def blocks(1))
  have "dir_list d' n = concat (map (?f d') (xs @ bs @ ys))" by (simp add: dir_list_def blocks(2))
  also have "\<dots> = drop_name name (dir_list d n)"
  proof -
    have "distinct (map fst (concat (map (?f d) xs) @ ?f d b @ concat (map (?f d) ys)))"
      using f(9)[OF n] unfolding dl .
    moreover have "\<forall>c \<in> set xs \<union> set ys. ?f d' c = ?f d c" using other by blast
    ultimately show ?thesis unfolding dl using drop_name_concat[of "?f d" xs b ys name "?f d'" bs] list by blast
  qed
  finally have dn: "dir_list d' n = drop_name name (dir_list d n)" .
  note dd = drop_name_distinct[OF f(9)[OF n], of name, folded dn]
  have sub: "set (dir_blocks d' n) \<subseteq> set (dir_blocks d n)" using blocks by auto
  have own: "owns d' n"
  proof -
    have "distinct (dir_blocks d' n)" using blocks f(10)[OF ln] by (auto simp: owns_def)
    moreover have "block_used d' c" if c: "c \<in> set (dir_blocks d' n)" for c
    proof -
      have "c \<in> set (dir_blocks d n)" using sub c by blast
      moreover have "bs = [] \<longrightarrow> c \<noteq> b" using blocks c f(10)[OF ln] by (auto simp: owns_def)
      ultimately show ?thesis using ob[of c] used(1) by auto
    qed
    ultimately show ?thesis using ob sub by (auto simp: owns_def)
  qed
  have "dir_ok d' n"
    using ln dr own ob sub other good blocks by (auto simp: dir_ok_def owns_def live_def)
  moreover have "names_live d' n" using f(7)[OF n] lv by (auto simp: names_live_def dd(3))
  moreover have "\<forall>(x, m, t) \<in> set (dir_list d' n). t = EXT2_FT_DIR \<longrightarrow> m \<in> D"
    using f(1) n by (fastforce simp: dd(3) tree_ok_def)
  ultimately have nm: "names_ok d' D n" using dd(2) by (simp add: names_ok_def)
  have h: "\<forall>k. live d k \<and> k \<noteq> n \<longrightarrow> agree (dir_bytes d k) d d' \<and> live d' k"
    "\<forall>k. live d' k \<and> k \<noteq> n \<longrightarrow> live d k"
    "\<forall>c. 9 \<le> c \<and> c < 128 \<and> block_used d c \<longrightarrow> live d n \<and> c \<in> set (dir_blocks d n) \<or> block_used d' c"
    "live d' n \<longrightarrow> owns d' n \<and>
      (\<forall>b \<in> set (dir_blocks d' n). live d n \<and> b \<in> set (dir_blocks d n) \<or> \<not> block_used d b)"
    "D \<subseteq> D" "D \<subseteq> insert n D" "n \<in> D \<longrightarrow> live d' n \<and> names_ok d' D n"
    "live d' n \<or> (\<forall>k \<in> D. k \<noteq> n \<longrightarrow> n \<notin> (fst \<circ> snd) ` set (dir_list d k))"
    using fr lv own sub nm ln used(1) blocks(1) by (auto 0 3)
  note st = fs_step[OF fs al h]
  have "dir_map d' k = ((dir_map d)(n := (dir_map d n)(name := None))) k" if "k \<in> D" for k
    using st(3)[OF that] dd(1) by (simp add: dir_map_def)
  moreover have "agree ({5120 ..< 9216} - {inode_at n + 40 ..< inode_at n + 88}) d d'"
    by (rule agree_subset[OF frame]) (use b9 in \<open>auto simp: block_bytes_def count_bytes_def\<close>)
  ultimately show ?thesis using st(1) dn lv fr by (simp add: shrinks_def)
qed

lemma free_from_freed:
  assumes "B \<subseteq> {23 ..< 128}" "\<forall>b \<in> B. block_used d b"
    and "\<forall>c. 0 < c \<and> c < 129 \<longrightarrow> block_used d' c = (block_used d c \<and> c \<notin> B)"
  shows "length (free_from d' 23) = length (free_from d 23) + card B"
proof -
  have fin: "finite B" using assms(1) finite_subset by blast
  have ds: "distinct (free_from e k)" for e k
    unfolding free_from_def by (rule distinct_filter[OF distinct_upt])
  have "set (free_from d' 23) = set (free_from d 23) \<union> B"
  proof (rule set_eqI)
    show "c \<in> set (free_from d' 23) \<longleftrightarrow> c \<in> set (free_from d 23) \<union> B" for c
      using assms by (auto simp: free_from_mem)
  qed
  moreover have "set (free_from d 23) \<inter> B = {}" using assms(2) by (auto simp: free_from_mem)
  ultimately have "card (set (free_from d' 23)) = card (set (free_from d 23)) + card B"
    using fin by (simp add: card_Un_disjoint)
  then show ?thesis by (simp only: distinct_card[OF ds])
qed

lemma alloc_ok_freed:
  assumes al: "alloc_ok d" and B: "B \<subseteq> {23 ..< 128}" "\<forall>b \<in> B. block_used d b"
    and used: "\<forall>c. 0 < c \<and> c < 129 \<longrightarrow> block_used d' c = (block_used d c \<and> c \<notin> B)"
      "\<forall>c. 0 < c \<and> c < 33 \<longrightarrow> inode_used d' c = inode_used d c"
    and d': "geometry d'" "free_blocks d' = free_blocks d + card B" "free_inodes d' = free_inodes d"
    and frame: "agree ({5120 ..< 9216} - inode_bytes n) d d'" and n: "live d n"
  shows "alloc_ok d'"
proof -
  have "free_inodes_from d' 12 = free_inodes_from d 12"
    by (rule free_inodes_from_cong) (simp add: used(2))
  moreover have "direct d' (inode_at m)" if m: "12 \<le> m" "m \<le> 32" "\<not> inode_used d' m" for m
  proof -
    have "\<not> inode_used d m" using used(2) m by simp
    then have "m \<noteq> n" using n by (auto simp: live_def)
    then have "inode_bytes m \<inter> inode_bytes n = {}" using inode_bytes_disjoint[of m n] m n by (simp add: live_def)
    then have "agree {inode_at m ..< inode_at m + 128} d d'"
      using inode_at_bounds[of m] m by (intro agree_subset[OF frame]) (auto simp: inode_bytes_def)
    from direct_agree[OF this subset_refl] show ?thesis
      using al m \<open>\<not> inode_used d m\<close> by (simp add: alloc_ok_def)
  qed
  ultimately show ?thesis
    using al d' free_from_freed[OF B used(1)] by (simp add: alloc_ok_def)
qed

lemma free_blocks_small: "alloc_ok d \<Longrightarrow> free_blocks d \<le> 105"
proof -
  assume "alloc_ok d"
  then have "free_blocks d \<le> length (free_from d 23)" by (simp add: alloc_ok_def)
  also have "\<dots> \<le> length [23 ..< 128]" unfolding free_from_def by (rule length_filter_le)
  finally show ?thesis by (simp only: length_upt)
qed

lemma located_above:
  assumes "fs_ok d D" "located d D e"
  shows "9216 \<le> e"
proof -
  from assms(2) obtain k b where k: "k \<in> D" "b \<in> set (dir_blocks d k)" "e \<in> set (entries d b)"
    by (auto simp: located_def)
  then have "9 \<le> b" "chain d (1024 * b) (entries d b) (1024 * b + 1024)"
    using fs_okD(8)[OF assms(1) k(1)] by (auto simp: dir_ok_def good_block_def entry_block_def)
  then show ?thesis using chain_mem[of d "1024 * b" "entries d b" "1024 * b + 1024" e] k(3) by auto
qed

lemma fs_delete:
  assumes fs: "fs_ok d D" and n: "n \<in> D" and find: "find_in d name (dir_blocks d n) = Some (q, e)" and name: "name \<noteq> []"
    and early: "\<forall>b \<in> set (dir_blocks d n). b < 23 \<longrightarrow> (\<exists>x \<in> set (block_list d (entries d b)). fst x \<noteq> name)"
  shows "\<exists>d'. delete_loop [0..<INODE_BLOCK_LIMIT] d (inode_at n) name = Ret d' \<and> shrinks d D n name d' \<and>
     (\<forall>x. located d D x \<longrightarrow> einode d' x = einode d x)"
proof -
  note f = fs_okD[OF fs]
  have ln: "live d n" using f(6)[OF n] .
  have dr: "direct d (inode_at n)" using f(8)[OF n] by (simp add: dir_ok_def)
  have at: "5120 \<le> inode_at n" "inode_at n + 128 \<le> 9216" using inode_at_bounds[of n] ln by (auto simp: live_def)
  have "\<forall>b \<in> set (dir_blocks d n). b < 128 \<and> good_block d b" using f(8)[OF n] by (simp add: dir_ok_def)
  then obtain i b where i: "i < 12" "b = bnum d (inode_at n) i" "b \<noteq> 0" "b \<in> set (dir_blocks d n)"
    "locate None (\<lambda>e. ename d e = name) (entries d b) = Some (q, e)"
    "delete_loop [0..<INODE_BLOCK_LIMIT] d (inode_at n) name =
       bind_f (unlink_pair d (q, e)) (\<lambda>d.
       bind_f (is_entry_block_empty d (1024 * b)) (\<lambda>empty.
       if empty then bind_f (set_inode_block_number d (inode_at n) i 0) (\<lambda>d. free_block d b) else Ret d))"
    using delete_loop_found[OF dr, of "[0..<INODE_BLOCK_LIMIT]" name q e] find
    unfolding blocks_at_all dir_blocks_def[symmetric] by blast
  have b: "9 \<le> b" "b < 128" "good_block d b" "block_used d b"
    using f(8)[OF n] f(10)[OF ln] i(4) by (auto simp: dir_ok_def owns_def)
  then have eb: "entry_block d (1024 * b) (entries d b)" and rm: "roomy d (entries d b)"
    by (simp_all add: good_block_def)
  obtain d1 es where u: "unlink_pair d (q, e) = Ret d1" "agree (- {1024 * b ..< 1024 * b + 1024}) d d1"
    "entry_block d1 (1024 * b) es" "block_list d1 es = drop_name name (block_list d (entries d b))"
    "roomy d1 es" "\<forall>x \<in> set (entries d b). einode d1 x = einode d x"
    using unlink_pair_ok[OF eb i(5) name] rm by metis
  have es: "entries d1 b = es" "good_block d1 b" using entries_block[OF u(3)] good_blockI[OF u(3,5)] by auto
  have a1: "agree (- block_bytes b) d d1" using u(2) by (simp add: block_bytes_def)
  have ai: "agree {inode_at n ..< inode_at n + 128} d d1"
    by (rule agree_subset[OF a1]) (use at b in \<open>auto simp: block_bytes_def\<close>)
  have bn1: "bnum d1 (inode_at n) j = bnum d (inode_at n) j" if "j \<le> 12" for j
    using bnum_agree[OF ai subset_refl that] .
  have dr1: "direct d1 (inode_at n)" using direct_agree[OF ai subset_refl] dr by simp
  have mb: "map_bytes \<subseteq> - block_bytes b" using b by (auto simp: map_bytes_def block_bytes_def)
  note ua = used_agree[OF a1 mb]
  have am: "agree ({1036 ..< 1044} \<union> geo_bytes \<union> map_bytes \<union> {5120 ..< 9216}) d d1"
    by (rule agree_subset[OF a1]) (use b in \<open>auto simp: geo_bytes_def map_bytes_def block_bytes_def\<close>)
  have al1: "alloc_ok d1" by (rule alloc_ok_same[OF f(2) am])
  have cnt: "free_blocks d1 = free_blocks d" "free_inodes d1 = free_inodes d"
    unfolding free_blocks_def free_inodes_def by (rule agree_load[OF am], auto)+
  have nl: "name \<in> fst ` set (block_list d (entries d b))"
  proof -
    from locate_SomeD[OF i(5)] have "e \<in> set (entries d b)" "ename d e = name" by auto
    moreover have "0 < nlen d e" using calculation(2) name length_ename[of d e] by (cases "nlen d e") auto
    ultimately show ?thesis by (force simp: block_list_def)
  qed
  let ?g = "\<lambda>d is. filter (\<lambda>b. b \<noteq> 0) (map (bnum d (inode_at n)) is)"
  define xs ys where "xs = ?g d [0..<i]" and "ys = ?g d [Suc i..<12]"
  have sp: "[0..<12] = [0..<i] @ i # [Suc i..<12]" by (rule upt_split[OF i(1)])
  have xy: "dir_blocks d n = xs @ b # ys"
    using i(2,3) unfolding dir_blocks_def inode_blocks_def sp xs_def ys_def by auto
  have e1: "einode d1 x = einode d x" if l: "located d D x" for x
  proof -
    from l obtain k c where c: "k \<in> D" "c \<in> set (dir_blocks d k)" "x \<in> set (entries d c)"
      by (auto simp: located_def)
    show ?thesis
    proof (cases "c = b")
      case True
      then show ?thesis using u(6) c(3) by simp
    next
      case False
      have "agree (block_bytes c) d d1"
        by (rule agree_subset[OF a1]) (use block_bytes_disjoint[OF False] in auto)
      moreover have "good_block d c" using f(8)[OF c(1)] c(2) by (simp add: dir_ok_def)
      ultimately have "entry_at d1 x = entry_at d x" using good_block_agree(4) c(3) by blast
      then show ?thesis by (simp add: entry_at_def)
    qed
  qed
  have emp: "is_entry_block_empty d1 (1024 * b) = Ret (block_list d1 es = [])"
    by (rule is_entry_block_empty_ok[OF u(3)])
  show ?thesis
  proof (cases "block_list d1 es = []")
    case False
    have "shrinks d D n name d1"
    proof (rule shrink_core[OF fs n al1 dr1 _ xy, where bs = "[b]"])
      show "agree (- (block_bytes b \<union> {inode_at n + 40..<inode_at n + 88} \<union> {3072..<3088} \<union> count_bytes)) d d1"
        by (rule agree_subset[OF a1]) auto
      show "dir_blocks d1 n = xs @ [b] @ ys"
        using inode_blocks_agree[OF ai subset_refl] xy by (simp add: dir_blocks_def)
    qed (use ua es u(4) nl in auto)
    then show ?thesis using i(6) u(1) e1 emp False by auto
  next
    case True
    let ?d2 = "drop_block (inode_at n) i d1"
    have bi: "bnum d1 (inode_at n) i = b" using bn1 i(1,2) by simp
    have g1: "geometry d1" using al1 by (simp add: alloc_ok_def)
    have fb: "free_blocks d1 < 2 ^ 32 - 1" using free_blocks_small[OF al1] by simp
    note db = drop_block_ok[OF g1 at dr1 i(1), unfolded bi, OF _ b(2) fb]
    have b0: "0 < b" using b by simp
    have b23: "23 \<le> b"
    proof (rule ccontr)
      assume "\<not> 23 \<le> b"
      then obtain x where "x \<in> set (block_list d (entries d b))" "fst x \<noteq> name" using early i(4) by auto
      moreover have "distinct (map fst (block_list d (entries d b)))"
        using f(9)[OF n] xy by (auto simp: dir_list_def)
      ultimately have "x \<in> set (block_list d1 es)" using drop_name_distinct(3) u(4) by auto
      with True show False by simp
    qed
    have st: "delete_loop [0..<INODE_BLOCK_LIMIT] d (inode_at n) name = Ret ?d2"
    proof -
      have "geo_bytes \<inter> {inode_at n + 40 ..< inode_at n + 88} = {}" using at by (auto simp: geo_bytes_def)
      from geometry_agree[OF agree_put_bnum[OF this]] g1 have "geometry (put_bnum (inode_at n) i 0 d1)" by blast
      from free_block_ok[OF this b0] show ?thesis
        using i(6) u(1) emp True dr1 b bi by (simp add: set_block_number_ok drop_block_def)
    qed
    have a2: "agree (- (block_bytes b \<union> {inode_at n + 40..<inode_at n + 88} \<union> {3072..<3088} \<union> count_bytes)) d ?d2"
      by (rule agree_trans[OF agree_subset[OF a1] agree_subset[OF db(2)[OF b0]]]) auto
    have used2: "\<forall>c. 0 < c \<and> c < 129 \<longrightarrow> block_used ?d2 c = (block_used d c \<and> c \<noteq> b)"
      "\<forall>c. 0 < c \<and> c < 33 \<longrightarrow> inode_used ?d2 c = inode_used d c"
      using db(4,5)[OF b0] ua by auto
    have "direct ?d2 (inode_at n)" using db(3)[OF b0, of 12] dr1 i(1) by (simp add: direct_def)
    moreover have "alloc_ok ?d2"
    proof (rule alloc_ok_freed[OF f(2), of "{b}"])
      show "free_blocks ?d2 = free_blocks d + card {b}" "free_inodes ?d2 = free_inodes d"
        using db(6,7)[OF b0] cnt by simp_all
      show "agree ({5120 ..< 9216} - inode_bytes n) d ?d2"
        by (rule agree_subset[OF a2]) (use b in \<open>auto simp: block_bytes_def count_bytes_def inode_bytes_def\<close>)
    qed (use b b23 used2 db(1)[OF b0] ln in auto)
    moreover have "dir_blocks ?d2 n = xs @ ys"
    proof -
      have eq: "?g ?d2 is = ?g d is" if "set is \<subseteq> {..< 12} - {i}" for "is"
      proof -
        have "bnum ?d2 (inode_at n) j = bnum d (inode_at n) j" if j: "j \<in> set is" for j
        proof -
          from j \<open>set is \<subseteq> {..< 12} - {i}\<close> have "j < 12" "j \<noteq> i" by auto
          then show ?thesis using db(3)[OF b0, of j] bn1[of j] by simp
        qed
        then have "map (bnum ?d2 (inode_at n)) is = map (bnum d (inode_at n)) is" by simp
        then show ?thesis by (simp only:)
      qed
      have e1: "?g ?d2 [0..<i] = ?g d [0..<i]" and e2: "?g ?d2 [Suc i..<12] = ?g d [Suc i..<12]"
        using i(1) by (intro eq; auto)+
      have "bnum ?d2 (inode_at n) i = 0" using db(3)[OF b0, of i] i(1) by simp
      then show ?thesis
        using e1 e2 unfolding dir_blocks_def inode_blocks_def sp xs_def ys_def by auto
    qed
    ultimately have "shrinks d D n name ?d2"
      using shrink_core[OF fs n _ _ a2 xy, where bs = "[]"] used2 True u(4) nl by auto
    moreover have "einode ?d2 x = einode d1 x" if "located d D x" for x
    proof -
      have "{x ..< x + 4} \<subseteq> {9216 ..}" using located_above[OF fs that] by auto
      also have "\<dots> \<subseteq> - ({inode_at n + 40..<inode_at n + 88} \<union> {3072..<3088} \<union> count_bytes)"
        using at by (auto simp: count_bytes_def)
      finally have "load_le 4 ?d2 x = load_le 4 d1 x" by (rule agree_load[OF db(2)[OF b0]])
      then show ?thesis by (simp add: einode_def e_inode_def del: load_le.simps)
    qed
    ultimately show ?thesis using st e1 by auto
  qed
qed

end
