(* ===== verification/Ext2_Free.thy ===== *)
theory Ext2_Free
  imports Ext2_Remove
begin

text \<open>
  \<open>free_inode\<close> on a consistent image: the inode number and all its
  blocks are free again, the counters say so, and every other file and directory is unchanged.
\<close>

section \<open>Freeing an inode\<close>

lemma distinct_indices:
  "distinct (filter (\<lambda>b. b \<noteq> (0 :: nat)) (map f is)) \<Longrightarrow> distinct is \<Longrightarrow>
     \<forall>i \<in> set is. \<forall>j \<in> set is. f i = f j \<longrightarrow> f i = 0 \<or> i = j"
proof (induction "is")
  case (Cons k "is")
  have "distinct (filter (\<lambda>b. b \<noteq> 0) (map f is))" "f k \<noteq> 0 \<Longrightarrow> f k \<notin> f ` set is"
    using Cons.prems(1) by (auto split: if_splits)
  then have "\<forall>j \<in> set is. f k = f j \<longrightarrow> f k = 0" "distinct is" using Cons.prems(2) by (metis imageI, simp)
  then show ?case
    using Cons.IH[OF \<open>distinct (filter (\<lambda>b. b \<noteq> 0) (map f is))\<close>] by (metis set_ConsD)
qed simp

lemma rev_indices: "filter (\<lambda>i. i < 12) (rev [0..<INODE_BLOCK_LIMIT]) = rev [0..<12]"
proof -
  have "filter (\<lambda>i. i < 12) [0..<12 :: nat] = [0..<12]" "filter (\<lambda>i. i < 12) [12..<268 :: nat] = []"
    by (auto simp: filter_empty_conv intro: filter_True simp del: upt_rec_numeral)
  then have "filter (\<lambda>i. i < 12) [0..<INODE_BLOCK_LIMIT] = [0..<12]"
    by (simp add: index_split del: upt_rec_numeral)
  then show ?thesis by (simp only: rev_filter[symmetric])
qed

lemma fold_release_inodes:
  "geometry d \<Longrightarrow> sound_inode d inode \<Longrightarrow> set is \<subseteq> {..< 12} \<Longrightarrow>
     free_inodes (fold (release inode) is d) = free_inodes d"
proof (induction "is" arbitrary: d)
  case (Cons i "is")
  have bounds: "5120 \<le> inode" "inode + 128 \<le> 9216" "bnum d inode i < 128"
    using Cons.prems by (auto simp: sound_inode_def)
  let ?d1 = "bump_blocks 1 d" and ?d2 = "mark_block (bnum d inode i) False (bump_blocks 1 d)"
  have "agree {1040 ..< 1044} ?d1 (put_bnum inode i 0 ?d2)"
    by (rule agree_trans[OF agree_mark_block agree_put_bnum]) (use bounds in auto)
  then have "load_le 4 (put_bnum inode i 0 ?d2) 1040 = load_le 4 ?d1 1040"
    by (rule agree_load) auto
  then have "free_inodes (release inode i d) = free_inodes d"
    using bump_free(2)[of 1 d] by (simp add: release_def free_inodes_def)
  moreover have "i < 12" using Cons.prems by simp
  ultimately show ?case
    using Cons.IH[OF release_ok(1,2)[OF Cons.prems(1,2) \<open>i < 12\<close>]] Cons.prems(3) by simp
qed simp

text \<open>The image before the blocks are released.\<close>

definition unlinked :: "nat \<Rightarrow> nat \<Rightarrow> bytes \<Rightarrow> bytes" where
  "unlinked now n d =
     mark_inode n False (bump_inodes 1
       (store_le 4 0 (store_le 4 0 (store_le 4 now d (inode_at n + 20)) (inode_at n + 4)) (inode_at n + 28)))"

lemma free_inode_eq:
  assumes "geometry d" "0 < n" "n \<le> 32" "sound_inode (unlinked now n d) (inode_at n)" "geometry (unlinked now n d)"
  shows "free_inode now d n = Ret (fold (release (inode_at n)) (rev [0..<12]) (unlinked now n d))"
proof -
  let ?i = "inode_at n"
  have at: "5120 \<le> ?i" "?i + 128 \<le> 9216" using inode_at_bounds[OF assms(2,3)] by auto
  let ?d1 = "store_le 4 0 (store_le 4 0 (store_le 4 now d (?i + 20)) (?i + 4)) (?i + 28)"
  have a: "agree (- {?i ..< ?i + 32}) d ?d1"
    by (rule agree_trans[OF agree_trans[OF agree_store agree_store] agree_store]) auto
  have "geo_bytes \<subseteq> - {?i ..< ?i + 32}" using at by (auto simp: geo_bytes_def)
  from geometry_agree[OF agree_subset[OF a this]] have "geometry ?d1" using assms(1) by simp
  then have "set_inode_usage (bump_inodes 1 ?d1) n False = Ret (unlinked now n d)"
    using inode_usage_ok(2)[of "bump_inodes 1 ?d1" n False] assms(2,3) by (simp add: unlinked_def)
  moreover have "?i + 32 \<le> DISK_SIZE" using at by (simp add: DISK_SIZE_def)
  ultimately show ?thesis
    using free_blocks_loop_ok[OF assms(5,4), of "rev [0..<INODE_BLOCK_LIMIT]"] assms(1-3)
    by (simp add: free_inode_def get_inode_ok i_dtime_def i_size_def i_blocks_def bump_counts rev_indices
        del: upt_rec_numeral)
qed

lemma unlinked_ok:
  assumes "geometry d" "0 < n" "n \<le> 32" "free_inodes d < 2 ^ 32 - 1"
  shows "geometry (unlinked now n d)" "agree (- ({inode_at n ..< inode_at n + 32} \<union> {4096 ..< 4100} \<union> count_bytes)) d (unlinked now n d)"
    "0 < c \<Longrightarrow> c < 129 \<Longrightarrow> block_used (unlinked now n d) c = block_used d c"
    "0 < c \<Longrightarrow> c < 33 \<Longrightarrow> inode_used (unlinked now n d) c = (inode_used d c \<and> c \<noteq> n)"
    "free_blocks (unlinked now n d) = free_blocks d" "free_inodes (unlinked now n d) = free_inodes d + 1"
proof -
  let ?i = "inode_at n"
  have at: "5120 \<le> ?i" "?i + 128 \<le> 9216" using inode_at_bounds[OF assms(2,3)] by auto
  let ?d1 = "store_le 4 0 (store_le 4 0 (store_le 4 now d (?i + 20)) (?i + 4)) (?i + 28)"
  let ?d2 = "bump_inodes 1 ?d1"
  have a1: "agree (- {?i ..< ?i + 32}) d ?d1"
    by (rule agree_trans[OF agree_trans[OF agree_store agree_store] agree_store]) auto
  have a2: "agree (- count_bytes) ?d1 ?d2" by (rule agree_bump_counts) auto
  have a3: "agree (- {4096 ..< 4100}) ?d2 (unlinked now n d)"
    unfolding unlinked_def by (rule agree_mark_inode) (use assms in auto)
  show a: "agree (- ({?i ..< ?i + 32} \<union> {4096 ..< 4100} \<union> count_bytes)) d (unlinked now n d)"
    by (rule agree_trans[OF agree_subset[OF a1] agree_trans[OF agree_subset[OF a2] agree_subset[OF a3]]]) auto
  have "geo_bytes \<subseteq> - {?i ..< ?i + 32}" using at by (auto simp: geo_bytes_def)
  from geometry_agree[OF agree_subset[OF a1 this]] assms(1) have "geometry ?d2" by simp
  then show "geometry (unlinked now n d)"
    using geometry_mark(2)[of ?d2 n] assms(2,3) by (simp add: unlinked_def)
  have "map_bytes \<subseteq> - {?i ..< ?i + 32}" using at by (auto simp: map_bytes_def)
  note ua = used_agree[OF a1 this]
  show "inode_used (unlinked now n d) c = (inode_used d c \<and> c \<noteq> n)" if "0 < c" "c < 33"
    using used_mark(2)[of n c False ?d2] assms(2) that ua(2)[OF that(2)] by (auto simp: unlinked_def)
  show "block_used (unlinked now n d) c = block_used d c" if "0 < c" "c < 129"
  proof -
    have "3072 + (c - 1) div 8 < 3088" using that by (simp add: less_mult_imp_div_less)
    moreover have "agree {3072 ..< 3088} d (unlinked now n d)"
      by (rule agree_subset[OF a]) (use at in \<open>auto simp: count_bytes_def\<close>)
    ultimately have "unlinked now n d (3072 + (c - 1) div 8) = d (3072 + (c - 1) div 8)"
      unfolding agree_def by (metis atLeastLessThan_iff le_add1)
    then show ?thesis by (simp add: block_used_def bit_at_def)
  qed
  have l: "load_le 4 (unlinked now n d) x = load_le 4 ?d2 x" "load_le 4 ?d1 x = load_le 4 d x"
    if "x + 4 \<le> 4096" for x
    by (rule agree_load[OF a3]; use that in auto) (rule agree_load[OF a1]; use that at in auto)
  have e: "free_blocks ?d1 = free_blocks d" "free_inodes ?d1 = free_inodes d"
    using l(2)[of 1036] l(2)[of 1040] by (simp_all add: free_blocks_def free_inodes_def)
  then show "free_blocks (unlinked now n d) = free_blocks d"
    using l(1)[of 1036] bump_free(4)[of 1 ?d1] by (simp add: free_blocks_def)
  have "free_inodes ?d2 = free_inodes d + 1"
    using bump_free(3)[of 1 ?d1] assms(4) e(2) by (simp add: nat_add_distrib)
  then show "free_inodes (unlinked now n d) = free_inodes d + 1"
    using l(1)[of 1040] by (simp add: free_inodes_def)
qed

lemma free_inodes_freed:
  assumes "12 \<le> n" "n \<le> 32" "inode_used d n"
    and "\<forall>c. 0 < c \<and> c < 33 \<longrightarrow> inode_used d' c = (inode_used d c \<and> c \<noteq> n)"
  shows "length (free_inodes_from d' 12) = length (free_inodes_from d 12) + 1"
proof -
  have ds: "distinct (free_inodes_from e 12)" for e
    unfolding free_inodes_from_def by (rule distinct_filter[OF distinct_upt])
  have "set (free_inodes_from d' 12) = insert n (set (free_inodes_from d 12))"
  proof (rule set_eqI)
    show "c \<in> set (free_inodes_from d' 12) \<longleftrightarrow> c \<in> insert n (set (free_inodes_from d 12))" for c
      using assms by (auto simp: free_inodes_from_mem)
  qed
  moreover have "n \<notin> set (free_inodes_from d 12)" using assms(3) by (simp add: free_inodes_from_mem)
  ultimately have "card (set (free_inodes_from d' 12)) = card (set (free_inodes_from d 12)) + 1" by simp
  then show ?thesis by (simp only: distinct_card[OF ds])
qed

lemma free_inodes_small: "alloc_ok d \<Longrightarrow> free_inodes d \<le> 21"
proof -
  assume "alloc_ok d"
  then have "free_inodes d \<le> length (free_inodes_from d 12)" by (simp add: alloc_ok_def)
  also have "\<dots> \<le> length [12 ..< 33]" unfolding free_inodes_from_def by (rule length_filter_le)
  finally show ?thesis by (simp only: length_upt)
qed

text \<open>An inode that is not a directory, that no entry names and whose blocks are not reserved.\<close>

definition disposable :: "bytes \<Rightarrow> nat set \<Rightarrow> nat \<Rightarrow> bool" where
  "disposable d D m \<longleftrightarrow> live d m \<and> m \<notin> D \<and> 12 \<le> m \<and> direct d (inode_at m) \<and>
     (\<forall>b \<in> set (dir_blocks d m). 23 \<le> b) \<and> (\<forall>k \<in> D. m \<notin> (fst \<circ> snd) ` set (dir_list d k))"

definition freed :: "bytes \<Rightarrow> nat set \<Rightarrow> nat \<Rightarrow> bytes \<Rightarrow> bool" where
  "freed d D m d' \<longleftrightarrow> fs_ok d' D \<and> (\<forall>k \<in> D. dir_map d' k = dir_map d k) \<and>
     (\<forall>k. live d' k = (live d k \<and> k \<noteq> m)) \<and> (\<forall>k. live d k \<and> k \<noteq> m \<longrightarrow> agree (dir_bytes d k) d d') \<and>
     (\<forall>c. 0 < c \<and> c < 129 \<longrightarrow> block_used d' c = (block_used d c \<and> c \<notin> set (dir_blocks d m))) \<and>
     free_inodes d' = free_inodes d + 1 \<and> free_blocks d' = free_blocks d + length (dir_blocks d m)"

lemma fs_free_inode:
  assumes fs: "fs_ok d D" and m: "disposable d D m"
  shows "\<exists>d'. free_inode now d m = Ret d' \<and> freed d D m d'"
proof -
  note f = fs_okD[OF fs]
  let ?i = "inode_at m" and ?B = "set (dir_blocks d m)"
  from m have lm: "live d m" and mD: "m \<notin> D" and m12: "12 \<le> m" and dr: "direct d ?i" and b23: "\<forall>b \<in> ?B. 23 \<le> b"
    and none: "\<forall>k \<in> D. m \<notin> (fst \<circ> snd) ` set (dir_list d k)"
    by (auto simp: disposable_def)
  have m32: "0 < m" "m \<le> 32" "inode_used d m" using lm by (auto simp: live_def)
  have at: "5120 \<le> ?i" "?i + 128 \<le> 9216" using inode_at_bounds[OF m32(1,2)] by auto
  have ow: "distinct (dir_blocks d m)" "\<forall>b \<in> ?B. 9 \<le> b \<and> b < 128 \<and> block_used d b"
    using f(10)[OF lm] by (auto simp: owns_def)
  define d1 where "d1 = unlinked now m d"
  have "free_inodes d < 2 ^ 32 - 1" using free_inodes_small[OF f(2)] by simp
  note u = unlinked_ok[OF f(4) m32(1,2) this, where now = now, folded d1_def]
  have bn: "bnum d1 ?i i = bnum d ?i i" if "i \<le> 12" for i
    unfolding bnum_def by (rule agree_load[OF u(2)]) (use that at in \<open>auto simp: count_bytes_def\<close>)
  have db1: "filter (\<lambda>b. b \<noteq> 0) (map (bnum d1 ?i) [0..<12]) = dir_blocks d m"
  proof -
    have "map (bnum d1 ?i) [0..<12] = map (bnum d ?i) [0..<12]" using bn by (intro map_cong) auto
    then show ?thesis by (simp only: dir_blocks_def inode_blocks_def)
  qed
  have small: "bnum d ?i i < 128" if "i < 12" for i
  proof (cases "bnum d ?i i = 0")
    case False
    then have "bnum d ?i i \<in> ?B"
      using that unfolding dir_blocks_def inode_blocks_def set_filter set_map set_upt by auto
    then show ?thesis using ow(2) by blast
  qed simp
  have s1: "sound_inode d1 ?i"
    using at dr bn small by (simp add: sound_inode_def direct_def)
  let ?is = "rev [0..<12 :: nat]"
  have inj: "\<forall>i \<in> set ?is. \<forall>j \<in> set ?is. bnum d1 ?i i = bnum d1 ?i j \<longrightarrow> bnum d1 ?i i = 0 \<or> i = j"
    using distinct_indices[of "bnum d1 ?i" "[0..<12]", unfolded db1, OF ow(1) distinct_upt] unfolding set_rev .
  define d2 where "d2 = fold (release ?i) ?is d1"
  have is12: "set ?is \<subseteq> {..< 12}" "distinct ?is" unfolding set_rev distinct_rev by (auto intro: distinct_upt)
  note fr = fold_release[OF u(1) s1 is12 inj, folded d2_def]
  have st: "free_inode now d m = Ret d2"
    using free_inode_eq[OF f(4) m32(1,2) s1[unfolded d1_def]] u(1) by (simp only: d1_def d2_def)
  have bs: "set (filter (\<lambda>b. b \<noteq> 0) (map (bnum d1 ?i) ?is)) = ?B"
    "length (filter (\<lambda>b. b \<noteq> 0) (map (bnum d1 ?i) ?is)) = length (dir_blocks d m)"
    unfolding rev_map[symmetric] rev_filter[symmetric] db1 by (simp_all only: set_rev length_rev)
  have bu: "block_used d2 c = (block_used d c \<and> c \<notin> ?B)" if "0 < c" "c < 129" for c
    using fr(4)[OF that] u(3)[OF that] unfolding bs by simp
  have iu: "inode_used d2 c = (inode_used d c \<and> c \<noteq> m)" if "0 < c" "c < 33" for c
  proof -
    have "4096 + (c - 1) div 8 < 4100" using that by (simp add: less_mult_imp_div_less)
    moreover have "agree {4096 ..< 4100} d1 d2"
      by (rule agree_subset[OF fr(3)]) (use at in \<open>auto simp: count_bytes_def\<close>)
    ultimately have "d2 (4096 + (c - 1) div 8) = d1 (4096 + (c - 1) div 8)"
      unfolding agree_def by (metis atLeastLessThan_iff le_add1)
    then have "inode_used d2 c = inode_used d1 c" by (simp add: inode_used_def bit_at_def)
    then show ?thesis using u(4)[OF that] by simp
  qed
  have lv: "live d2 k = (live d k \<and> k \<noteq> m)" for k using iu[of k] by (auto simp: live_def)
  have len: "length (dir_blocks d m) \<le> 12"
    unfolding dir_blocks_def inode_blocks_def by (rule order_trans[OF length_filter_le]) simp
  have fb: "free_blocks d2 = free_blocks d + length (dir_blocks d m)"
  proof -
    have "free_blocks d1 + length (dir_blocks d m) < 2 ^ 32"
      using free_blocks_small[OF f(2)] len u(5) by simp
    then show ?thesis using fr(5) u(5) unfolding bs by simp
  qed
  have fi: "free_inodes d2 = free_inodes d + 1"
    using fold_release_inodes[OF u(1) s1 is12(1)] u(6) by (simp only: d2_def)
  have frame: "agree (- (inode_bytes m \<union> {3072 ..< 3088} \<union> {4096 ..< 4100} \<union> count_bytes)) d d2"
    by (rule agree_trans[OF agree_subset[OF u(2)] agree_subset[OF fr(3)]]) (auto simp: inode_bytes_def)
  have fk: "agree (dir_bytes d k) d d2" if k: "live d k" "k \<noteq> m" for k
    by (rule agree_subset[OF frame])
      (use dir_bytes_inode[OF fs k m32(1,2)] dir_bytes_above[OF fs k(1)] in \<open>auto simp: count_bytes_def\<close>)
  have al: "alloc_ok d2"
  proof -
    have "direct d2 (inode_at k)" if k: "12 \<le> k" "k \<le> 32" "\<not> inode_used d2 k" for k
    proof (cases "k = m")
      case True
      then show ?thesis using fr(2) by (simp add: sound_inode_def)
    next
      case False
      then have nu: "\<not> inode_used d k" using iu[of k] k by simp
      have "inode_bytes k \<inter> inode_bytes m = {}" using inode_bytes_disjoint[of k m] k m32 False by simp
      then have "agree {inode_at k ..< inode_at k + 128} d d2"
        using inode_at_bounds[of k] k
        by (intro agree_subset[OF frame]) (auto simp: inode_bytes_def count_bytes_def)
      from direct_agree[OF this subset_refl] show ?thesis using f(2) k nu by (simp add: alloc_ok_def)
    qed
    moreover have "length (free_from d2 23) = length (free_from d 23) + card ?B"
      by (rule free_from_freed) (use b23 ow(2) bu in auto)
    moreover have "length (free_inodes_from d2 12) = length (free_inodes_from d 12) + 1"
      by (rule free_inodes_freed[OF m12 m32(2,3)]) (use iu in auto)
    ultimately show ?thesis using f(2) fr(1) fb fi distinct_card[OF ow(1)] by (simp add: alloc_ok_def)
  qed
  have h: "\<forall>k. live d k \<and> k \<noteq> m \<longrightarrow> agree (dir_bytes d k) d d2 \<and> live d2 k"
    "\<forall>k. live d2 k \<and> k \<noteq> m \<longrightarrow> live d k"
    "\<forall>c. 9 \<le> c \<and> c < 128 \<and> block_used d c \<longrightarrow> live d m \<and> c \<in> ?B \<or> block_used d2 c"
    "live d2 m \<longrightarrow> owns d2 m \<and>
      (\<forall>b \<in> set (dir_blocks d2 m). live d m \<and> b \<in> ?B \<or> \<not> block_used d b)"
    "D \<subseteq> D" "D \<subseteq> insert m D" "m \<in> D \<longrightarrow> live d2 m \<and> names_ok d2 D m"
    "live d2 m \<or> (\<forall>k \<in> D. k \<noteq> m \<longrightarrow> m \<notin> (fst \<circ> snd) ` set (dir_list d k))"
    using fk lv lm bu mD none by auto
  note s = fs_step[OF fs al h]
  have "dir_map d2 k = dir_map d k" if "k \<in> D" for k
  proof -
    have "k \<noteq> m" using mD that by blast
    then show ?thesis using s(3)[OF that] by (simp add: dir_map_def)
  qed
  then show ?thesis
    using st s(1) lv fk bu fi fb by (auto simp: freed_def)
qed

end
