(* ===== verification/Ext2_Rm.thy ===== *)
theory Ext2_Rm
  imports Ext2_Free
begin

text \<open>
  \<open>ext2_rm\<close> as a whole on a consistent image: which paths it refuses, that it otherwise takes
  the name from its directory and one link from the inode, and what goes with the last link.
\<close>

definition rm_error :: "bytes \<Rightarrow> string \<Rightarrow> int option" where
  "rm_error d path =
     (case resolve d (comps path) of
        None \<Rightarrow> Some ENOENT
      | Some (m, t) \<Rightarrow> if t = EXT2_FT_DIR then Some EISDIR else None)"

lemma get_entry_inode_ok:
  "geometry d \<Longrightarrow> e + 8 \<le> DISK_SIZE \<Longrightarrow> 0 < einode d e \<Longrightarrow> einode d e \<le> 32 \<Longrightarrow>
     get_inode_from_entry d (Some e) = Ret (Some (inode_at (einode d e)))"
  by (simp add: get_inode_from_entry_def rd_einode get_inode_ok)

text \<open>The directory of the last component, and the entry of it in the directory above.\<close>

lemma resolve_parent:
  assumes t: "tree_ok d D" and r: "resolve d (comps path) = Some (m, u)" and ne: "tokens path \<noteq> []"
  obtains p where "p \<in> D" "resolve d (butlast (comps path)) = Some (p, EXT2_FT_DIR)"
    "dir_map d p (last (comps path)) = Some (m, u)"
proof -
  have e: "comps path = butlast (comps path) @ [last (comps path)]" by simp
  have "resolve d (comps path) =
    (case resolve d (butlast (comps path)) of None \<Rightarrow> None
     | Some (p, t) \<Rightarrow> if t = EXT2_FT_DIR then dir_map d p (last (comps path)) else None)"
    unfolding resolve_def by (subst e, subst follow_snoc) simp
  with r obtain p where p: "resolve d (butlast (comps path)) = Some (p, EXT2_FT_DIR)"
    "dir_map d p (last (comps path)) = Some (m, u)" by (auto split: option.splits if_splits)
  then show thesis using that resolve_range[OF t p(1)] by blast
qed

definition rm_rest :: "nat \<Rightarrow> bytes \<Rightarrow> nat \<Rightarrow> nat \<Rightarrow> nat \<Rightarrow> string \<Rightarrow> bytes fsres" where
  "rm_rest now d e ino parent name =
     bind_f (delete_child_entry d (Some parent) name) (\<lambda>d.
     bind_f (add_field 2 d (ino + i_links_count) (- 1)) (\<lambda>d.
     bind_f (rd 2 d (ino + i_links_count)) (\<lambda>links.
     if links \<le> 0 then bind_f (rd 4 d (e + e_inode)) (\<lambda>n. free_inode now d n)
     else Ret d)))"

lemma rm_split:
  assumes t: "tree_ok d D" and ne: "tokens path \<noteq> []"
  shows "(\<exists>c. rm_error d path = Some c \<and> ext2_rm now d path = Quit c d) \<or>
    (\<exists>e m u a p. rm_error d path = None \<and> resolve d (comps path) = Some (m, u) \<and>
       ext2_rm now d path = rm_rest now d e (inode_at m) a (last (comps path)) \<and>
       einode d e = m \<and> e + 8 \<le> DISK_SIZE \<and> located d D e \<and>
       einode d a = p \<and> a + 8 \<le> DISK_SIZE \<and> p \<in> D \<and>
       resolve d (butlast (comps path)) = Some (p, EXT2_FT_DIR) \<and>
       dir_map d p (last (comps path)) = Some (m, u))"
proof -
  let ?n = "comps path"
  have g: "geometry d" using t by (simp add: tree_ok_def)
  obtain l e where l: "split_path path = Ret l" "dl_inv l" "dl_abs l = map Some ?n"
    "traverse_path d l = Ret e" "points d D e (resolve d ?n)"
    using traverse_split[OF t, of path] by (metis comps_def)
  have pk: "listPeek l = Ok (Some (last ?n))"
    using listPeek_ok[OF l(2)] l(3) by (simp add: last_map)
  show ?thesis
  proof (cases e)
    case None
    then show ?thesis using l pk by (simp add: rm_error_def ext2_rm_def points_def get_inode_from_entry_def)
  next
    case (Some b)
    then have b: "resolve d ?n = Some (einode d b, ftype d b)" "b + 8 \<le> DISK_SIZE" "located d D b"
      using l(5) by (auto simp: points_def)
    have rg: "0 < einode d b" "einode d b \<le> 32" using resolve_range[OF t b(1)] by auto
    note gi = get_entry_inode_ok[OF g b(2) rg]
    show ?thesis
    proof (cases "ftype d b = EXT2_FT_DIR")
      case True
      then show ?thesis using l pk Some b gi by (simp add: rm_error_def ext2_rm_def is_directory_ok)
    next
      case False
      obtain p where p: "p \<in> D" "resolve d (butlast ?n) = Some (p, EXT2_FT_DIR)"
        "dir_map d p (last ?n) = Some (einode d b, ftype d b)"
        by (rule resolve_parent[OF t b(1) ne])
      obtain l1 where l1: "listPop l = Ok (Some (last ?n), l1)" "dl_inv l1" "dl_abs l1 = map Some (butlast ?n)"
        using popped[OF l(2,3)] by auto
      have bn: "butlast ?n \<noteq> []" using ne by (simp add: comps_def)
      obtain f where f: "traverse_path d l1 = Ret f" "points d D f (resolve d (butlast ?n))"
        using traverse_names[OF t l1(2,3) _ bn] by auto
      then obtain a where a: "f = Some a" "einode d a = p" "a + 8 \<le> DISK_SIZE"
        using p(2) by (auto simp: points_def split: option.splits)
      have "ext2_rm now d path = rm_rest now d b (inode_at (einode d b)) a (last ?n)"
        using l pk Some b(2) gi False l1 f a(1)
        by (simp add: ext2_rm_def rm_rest_def is_directory_ok deref_string_def)
      then show ?thesis using False b p a by (auto simp: rm_error_def)
    qed
  qed
qed

section \<open>The name and the link\<close>

text \<open>No other entry names the inode, and its blocks are not among the reserved ones.\<close>

definition last_link :: "bytes \<Rightarrow> nat set \<Rightarrow> nat \<Rightarrow> string \<Rightarrow> nat \<Rightarrow> bool" where
  "last_link d D p name m \<longleftrightarrow> 12 \<le> m \<and> direct d (inode_at m) \<and> (\<forall>b \<in> set (dir_blocks d m). 23 \<le> b) \<and>
     (\<forall>k \<in> D. \<forall>(x, j, t) \<in> set (dir_list d k). j = m \<longrightarrow> k = p \<and> x = name)"

lemma links_bump:
  "links (bump 2 (inode + 26) c d) inode = nat ((int (links d inode) + c) mod 65536)"
  unfolding links_def by (simp add: load_bump del: load_le.simps)

lemma rm_rest_ok:
  assumes fs: "fs_ok d D" and e: "einode d e = m" "e + 8 \<le> DISK_SIZE" "located d D e"
    and a: "einode d a = p" "a + 8 \<le> DISK_SIZE" and p: "p \<in> D" and v: "dir_map d p name = Some (m, u)"
    and name: "name \<noteq> []" and m: "m \<notin> D"
    and early: "\<forall>b \<in> set (dir_blocks d p). b < 23 \<longrightarrow> (\<exists>x \<in> set (block_list d (entries d b)). fst x \<noteq> name)"
    and last: "links d (inode_at m) = 1 \<Longrightarrow> last_link d D p name m"
  shows "\<exists>d'. rm_rest now d e (inode_at m) a name = Ret d' \<and> fs_ok d' D \<and>
     (\<forall>k \<in> D. dir_map d' k = ((dir_map d)(p := (dir_map d p)(name := None))) k) \<and>
     (\<forall>k. live d k \<and> k \<noteq> p \<and> k \<noteq> m \<longrightarrow> agree (dir_bytes d k) d d') \<and>
     (\<forall>k. live d' k = (live d k \<and> (links d (inode_at m) = 1 \<longrightarrow> k \<noteq> m))) \<and>
     (links d (inode_at m) = 1 \<longrightarrow> (\<forall>b \<in> set (dir_blocks d m). \<not> block_used d' b)) \<and>
     (links d (inode_at m) \<noteq> 1 \<longrightarrow> dir_blocks d' m = dir_blocks d m \<and>
        links d' (inode_at m) = nat ((int (links d (inode_at m)) - 1) mod 65536))"
proof -
  note f = fs_okD[OF fs]
  let ?i = "inode_at m"
  have lp: "live d p" using f(6)[OF p] .
  have "(name, m, u) \<in> set (dir_list d p)" using v by (auto simp: dir_map_def dest: map_of_SomeD)
  then have lm: "live d m" using f(7)[OF p] by (auto simp: names_live_def)
  have mp: "m \<noteq> p" using m p by blast
  have at: "5120 \<le> ?i" "?i + 128 \<le> 9216" using inode_at_bounds[of m] lm by (auto simp: live_def)
  note fme = find_matching_entry_ok[OF f(8)[OF p] name]
  obtain q x where q: "find_in d name (dir_blocks d p) = Some (q, x)"
    using fme(2) v by (cases "find_in d name (dir_blocks d p)") auto
  from fs_delete[OF fs p q name early] obtain d1 where
    d1: "delete_loop [0..<INODE_BLOCK_LIMIT] d (inode_at p) name = Ret d1" "shrinks d D p name d1"
      "\<forall>x. located d D x \<longrightarrow> einode d1 x = einode d x" by blast
  from d1(2) have s: "fs_ok d1 D" "\<And>k. k \<in> D \<Longrightarrow> dir_map d1 k = ((dir_map d)(p := (dir_map d p)(name := None))) k"
    "dir_list d1 p = drop_name name (dir_list d p)" "\<And>k. live d1 k = live d k"
    "\<And>k. live d k \<Longrightarrow> k \<noteq> p \<Longrightarrow> agree (dir_bytes d k) d d1"
    "agree ({5120 ..< 9216} - {inode_at p + 40 ..< inode_at p + 88}) d d1"
    by (simp_all add: shrinks_def)
  have del: "delete_child_entry d (Some a) name = Ret d1"
    using rd_einode[OF a(2)] a(1) get_inode_ok[OF f(4)] lp d1(1) by (simp add: delete_child_entry_def live_def)
  have am: "agree (dir_bytes d m) d d1" using s(5)[OF lm mp] .
  have bm: "dir_blocks d1 m = dir_blocks d m" by (rule dir_frame(1)[OF am])
  have l1: "links d1 ?i = links d ?i"
    unfolding links_def by (rule agree_load[OF am]) (auto simp: dir_bytes_def inode_bytes_def)
  define d2 where "d2 = bump 2 (?i + 26) (- 1) d1"
  have add: "add_field 2 d1 (?i + i_links_count) (- 1) = Ret d2"
    using at by (simp add: add_field_ok d2_def i_links_count_def DISK_SIZE_def)
  have l2: "links d2 ?i = nat ((int (links d ?i) - 1) mod 65536)"
    using links_bump[of ?i "- 1" d1] l1 by (simp add: d2_def)
  have rl: "rd 2 d2 (?i + i_links_count) = Ret (links d2 ?i)"
    using at by (simp add: links_def i_links_count_def DISK_SIZE_def)
  have "agree (- {?i ..< ?i + 32}) d1 d2" unfolding d2_def by (rule agree_bump) auto
  note h = fs_header[OF s(1) _ this]
  have lm1: "live d1 m" using s(4) lm by simp
  note h = h[OF lm1]
  have lt: "links d ?i < 65536" using load_le_bound[of 2 d "?i + 26"] by (simp add: links_def del: load_le.simps)
  have zero: "links d2 ?i = 0 \<longleftrightarrow> links d ?i = 1"
    unfolding l2 using lt by (cases "links d ?i = 0") (auto simp: nat_eq_iff)
  have fr2: "agree (dir_bytes d k) d d2" if k: "live d k" "k \<noteq> p" "k \<noteq> m" for k
  proof -
    have "dir_bytes d1 k = dir_bytes d k" using dir_frame(1)[OF s(5)[OF k(1,2)]] by (simp add: dir_bytes_def)
    moreover have "live d1 k" using s(4) k(1) by simp
    ultimately show ?thesis using agree_trans[OF s(5)[OF k(1,2)]] h(5)[OF _ k(3)] by metis
  qed
  have dm2: "dir_map d2 k = ((dir_map d)(p := (dir_map d p)(name := None))) k" if "k \<in> D" for k
    using h(2)[OF that] s(2)[OF that] by simp
  have lv2: "live d2 k = live d k" for k using h(3) s(4) by simp
  show ?thesis
  proof (cases "links d ?i = 1")
    case False
    then have "rm_rest now d e ?i a name = Ret d2"
      using del add rl zero by (simp add: rm_rest_def)
    then show ?thesis using h(1) dm2 fr2 lv2 False l2 h(4)[OF lm1] bm by auto
  next
    case True
    have e1: "einode d1 e = m" using d1(3) e(1,3) by simp
    have e2: "einode d2 e = m"
    proof -
      have "{e ..< e + 4} \<subseteq> - {?i + 26 ..< ?i + 28}" using located_above[OF fs e(3)] at by auto
      moreover have "agree (- {?i + 26 ..< ?i + 28}) d1 d2" unfolding d2_def by (rule agree_bump) auto
      ultimately have "load_le 4 d2 e = load_le 4 d1 e" by (intro agree_load)
      then show ?thesis using e1 by (simp add: einode_def e_inode_def del: load_le.simps)
    qed
    note ll = last[OF True, unfolded last_link_def]
    have sole: "k = p \<and> x = name" if k: "k \<in> D" and x: "(x, m, t) \<in> set (dir_list d k)" for k x t
    proof -
      from ll k have "\<forall>z \<in> set (dir_list d k). case z of (x, j, t) \<Rightarrow> j = m \<longrightarrow> k = p \<and> x = name" by blast
      from bspec[OF this x] show ?thesis by simp
    qed
    have dis: "disposable d2 D m"
      unfolding disposable_def
    proof (intro conjI ballI)
      show "live d2 m" using lv2 lm by simp
      show "m \<notin> D" "12 \<le> m" using m ll by auto
      show "direct d2 ?i"
        using h(10) direct_agree[OF am, of ?i] ll by (simp add: dir_bytes_def inode_bytes_def)
      show "23 \<le> b" if "b \<in> set (dir_blocks d2 m)" for b using that h(4)[OF lm1] bm ll by simp
      show "m \<notin> (fst \<circ> snd) ` set (dir_list d2 k)" if k: "k \<in> D" for k
      proof
        assume "m \<in> (fst \<circ> snd) ` set (dir_list d2 k)"
        then obtain x t where x: "(x, m, t) \<in> set (dir_list d1 k)" using h(6)[OF k] by force
        show False
        proof (cases "k = p")
          case True
          then have "x \<noteq> name" "(x, m, t) \<in> set (dir_list d p)"
            using x s(3) drop_name_distinct(3)[OF f(9)[OF p], of name] by auto
          then show False using sole[OF p] by blast
        next
          case False
          have "\<forall>b \<in> set (dir_blocks d k). good_block d b" using f(8)[OF k] by (simp add: dir_ok_def)
          from dir_frame(2)[OF s(5)[OF f(6)[OF k] False] this] have "dir_list d1 k = dir_list d k" .
          then show False using sole[OF k] x False by simp
        qed
      qed
    qed
    from fs_free_inode[OF h(1) dis, of now] obtain d3 where
      d3: "free_inode now d2 m = Ret d3" "freed d2 D m d3" by blast
    have "rm_rest now d e ?i a name = Ret d3"
      using del add rl zero True rd_einode[OF e(2)] e2 d3(1) by (simp add: rm_rest_def)
    moreover have "agree (dir_bytes d k) d d3" if k: "live d k" "k \<noteq> p" "k \<noteq> m" for k
    proof -
      have "dir_bytes d2 k = dir_bytes d k" using dir_frame(1)[OF fr2[OF k]] by (simp add: dir_bytes_def)
      then have "agree (dir_bytes d k) d2 d3" using d3(2) lv2 k by (auto simp: freed_def)
      with fr2[OF k] show ?thesis by (rule agree_trans)
    qed
    moreover have "\<not> block_used d3 b" if b: "b \<in> set (dir_blocks d m)" for b
    proof -
      have "9 \<le> b" "b < 128" using f(10)[OF lm] b by (auto simp: owns_def)
      then show ?thesis using d3(2) b h(4)[OF lm1] bm by (auto simp: freed_def)
    qed
    ultimately show ?thesis using d3(2) True dm2 lv2 by (auto simp: freed_def)
  qed
qed

end
