(* ===== verification/Ext2_Copy.thy ===== *)
theory Ext2_Copy
  imports Ext2_Rm
begin

text \<open>
  The loops of \<open>ext2_cp\<close>: on an inode without indirect block they leave the first twelve blocks
  in the inode and write every piece of the file to its block.
\<close>

section \<open>Attaching the blocks\<close>

lemma attach_ok:
  "direct d inode \<Longrightarrow> \<exists>d'. attach_loop i cur blocks inode d = Ret d' \<and>
     agree (- {inode + 40 ..< inode + 88}) d d' \<and> direct d' inode"
proof (induction i cur blocks inode d rule: attach_loop.induct)
  case (1 i cur blocks inode d)
  note gb = get_block_number_ok[OF 1(3), of i]
  show ?case
  proof (cases "cur < length blocks")
    case False
    then show ?thesis using 1(3) by (subst attach_loop.simps) simp
  next
    case True
    show ?thesis
    proof (cases "(if i < 12 then bnum d inode i else 0) = 0")
      case False
      then have "attach_loop i cur blocks inode d = attach_loop (i + 1) cur blocks inode d"
        using True gb by (subst attach_loop.simps) simp
      then show ?thesis using 1(2)[OF True gb False 1(3)] by simp
    next
      case z: True
      let ?d = "put_bnum inode i (blocks ! cur) d"
      have st: "attach_loop i cur blocks inode d = attach_loop (i + 1) (cur + 1) blocks inode ?d"
        using True gb z set_block_number_ok[OF 1(3)] by (subst attach_loop.simps) simp
      have "direct ?d inode" using 1(3) by simp
      from 1(1)[OF True gb z set_block_number_ok[OF 1(3)] this] obtain d' where
        d': "attach_loop (i + 1) (cur + 1) blocks inode ?d = Ret d'"
        "agree (- {inode + 40 ..< inode + 88}) ?d d'" "direct d' inode" by blast
      have "agree (- {inode + 40 ..< inode + 88}) d ?d" by (rule agree_put_bnum) auto
      from agree_trans[OF this d'(2)] show ?thesis using st d'(1,3) by auto
    qed
  qed
qed

section \<open>Writing the pieces\<close>

definition pieces :: "nat \<Rightarrow> nat" where "pieces n = (n + 1023) div 1024"

lemma pieces_less: "i < pieces n \<longleftrightarrow> 1024 * i < n"
  unfolding pieces_def by linarith

lemma required_blocks: "n \<le> 274432 \<Longrightarrow> get_required_block_count n = pieces n"
  by (simp add: get_required_block_count_def pieces_def EXT2_BLOCK_SIZE_def)

text \<open>The piece \<open>i\<close> of the file \<open>w\<close> is in the block \<open>b\<close>.\<close>

definition piece_in :: "u8 list \<Rightarrow> bytes \<Rightarrow> nat \<Rightarrow> nat \<Rightarrow> bool" where
  "piece_in w d i b \<longleftrightarrow> (\<forall>a < 1024. 1024 * i + a < length w \<longrightarrow> d (1024 * b + a) = w ! (1024 * i + a))"

lemma piece_in_agree: "agree (block_bytes b) d d' \<Longrightarrow> piece_in w d i b \<Longrightarrow> piece_in w d' i b"
  by (auto simp: piece_in_def agree_def block_bytes_def)

lemma put_piece:
  assumes "b < 128"
  shows "write_bytes d (1024 * b) (take 1024 (drop (1024 * i) w)) = Ret (put_bytes (1024 * b) (take 1024 (drop (1024 * i) w)) d)"
    and "agree (- block_bytes b) d (put_bytes (1024 * b) (take 1024 (drop (1024 * i) w)) d)"
    and "piece_in w (put_bytes (1024 * b) (take 1024 (drop (1024 * i) w)) d) i b"
proof -
  let ?p = "take 1024 (drop (1024 * i) w)"
  show "write_bytes d (1024 * b) ?p = Ret (put_bytes (1024 * b) ?p d)"
    using assms by (simp add: write_bytes_ok DISK_SIZE_def)
  show "agree (- block_bytes b) d (put_bytes (1024 * b) ?p d)"
    unfolding agree_def block_bytes_def by (auto simp: put_bytes_other)
  show "piece_in w (put_bytes (1024 * b) ?p d) i b"
    unfolding piece_in_def
  proof (intro allI impI)
    fix a assume a: "a < 1024" "1024 * i + a < length w"
    then have "a < length ?p" by simp
    from put_bytes_nth[OF this, of "1024 * b" d] a show "put_bytes (1024 * b) ?p d (1024 * b + a) = w ! (1024 * i + a)"
      by simp
  qed
qed

lemma data_ok:
  assumes "k \<le> N" "length w \<le> 1024 * N" "pieces (length w) \<le> length bs" "distinct bs" "set bs \<subseteq> {9 ..< 128}"
    and "5120 \<le> inode" "inode + 128 \<le> 9216" "direct d inode"
  shows "\<exists>d'. data_loop [k..<N] bs inode (drop (1024 * k) w) d = Ret d' \<and>
     agree (- ({inode + 40 ..< inode + 88} \<union> (\<Union>b \<in> set (drop k bs). block_bytes b))) d d' \<and> direct d' inode \<and>
     (\<forall>i < 12. bnum d' inode i =
        (if k \<le> i \<and> i < N then if i < pieces (length w) then bs ! i else 0 else bnum d inode i)) \<and>
     (\<forall>i. k \<le> i \<and> i < pieces (length w) \<longrightarrow> piece_in w d' i (bs ! i))"
  using assms
proof (induction "N - k" arbitrary: k d)
  case 0
  then have "k = N" by simp
  moreover have "\<not> (k \<le> i \<and> i < pieces (length w))" for i
    using 0(3) \<open>k = N\<close> by (auto simp: pieces_less)
  ultimately show ?case using 0(9) by (intro exI[of _ d]) auto
next
  case (Suc j)
  then have k: "k < N" "N - Suc k = j" "Suc k \<le> N" by simp_all
  have up: "[k..<N] = k # [Suc k..<N]" using k(1) by (rule upt_conv_Cons)
  have dd: "drop EXT2_BLOCK_SIZE (drop (1024 * k) w) = drop (1024 * Suc k) w"
    by (simp add: EXT2_BLOCK_SIZE_def add.commute)
  let ?B = "\<Union>b \<in> set (drop (Suc k) bs). block_bytes b"
  note IH = Suc.hyps(1)[OF k(2)[symmetric] k(3) Suc.prems(2-7)]
  show ?case
  proof (cases "k < pieces (length w)")
    case False
    then have l: "take EXT2_BLOCK_SIZE (drop (1024 * k) w) = []" by (simp add: pieces_less)
    let ?d = "put_bnum inode k 0 d"
    have st: "data_loop [k..<N] bs inode (drop (1024 * k) w) d = data_loop [Suc k..<N] bs inode (drop (1024 * Suc k) w) ?d"
      unfolding up using l dd set_block_number_ok[OF Suc.prems(8)] by simp
    have "direct ?d inode" using Suc.prems(8) by simp
    from IH[OF this] obtain d' where d': "data_loop [Suc k..<N] bs inode (drop (1024 * Suc k) w) ?d = Ret d'"
      "agree (- ({inode + 40 ..< inode + 88} \<union> ?B)) ?d d'" "direct d' inode"
      "\<forall>i < 12. bnum d' inode i = (if Suc k \<le> i \<and> i < N then if i < pieces (length w) then bs ! i else 0 else bnum ?d inode i)"
      "\<forall>i. Suc k \<le> i \<and> i < pieces (length w) \<longrightarrow> piece_in w d' i (bs ! i)" by blast
    have "agree (- ({inode + 40 ..< inode + 88} \<union> ?B)) d ?d" by (rule agree_put_bnum) auto
    from agree_trans[OF this d'(2)] have "agree (- ({inode + 40 ..< inode + 88} \<union> ?B)) d d'" .
    then have "agree (- ({inode + 40 ..< inode + 88} \<union> (\<Union>b \<in> set (drop k bs). block_bytes b))) d d'"
      by (rule agree_subset) (use set_drop_subset_set_drop[of k "Suc k" bs] in auto)
    moreover have "bnum d' inode i = (if k \<le> i \<and> i < N then if i < pieces (length w) then bs ! i else 0 else bnum d inode i)"
      if "i < 12" for i
      using d'(4) that False k(1) bnum_put_bnum[of inode k 0 d i] by auto
    moreover have "\<forall>i. k \<le> i \<and> i < pieces (length w) \<longrightarrow> piece_in w d' i (bs ! i)"
      using False by auto
    ultimately show ?thesis using st d'(1,3) by auto
  next
    case True
    then have kb: "k < length bs" using Suc.prems(3) by simp
    let ?b = "bs ! k"
    have b: "9 \<le> ?b" "?b < 128" using Suc.prems(5) kb nth_mem by force+
    let ?p = "take 1024 (drop (1024 * k) w)"
    have l: "0 < length ?p" using True by (simp add: pieces_less)
    let ?d1 = "put_bnum inode k ?b d" and ?d = "put_bytes (1024 * ?b) ?p (put_bnum inode k ?b d)"
    note pp = put_piece[OF b(2), where d = ?d1 and i = k and w = w]
    have st: "data_loop [k..<N] bs inode (drop (1024 * k) w) d = data_loop [Suc k..<N] bs inode (drop (1024 * Suc k) w) ?d"
      unfolding up using l kb dd set_block_number_ok[OF Suc.prems(8)] pp(1) block_address[OF b(2)]
      by (simp add: EXT2_BLOCK_SIZE_def)
    have ai: "agree {inode ..< inode + 128} ?d1 ?d"
      by (rule agree_subset[OF pp(2)]) (use b Suc.prems(7) in \<open>auto simp: block_bytes_def\<close>)
    have "direct ?d inode" using direct_agree[OF ai subset_refl] Suc.prems(8) by simp
    from IH[OF this] obtain d' where d': "data_loop [Suc k..<N] bs inode (drop (1024 * Suc k) w) ?d = Ret d'"
      "agree (- ({inode + 40 ..< inode + 88} \<union> ?B)) ?d d'" "direct d' inode"
      "\<forall>i < 12. bnum d' inode i = (if Suc k \<le> i \<and> i < N then if i < pieces (length w) then bs ! i else 0 else bnum ?d inode i)"
      "\<forall>i. Suc k \<le> i \<and> i < pieces (length w) \<longrightarrow> piece_in w d' i (bs ! i)" by blast
    have dr: "drop k bs = ?b # drop (Suc k) bs" using kb by (rule Cons_nth_drop_Suc[symmetric])
    have "agree (- ({inode + 40 ..< inode + 88} \<union> (\<Union>b \<in> set (drop k bs). block_bytes b))) d d'"
    proof (rule agree_trans[OF _ agree_trans[OF agree_subset[OF pp(2)] agree_subset[OF d'(2)]]])
      show "agree (- ({inode + 40 ..< inode + 88} \<union> (\<Union>b \<in> set (drop k bs). block_bytes b))) d ?d1"
        by (rule agree_put_bnum) auto
    qed (auto simp: dr)
    moreover have "bnum d' inode i = (if k \<le> i \<and> i < N then if i < pieces (length w) then bs ! i else 0 else bnum d inode i)"
      if i: "i < 12" for i
    proof -
      have "bnum ?d inode i = (if k = i then ?b else bnum d inode i)"
        using bnum_agree[OF ai subset_refl, of i] bnum_put_bnum[of inode k ?b d i] i b(2) by auto
      then show ?thesis using d'(4) i True k(1) by auto
    qed
    moreover have "piece_in w d' i (bs ! i)" if i: "k \<le> i" "i < pieces (length w)" for i
    proof (cases "i = k")
      case True
      have "?b \<notin> set (drop (Suc k) bs)"
        using Suc.prems(4) distinct_drop[of bs k] unfolding dr by simp
      then have "block_bytes ?b \<inter> block_bytes c = {}" if "c \<in> set (drop (Suc k) bs)" for c
        using block_bytes_disjoint[of ?b c] that by auto
      then have "block_bytes ?b \<inter> ?B = {}" by auto
      moreover have "block_bytes ?b \<inter> {inode + 40 ..< inode + 88} = {}"
        using b(1) Suc.prems(7) by (auto simp: block_bytes_def)
      ultimately have "agree (block_bytes ?b) ?d d'" by (intro agree_subset[OF d'(2)]) blast
      from piece_in_agree[OF this pp(3)] True show ?thesis by simp
    next
      case False
      then show ?thesis using d'(5) i by simp
    qed
    ultimately show ?thesis using st d'(1,3) by auto
  qed
qed

end
