(* ===== verification/Ext2_Cp.thy ===== *)
theory Ext2_Cp
  imports Ext2_Copy
begin

text \<open>
  \<open>ext2_cp\<close> of a file to a name that does not exist yet, on a consistent image: a new file with
  the bytes of the source, as far as twelve blocks hold them, and the invariant kept.
\<close>

section \<open>Allocating the blocks of the file\<close>

lemma fs_claims:
  assumes fs: "fs_ok d D" and n: "n \<le> free_blocks d"
  defines "bs \<equiv> take n (free_from d 23)" and "d' \<equiv> claims (take n (free_from d 23)) (bump_blocks (- int n) d)"
  shows "allocate_blocks d n = Ret (bs, d')" "fs_ok d' D" "k \<in> D \<Longrightarrow> dir_list d' k = dir_list d k"
    "live d' k = live d k" "live d k \<Longrightarrow> agree (dir_bytes d k) d d'"
    "0 < c \<Longrightarrow> c < 129 \<Longrightarrow> block_used d' c = (c \<in> set bs \<or> block_used d c)"
    "free_blocks d' = free_blocks d - n" "free_inodes d' = free_inodes d"
    "length bs = n" "distinct bs" "set bs \<subseteq> {23 ..< 128}" "\<forall>b \<in> set bs. \<not> block_used d b"
    "free_inodes_from d' 12 = free_inodes_from d 12"
proof -
  note f = fs_okD[OF fs]
  have n2: "n \<le> length (free_from d 23)" using f(2) n by (simp add: alloc_ok_def)
  show "allocate_blocks d n = Ret (bs, d')"
    unfolding bs_def d'_def by (rule allocate_blocks_ok[OF f(4) n n2])
  show len: "length bs = n" using n2 by (simp add: bs_def)
  have ds: "distinct (free_from e 23)" for e
    unfolding free_from_def by (rule distinct_filter[OF distinct_upt])
  then show dbs: "distinct bs" unfolding bs_def by (rule distinct_take)
  have "set bs \<subseteq> set (free_from d 23)" unfolding bs_def by (rule set_take_subset)
  then show b23: "set bs \<subseteq> {23 ..< 128}" and nu: "\<forall>b \<in> set bs. \<not> block_used d b"
    by (auto simp: free_from_mem)
  let ?d0 = "bump_blocks (- int n) d"
  have b9: "set bs \<subseteq> {9 ..< 128}" using b23 by auto
  have g0: "geometry ?d0" using f(4) by simp
  note c = claims_ok[OF b9 g0, unfolded bs_def, folded d'_def]
  have used: "block_used d' c = (c \<in> set bs \<or> block_used d c)" if "0 < c" "c < 129" for c
    using c(2)[OF that] that by (simp add: bs_def)
  then show "0 < c \<Longrightarrow> c < 129 \<Longrightarrow> block_used d' c = (c \<in> set bs \<or> block_used d c)" .
  have iused: "inode_used d' c = inode_used d c" if "0 < c" "c < 33" for c using c(3)[OF that] that by simp
  have a0: "agree (- (map_bytes \<union> (\<Union>b \<in> set bs. block_bytes b))) ?d0 d'"
    unfolding agree_def using c(4) by (auto simp: bs_def)
  have a: "agree (- (count_bytes \<union> map_bytes \<union> (\<Union>b \<in> set bs. block_bytes b))) d d'"
    by (rule agree_trans[OF agree_bump_counts(1) agree_subset[OF a0]]) auto
  have low: "a \<notin> block_bytes b" if "a < 9216" "b \<in> set bs" for a b
    using subsetD[OF b9 that(2)] that(1) by (auto simp: block_bytes_def)
  have l: "load_le 4 d' x = load_le 4 ?d0 x" if "x + 4 \<le> 3072" for x
    by (rule agree_load[OF a0]) (use that low in \<open>auto simp: map_bytes_def\<close>)
  show fb: "free_blocks d' = free_blocks d - n"
  proof -
    have "free_blocks d \<le> 105" by (rule free_blocks_small[OF f(2)])
    then have "nat ((int (free_blocks d) - int n) mod 2 ^ 32) = free_blocks d - n"
      using n by (simp add: of_nat_diff[symmetric] del: of_nat_diff)
    then show ?thesis using l[of 1036] bump_free(1)[of "- int n" d] by (simp add: free_blocks_def)
  qed
  show fi: "free_inodes d' = free_inodes d"
    using l[of 1040] bump_free(2)[of "- int n" d] by (simp add: free_inodes_def)
  have lv: "live d' k = live d k" for k using iused[of k] by (auto simp: live_def)
  then show "live d' k = live d k" .
  have at: "agree {5120 ..< 9216} d d'"
    by (rule agree_subset[OF a]) (use low in \<open>auto simp: count_bytes_def map_bytes_def\<close>)
  show ff: "free_inodes_from d' 12 = free_inodes_from d 12"
    by (rule free_inodes_from_cong) (simp add: iused)
  have al: "alloc_ok d'"
  proof -
    have "length (free_from d' 23) = length (free_from d 23) - n"
    proof -
      have "set (free_from d' 23) = set (free_from d 23) - set bs"
      proof (rule set_eqI)
        show "c \<in> set (free_from d' 23) \<longleftrightarrow> c \<in> set (free_from d 23) - set bs" for c
          using used[of c] by (auto simp: free_from_mem)
      qed
      moreover have "card (set (free_from d 23) - set bs) = card (set (free_from d 23)) - card (set bs)"
        by (rule card_Diff_subset) (auto simp: bs_def dest: in_set_takeD)
      ultimately have "card (set (free_from d' 23)) = card (set (free_from d 23)) - card (set bs)"
        by (simp only:)
      then show ?thesis by (simp only: distinct_card[OF ds] distinct_card[OF dbs] len)
    qed
    moreover have "direct d' (inode_at m)" if m: "12 \<le> m" "m \<le> 32" "\<not> inode_used d' m" for m
    proof -
      have "direct d' (inode_at m) = direct d (inode_at m)"
        by (rule direct_agree[OF at]) (use m inode_at_bounds[of m] in auto)
      then show ?thesis using iused[of m] m f(2) by (simp add: alloc_ok_def)
    qed
    ultimately show ?thesis
      using f(2) c(1) fb fi ff n by (simp add: alloc_ok_def diff_le_mono)
  qed
  have fr: "agree (dir_bytes d k) d d'" if k: "live d k" for k
  proof (rule agree_subset[OF a])
    have "dir_bytes d k \<inter> block_bytes b = {}" if b: "b \<in> set bs" for b
      by (rule dir_bytes_block[OF k]) (use b b9 nu f(10)[OF k] in \<open>auto simp: owns_def\<close>)
    then show "dir_bytes d k \<subseteq> - (count_bytes \<union> map_bytes \<union> (\<Union>b \<in> set bs. block_bytes b))"
      using dir_bytes_above[OF fs k] by (auto simp: count_bytes_def map_bytes_def)
  qed
  then show "live d k \<Longrightarrow> agree (dir_bytes d k) d d'" .
  have l0: "\<not> live d 0" "\<not> live d' 0" by (simp_all add: live_def)
  have D0: "0 \<notin> D" using f(6) l0 by blast
  have z: "0 \<notin> (fst \<circ> snd) ` set (dir_list d k)" if k: "k \<in> D" for k
  proof
    assume "0 \<in> (fst \<circ> snd) ` set (dir_list d k)"
    then obtain z where z: "z \<in> set (dir_list d k)" "fst (snd z) = 0" by auto
    from f(7)[OF k] z(1) have "live d (fst (snd z))" by (auto simp: names_live_def)
    with z(2) l0 show False by simp
  qed
  have h: "\<forall>k. live d k \<and> k \<noteq> 0 \<longrightarrow> agree (dir_bytes d k) d d' \<and> live d' k"
    "\<forall>k. live d' k \<and> k \<noteq> 0 \<longrightarrow> live d k"
    "\<forall>c. 9 \<le> c \<and> c < 128 \<and> block_used d c \<longrightarrow> live d 0 \<and> c \<in> set (dir_blocks d 0) \<or> block_used d' c"
    "live d' 0 \<longrightarrow> owns d' 0 \<and>
      (\<forall>k. live d k \<and> k \<noteq> 0 \<longrightarrow> set (dir_blocks d' 0) \<inter> set (dir_blocks d k) = {})"
    "D \<subseteq> D" "D \<subseteq> insert 0 D" "0 \<in> D \<longrightarrow> live d' 0 \<and> names_ok d' D 0"
    "live d' 0 \<or> (\<forall>k \<in> D. k \<noteq> 0 \<longrightarrow> 0 \<notin> (fst \<circ> snd) ` set (dir_list d k))"
    using fr lv l0 used D0 z by auto
  note s = fs_change[OF fs al h]
  from s(1) show "fs_ok d' D" .
  show "dir_list d' k = dir_list d k" if "k \<in> D"
  proof -
    have "k \<noteq> 0" using that D0 by (cases "k = 0") auto
    with s(3) that show ?thesis by blast
  qed
qed

section \<open>The contents of a file\<close>

definition block_data :: "bytes \<Rightarrow> nat \<Rightarrow> u8 list" where
  "block_data d b = map (\<lambda>a. d (1024 * b + a)) [0..<1024]"

definition i_size_of :: "bytes \<Rightarrow> nat \<Rightarrow> nat" where
  "i_size_of d m = load_le 4 d (inode_at m + 4)"

text \<open>What reading the file by its block numbers gives.\<close>

definition file_bytes :: "bytes \<Rightarrow> nat \<Rightarrow> u8 list" where
  "file_bytes d m = take (i_size_of d m) (concat (map (block_data d) (dir_blocks d m)))"

lemma length_block_data: "length (block_data d b) = 1024"
  unfolding block_data_def by (simp only: length_map length_upt diff_zero)

lemma take_block_data:
  "piece_in w d k b \<Longrightarrow> take (length w - 1024 * k) (block_data d b) = take 1024 (drop (1024 * k) w)"
proof (rule nth_equalityI)
  show "length (take (length w - 1024 * k) (block_data d b)) = length (take 1024 (drop (1024 * k) w))"
    by (simp add: length_block_data min.commute)
  fix i assume p: "piece_in w d k b" and i: "i < length (take (length w - 1024 * k) (block_data d b))"
  then have "i < 1024" "1024 * k + i < length w" by (auto simp: length_block_data)
  then show "take (length w - 1024 * k) (block_data d b) ! i = take 1024 (drop (1024 * k) w) ! i"
    using p i by (simp add: block_data_def piece_in_def del: upt_rec_numeral)
qed

lemma read_pieces:
  "(\<And>i. i < length bs \<Longrightarrow> piece_in w d (k + i) (bs ! i)) \<Longrightarrow>
     take (length w - 1024 * k) (concat (map (block_data d) bs)) = take (1024 * length bs) (drop (1024 * k) w)"
proof (induction bs arbitrary: k)
  case (Cons b bs)
  have "take (length w - 1024 * Suc k) (concat (map (block_data d) bs)) = take (1024 * length bs) (drop (1024 * Suc k) w)"
  proof (rule Cons.IH)
    fix i assume "i < length bs"
    then show "piece_in w d (Suc k + i) (bs ! i)" using Cons.prems[of "Suc i"] by simp
  qed
  moreover have "take (length w - 1024 * k) (block_data d b) = take 1024 (drop (1024 * k) w)"
    using Cons.prems[of 0] by (intro take_block_data) simp
  moreover have "length w - 1024 * k - 1024 = length w - 1024 * Suc k" by simp
  moreover have "1024 * Suc k = 1024 + 1024 * k" by simp
  ultimately have "take (length w - 1024 * k) (concat (map (block_data d) (b # bs))) =
      take 1024 (drop (1024 * k) w) @ take (1024 * length bs) (drop 1024 (drop (1024 * k) w))"
    by (simp only: list.map concat.simps take_append length_block_data drop_drop add.commute)
  also have "\<dots> = take (1024 + 1024 * length bs) (drop (1024 * k) w)" by (simp only: take_add)
  finally show ?case by simp
qed simp

lemma indexed_blocks:
  "0 \<notin> set bs \<Longrightarrow> filter (\<lambda>b. b \<noteq> 0) (map (\<lambda>i. if i < length bs then bs ! i else 0) [0..<n]) = take n (bs :: nat list)"
proof (induction n)
  case (Suc n)
  show ?case
  proof (cases "n < length bs")
    case True
    then have "bs ! n \<noteq> 0" using Suc.prems nth_mem by metis
    then show ?thesis using Suc True by (simp add: take_Suc_conv_app_nth)
  next
    case False
    then show ?thesis using Suc by simp
  qed
qed simp

section \<open>Writing a new file\<close>

definition cp_header :: "nat \<Rightarrow> nat \<Rightarrow> nat \<Rightarrow> nat \<Rightarrow> bytes \<Rightarrow> bytes" where
  "cp_header now n sz inode d =
     store_le 4 sz (store_le 4 (n * 2) (store_le 4 0 (store_le 4 now (store_le 2 EXT2_FT_REG_FILE d inode)
       (inode + 12)) (inode + 20)) (inode + 28)) (inode + 4)"

lemma agree_cp_header: "agree (- {inode ..< inode + 32}) d (cp_header now n sz inode d)"
  unfolding cp_header_def
  by (rule agree_trans[OF agree_trans[OF agree_trans[OF agree_trans[OF agree_store agree_store] agree_store]
        agree_store] agree_store]) auto

text \<open>
  The blocks of an inode that is not a directory are replaced by some of \<open>bs\<close>, blocks in use that
  no inode has, and written to.
\<close>

lemma fs_file_change:
  assumes fs: "fs_ok d D" and m: "live d m" "m \<notin> D" "dir_blocks d m = []"
    and bs: "set bs \<subseteq> {23 ..< 128}" "\<forall>b \<in> set bs. block_used d b"
      "\<forall>k. live d k \<longrightarrow> set bs \<inter> set (dir_blocks d k) = {}"
    and frame: "agree (- ({inode_at m ..< inode_at m + 88} \<union> (\<Union>b \<in> set bs. block_bytes b))) d d2"
    and blocks: "distinct (dir_blocks d2 m)" "set (dir_blocks d2 m) \<subseteq> set bs" "direct d2 (inode_at m)"
  shows "fs_ok d2 D" "\<forall>k \<in> D. dir_map d2 k = dir_map d k" "\<forall>k. live d2 k = live d k"
     "\<forall>k. live d k \<and> k \<noteq> m \<longrightarrow> agree (dir_bytes d k) d d2"
proof -
  note f = fs_okD[OF fs]
  let ?i = "inode_at m" and ?B = "\<Union>b \<in> set bs. block_bytes b"
  have m32: "0 < m" "m \<le> 32" using m(1) by (auto simp: live_def)
  have at: "5120 \<le> ?i" "?i + 128 \<le> 9216" using inode_at_bounds[OF m32] by auto
  have b9: "set bs \<subseteq> {9 ..< 128}" using bs(1) by auto
  have low: "a \<notin> ?B" if "a < 9216" for a
  proof
    assume "a \<in> ?B"
    then obtain b where "b \<in> set bs" "a \<in> block_bytes b" by blast
    then show False using subsetD[OF b9, of b] that by (auto simp: block_bytes_def)
  qed
  have mb: "map_bytes \<subseteq> - ({?i ..< ?i + 88} \<union> ?B)"
  proof
    fix a assume "a \<in> map_bytes"
    then have "a < 4100" by (auto simp: map_bytes_def)
    then show "a \<in> - ({?i ..< ?i + 88} \<union> ?B)" using low[of a] at by simp
  qed
  note ua = used_agree[OF frame mb]
  have lv: "live d2 k = live d k" for k using ua(2)[of k] by (auto simp: live_def)
  have fr: "agree (dir_bytes d k) d d2" if k: "live d k" "k \<noteq> m" for k
  proof (rule agree_subset[OF frame])
    have "dir_bytes d k \<inter> block_bytes b = {}" if b: "b \<in> set bs" for b
      by (rule dir_bytes_block[OF k(1)]) (use b b9 bs(3) k(1) in auto)
    then show "dir_bytes d k \<subseteq> - ({?i ..< ?i + 88} \<union> ?B)"
      using dir_bytes_inode[OF fs k m32] by (auto simp: inode_bytes_def)
  qed
  have al: "alloc_ok d2"
  proof -
    have l: "load_le 4 d2 x = load_le 4 d x" if "x + 4 \<le> 5120" for x
    proof (rule agree_load[OF frame], rule subsetI)
      fix a assume "a \<in> {x ..< x + 4}"
      then show "a \<in> - ({?i ..< ?i + 88} \<union> ?B)" using that low[of a] at by simp
    qed
    have "geometry d2" using f(4) l by (simp add: geometry_def)
    moreover have "free_from d2 23 = free_from d 23" by (rule free_from_cong) (simp add: ua(1))
    moreover have "free_inodes_from d2 12 = free_inodes_from d 12"
      by (rule free_inodes_from_cong) (simp add: ua(2))
    moreover have "free_blocks d2 = free_blocks d" "free_inodes d2 = free_inodes d"
      using l by (simp_all add: free_blocks_def free_inodes_def)
    moreover have "direct d2 (inode_at k)" if k: "12 \<le> k" "k \<le> 32" "\<not> inode_used d2 k" for k
    proof -
      have nu: "\<not> inode_used d k" using ua(2)[of k] k by simp
      then have "k \<noteq> m" using m(1) by (auto simp: live_def)
      then have dj: "inode_bytes k \<inter> inode_bytes m = {}" using inode_bytes_disjoint[of k m] k m32 by simp
      have "agree {inode_at k ..< inode_at k + 128} d d2"
      proof (rule agree_subset[OF frame], rule subsetI)
        fix a assume a: "a \<in> {inode_at k ..< inode_at k + 128}"
        then have "a < 9216" using inode_at_bounds[of k] k by simp
        moreover have "a \<notin> {?i ..< ?i + 88}" using dj a by (auto simp: inode_bytes_def)
        ultimately show "a \<in> - ({?i ..< ?i + 88} \<union> ?B)" using low[of a] by simp
      qed
      from direct_agree[OF this subset_refl] show ?thesis using f(2) k nu by (simp add: alloc_ok_def)
    qed
    ultimately show ?thesis using f(2) by (simp add: alloc_ok_def)
  qed
  have "9 \<le> b \<and> b < 128 \<and> block_used d2 b" if "b \<in> set bs" for b
    using subsetD[OF b9 that] bs(2) that ua(1)[of b] by simp
  then have own: "owns d2 m"
    using subsetD[OF blocks(2)] blocks(1,3) by (auto simp: owns_def)
  have disj: "set (dir_blocks d2 m) \<inter> set (dir_blocks d k) = {}" if "live d k" for k
    using blocks(2) bs(3) that by blast
  have h: "\<forall>k. live d k \<and> k \<noteq> m \<longrightarrow> agree (dir_bytes d k) d d2 \<and> live d2 k"
    "\<forall>k. live d2 k \<and> k \<noteq> m \<longrightarrow> live d k"
    "\<forall>c. 9 \<le> c \<and> c < 128 \<and> block_used d c \<longrightarrow> live d m \<and> c \<in> set (dir_blocks d m) \<or> block_used d2 c"
    "live d2 m \<longrightarrow> owns d2 m \<and>
      (\<forall>k. live d k \<and> k \<noteq> m \<longrightarrow> set (dir_blocks d2 m) \<inter> set (dir_blocks d k) = {})"
    "D \<subseteq> D" "D \<subseteq> insert m D" "m \<in> D \<longrightarrow> live d2 m \<and> names_ok d2 D m"
    "live d2 m \<or> (\<forall>k \<in> D. k \<noteq> m \<longrightarrow> m \<notin> (fst \<circ> snd) ` set (dir_list d k))"
    using fr lv m(1,2) ua(1) own disj by auto
  note s = fs_change[OF fs al h]
  show "\<forall>k \<in> D. dir_map d2 k = dir_map d k"
  proof
    fix k assume k: "k \<in> D"
    then have "k \<noteq> m" using m(2) by blast
    then show "dir_map d2 k = dir_map d k" using s(3)[OF k] by (simp add: dir_map_def)
  qed
  show "fs_ok d2 D" by (rule s(1))
  show "\<forall>k. live d2 k = live d k" "\<forall>k. live d k \<and> k \<noteq> m \<longrightarrow> agree (dir_bytes d k) d d2"
    using lv fr by blast+
qed

lemma fs_write_file:
  assumes fs: "fs_ok d D" and m: "live d m" "m \<notin> D" "direct d (inode_at m)" "dir_blocks d m = []"
    and bs: "distinct bs" "set bs \<subseteq> {23 ..< 128}" "\<forall>b \<in> set bs. block_used d b"
      "\<forall>k. live d k \<longrightarrow> set bs \<inter> set (dir_blocks d k) = {}"
    and w: "length w \<le> 274432" "length bs = pieces (length w)"
  shows "\<exists>d1 d2. attach_loop 0 0 bs (inode_at m) d = Ret d1 \<and>
     data_loop [0..<INODE_BLOCK_LIMIT] bs (inode_at m) w d1 = Ret d2 \<and> fs_ok d2 D \<and>
     (\<forall>k \<in> D. dir_map d2 k = dir_map d k) \<and> (\<forall>k. live d2 k = live d k) \<and>
     (\<forall>k. live d k \<and> k \<noteq> m \<longrightarrow> agree (dir_bytes d k) d d2) \<and>
     dir_blocks d2 m = take 12 bs \<and> (\<forall>i < length bs. piece_in w d2 i (bs ! i))"
proof -
  note f = fs_okD[OF fs]
  let ?i = "inode_at m" and ?B = "\<Union>b \<in> set bs. block_bytes b"
  have m32: "0 < m" "m \<le> 32" using m(1) by (auto simp: live_def)
  have at: "5120 \<le> ?i" "?i + 128 \<le> 9216" using inode_at_bounds[OF m32] by auto
  obtain d1 where d1: "attach_loop 0 0 bs ?i d = Ret d1" "agree (- {?i + 40 ..< ?i + 88}) d d1" "direct d1 ?i"
    using attach_ok[OF m(3)] by blast
  have b9: "set bs \<subseteq> {9 ..< 128}" using bs(2) by auto
  have "length w \<le> 1024 * INODE_BLOCK_LIMIT" "pieces (length w) \<le> length bs" using w by (simp_all add: INODE_BLOCK_LIMIT_eq)
  from data_ok[OF le0 this bs(1) b9 at d1(3)] obtain d2 where
    d2: "data_loop [0..<INODE_BLOCK_LIMIT] bs ?i w d1 = Ret d2"
      "agree (- ({?i + 40 ..< ?i + 88} \<union> ?B)) d1 d2" "direct d2 ?i"
      "\<forall>i < 12. bnum d2 ?i i = (if i < INODE_BLOCK_LIMIT then if i < length bs then bs ! i else 0 else bnum d1 ?i i)"
      "\<forall>i < length bs. piece_in w d2 i (bs ! i)"
    using w(2) by (auto simp: INODE_BLOCK_LIMIT_eq)
  have frame: "agree (- ({?i + 40 ..< ?i + 88} \<union> ?B)) d d2"
    by (rule agree_trans[OF agree_subset[OF d1(2)] d2(2)]) auto
  have blocks: "dir_blocks d2 m = take 12 bs"
  proof -
    have "map (bnum d2 ?i) [0..<12] = map (\<lambda>i. if i < length bs then bs ! i else 0) [0..<12]"
      using d2(4) by (intro map_cong) (auto simp: INODE_BLOCK_LIMIT_eq)
    moreover have "0 \<notin> set bs" using b9 by auto
    note indexed_blocks[OF this, of 12]
    ultimately show ?thesis
      unfolding dir_blocks_def inode_blocks_def by (simp only:)
  qed
  have fr: "agree (- ({?i ..< ?i + 88} \<union> ?B)) d d2" by (rule agree_subset[OF frame]) auto
  have "distinct (dir_blocks d2 m)" "set (dir_blocks d2 m) \<subseteq> set bs"
    unfolding blocks using bs(1) by (simp_all add: set_take_subset)
  note s = fs_file_change[OF fs m(1,2,4) bs(2-4) fr this d2(3)]
  show ?thesis using d1(1) d2(1,5) s blocks by blast
qed

section \<open>Where the file goes\<close>

lemma follow_cong:
  assumes "tree_ok d D" "\<forall>k \<in> D. dir_map d' k = dir_map d k" "n \<in> D"
  shows "follow (dir_map d') n names = follow (dir_map d) n names"
  using assms(3)
proof (induction names arbitrary: n)
  case (Cons c cs)
  have "dir_map d' n = dir_map d n" using assms(2) Cons.prems by blast
  moreover have "follow (dir_map d') m cs = follow (dir_map d) m cs"
    if "dir_map d n c = Some (m, EXT2_FT_DIR)" for m
    by (rule Cons.IH[OF dir_map_range(3)[OF assms(1) Cons.prems that refl]])
  ultimately show ?case by (auto split: option.splits)
qed simp

lemma resolve_cong:
  "tree_ok d D \<Longrightarrow> \<forall>k \<in> D. dir_map d' k = dir_map d k \<Longrightarrow> resolve d' names = resolve d names"
  unfolding resolve_def by (rule follow_cong) (auto simp: tree_ok_def)

text \<open>Into a directory the file goes with its own name, otherwise the path is the new name.\<close>

definition cp_names :: "bytes \<Rightarrow> string \<Rightarrow> string \<Rightarrow> string list" where
  "cp_names d source dest =
     (case resolve d (comps dest) of
        Some (_, t) \<Rightarrow> if t = EXT2_FT_DIR then comps dest @ [last (comps source)] else comps dest
      | None \<Rightarrow> comps dest)"

lemma cp_names_ne: "cp_names d source dest \<noteq> []" "[] \<notin> set (cp_names d source dest)"
  using last_comps_ne[of source] by (auto simp: cp_names_def split: option.splits)

definition cp_rest :: "nat \<Rightarrow> u8 list \<Rightarrow> string dlist \<Rightarrow> string \<Rightarrow> nat option \<Rightarrow> bytes \<Rightarrow> bytes fsres" where
  "cp_rest now content dest_components name dest_entry d =
     (let f_size = length content; num_blocks_needed = get_required_block_count f_size in
      bind_f (allocate_blocks d num_blocks_needed) (\<lambda>(blocks, d).
      bind_f (traverse_path d dest_components) (\<lambda>dst_parent_entry.
      if dst_parent_entry = None then Quit EEXIST d
      else
        bind_f (cp_inode now d dest_entry dst_parent_entry (Some name) f_size num_blocks_needed)
          (\<lambda>(inode, d).
        bind_f (attach_loop 0 0 blocks inode d) (\<lambda>d.
        bind_f (data_loop [0..<INODE_BLOCK_LIMIT] blocks inode content d) (\<lambda>d.
        bind_f (wr 2 d (inode + i_mode) EXT2_FT_REG_FILE) (\<lambda>d.
        bind_f (wr 4 d (inode + i_ctime) now) (\<lambda>d.
        bind_f (wr 4 d (inode + i_dtime) 0) (\<lambda>d.
        bind_f (wr 4 d (inode + i_blocks) (num_blocks_needed * 2)) (\<lambda>d.
        wr 4 d (inode + i_size) f_size))))))))))"

lemma cp_split:
  assumes t: "tree_ok d D"
  obtains l e where "dl_inv l" "dl_abs l = map Some (butlast (cp_names d source dest))"
    "points d D e (resolve d (cp_names d source dest))"
    "ext2_cp now files d source dest =
      (case files (strtok_buffer source) of None \<Rightarrow> Quit ENOENT d
       | Some content \<Rightarrow> cp_rest now content l (last (cp_names d source dest)) e d)"
proof -
  let ?n = "cp_names d source dest"
  obtain ls where ls: "split_path source = Ret ls" "dl_inv ls" "dl_abs ls = map Some (comps source)"
    using split_path_ok[of source] by (metis comps_def)
  obtain ls' where ls': "listPop ls = Ok (Some (last (comps source)), ls')"
    using popped[OF ls(2,3)] by auto
  obtain ld e0 where ld: "split_path dest = Ret ld" "dl_inv ld" "dl_abs ld = map Some (comps dest)"
    "traverse_path d ld = Ret e0" "points d D e0 (resolve d (comps dest))"
    using traverse_split[OF t, of dest] by (metis comps_def)
  have "\<exists>dir. is_directory d e0 = Ret dir \<and> (dir \<longleftrightarrow> (\<exists>m. resolve d (comps dest) = Some (m, EXT2_FT_DIR)))"
  proof (cases e0)
    case None
    then have "resolve d (comps dest) = None" using ld(5) by (simp add: points_def)
    then show ?thesis unfolding None by (intro exI[of _ False]) (simp add: is_directory_def has_type_def)
  next
    case (Some a)
    then have "resolve d (comps dest) = Some (einode d a, ftype d a)" "a + 8 \<le> DISK_SIZE"
      using ld(5) by (simp_all add: points_def)
    then show ?thesis unfolding Some by (simp add: is_directory_ok)
  qed
  then obtain dir where dir: "is_directory d e0 = Ret dir"
    "dir \<longleftrightarrow> (\<exists>m. resolve d (comps dest) = Some (m, EXT2_FT_DIR))" by blast
  have step: "\<exists>l e. dl_inv l \<and> dl_abs l = map Some ?n \<and> points d D e (resolve d ?n) \<and>
      (if dir then bind_f (of_list_op (listAppend ld (Some (last (comps source))))) (\<lambda>c.
          bind_f (traverse_path d c) (\<lambda>e. Ret (e, c))) else Ret (e0, ld)) = Ret (e, l)"
  proof (cases dir)
    case False
    then have "?n = comps dest" using dir(2) by (auto simp: cp_names_def split: option.splits)
    then show ?thesis using False ld by auto
  next
    case True
    then have n: "?n = comps dest @ [last (comps source)]" using dir(2) by (auto simp: cp_names_def)
    obtain l where l: "listAppend ld (Some (last (comps source))) = Ok l" "dl_inv l" "dl_abs l = map Some ?n"
      using listAppend_ok[OF ld(2), of "Some (last (comps source))"] ld(3) n by auto
    obtain e where "traverse_path d l = Ret e" "points d D e (resolve d ?n)"
      using traverse_names[OF t l(2,3)] cp_names_ne by blast
    then show ?thesis using True l by auto
  qed
  then obtain l e where l: "dl_inv l" "dl_abs l = map Some ?n" "points d D e (resolve d ?n)"
    and st: "(if dir then bind_f (of_list_op (listAppend ld (Some (last (comps source))))) (\<lambda>c.
          bind_f (traverse_path d c) (\<lambda>e. Ret (e, c))) else Ret (e0, ld)) = Ret (e, l)" by blast
  obtain l' where l': "listPop l = Ok (Some (last ?n), l')" "dl_inv l'" "dl_abs l' = map Some (butlast ?n)"
    using popped[OF l(1,2) cp_names_ne(1)] by auto
  have "ext2_cp now files d source dest =
      (case files (strtok_buffer source) of None \<Rightarrow> Quit ENOENT d
       | Some content \<Rightarrow> cp_rest now content l' (last ?n) e d)"
    using ls(1) ls' ld(1,4) dir(1) st l'(1)
    by (simp add: ext2_cp_def cp_rest_def Let_def cong: option.case_cong)
  then show thesis using that l'(2,3) l(3) by blast
qed

section \<open>A new file\<close>

definition cp_room :: "bytes \<Rightarrow> nat \<Rightarrow> nat \<Rightarrow> nat \<Rightarrow> bool" where
  "cp_room d p k sz \<longleftrightarrow> sz \<le> 274432 \<and> 0 < free_inodes d \<and> pieces sz \<le> free_blocks d \<and>
     ((\<exists>b \<in> set (dir_blocks d p). room_in d k b) \<or>
      pieces sz < free_blocks d \<and> (\<exists>i < 12. bnum d (inode_at p) i = 0))"

lemma cp_header_ok:
  assumes "inode + 32 \<le> DISK_SIZE"
  shows "bind_f (wr 2 d (inode + i_mode) EXT2_FT_REG_FILE) (\<lambda>d.
        bind_f (wr 4 d (inode + i_ctime) now) (\<lambda>d.
        bind_f (wr 4 d (inode + i_dtime) 0) (\<lambda>d.
        bind_f (wr 4 d (inode + i_blocks) (n * 2)) (\<lambda>d.
        wr 4 d (inode + i_size) sz)))) = Ret (cp_header now n sz inode d)"
    and "load_le 4 (cp_header now n sz inode d) (inode + 4) = sz mod 2 ^ 32"
  using assms
  by (simp_all add: cp_header_def i_mode_def i_ctime_def i_dtime_def i_blocks_def i_size_def load_store_simps)

lemma cp_rest_ok:
  assumes fs: "fs_ok d D" and l: "dl_inv l" "dl_abs l = map Some names" "names \<noteq> []" "[] \<notin> set names"
    and p: "resolve d names = Some (p, EXT2_FT_DIR)" and new: "dir_map d p name = None"
    and name: "length name < 256" "name \<noteq> []" and room: "cp_room d p (length name) (length w)"
  shows "\<exists>m d'. cp_rest now w l name None d = Ret d' \<and> \<not> live d m \<and> fs_ok d' D \<and>
     (\<forall>k \<in> D. dir_map d' k = ((dir_map d)(p := (dir_map d p)(name \<mapsto> (m, EXT2_FT_REG_FILE)))) k) \<and>
     (\<forall>k. live d' k = (live d k \<or> k = m)) \<and> (\<forall>k. live d k \<and> k \<noteq> p \<longrightarrow> agree (dir_bytes d k) d d') \<and>
     i_size_of d' m = length w \<and> file_bytes d' m = take 12288 w"
proof -
  note f = fs_okD[OF fs]
  have pD: "p \<in> D" using resolve_range[OF f(1) p] by simp
  let ?n = "pieces (length w)"
  have w: "length w \<le> 274432" "get_required_block_count (length w) = ?n"
    using room required_blocks by (auto simp: cp_room_def)
  have nb: "?n \<le> free_blocks d" and fi: "0 < free_inodes d" using room by (auto simp: cp_room_def)
  define bs d1 where "bs = take ?n (free_from d 23)" and "d1 = claims (take ?n (free_from d 23)) (bump_blocks (- int ?n) d)"
  note c = fs_claims[OF fs nb, folded bs_def d1_def]
  note f1 = fs_okD[OF c(2)]
  have dm1: "\<forall>k \<in> D. dir_map d1 k = dir_map d k" using c(3) by (simp add: dir_map_def)
  have p1: "resolve d1 names = Some (p, EXT2_FT_DIR)" using resolve_cong[OF f(1) dm1] p by simp
  obtain e where e: "traverse_path d1 l = Ret e" "points d1 D e (resolve d1 names)"
    using traverse_names[OF f1(1) l(1,2,4,3)] by blast
  then obtain a where a: "e = Some a" "einode d1 a = p" "a + 8 \<le> DISK_SIZE" "located d1 D a"
    using p1 by (auto simp: points_def split: option.splits)
  have "free_inodes_from d1 12 \<noteq> []" using f1(2) fi c(8) by (auto simp: alloc_ok_def)
  then obtain m ns where m: "free_inodes_from d1 12 = m # ns" by (cases "free_inodes_from d1 12") auto
  have fi1: "0 < free_inodes d1" using fi c(8) by simp
  have "m \<in> set (free_inodes_from d1 12)" using m by simp
  then have m12: "12 \<le> m" "m \<le> 32" "\<not> inode_used d1 m" by (auto simp: free_inodes_from_mem)
  have dm: "direct d1 (inode_at m)" using f1(2) m12 by (simp add: alloc_ok_def)
  define d2 where "d2 = fill_inode EXT2_FT_REG_FILE (length w) now (inode_at m) (fresh_inode m d1)"
  have r2: "allocate_file_inode now d1 (length w) = Ret (m, d2)"
    unfolding d2_def allocate_file_inode_def by (rule allocate_plain_inode_ok[OF f1(4) fi1 m dm])
  have "agree (- ({inode_at m ..< inode_at m + 32} \<union> {2064 ..< 2066})) (fresh_inode m d1) d2"
    unfolding d2_def by (rule agree_fill_inode) auto
  then have fl: "fresh_like m d1 d2"
    using fresh_like_fill[OF fresh_like_fresh[OF f1(4) m12(1,2) fi1 dm]] m12 by simp
  note F = fs_fresh[OF c(2) fl m fi1 disjI1[OF refl]]
  note f2 = fs_okD[OF F(1)]
  have lp: "live d p" "live d1 p" using f(6)[OF pD] c(4) by auto
  have mp: "m \<noteq> p" using F(4) lp by blast
  have mD: "m \<notin> D" using F(4) f1(6) by blast
  have l2: "live d2 m" "live d2 p" using F(3) lp by auto
  have gi: "get_inode d2 m = Ret (inode_at m)" using get_inode_ok[OF f2(4)] m12 by simp
  have dks: "\<forall>k \<in> D. dir_ok d1 k" "\<forall>k \<in> D. agree (dir_bytes d1 k) d1 d2" using f1(8) F(9) f1(6) by blast+
  have pa: "einode d2 a = p" using entry_at_fields[OF located_frame(1)[OF a(4) dks]] a(2) by simp
  have "0 < p" "p \<le> 32" using lp(1) by (simp_all add: live_def)
  then have gp: "get_inode_from_entry d2 (Some a) = Ret (Some (inode_at p))"
    using get_entry_inode_ok[OF f2(4) a(3)] unfolding pa by blast
  have frame2: "agree (dir_bytes d k) d d2" if k: "live d k" for k
  proof -
    have "dir_bytes d1 k = dir_bytes d k" using dir_frame(1)[OF c(5)[OF k]] by (simp add: dir_bytes_def)
    moreover have "live d1 k" using c(4) k by simp
    ultimately show ?thesis using agree_trans[OF c(5)[OF k]] F(9) by metis
  qed
  have new2: "dir_map d2 p name = None" using F(8)[OF pD] dm1 pD new by simp
  have add: "can_add d2 p (length name)"
  proof (cases "\<exists>b \<in> set (dir_blocks d p). room_in d (length name) b")
    case True
    from room_frame(1)[OF frame2[OF lp(1)] f(8)[OF pD] this] show ?thesis by (auto simp: can_add_def)
  next
    case False
    then obtain i where i: "?n < free_blocks d" "i < 12" "bnum d (inode_at p) i = 0"
      using room by (auto simp: cp_room_def)
    have "free_blocks d2 = free_blocks d - ?n" using fl c(7) by (simp add: fresh_like_def)
    then show ?thesis using room_frame(2)[OF frame2[OF lp(1)] f(8)[OF pD] i(2)] i by (auto simp: can_add_def)
  qed
  have ft: "EXT2_FT_REG_FILE = EXT2_FT_DIR \<Longrightarrow> m \<in> D" "EXT2_FT_REG_FILE < 256"
    by (simp_all add: EXT2_FT_REG_FILE_def EXT2_FT_DIR_def)
  from fs_make_entry[OF F(1) pD new2 l2(1) ft name add] obtain e3 d3 where
    3: "make_entry_in_inode d2 (inode_at p) m name EXT2_FT_REG_FILE = Ret (Some e3, d3)"
       "enters d2 D p name (m, EXT2_FT_REG_FILE) d3" by blast
  then have fs3: "fs_ok d3 D" and g3: "grows d2 p d3" by (auto simp: enters_def)
  note G = grows_frame[OF F(1) l2(2) g3]
  have lv3: "live d3 k = (live d k \<or> k = m)" for k using G(1) F(3) c(4) by simp
  have m3: "live d3 m" using lv3 by simp
  have bm3: "dir_blocks d3 m = []" using G(3)[OF l2(1) mp] fl by (simp add: fresh_like_def)
  have am3: "agree (dir_bytes d2 m) d2 d3" by (rule G(2)[OF l2(1) mp])
  have dr3: "direct d3 (inode_at m)"
    using direct_agree[OF am3, of "inode_at m"] fl by (simp add: dir_bytes_def inode_bytes_def fresh_like_def)
  have used3: "block_used d3 c = (block_used d2 c \<or> c \<in> set (dir_blocks d3 p))" if "0 < c" "c < 129" for c
    using g3 that by (simp add: grows_def)
  have bu2: "block_used d2 b" if "b \<in> set bs" for b
    using that c(6)[of b] subsetD[OF c(11) that] fl by (auto simp: fresh_like_def)
  have bu3: "\<forall>b \<in> set bs. block_used d3 b"
  proof
    fix b assume b: "b \<in> set bs"
    then show "block_used d3 b" using used3[of b] bu2 subsetD[OF c(11) b] by simp
  qed
  have own3: "\<forall>k. live d3 k \<longrightarrow> set bs \<inter> set (dir_blocks d3 k) = {}"
  proof (intro allI impI)
    fix k assume k: "live d3 k"
    have free: "set bs \<inter> set (dir_blocks d j) = {}" if "live d j" for j
      using f(10)[OF that] c(12) by (auto simp: owns_def)
    have same2: "dir_blocks d2 j = dir_blocks d j" if "live d j" for j by (rule dir_frame(1)[OF frame2[OF that]])
    consider "k = m" | "k = p" | "live d k" "k \<noteq> p" using k lv3 by blast
    then show "set bs \<inter> set (dir_blocks d3 k) = {}"
    proof cases
      case 1
      then show ?thesis using bm3 by simp
    next
      case 2
      have sub: "\<forall>b \<in> set (dir_blocks d3 p) - set (dir_blocks d2 p). 23 \<le> b \<and> b < 128 \<and> \<not> block_used d2 b"
        using g3 unfolding grows_def by (elim conjE)
      have "b \<notin> set (dir_blocks d3 p)" if b: "b \<in> set bs" for b
      proof -
        have "b \<notin> set (dir_blocks d2 p)" using b free[OF lp(1)] unfolding same2[OF lp(1)] by blast
        then show ?thesis using bspec[OF sub, of b] bu2[OF b] by blast
      qed
      then show ?thesis unfolding 2 by blast
    next
      case 3
      have "live d2 k" using F(3) c(4) 3 by simp
      then show ?thesis using G(3) 3 same2 free by simp
    qed
  qed
  have lw: "length bs = pieces (length w)" by (rule c(9))
  from fs_write_file[OF fs3 m3 mD dr3 bm3 c(10,11) bu3 own3 w(1) lw] obtain d4 d5 where
    5: "attach_loop 0 0 bs (inode_at m) d3 = Ret d4" "data_loop [0..<INODE_BLOCK_LIMIT] bs (inode_at m) w d4 = Ret d5"
       "fs_ok d5 D" "\<forall>k \<in> D. dir_map d5 k = dir_map d3 k" "\<forall>k. live d5 k = live d3 k"
       "\<forall>k. live d3 k \<and> k \<noteq> m \<longrightarrow> agree (dir_bytes d3 k) d3 d5"
       "dir_blocks d5 m = take 12 bs" "\<forall>i < length bs. piece_in w d5 i (bs ! i)" by blast
  let ?d6 = "cp_header now ?n (length w) (inode_at m) d5"
  have at: "5120 \<le> inode_at m" "inode_at m + 128 \<le> 9216" using inode_at_bounds[of m] m12 by auto
  have "inode_at m + 32 \<le> DISK_SIZE" using at by (simp add: DISK_SIZE_def)
  note hd = cp_header_ok[OF this]
  have "live d5 m" using 5(5) m3 by simp
  note H = fs_header[OF 5(3) this agree_cp_header]
  have run: "cp_rest now w l name None d = Ret ?d6"
    using c(1) e(1) a(1) w r2 gi gp 3(1) 5(1,2) hd(1)
    by (simp add: cp_rest_def cp_inode_def Let_def deref_string_def INODE_BLOCK_LIMIT_eq pieces_def)
  have lv6: "live ?d6 k = (live d k \<or> k = m)" for k using H(3) 5(5) lv3 by simp
  have dm6: "dir_map ?d6 k = ((dir_map d)(p := (dir_map d p)(name \<mapsto> (m, EXT2_FT_REG_FILE)))) k" if k: "k \<in> D" for k
  proof -
    have "dir_map ?d6 k = dir_map d3 k" using H(2)[OF k] 5(4) k by simp
    also have "\<dots> = ((dir_map d2)(p := (dir_map d2 p)(name \<mapsto> (m, EXT2_FT_REG_FILE)))) k"
      using 3(2) k by (simp add: enters_def)
    finally show ?thesis using F(8)[OF k] F(8)[OF pD] dm1 k pD by (simp add: fun_upd_def)
  qed
  have frame6: "agree (dir_bytes d k) d ?d6" if k: "live d k" "k \<noteq> p" for k
  proof -
    have km: "k \<noteq> m" using k(1) F(4) c(4) by blast
    have k2: "live d2 k" and k3: "live d3 k" and k5: "live d5 k" using k(1) lv3 5(5) F(3) c(4) by auto
    have a3: "agree (dir_bytes d2 k) d2 d3" by (rule G(2)[OF k2 k(2)])
    have a5: "agree (dir_bytes d3 k) d3 d5" using 5(6) k3 km by blast
    have a6: "agree (dir_bytes d5 k) d5 ?d6" by (rule H(5)[OF k5 km])
    have eq: "dir_bytes d2 k = dir_bytes d k" "dir_bytes d3 k = dir_bytes d2 k" "dir_bytes d5 k = dir_bytes d3 k"
      using dir_frame(1)[OF frame2[OF k(1)]] dir_frame(1)[OF a3] dir_frame(1)[OF a5] by (simp_all add: dir_bytes_def)
    show ?thesis
      using agree_trans[OF frame2[OF k(1)] agree_trans[OF a3[unfolded eq] agree_trans[OF a5[unfolded eq] a6[unfolded eq]]]] .
  qed
  have size: "i_size_of ?d6 m = length w" using hd(2) w(1) by (simp add: i_size_of_def)
  have bm6: "dir_blocks ?d6 m = take 12 bs" using H(4)[OF \<open>live d5 m\<close>] 5(7) by simp
  have data: "map (block_data ?d6) (take 12 bs) = map (block_data d5) (take 12 bs)"
  proof (rule map_cong[OF refl])
    fix b assume "b \<in> set (take 12 bs)"
    then have "23 \<le> b" using c(11) by (auto dest: in_set_takeD)
    then have "?d6 (1024 * b + i) = d5 (1024 * b + i)" for i
      using agree_cp_header[of "inode_at m" d5 now ?n "length w"] at by (auto simp: agree_def)
    then show "block_data ?d6 b = block_data d5 b" by (simp only: block_data_def)
  qed
  have pc: "\<And>i. i < length (take 12 bs) \<Longrightarrow> piece_in w d5 (0 + i) (take 12 bs ! i)"
    using 5(8) by simp
  have "file_bytes ?d6 m = take (1024 * length (take 12 bs)) w"
    using read_pieces[OF pc] unfolding file_bytes_def size bm6 data by simp
  also have "\<dots> = take 12288 w"
  proof (cases "length bs \<le> 12")
    case True
    then have "length w \<le> 1024 * length bs" unfolding lw pieces_def by linarith
    moreover have "1024 * length bs \<le> 12288" using True by simp
    ultimately show ?thesis using True by simp
  next
    case False
    then show ?thesis by (simp add: min_def)
  qed
  finally have fb: "file_bytes ?d6 m = take 12288 w" .
  have "\<not> live d m" using F(4) c(4) by simp
  then show ?thesis using run lv6 dm6 frame6 size fb H(1) by blast
qed

text \<open>The new file of \<open>ext2_cp\<close>, for a source of any size the code accepts.\<close>

definition copied :: "bytes \<Rightarrow> nat set \<Rightarrow> nat \<Rightarrow> string \<Rightarrow> u8 list \<Rightarrow> nat \<Rightarrow> bytes \<Rightarrow> bool" where
  "copied d D p name w m d' \<longleftrightarrow> \<not> live d m \<and> fs_ok d' D \<and>
     (\<forall>k \<in> D. dir_map d' k = ((dir_map d)(p := (dir_map d p)(name \<mapsto> (m, EXT2_FT_REG_FILE)))) k) \<and>
     (\<forall>k. live d' k = (live d k \<or> k = m)) \<and> (\<forall>k. live d k \<and> k \<noteq> p \<longrightarrow> agree (dir_bytes d k) d d') \<and>
     i_size_of d' m = length w"

lemma cp_new_ok:
  fixes d :: bytes and source dest :: string
  defines "names \<equiv> cp_names d source dest"
  assumes fs: "fs_ok d D" and w: "files (strtok_buffer source) = Some w"
    and p: "butlast names \<noteq> []" "resolve d (butlast names) = Some (p, EXT2_FT_DIR)"
    and new: "dir_map d p (last names) = None" and len: "length (last names) < 256"
    and room: "cp_room d p (length (last names)) (length w)"
  shows "\<exists>m d'. ext2_cp now files d source dest = Ret d' \<and> copied d D p (last names) w m d' \<and>
     file_bytes d' m = take 12288 w"
proof -
  note f = fs_okD[OF fs]
  obtain l e where c: "dl_inv l" "dl_abs l = map Some (butlast names)" "points d D e (resolve d names)"
    "ext2_cp now files d source dest =
      (case files (strtok_buffer source) of None \<Rightarrow> Quit ENOENT d
       | Some content \<Rightarrow> cp_rest now content l (last names) e d)"
    unfolding names_def by (rule cp_split[OF f(1)])
  have ne: "names \<noteq> []" "[] \<notin> set names" using cp_names_ne unfolding names_def by blast+
  have "resolve d (butlast names @ [last names]) = dir_map d p (last names)"
    using p(2) unfolding resolve_def follow_snoc by simp
  then have "resolve d names = None" using ne(1) new by simp
  then have "e = None" using c(3) by (cases e) (auto simp: points_def)
  moreover have "last names \<noteq> []" using ne by (metis last_in_set)
  moreover have "[] \<notin> set (butlast names)" using ne(2) in_set_butlastD by metis
  ultimately show ?thesis
    using cp_rest_ok[OF fs c(1,2) p(1) _ p(2) new len _ room, of now] c(4) w by (auto simp: copied_def)
qed

lemma cp_no_source:
  "tree_ok d D \<Longrightarrow> files (strtok_buffer source) = None \<Longrightarrow> ext2_cp now files d source dest = Quit ENOENT d"
  by (rule cp_split[of d D source dest now files]) auto

section \<open>Copies that are refused\<close>

text \<open>
  The blocks of a file are allocated before the parent directory is looked up and before the
  inode is allocated; refused there, \<open>ext2_cp\<close> leaves them marked as used. Nothing else changed.
\<close>

definition leaks_blocks :: "bytes \<Rightarrow> nat set \<Rightarrow> nat \<Rightarrow> bytes \<Rightarrow> bool" where
  "leaks_blocks d D n d' \<longleftrightarrow> (\<exists>bs. length bs = n \<and> distinct bs \<and> set bs \<subseteq> {23 ..< 128} \<and>
     (\<forall>b \<in> set bs. \<not> block_used d b) \<and>
     (\<forall>b. 0 < b \<and> b < 129 \<longrightarrow> block_used d' b = (b \<in> set bs \<or> block_used d b)) \<and>
     free_blocks d' = free_blocks d - n \<and> fs_ok d' D \<and> (\<forall>k \<in> D. dir_list d' k = dir_list d k) \<and>
     (\<forall>k. live d' k = live d k) \<and> (\<forall>k. live d k \<longrightarrow> agree (dir_bytes d k) d d'))"

lemma cp_no_blocks:
  assumes t: "tree_ok d D" and w: "files (strtok_buffer source) = Some w"
    and n: "free_blocks d < get_required_block_count (length w)"
  shows "ext2_cp now files d source dest = Quit 1 d"
proof -
  obtain l e where "ext2_cp now files d source dest =
      (case files (strtok_buffer source) of None \<Rightarrow> Quit ENOENT d
       | Some content \<Rightarrow> cp_rest now content l (last (cp_names d source dest)) e d)"
    by (rule cp_split[OF t])
  then show ?thesis using w n by (simp add: cp_rest_def Let_def allocate_blocks_refused)
qed

lemma cp_refused_late:
  fixes d :: bytes and source dest :: string
  defines "names \<equiv> cp_names d source dest"
  assumes fs: "fs_ok d D" and w: "files (strtok_buffer source) = Some w" and dest: "tokens dest \<noteq> []"
    and n: "get_required_block_count (length w) \<le> free_blocks d"
  shows "resolve d (butlast names) = None \<Longrightarrow> \<exists>d'. ext2_cp now files d source dest = Quit EEXIST d' \<and>
           leaks_blocks d D (get_required_block_count (length w)) d'"
    and "resolve d (butlast names) \<noteq> None \<Longrightarrow> resolve d names = None \<Longrightarrow>
         INODE_BLOCK_LIMIT < get_required_block_count (length w) \<or> free_inodes d = 0 \<Longrightarrow>
         \<exists>d'. ext2_cp now files d source dest = Quit 1 d' \<and>
           leaks_blocks d D (get_required_block_count (length w)) d'"
proof -
  note f = fs_okD[OF fs]
  let ?n = "get_required_block_count (length w)"
  obtain l e where l: "dl_inv l" "dl_abs l = map Some (butlast names)" "points d D e (resolve d names)"
    "ext2_cp now files d source dest =
      (case files (strtok_buffer source) of None \<Rightarrow> Quit ENOENT d
       | Some content \<Rightarrow> cp_rest now content l (last names) e d)"
    unfolding names_def by (rule cp_split[OF f(1)])
  define d1 where "d1 = claims (take ?n (free_from d 23)) (bump_blocks (- int ?n) d)"
  note c = fs_claims[OF fs n, folded d1_def]
  have leak: "leaks_blocks d D ?n d1"
    unfolding leaks_blocks_def
    using c(2-7,9-12) by (intro exI[of _ "take ?n (free_from d 23)"] conjI) blast+
  have dm1: "\<forall>k \<in> D. dir_map d1 k = dir_map d k" using c(3) by (simp add: dir_map_def)
  have ne: "butlast names \<noteq> []" "[] \<notin> set (butlast names)"
    using dest cp_names_ne(2)[of d source dest]
    by (auto simp: names_def cp_names_def comps_def split: option.splits dest: in_set_butlastD)
  obtain p where p: "traverse_path d1 l = Ret p" "points d1 D p (resolve d (butlast names))"
    using traverse_names[OF fs_okD(1)[OF c(2)] l(1,2) ne(2,1)] resolve_cong[OF f(1) dm1] by metis
  have p0: "p = None \<longleftrightarrow> resolve d (butlast names) = None"
    using p(2) by (cases p) (auto simp: points_def)
  have e0: "e = None \<longleftrightarrow> resolve d names = None" using l(3) by (cases e) (auto simp: points_def)
  show "resolve d (butlast names) = None \<Longrightarrow> \<exists>d'. ext2_cp now files d source dest = Quit EEXIST d' \<and>
      leaks_blocks d D ?n d'"
    using l(4) w c(1) p(1) p0 leak by (simp add: cp_rest_def Let_def)
  have "free_inodes d = 0 \<Longrightarrow> allocate_file_inode now d1 (length w) = Quit 1 d1"
    using c(8) by (simp add: allocate_file_inode_def allocate_plain_inode_def allocate_inode_refused)
  then show "resolve d (butlast names) \<noteq> None \<Longrightarrow> resolve d names = None \<Longrightarrow>
      INODE_BLOCK_LIMIT < ?n \<or> free_inodes d = 0 \<Longrightarrow>
      \<exists>d'. ext2_cp now files d source dest = Quit 1 d' \<and> leaks_blocks d D ?n d'"
    using l(4) w c(1) p(1) p0 e0 leak by (auto simp: cp_rest_def cp_inode_def Let_def)
qed

end
