(* ===== verification/Ext2_Ln.thy ===== *)
theory Ext2_Ln
  imports Ext2_Cp
begin

text \<open>
  Links: which paths \<open>ext2_ln\<close> refuses, and that a hard link enters the inode of the source
  under the new name and counts one link more. \<open>ln_soft\<close> is what is left to do for a symbolic link.
\<close>

definition ln_error :: "bytes \<Rightarrow> string \<Rightarrow> string \<Rightarrow> int option" where
  "ln_error d source dest =
     (case resolve d (comps source) of
        None \<Rightarrow> Some ENOENT
      | Some (_, t) \<Rightarrow>
          if t = EXT2_FT_DIR then Some EISDIR
          else case resolve d (comps dest) of
                 Some (_, u) \<Rightarrow> Some (if u = EXT2_FT_DIR then EISDIR else EEXIST)
               | None \<Rightarrow>
                   if tokens dest = [] \<or> resolve d (butlast (comps dest)) = None then Some EEXIST else None)"

definition ln_hard :: "bytes \<Rightarrow> nat \<Rightarrow> nat \<Rightarrow> string \<Rightarrow> bytes fsres" where
  "ln_hard d src parent name =
     bind_f (get_inode_from_entry d (Some parent)) (\<lambda>i.
     case i of
       None \<Rightarrow> Fault
     | Some dst_parent_inode \<Rightarrow>
         bind_f
           (bind_f (rd 4 d (src + e_inode)) (\<lambda>n.
            bind_f (make_entry_in_inode d dst_parent_inode n name EXT2_FT_REG_FILE) (\<lambda>(attempt, d).
            bind_f (rd 4 d (src + e_inode)) (\<lambda>n.
            bind_f (get_inode d n) (\<lambda>src_inode.
            bind_f (add_field 2 d (src_inode + i_links_count) 1) (\<lambda>d.
            Ret (attempt, d)))))))
           (\<lambda>(attempt, d). if attempt = None then Quit 1 d else Ret d))"

definition ln_soft :: "nat \<Rightarrow> bytes \<Rightarrow> nat \<Rightarrow> string \<Rightarrow> string \<Rightarrow> bytes fsres" where
  "ln_soft now d parent source name =
     bind_f (get_inode_from_entry d (Some parent)) (\<lambda>i.
     case i of
       None \<Rightarrow> Fault
     | Some dst_parent_inode \<Rightarrow>
         bind_f
           (bind_f (allocate_link_inode now d source) (\<lambda>(sym_inode_num, d).
            bind_f (get_inode d sym_inode_num) (\<lambda>sym_inode.
            bind_f (write_path_to_symlink_inode d sym_inode source) (\<lambda>d.
            bind_f (make_entry_in_inode d dst_parent_inode sym_inode_num name EXT2_FT_SYMLINK)
              (\<lambda>(attempt, d).
            if attempt = None
            then bind_f (free_inode now d sym_inode_num) (\<lambda>d. Ret (attempt, d))
            else Ret (attempt, d))))))
           (\<lambda>(attempt, d). if attempt = None then Quit 1 d else Ret d))"

lemma is_directory_points:
  "points d D e v \<Longrightarrow> is_directory d e = Ret (\<exists>m. v = Some (m, EXT2_FT_DIR))"
proof (cases e)
  case None
  then show "points d D e v \<Longrightarrow> ?thesis" by (simp add: points_def is_directory_def has_type_def)
next
  case (Some a)
  assume "points d D e v"
  then have "v = Some (einode d a, ftype d a)" "a + 8 \<le> DISK_SIZE" using Some by (simp_all add: points_def)
  then show ?thesis unfolding Some by (simp add: is_directory_ok)
qed

lemma points_None: "points d D e v \<Longrightarrow> e = None \<longleftrightarrow> v = None"
  by (cases e) (auto simp: points_def)

lemma traverse_empty:
  assumes "tree_ok d D" "dl_inv l" "dl_abs l = []"
  shows "traverse_path d l = Ret None"
proof -
  have "count l = 0" using length_dl_abs[OF assms(2)] assms(3) by simp
  moreover have "get_root_inode d = Ret (inode_at 2)" using assms(1) get_root_inode_ok by (simp add: tree_ok_def)
  ultimately show ?thesis by (simp add: traverse_path_def)
qed

lemma ln_split:
  assumes t: "tree_ok d D"
  shows "(\<exists>c. ln_error d source dest = Some c \<and> ext2_ln now d source dest sl = Quit c d) \<or>
    (\<exists>s a v. ln_error d source dest = None \<and>
       ext2_ln now d source dest sl =
         (if sl then ln_soft now d a (strtok_buffer source) (last (comps dest))
          else ln_hard d s a (last (comps dest))) \<and>
       points d D (Some s) (resolve d (comps source)) \<and>
       points d D (Some a) (resolve d (butlast (comps dest))))"
proof -
  let ?s = "resolve d (comps source)" and ?t = "resolve d (comps dest)"
  obtain ls s where ls: "split_path source = Ret ls" "traverse_path d ls = Ret s" "points d D s ?s"
    using traverse_split[OF t, of source] by (metis comps_def)
  obtain ld e where ld: "split_path dest = Ret ld" "dl_inv ld" "dl_abs ld = map Some (comps dest)"
    "traverse_path d ld = Ret e" "points d D e ?t"
    using traverse_split[OF t, of dest] by (metis comps_def)
  obtain l1 where l1: "listPop ld = Ok (Some (last (comps dest)), l1)" "dl_inv l1"
    "dl_abs l1 = map Some (butlast (comps dest))"
    using popped[OF ld(2,3)] by auto
  have "\<exists>f. traverse_path d l1 = Ret f \<and>
      (f = None \<longleftrightarrow> tokens dest = [] \<or> resolve d (butlast (comps dest)) = None) \<and>
      (f \<noteq> None \<longrightarrow> points d D f (resolve d (butlast (comps dest))))"
  proof (cases "tokens dest = []")
    case True
    then have "dl_abs l1 = []" using l1(3) by (simp add: comps_def)
    from traverse_empty[OF t l1(2) this] True show ?thesis by simp
  next
    case False
    then have "butlast (comps dest) \<noteq> []" by (simp add: comps_def)
    from traverse_names[OF t l1(2,3) comps_ne(3) this] obtain f where
      f: "traverse_path d l1 = Ret f" "points d D f (resolve d (butlast (comps dest)))" by auto
    note pn = points_None[OF f(2)]
    show ?thesis
      by (intro exI[of _ f] conjI impI f) (simp only: pn False simp_thms)
  qed
  then obtain f where f: "traverse_path d l1 = Ret f"
    "f = None \<longleftrightarrow> tokens dest = [] \<or> resolve d (butlast (comps dest)) = None"
    "f \<noteq> None \<longrightarrow> points d D f (resolve d (butlast (comps dest)))"
    by (elim exE conjE) (rule that)
  note dirs = is_directory_points[OF ls(3)] is_directory_points[OF ld(5)]
  show ?thesis
  proof (cases s)
    case None
    then have "?s = None" using points_None[OF ls(3)] by simp
    then show ?thesis using None ls ld by (simp add: ln_error_def ext2_ln_def Let_def)
  next
    case (Some b)
    then obtain m u where m: "?s = Some (m, u)" using points_None[OF ls(3)] by auto
    show ?thesis
    proof (cases "u = EXT2_FT_DIR")
      case True
      then show ?thesis using Some m ls ld dirs(1) by (simp add: ln_error_def ext2_ln_def Let_def)
    next
      case nd: False
      show ?thesis
      proof (cases ?t)
        case (Some w)
        then have "e \<noteq> None" using points_None[OF ld(5)] by simp
        then show ?thesis using \<open>s = Some b\<close> Some m nd ls ld dirs
          by (cases w) (auto simp: ln_error_def ext2_ln_def Let_def)
      next
        case tn: None
        then have e: "e = None" using points_None[OF ld(5)] by simp
        show ?thesis
        proof (cases f)
          case None
          then show ?thesis using \<open>s = Some b\<close> tn e m nd ls ld dirs l1(1) f
            by (simp add: ln_error_def ext2_ln_def Let_def)
        next
          case (Some a)
          have "ext2_ln now d source dest sl =
             (if sl then ln_soft now d a (strtok_buffer source) (last (comps dest))
              else ln_hard d b a (last (comps dest)))"
            using \<open>s = Some b\<close> tn e m nd ls ld dirs l1(1) f(1) Some
            by (simp add: ext2_ln_def ln_hard_def ln_soft_def Let_def deref_string_def cong: option.case_cong)
          moreover have "ln_error d source dest = None"
            using tn m nd f(2) Some by (simp add: ln_error_def)
          ultimately show ?thesis using ls(3) \<open>s = Some b\<close> f(3) Some by auto
        qed
      qed
    qed
  qed
qed

lemma ln_hard_ok:
  assumes fs: "fs_ok d D" and s: "points d D (Some s) (Some (m, u))" and m: "live d m"
    and a: "points d D (Some a) (Some (p, EXT2_FT_DIR))" and p: "p \<in> D" and new: "dir_map d p name = None"
    and name: "length name < 256" "name \<noteq> []" and add: "can_add d p (length name)"
  shows "\<exists>d'. ln_hard d s a name = Ret d' \<and> fs_ok d' D \<and>
     (\<forall>k \<in> D. dir_map d' k = ((dir_map d)(p := (dir_map d p)(name \<mapsto> (m, EXT2_FT_REG_FILE)))) k) \<and>
     (\<forall>k. live d' k = live d k) \<and> (\<forall>k. live d k \<and> k \<noteq> p \<and> k \<noteq> m \<longrightarrow> agree (dir_bytes d k) d d') \<and>
     links d' (inode_at m) = (links d (inode_at m) + 1) mod 65536"
proof -
  note f = fs_okD[OF fs]
  have e: "einode d s = m" "s + 8 \<le> DISK_SIZE" "located d D s"
    and b: "einode d a = p" "a + 8 \<le> DISK_SIZE"
    using s a by (simp_all add: points_def)
  have lp: "live d p" using f(6)[OF p] .
  have p32: "0 < p" "p \<le> 32" and m32: "0 < m" "m \<le> 32" using lp m by (auto simp: live_def)
  have gp: "get_inode_from_entry d (Some a) = Ret (Some (inode_at p))"
    using get_entry_inode_ok[OF f(4) b(2)] p32 unfolding b(1) by simp
  have ft: "EXT2_FT_REG_FILE = EXT2_FT_DIR \<Longrightarrow> m \<in> D" "EXT2_FT_REG_FILE < 256"
    by (simp_all add: EXT2_FT_REG_FILE_def EXT2_FT_DIR_def)
  from fs_make_entry[OF fs p new m ft name add] obtain x d1 where
    1: "make_entry_in_inode d (inode_at p) m name EXT2_FT_REG_FILE = Ret (Some x, d1)"
       "enters d D p name (m, EXT2_FT_REG_FILE) d1" by blast
  then have fs1: "fs_ok d1 D" and g: "grows d p d1"
    and dm1: "\<forall>k \<in> D. dir_map d1 k = ((dir_map d)(p := (dir_map d p)(name \<mapsto> (m, EXT2_FT_REG_FILE)))) k"
    by (auto simp: enters_def)
  note f1 = fs_okD[OF fs1]
  note G = grows_frame[OF fs lp g]
  have e1: "einode d1 s = m" using entry_at_fields[OF located_grows(1)[OF fs p g e(3)]] e(1) by simp
  let ?i = "inode_at m"
  have at: "5120 \<le> ?i" "?i + 128 \<le> 9216" using inode_at_bounds[OF m32] by auto
  have l1: "links d1 ?i = links d ?i"
  proof -
    have sub: "{?i + 26 ..< ?i + 26 + 2} \<subseteq> - ({inode_at p + 28 ..< inode_at p + 88} \<union> {3072 ..< 3088} \<union> count_bytes \<union>
        (\<Union>b \<in> set (dir_blocks d1 p). block_bytes b))"
    proof
      fix z assume "z \<in> {?i + 26 ..< ?i + 26 + 2}"
      then have z: "z \<in> {?i + 26 ..< ?i + 28}" by simp
      then have "5120 \<le> z" "z < 9216" using at by auto
      moreover have "z \<notin> {inode_at p + 28 ..< inode_at p + 88}"
        using z inode_bytes_disjoint[OF m32(1) p32(1)] by (cases "m = p") (auto simp: inode_bytes_def)
      moreover have "z \<notin> block_bytes c" if "c \<in> set (dir_blocks d1 p)" for c
        using f1(8)[OF p] that \<open>z < 9216\<close> by (auto simp: dir_ok_def block_bytes_def)
      ultimately show "z \<in> - ({inode_at p + 28 ..< inode_at p + 88} \<union> {3072 ..< 3088} \<union> count_bytes \<union>
        (\<Union>b \<in> set (dir_blocks d1 p). block_bytes b))" by (auto simp: count_bytes_def)
    qed
    from g have "agree (- ({inode_at p + 28 ..< inode_at p + 88} \<union> {3072 ..< 3088} \<union> count_bytes \<union>
        (\<Union>b \<in> set (dir_blocks d1 p). block_bytes b))) d d1" unfolding grows_def by (elim conjE)
    from agree_load[OF this sub] show ?thesis by (simp only: links_def)
  qed
  define d2 where "d2 = bump 2 (?i + 26) 1 d1"
  have gi: "get_inode d1 m = Ret ?i" by (rule get_inode_ok[OF f1(4) m32])
  have bump: "add_field 2 d1 (?i + i_links_count) 1 = Ret d2"
    using at by (simp add: add_field_ok d2_def i_links_count_def DISK_SIZE_def)
  have run: "ln_hard d s a name = Ret d2"
    using gp rd_einode[OF e(2)] e(1) e1 1(1) gi bump by (simp add: ln_hard_def)
  have l2: "links d2 ?i = (links d ?i + 1) mod 65536"
    using links_bump[of ?i 1 d1] l1 by (simp add: d2_def nat_add_distrib nat_mod_distrib)
  have "agree (- {?i ..< ?i + 32}) d1 d2" unfolding d2_def by (rule agree_bump) auto
  moreover have m1: "live d1 m" using G(1) m by simp
  ultimately have H: "fs_ok d2 D" "\<And>k. k \<in> D \<Longrightarrow> dir_map d2 k = dir_map d1 k" "\<And>k. live d2 k = live d1 k"
    "\<And>k. live d1 k \<Longrightarrow> k \<noteq> m \<Longrightarrow> agree (dir_bytes d1 k) d1 d2"
    using fs_header[OF fs1] by blast+
  have "agree (dir_bytes d k) d d2" if k: "live d k" "k \<noteq> p" "k \<noteq> m" for k
  proof -
    have "dir_bytes d1 k = dir_bytes d k" using G(3)[OF k(1,2)] by (simp add: dir_bytes_def)
    moreover have "live d1 k" using G(1) k(1) by simp
    ultimately show ?thesis using agree_trans[OF G(2)[OF k(1,2)]] H(4)[OF _ k(3)] by simp
  qed
  moreover have "dir_map d2 k = ((dir_map d)(p := (dir_map d p)(name \<mapsto> (m, EXT2_FT_REG_FILE)))) k" if "k \<in> D" for k
    using H(2)[OF that] bspec[OF dm1 that] by simp
  moreover have "live d2 k = live d k" for k using H(3) G(1) by simp
  ultimately show ?thesis using run H(1) l2 by blast
qed

text \<open>A symbolic link without a free inode.\<close>

lemma ln_no_inode:
  assumes t: "tree_ok d D" and e: "ln_error d source dest = None" and fi: "free_inodes d = 0"
  shows "ext2_ln now d source dest True = Quit 1 d"
proof -
  obtain a where a: "ext2_ln now d source dest True = ln_soft now d a (strtok_buffer source) (last (comps dest))"
    "points d D (Some a) (resolve d (butlast (comps dest)))"
    using ln_split[OF t, of source dest now True] e by auto
  then have r: "resolve d (butlast (comps dest)) = Some (einode d a, ftype d a)" "a + 8 \<le> DISK_SIZE"
    by (simp_all add: points_def)
  have "geometry d" using t by (simp add: tree_ok_def)
  then have "get_inode_from_entry d (Some a) = Ret (Some (inode_at (einode d a)))"
    using resolve_range[OF t r(1)] r(2) by (intro get_entry_inode_ok) simp_all
  then show ?thesis
    using fi unfolding a(1)
    by (simp add: ln_soft_def allocate_link_inode_def allocate_plain_inode_def allocate_inode_refused)
qed

end
