(* ===== verification/Ext2_Demo.thy ===== *)
theory Ext2_Demo
  imports Ext2_Ln
begin

text \<open>
  A small image for the witnesses: the standard geometry, a root directory in block 9 with
  \<open>.\<close>, \<open>..\<close> and an empty file \<open>f\<close> (inode 12, one link), 50 free blocks and 10 free inodes.
\<close>

definition demo :: bytes where
  "demo = (\<lambda>_. 0)(1024 := 32, 1036 := 50, 1040 := 10, 2048 := 3, 2052 := 4, 2056 := 5,
     3072 := 255, 3073 := 1, 4096 := 255, 4097 := 15, 5274 := 2, 5288 := 9, 6554 := 1,
     9216 := 2, 9220 := 12, 9222 := 1, 9223 := 2, 9224 := 46,
     9228 := 2, 9232 := 12, 9234 := 2, 9235 := 2, 9236 := 46, 9237 := 46,
     9240 := 12, 9244 := 232, 9245 := 3, 9246 := 1, 9247 := 1, 9248 := 102)"

lemma load_4: "load_le 4 d a =
    unat (d a) + 256 * (unat (d (a + 1)) + 256 * (unat (d (a + 2)) + 256 * unat (d (a + 3))))"
proof -
  have "(4 :: nat) = Suc (Suc (Suc (Suc 0)))" by simp
  then show ?thesis by (simp only: load_le.simps) (simp add: numeral_3_eq_3)
qed

lemma load_2: "load_le 2 d a = unat (d a) + 256 * unat (d (a + 1))"
proof -
  have "(2 :: nat) = Suc (Suc 0)" by simp
  then show ?thesis by (simp only: load_le.simps) simp
qed

lemma load_zero: "(\<And>i. a \<le> i \<Longrightarrow> i < a + n \<Longrightarrow> d i = 0) \<Longrightarrow> load_le n d a = 0"
  by (induction n arbitrary: a) auto

lemma demo_zero: "a \<in> {5120 ..< 9216} - {5274, 5288, 6554} \<Longrightarrow> demo a = 0"
  by (simp add: demo_def)

lemma demo_geometry: "geometry demo"
  by (simp add: geometry_def load_4 demo_def)

lemma demo_counts: "free_blocks demo = 50" "free_inodes demo = 10"
  by (simp_all add: free_blocks_def free_inodes_def load_4 demo_def)

lemma demo_entries_fields:
  "rlen demo 9216 = 12" "nlen demo 9216 = 1" "ftype demo 9216 = 2" "einode demo 9216 = 2"
  "rlen demo 9228 = 12" "nlen demo 9228 = 2" "ftype demo 9228 = 2" "einode demo 9228 = 2"
  "rlen demo 9240 = 1000" "nlen demo 9240 = 1" "ftype demo 9240 = 1" "einode demo 9240 = 12"
  by (simp_all add: rlen_def nlen_def ftype_def einode_def ext2_layout load_2 load_4 demo_def)

lemma demo_names: "ename demo 9216 = ''.''" "ename demo 9228 = ''..''" "ename demo 9240 = ''f''"
proof -
  have b: "demo 9224 = 46" "demo 9236 = 46" "demo 9237 = 46" "demo 9248 = 102" by (simp_all add: demo_def)
  have c: "byte_char 46 = CHR ''.''" "byte_char 102 = CHR ''f''" by (simp_all add: byte_char_def) code_simp+
  show "ename demo 9216 = ''.''" "ename demo 9240 = ''f''"
    by (simp_all add: ename_def demo_entries_fields e_name_def b c)
  have u: "[0..<2] = [0, 1 :: nat]" by (simp add: upt_rec)
  show "ename demo 9228 = ''..''"
    by (simp add: ename_def demo_entries_fields e_name_def u b c del: upt_rec_numeral)
qed

lemma demo_block: "entry_block demo (1024 * 9) [9216, 9228, 9240]"
  by (simp add: entry_block_def DISK_SIZE_def demo_entries_fields)

lemma demo_entries: "entries demo 9 = [9216, 9228, 9240]"
  by (rule entries_block[OF demo_block])

lemma demo_good: "good_block demo 9"
  by (rule good_blockI[OF demo_block]) (simp add: demo_entries_fields total_entry_length_def)

lemma demo_bnum:
  assumes "0 < k" "k \<le> 32" "i \<le> 12"
  shows "bnum demo (inode_at k) i = (if k = 2 \<and> i = 0 then 9 else 0)"
proof (cases "k = 2 \<and> i = 0")
  case True
  then show ?thesis by (simp add: bnum_def inode_at_def load_4 demo_def)
next
  case False
  have "load_le 4 demo (inode_at k + 40 + 4 * i) = 0"
  proof (rule load_zero)
    fix j assume j: "inode_at k + 40 + 4 * i \<le> j" "j < inode_at k + 40 + 4 * i + 4"
    obtain q where q: "k = Suc q" using assms(1) by (cases k) auto
    define c where "c = j - (5120 + 128 * q)"
    have c: "j = 5120 + 128 * q + c" "40 \<le> c" "c < 92" "q \<le> 31" "\<not> (q = 1 \<and> c = 40)"
      using j assms False q by (auto simp: c_def inode_at_def)
    have "j \<noteq> 5274" "j \<noteq> 5288" "j \<noteq> 6554" using c by presburger+
    then have "j \<in> {5120 ..< 9216} - {5274, 5288, 6554}" using c by simp
    then show "demo j = 0" by (rule demo_zero)
  qed
  then show ?thesis using False by (auto simp: bnum_def)
qed

lemma demo_blocks: "0 < k \<Longrightarrow> k \<le> 32 \<Longrightarrow> dir_blocks demo k = (if k = 2 then [9] else [])"
proof -
  assume k: "0 < k" "k \<le> 32"
  have m: "map (bnum demo (inode_at k)) [0..<12] = map (\<lambda>i. if k = 2 \<and> i = 0 then 9 else 0) [0..<12]"
    using demo_bnum[OF k] by (intro map_cong) auto
  have u: "[0..<12] = 0 # [1..<12::nat]" by (rule upt_conv_Cons[of 0 12, unfolded One_nat_def[symmetric] plus_nat.add_0]) simp
  have "filter (\<lambda>b. b \<noteq> 0) (map (\<lambda>i. if k = 2 \<and> i = 0 then 9 else 0) [1..<12]) = ([] :: nat list)"
    by (auto simp: filter_empty_conv simp del: upt_rec_numeral)
  then show ?thesis
    unfolding dir_blocks_def inode_blocks_def m unfolding u by (simp del: upt_rec_numeral)
qed

lemma demo_list: "dir_list demo 2 = [(''.'', 2, 2), (''..'', 2, 2), (''f'', 12, 1)]"
  by (simp add: dir_list_def demo_blocks demo_entries entry_at_def demo_entries_fields demo_names)

lemma demo_map: "dir_map demo 2 = [''.'' \<mapsto> (2, 2), ''..'' \<mapsto> (2, 2), ''f'' \<mapsto> (12, 1)]"
  by (auto simp: dir_map_def demo_list)

lemma demo_direct: "0 < k \<Longrightarrow> k \<le> 32 \<Longrightarrow> direct demo (inode_at k)"
  using demo_bnum[of k 12] inode_at_bounds[of k] by (simp add: direct_def DISK_SIZE_def)

lemma demo_dir_ok: "dir_ok demo 2"
  by (simp add: dir_ok_def demo_direct demo_blocks demo_good)

lemma demo_block_used: "0 < b \<Longrightarrow> b < 128 \<Longrightarrow> block_used demo b = (b \<le> 9)"
proof -
  assume b: "0 < b" "b < 128"
  consider "b \<le> 8" | "b = 9" | "9 < b" "b \<le> 16" | "16 < b" by linarith
  then show ?thesis
  proof cases
    case 1
    then have "(b - 1) div 8 = 0" "(b - 1) mod 8 < 8" by auto
    moreover have "bit (255 :: 8 word) i" if "i < 8" for i
      using that by (simp add: bit_iff_odd less_Suc_eq numeral_eq_Suc) auto
    ultimately show ?thesis using 1 by (simp add: block_used_def bit_at_def demo_def)
  next
    case 2
    then show ?thesis by (simp add: block_used_def bit_at_def demo_def)
  next
    case 3
    then have "(b - 1) div 8 = 1" "(b - 1) mod 8 \<noteq> 0" by presburger+
    then show ?thesis using 3 by (simp add: block_used_def bit_at_def demo_def bit_1_iff)
  next
    case 4
    then have "3074 \<le> 3072 + (b - 1) div 8" "3072 + (b - 1) div 8 < 3088" using b by presburger+
    then have "demo (3072 + (b - 1) div 8) = 0" unfolding demo_def by simp
    then show ?thesis using 4 by (simp add: block_used_def bit_at_def)
  qed
qed

lemma demo_inode_used: "0 < n \<Longrightarrow> n \<le> 32 \<Longrightarrow> inode_used demo n = (n \<le> 12)"
proof -
  assume n: "0 < n" "n \<le> 32"
  consider "n \<le> 8" | "8 < n" "n \<le> 16" | "16 < n" by linarith
  then show ?thesis
  proof cases
    case 1
    then have "(n - 1) div 8 = 0" "(n - 1) mod 8 < 8" by auto
    moreover have "bit (255 :: 8 word) i" if "i < 8" for i
      using that by (simp add: bit_iff_odd less_Suc_eq numeral_eq_Suc) auto
    ultimately show ?thesis using 1 by (simp add: inode_used_def bit_at_def demo_def)
  next
    case 2
    define i where "i = n - 9"
    with 2 have i: "n = 9 + i" "i < 8" by auto
    then have d: "(n - 1) div 8 = 1" "(n - 1) mod 8 = i" by simp_all
    have "bit (15 :: 8 word) i = (i \<le> 3)" if "i < 8" for i
    proof -
      have "i = 0 \<or> i = 1 \<or> i = 2 \<or> i = 3 \<or> i = 4 \<or> i = 5 \<or> i = 6 \<or> i = 7" using that by linarith
      then show ?thesis by (elim disjE) simp_all
    qed
    from this[OF i(2)] show ?thesis using d i(1) by (simp add: inode_used_def bit_at_def demo_def)
  next
    case 3
    then have "4098 \<le> 4096 + (n - 1) div 8" "4096 + (n - 1) div 8 < 4100" using n by presburger+
    then have "demo (4096 + (n - 1) div 8) = 0" unfolding demo_def by simp
    then show ?thesis using 3 by (simp add: inode_used_def bit_at_def)
  qed
qed

lemma demo_live: "live demo n \<longleftrightarrow> 0 < n \<and> n \<le> 12"
  using demo_inode_used[of n] by (auto simp: live_def)

lemma length_filter_upt: "(\<And>n. a \<le> n \<Longrightarrow> n < b \<Longrightarrow> P n) \<Longrightarrow> length (filter P [a..<b]) = b - a"
  by (subst filter_True) auto

lemma demo_alloc_ok: "alloc_ok demo"
proof -
  have "length (free_from demo 23) = 128 - 23"
    unfolding free_from_def by (rule length_filter_upt) (simp add: demo_block_used)
  moreover have "length (filter (\<lambda>n. \<not> inode_used demo n) [13..<33]) = 33 - 13"
    by (rule length_filter_upt) (simp add: demo_inode_used)
  moreover have "[12..<33] = 12 # [13..<33 :: nat]" using upt_conv_Cons[of 12 33] by (simp del: upt_rec_numeral)
  then have "length (filter (\<lambda>n. \<not> inode_used demo n) [13..<33]) \<le> length (free_inodes_from demo 12)"
    unfolding free_inodes_from_def by (simp del: upt_rec_numeral)
  ultimately have "50 \<le> length (free_from demo 23)" "10 \<le> length (free_inodes_from demo 12)" by linarith+
  then show ?thesis by (simp add: alloc_ok_def demo_geometry demo_counts demo_direct)
qed

lemma demo_ok: "fs_ok demo {2}"
proof -
  have "owns_ok demo"
    by (auto simp: owns_ok_def owns_def demo_live demo_blocks demo_block_used)
  moreover have "names_ok demo {2} 2"
    by (simp add: names_ok_def demo_dir_ok demo_list names_live_def demo_live EXT2_FT_DIR_def)
  ultimately show ?thesis
    by (simp add: fs_ok_alt demo_geometry demo_alloc_ok demo_live)
qed

lemma demo_room: "k < 256 \<Longrightarrow> room_in demo k 9"
  using tel_bounds[of k] tel_bounds[of 1]
  by (simp add: room_in_def demo_entries has_room_def demo_entries_fields)

lemma demo_terminated: "names_terminated demo 2"
proof -
  have b: "demo 9224 = 46" "demo 9225 = 0" "demo 9236 = 46" "demo 9237 = 46" "demo 9238 = 0"
    "demo 9248 = 102" "demo 9249 = 0" by (simp_all add: demo_def)
  have "terminated demo 9216" "terminated demo 9240"
    by (simp_all add: terminated_def demo_entries_fields b)
  moreover have "terminated demo 9228"
    unfolding terminated_def demo_entries_fields by (auto simp: less_2_cases_iff b)
  ultimately show ?thesis by (simp add: names_terminated_def demo_blocks demo_entries)
qed

lemma demo_root: "resolve demo [''.''] = Some (2, 2)"
  by (simp add: resolve_def demo_map EXT2_FT_DIR_def)

lemma demo_lookup: "c \<noteq> ''.'' \<Longrightarrow> c \<noteq> ''..'' \<Longrightarrow>
    resolve demo [''.'', c] = (if c = ''f'' then Some (12, 1) else None)"
  by (simp add: resolve_def demo_map EXT2_FT_DIR_def)

lemma demo_comps: "comps ''/'' = [''.'']" "comps ''/a'' = [''.'', ''a'']" "comps ''/f'' = [''.'', ''f'']"
  "comps ''x'' = [''.'', ''x'']" "tokens ''/a'' = [''a'']" "tokens ''/f'' = [''f'']"
  by (simp_all add: comps_def tokens_def)

lemma demo_links: "links demo (inode_at 12) = 1"
  by (simp add: links_def inode_at_def load_2 demo_def)

end
