(* ===== verification/Ext2_Symlink.thy ===== *)
theory Ext2_Symlink
  imports Ext2_Ln
begin

text \<open>
  Symbolic links: a new inode gets one block with the target, and its entry the type of a link.
\<close>

lemma file_bytes_agree:
  assumes "agree (dir_bytes d k) d d'"
  shows "i_size_of d' k = i_size_of d k" "file_bytes d' k = file_bytes d k"
proof -
  have "agree (inode_bytes k) d d'" by (rule agree_subset[OF assms]) (auto simp: dir_bytes_def)
  then show s: "i_size_of d' k = i_size_of d k"
    unfolding i_size_of_def by (rule agree_load) (auto simp: inode_bytes_def)
  have "block_data d' b = block_data d b" if b: "b \<in> set (dir_blocks d k)" for b
    unfolding block_data_def
  proof (rule map_cong[OF refl])
    fix a assume "a \<in> set [0..<1024]"
    then have "1024 * b + a \<in> block_bytes b" by (simp add: block_bytes_def)
    then have "1024 * b + a \<in> dir_bytes d k" using b by (auto simp: dir_bytes_def)
    then show "d' (1024 * b + a) = d (1024 * b + a)" using assms by (simp add: agree_def)
  qed
  then have "map (block_data d') (dir_blocks d k) = map (block_data d) (dir_blocks d k)" by simp
  then show "file_bytes d' k = file_bytes d k"
    unfolding file_bytes_def s dir_frame(1)[OF assms] by (simp only:)
qed

lemma write_path_ok:
  assumes fs: "fs_ok d D" and m: "live d m" "m \<notin> D" "direct d (inode_at m)" "dir_blocks d m = []"
    and room: "0 < free_blocks d" and s: "length s < 1024"
  shows "\<exists>b d'. write_path_to_symlink_inode d (inode_at m) s = Ret d' \<and> fs_ok d' D \<and>
    (\<forall>k \<in> D. dir_map d' k = dir_map d k) \<and> (\<forall>k. live d' k = live d k) \<and>
    (\<forall>k. live d k \<and> k \<noteq> m \<longrightarrow> agree (dir_bytes d k) d d') \<and> i_size_of d' m = i_size_of d m \<and>
    dir_blocks d' m = [b] \<and> (\<forall>i < length s. d' (1024 * b + i) = char_byte (s ! i)) \<and>
    free_blocks d' = free_blocks d - 1"
proof -
  note f = fs_okD[OF fs]
  let ?i = "inode_at m"
  have m32: "0 < m" "m \<le> 32" using m(1) by (auto simp: live_def)
  have at: "5120 \<le> ?i" "?i + 128 \<le> 9216" using inode_at_bounds[OF m32] by auto
  have one: "1 \<le> free_blocks d" using room by simp
  define bs d1 where "bs = take 1 (free_from d 23)" and "d1 = claims (take 1 (free_from d 23)) (bump_blocks (- int 1) d)"
  note c = fs_claims[OF fs one, folded bs_def d1_def]
  obtain b where b: "bs = [b]" using c(9) by (cases bs) auto
  then obtain xs where xs: "free_from d 23 = b # xs" unfolding bs_def by (cases "free_from d 23") auto
  have d1: "d1 = claim b (bump_blocks (- 1) d)" unfolding d1_def xs by simp
  have b23: "23 \<le> b" "b < 128" using c(11) b by auto
  have fr1: "agree (dir_bytes d m) d d1" by (rule c(5)[OF m(1)])
  have m1: "live d1 m" "dir_blocks d1 m = []" using c(4) m dir_frame(1)[OF fr1] by auto
  have in1: "agree (inode_bytes m) d d1" by (rule agree_subset[OF fr1]) (auto simp: dir_bytes_def)
  have bn: "bnum d ?i 0 = 0"
  proof (rule ccontr)
    assume "bnum d ?i 0 \<noteq> 0"
    moreover have "[0..<12] = 0 # [Suc 0..<12]" by (rule upt_conv_Cons) simp
    ultimately show False using m(4) by (simp add: dir_blocks_def inode_blocks_def del: upt_rec_numeral)
  qed
  have al: "allocate_block_on_inode d ?i 0 = Ret (b, with_block ?i 0 b d)"
    by (rule allocate_block_on_inode_ok(2)[OF f(4) at m(3) _ bn room xs]) simp
  let ?w = "map char_byte (s @ [char_of (0 :: nat)])"
  define d2 d3 where "d2 = with_block ?i 0 b d" and "d3 = put_bytes (1024 * b) ?w (with_block ?i 0 b d)"
  have run: "write_path_to_symlink_inode d ?i s = Ret d3"
    using s al block_address[OF b23(2)] b23(2)
    by (simp add: write_path_to_symlink_inode_def EXT2_BLOCK_SIZE_def write_string_def write_bytes_ok
        DISK_SIZE_def d3_def)
  have "agree (- ({?i + 28 ..< ?i + 88} \<union> block_bytes b)) d1 d2"
    unfolding d1 d2_def with_block_def
    by (rule agree_trans[OF agree_put_bnum agree_bump]) auto
  moreover have a3: "agree (- block_bytes b) d2 d3"
    unfolding d2_def d3_def agree_def block_bytes_def using s by (auto simp: put_bytes_other)
  ultimately have a13: "agree (- ({?i + 28 ..< ?i + 88} \<union> block_bytes b)) d1 d3"
    using agree_trans[OF _ agree_subset[OF a3]] by blast
  have b9: "9 \<le> b" using b23 by simp
  note W = with_block_ok[OF f(4) at m(3) _ b9 b23(2), of 0, folded d2_def]
  have i3: "agree (inode_bytes m) d2 d3"
    by (rule agree_subset[OF a3]) (use at b23 in \<open>auto simp: inode_bytes_def block_bytes_def\<close>)
  have bn3: "bnum d3 ?i j = (if j = 0 then b else bnum d ?i j)" if "j \<le> 12" for j
    using bnum_agree[OF i3, of ?i j] W(4)[OF _ that] that by (simp add: inode_bytes_def)
  have dr3: "direct d3 ?i" using bn3[of 12] m(3) by (simp add: direct_def)
  have bl3: "dir_blocks d3 m = [b]"
  proof -
    have u: "[0..<12] = 0 # [Suc 0..<12]" by (rule upt_conv_Cons) simp
    have "filter (\<lambda>x. x \<noteq> 0) (map (bnum d ?i) [Suc 0..<12]) = []"
      using m(4) bn unfolding dir_blocks_def inode_blocks_def u by (simp del: upt_rec_numeral)
    moreover have "map (bnum d3 ?i) [Suc 0..<12] = map (bnum d ?i) [Suc 0..<12]"
      by (rule map_cong[OF refl]) (use bn3 in auto)
    ultimately have "filter (\<lambda>x. x \<noteq> 0) (map (bnum d3 ?i) [Suc 0..<12]) = []" by (simp only:)
    then show ?thesis using bn3[of 0] b23 unfolding dir_blocks_def inode_blocks_def u
      by (simp del: upt_rec_numeral)
  qed
  have bsd: "set [b] \<subseteq> {23 ..< 128}" using b23 by simp
  have "block_used d1 b" using c(6)[of b] b b23 by simp
  moreover have "b \<notin> set (dir_blocks d1 k)" if "live d1 k" for k
  proof -
    have lk: "live d k" using that c(4) by simp
    have "\<not> block_used d b" using c(12) b by simp
    then have "b \<notin> set (dir_blocks d k)" using f(10)[OF lk] by (auto simp: owns_def)
    then show ?thesis using dir_frame(1)[OF c(5)[OF lk]] by simp
  qed
  ultimately have free: "\<forall>x \<in> set [b]. block_used d1 x" "\<forall>k. live d1 k \<longrightarrow> set [b] \<inter> set (dir_blocks d1 k) = {}"
    by auto
  have fr13: "agree (- ({?i ..< ?i + 88} \<union> (\<Union>x \<in> set [b]. block_bytes x))) d1 d3"
    by (rule agree_subset[OF a13]) auto
  have bl: "distinct (dir_blocks d3 m)" "set (dir_blocks d3 m) \<subseteq> set [b]" using bl3 by simp_all
  note S = fs_file_change[OF c(2) m1(1) m(2) m1(2) bsd free fr13 bl dr3]
  have "dir_map d3 k = dir_map d k" if "k \<in> D" for k
    using S(2) c(3)[OF that] that by (simp add: dir_map_def)
  moreover have "live d3 k = live d k" for k using S(3) c(4) by simp
  moreover have "agree (dir_bytes d k) d d3" if k: "live d k" "k \<noteq> m" for k
  proof -
    have "live d1 k" using k c(4) by simp
    then have "agree (dir_bytes d1 k) d1 d3" using S(4) k(2) by blast
    moreover have "dir_bytes d1 k = dir_bytes d k" using dir_frame(1)[OF c(5)[OF k(1)]] by (simp add: dir_bytes_def)
    ultimately show ?thesis using agree_trans[OF c(5)[OF k(1)]] by simp
  qed
  moreover have "i_size_of d3 m = i_size_of d m"
  proof -
    have "i_size_of d3 m = i_size_of d1 m"
      unfolding i_size_of_def by (rule agree_load[OF a13]) (use at b23 in \<open>auto simp: block_bytes_def\<close>)
    also have "\<dots> = i_size_of d m"
      unfolding i_size_of_def by (rule agree_load[OF in1]) (auto simp: inode_bytes_def)
    finally show ?thesis .
  qed
  moreover have "\<forall>i < length s. d3 (1024 * b + i) = char_byte (s ! i)"
    using put_bytes_nth[of _ ?w "1024 * b"] by (simp add: d3_def nth_append)
  moreover have "free_blocks d3 = free_blocks d - 1"
  proof -
    have "free_blocks d3 = free_blocks d1"
      unfolding free_blocks_def by (rule agree_load[OF a13]) (use at b23 in \<open>auto simp: block_bytes_def\<close>)
    then show ?thesis using c(7) by simp
  qed
  ultimately show ?thesis using run S(1) bl3 by blast
qed

lemma link_text:
  assumes "length s < 1024" "\<forall>i < length s. d (1024 * b + i) = char_byte (s ! i)"
    "dir_blocks d m = [b]" "i_size_of d m = length s"
  shows "file_bytes d m = map char_byte s"
proof (rule nth_equalityI)
  show l: "length (file_bytes d m) = length (map char_byte s)"
    using assms by (simp add: file_bytes_def length_block_data)
  fix i assume "i < length (file_bytes d m)"
  then have i: "i < length s" using l by simp
  then have "block_data d b ! i = d (1024 * b + i)"
    using assms(1) by (simp add: block_data_def del: upt_rec_numeral)
  then show "file_bytes d m ! i = map char_byte s ! i" using assms i by (simp add: file_bytes_def)
qed

lemma size_fill_inode: "i_size_of (fill_inode mode sz now (inode_at m) d) m = sz mod 2 ^ 32"
  by (simp add: i_size_of_def fill_inode_def load_store_simps)

lemma strtok_buffer_cut:
  assumes "1 < length (tokens s)"
  shows "strtok_buffer s \<noteq> s"
proof
  let ?p = "takeWhile (\<lambda>c. c = CHR ''/'') s"
  let ?t = "takeWhile (\<lambda>c. c \<noteq> CHR ''/'') (dropWhile (\<lambda>c. c = CHR ''/'') s)"
  assume "strtok_buffer s = s"
  then have s: "s = ?p @ ?t" by (simp add: strtok_buffer_def)
  have "set ?p \<subseteq> {CHR ''/''}" by (auto dest: set_takeWhileD)
  from tokens_slashes[OF this, of ?t] have "tokens s = tokens ?t" using s by simp
  moreover have "CHR ''/'' \<notin> set ?t" by (auto dest: set_takeWhileD)
  ultimately have "length (tokens s) \<le> 1" by (simp add: tokens_def split_slash_word(1))
  then show False using assms by simp
qed

definition linked :: "bytes \<Rightarrow> nat set \<Rightarrow> nat \<Rightarrow> string \<Rightarrow> string \<Rightarrow> nat \<Rightarrow> bytes \<Rightarrow> bool" where
  "linked d D p name target m d' \<longleftrightarrow> \<not> live d m \<and> fs_ok d' D \<and>
     (\<forall>k \<in> D. dir_map d' k = ((dir_map d)(p := (dir_map d p)(name \<mapsto> (m, EXT2_FT_SYMLINK)))) k) \<and>
     (\<forall>k. live d' k = (live d k \<or> k = m)) \<and> (\<forall>k. live d k \<and> k \<noteq> p \<longrightarrow> agree (dir_bytes d k) d d') \<and>
     file_bytes d' m = map char_byte target"

lemma ln_soft_ok:
  assumes fs: "fs_ok d D" and a: "points d D (Some a) (Some (p, EXT2_FT_DIR))" and p: "p \<in> D"
    and new: "dir_map d p name = None" and name: "length name < 256" "name \<noteq> []"
    and s: "length s < 1024" and room: "cp_room d p (length name) 1"
  shows "\<exists>m d'. ln_soft now d a s name = Ret d' \<and> linked d D p name s m d'"
proof -
  note f = fs_okD[OF fs]
  have lp: "live d p" using f(6)[OF p] .
  have p32: "0 < p" "p \<le> 32" using lp by (auto simp: live_def)
  have ea: "einode d a = p" "a + 8 \<le> DISK_SIZE" using a by (simp_all add: points_def)
  have gp: "get_inode_from_entry d (Some a) = Ret (Some (inode_at p))"
    using get_entry_inode_ok[OF f(4) ea(2)] p32 unfolding ea(1) by simp
  have fi: "0 < free_inodes d" and fb: "0 < free_blocks d" using room by (auto simp: cp_room_def pieces_def)
  have "free_inodes_from d 12 \<noteq> []" using f(2) fi by (auto simp: alloc_ok_def)
  then obtain m ns where m: "free_inodes_from d 12 = m # ns" by (cases "free_inodes_from d 12") auto
  have "m \<in> set (free_inodes_from d 12)" using m by simp
  then have m12: "12 \<le> m" "m \<le> 32" "\<not> inode_used d m" by (auto simp: free_inodes_from_mem)
  have dm: "direct d (inode_at m)" using f(2) m12 by (simp add: alloc_ok_def)
  define d2 where "d2 = fill_inode EXT2_S_IFLNK (length s) now (inode_at m) (fresh_inode m d)"
  have r2: "allocate_link_inode now d s = Ret (m, d2)"
    unfolding d2_def allocate_link_inode_def by (rule allocate_plain_inode_ok[OF f(4) fi m dm])
  have "agree (- ({inode_at m ..< inode_at m + 32} \<union> {2064 ..< 2066})) (fresh_inode m d) d2"
    unfolding d2_def by (rule agree_fill_inode) auto
  then have fl: "fresh_like m d d2"
    using fresh_like_fill[OF fresh_like_fresh[OF f(4) m12(1,2) fi dm]] m12 by simp
  have sz2: "i_size_of d2 m = length s" unfolding d2_def size_fill_inode using s by simp
  note F = fs_fresh[OF fs fl m fi disjI1[OF refl]]
  note f2 = fs_okD[OF F(1)]
  have mp: "m \<noteq> p" using F(4) lp by blast
  have mD: "m \<notin> D" using F(4) f(6) by blast
  have l2: "live d2 m" using F(3) by simp
  have gi: "get_inode d2 m = Ret (inode_at m)" using get_inode_ok[OF f2(4)] m12 by simp
  have dr2: "direct d2 (inode_at m)" "dir_blocks d2 m = []" "0 < free_blocks d2"
    using fl fb by (simp_all add: fresh_like_def)
  from write_path_ok[OF F(1) l2 mD dr2 s] obtain b d3 where
    3: "write_path_to_symlink_inode d2 (inode_at m) s = Ret d3" "fs_ok d3 D"
       "\<forall>k \<in> D. dir_map d3 k = dir_map d2 k" "\<forall>k. live d3 k = live d2 k"
       "\<forall>k. live d2 k \<and> k \<noteq> m \<longrightarrow> agree (dir_bytes d2 k) d2 d3" "i_size_of d3 m = i_size_of d2 m"
       "dir_blocks d3 m = [b]" "\<forall>i < length s. d3 (1024 * b + i) = char_byte (s ! i)"
       "free_blocks d3 = free_blocks d2 - 1" by blast
  have lv3: "live d3 k = (live d k \<or> k = m)" for k using 3(4) F(3) by simp
  have l3: "live d3 m" "live d3 p" using lv3 lp by auto
  have frame3: "agree (dir_bytes d k) d d3" if k: "live d k" for k
  proof -
    have a2: "agree (dir_bytes d k) d d2" by (rule F(9)[OF k])
    have "live d2 k" "k \<noteq> m" using F(3,4) k by auto
    then have "agree (dir_bytes d2 k) d2 d3" using 3(5) by blast
    moreover have "dir_bytes d2 k = dir_bytes d k" using dir_frame(1)[OF a2] by (simp add: dir_bytes_def)
    ultimately show ?thesis using agree_trans[OF a2] by simp
  qed
  have dm3: "dir_map d3 k = dir_map d k" if "k \<in> D" for k using 3(3) F(8)[OF that] that by simp
  have add: "can_add d3 p (length name)"
  proof (cases "\<exists>x \<in> set (dir_blocks d p). room_in d (length name) x")
    case True
    from room_frame(1)[OF frame3[OF lp] f(8)[OF p] this] show ?thesis by (auto simp: can_add_def)
  next
    case False
    then obtain i where i: "1 < free_blocks d" "i < 12" "bnum d (inode_at p) i = 0"
      using room by (auto simp: cp_room_def pieces_def)
    have "free_blocks d3 = free_blocks d - 1" using fl 3(9) by (simp add: fresh_like_def)
    then show ?thesis using room_frame(2)[OF frame3[OF lp] f(8)[OF p] i(2)] i by (auto simp: can_add_def)
  qed
  have ft: "EXT2_FT_SYMLINK = EXT2_FT_DIR \<Longrightarrow> m \<in> D" "EXT2_FT_SYMLINK < 256"
    by (simp_all add: EXT2_FT_SYMLINK_def EXT2_FT_DIR_def)
  have new3: "dir_map d3 p name = None" using dm3[OF p] new by simp
  from fs_make_entry[OF 3(2) p new3 l3(1) ft name add] obtain e d4 where
    4: "make_entry_in_inode d3 (inode_at p) m name EXT2_FT_SYMLINK = Ret (Some e, d4)"
       "enters d3 D p name (m, EXT2_FT_SYMLINK) d4" by blast
  then have g: "grows d3 p d4" and fs4: "fs_ok d4 D"
    and dm4: "\<forall>k \<in> D. dir_map d4 k = ((dir_map d3)(p := (dir_map d3 p)(name \<mapsto> (m, EXT2_FT_SYMLINK)))) k"
    by (auto simp: enters_def)
  note G = grows_frame[OF 3(2) l3(2) g]
  have run: "ln_soft now d a s name = Ret d4"
    using gp r2 gi 3(1) 4(1) by (simp add: ln_soft_def)
  have "i_size_of d3 m = length s" using 3(6) sz2 by simp
  from link_text[OF s 3(8,7) this] have "file_bytes d4 m = map char_byte s"
    using file_bytes_agree(2)[OF G(2)[OF l3(1) mp]] by simp
  moreover have "dir_map d4 k = ((dir_map d)(p := (dir_map d p)(name \<mapsto> (m, EXT2_FT_SYMLINK)))) k" if "k \<in> D" for k
    using bspec[OF dm4 that] dm3[OF that] dm3[OF p] by (simp add: fun_upd_def)
  moreover have "agree (dir_bytes d k) d d4" if k: "live d k" "k \<noteq> p" for k
  proof -
    have "live d3 k" using k lv3 by simp
    then have "agree (dir_bytes d3 k) d3 d4" using G(2) k(2) by blast
    moreover have "dir_bytes d3 k = dir_bytes d k" using dir_frame(1)[OF frame3[OF k(1)]] by (simp add: dir_bytes_def)
    ultimately show ?thesis using agree_trans[OF frame3[OF k(1)]] by simp
  qed
  moreover have "live d4 k = (live d k \<or> k = m)" for k using G(1) lv3 by simp
  ultimately have "linked d D p name s m d4" using F(4) fs4 by (simp add: linked_def)
  then show ?thesis using run by blast
qed

lemma ln_soft_path_ok:
  assumes fs: "fs_ok d D" and e: "ln_error d source dest = None"
    and p: "resolve d (butlast (comps dest)) = Some (p, EXT2_FT_DIR)"
    and new: "dir_map d p (last (comps dest)) = None"
    and len: "length (last (comps dest)) < 256" "length (strtok_buffer source) < 1024"
    and room: "cp_room d p (length (last (comps dest))) 1"
  shows "\<exists>m d'. ext2_ln now d source dest True = Ret d' \<and>
    linked d D p (last (comps dest)) (strtok_buffer source) m d'"
proof -
  note t = fs_okD(1)[OF fs]
  from ln_split[OF t, where source = source and dest = dest and now = now and sl = True] e p obtain a where a:
    "ext2_ln now d source dest True = ln_soft now d a (strtok_buffer source) (last (comps dest))"
    "points d D (Some a) (Some (p, EXT2_FT_DIR))" by auto
  have "p \<in> D" using resolve_range[OF t p] by simp
  from ln_soft_ok[OF fs a(2) this new len(1) last_comps_ne len(2) room] a(1) show ?thesis by simp
qed

end
