(* ===== verification/Ext2_Session.thy ===== *)
theory Ext2_Session
  imports Ext2_Symlink
begin

text \<open>
  The commands as a whole, and sequences of them. \<open>fits\<close> says when a command has a valid path and
  enough room, \<open>refused\<close> when it ends with an error before it changes anything; a \<open>session\<close> is
  any sequence of such commands.
\<close>

section \<open>The commands on a consistent image\<close>

lemma follow_mono:
  assumes "tree_ok d D" "\<forall>k \<in> D. dir_map d k \<subseteq>\<^sub>m dir_map d' k" "n \<in> D"
  shows "follow (dir_map d) n names = Some v \<Longrightarrow> follow (dir_map d') n names = Some v"
  using assms(3)
proof (induction names arbitrary: n)
  case (Cons c cs)
  from Cons.prems(1) obtain m t where m: "dir_map d n c = Some (m, t)" by (auto split: option.splits)
  have m': "dir_map d' n c = Some (m, t)" using bspec[OF assms(2) Cons.prems(2)] m by (auto simp: map_le_def dom_def)
  show ?case
  proof (cases "t = EXT2_FT_DIR")
    case True
    then have "m \<in> D" using dir_map_range(3)[OF assms(1) Cons.prems(2) m] by simp
    then show ?thesis using Cons.IH Cons.prems(1) m m' True by simp
  next
    case False
    then show ?thesis using Cons.prems(1) m m' by simp
  qed
qed simp

lemma mkdir_ok:
  assumes fs: "fs_ok d D" and e: "mkdir_error d path = None"
    and p: "resolve d (butlast (comps path)) = Some (p, EXT2_FT_DIR)"
    and len: "length (last (comps path)) < 256" and room: "mkdir_room d p (length (last (comps path)))"
  shows "\<exists>n d'. ext2_mkdir now d path = Ret d' \<and> \<not> live d n \<and> fs_ok d' (insert n D) \<and>
     (\<forall>k \<in> insert n D. dir_map d' k = with_dir (dir_map d) p (last (comps path)) n k) \<and>
     resolve d' (comps path) = Some (n, EXT2_FT_DIR) \<and>
     (\<forall>k. live d k \<and> k \<noteq> p \<longrightarrow> agree (dir_bytes d k) d d')"
proof -
  note f = fs_okD[OF fs]
  from mkdir_split[OF f(1), of path now] e p obtain a where a:
    "ext2_mkdir now d path = mkdir_rest now d a (last (comps path))" "p \<in> D"
    "einode d a = p" "a + 8 \<le> DISK_SIZE" "located d D a" "dir_map d p (last (comps path)) = None" by auto
  from mkdir_rest_ok[OF fs a(2-6) len last_comps_ne room, of now] obtain n d' where
    r: "mkdir_rest now d a (last (comps path)) = Ret d'" "\<not> live d n" "fs_ok d' (insert n D)"
      "\<forall>k \<in> insert n D. dir_map d' k = with_dir (dir_map d) p (last (comps path)) n k"
      "\<forall>k. live d k \<and> k \<noteq> p \<longrightarrow> agree (dir_bytes d k) d d'" by blast
  have nD: "n \<notin> D" using r(2) f(6) by blast
  have "dir_map d k \<subseteq>\<^sub>m dir_map d' k" if "k \<in> D" for k
    using bspec[OF r(4), of k] that nD a(6) by (auto simp: with_dir_def map_le_def)
  then have "follow (dir_map d') 2 (butlast (comps path)) = Some (p, EXT2_FT_DIR)"
    using follow_mono[OF f(1) _ f(5)] p unfolding resolve_def by blast
  moreover have "dir_map d' p (last (comps path)) = Some (n, EXT2_FT_DIR)"
    using bspec[OF r(4), of p] a(2) nD by (auto simp: with_dir_def)
  ultimately have "resolve d' (butlast (comps path) @ [last (comps path)]) = Some (n, EXT2_FT_DIR)"
    unfolding resolve_def follow_snoc by simp
  then show ?thesis using a(1) r by auto
qed

lemma rm_ok:
  assumes fs: "fs_ok d D" and e: "rm_error d path = None" and ne: "tokens path \<noteq> []"
    and r: "resolve d (comps path) = Some (m, u)"
    and p: "resolve d (butlast (comps path)) = Some (p, EXT2_FT_DIR)" and m: "m \<notin> D"
    and early: "\<forall>b \<in> set (dir_blocks d p). b < 23 \<longrightarrow>
      (\<exists>x \<in> set (block_list d (entries d b)). fst x \<noteq> last (comps path))"
    and last: "links d (inode_at m) = 1 \<longrightarrow> last_link d D p (last (comps path)) m"
  shows "\<exists>d'. ext2_rm now d path = Ret d' \<and> fs_ok d' D \<and>
     (\<forall>k \<in> D. dir_map d' k = ((dir_map d)(p := (dir_map d p)(last (comps path) := None))) k) \<and>
     (\<forall>k. live d k \<and> k \<noteq> p \<and> k \<noteq> m \<longrightarrow> agree (dir_bytes d k) d d') \<and>
     (\<forall>k. live d' k = (live d k \<and> (links d (inode_at m) = 1 \<longrightarrow> k \<noteq> m))) \<and>
     (links d (inode_at m) = 1 \<longrightarrow> (\<forall>b \<in> set (dir_blocks d m). \<not> block_used d' b)) \<and>
     (links d (inode_at m) \<noteq> 1 \<longrightarrow> dir_blocks d' m = dir_blocks d m \<and>
        links d' (inode_at m) = nat ((int (links d (inode_at m)) - 1) mod 65536))"
proof -
  from rm_split[OF fs_okD(1)[OF fs] ne, of now] e r p obtain x a where a:
    "ext2_rm now d path = rm_rest now d x (inode_at m) a (last (comps path))"
    "einode d x = m" "x + 8 \<le> DISK_SIZE" "located d D x" "einode d a = p" "a + 8 \<le> DISK_SIZE" "p \<in> D"
    "dir_map d p (last (comps path)) = Some (m, u)" by auto
  from rm_rest_ok[OF fs a(2-8) last_comps_ne m early, of now] last a(1) show ?thesis by simp
qed

lemma ln_ok:
  assumes fs: "fs_ok d D" and e: "ln_error d source dest = None"
    and s: "resolve d (comps source) = Some (m, u)"
    and p: "resolve d (butlast (comps dest)) = Some (p, EXT2_FT_DIR)"
    and new: "dir_map d p (last (comps dest)) = None" and m: "live d m"
    and len: "length (last (comps dest)) < 256" and add: "can_add d p (length (last (comps dest)))"
  shows "\<exists>d'. ext2_ln now d source dest False = Ret d' \<and> fs_ok d' D \<and>
     (\<forall>k \<in> D. dir_map d' k =
        ((dir_map d)(p := (dir_map d p)(last (comps dest) \<mapsto> (m, EXT2_FT_REG_FILE)))) k) \<and>
     (\<forall>k. live d' k = live d k) \<and> (\<forall>k. live d k \<and> k \<noteq> p \<and> k \<noteq> m \<longrightarrow> agree (dir_bytes d k) d d') \<and>
     links d' (inode_at m) = (links d (inode_at m) + 1) mod 65536"
proof -
  note t = fs_okD(1)[OF fs]
  from ln_split[OF t, where source = source and dest = dest and now = now and sl = False] e s p obtain x a where a:
    "ext2_ln now d source dest False = ln_hard d x a (last (comps dest))"
    "points d D (Some x) (Some (m, u))" "points d D (Some a) (Some (p, EXT2_FT_DIR))" by auto
  have "p \<in> D" using resolve_range[OF t p] by simp
  from ln_hard_ok[OF fs a(2) m a(3) this new len last_comps_ne add] a(1) show ?thesis by simp
qed

section \<open>Sequences of commands\<close>

datatype command =
    Mkdir string
  | Rm string
  | Hard_Link string string
  | Soft_Link string string
  | Cp "string \<Rightarrow> u8 list option" string string

fun run :: "nat \<Rightarrow> command \<Rightarrow> bytes \<Rightarrow> bytes fsres" where
  "run now (Mkdir path) d = ext2_mkdir now d path"
| "run now (Rm path) d = ext2_rm now d path"
| "run now (Hard_Link source dest) d = ext2_ln now d source dest False"
| "run now (Soft_Link source dest) d = ext2_ln now d source dest True"
| "run now (Cp files source dest) d = ext2_cp now files d source dest"

text \<open>The directory and the name that a path stands for.\<close>

definition new_name :: "bytes \<Rightarrow> string list \<Rightarrow> nat \<Rightarrow> bool" where
  "new_name d names p \<longleftrightarrow> butlast names \<noteq> [] \<and> resolve d (butlast names) = Some (p, EXT2_FT_DIR) \<and>
     dir_map d p (last names) = None \<and> length (last names) < 256"

fun fits :: "bytes \<Rightarrow> nat set \<Rightarrow> command \<Rightarrow> bool" where
  "fits d D (Mkdir path) =
     (mkdir_error d path = None \<and>
      (\<exists>p. new_name d (comps path) p \<and> mkdir_room d p (length (last (comps path)))))"
| "fits d D (Rm path) =
     (rm_error d path = None \<and> tokens path \<noteq> [] \<and>
      (\<exists>m u p. resolve d (comps path) = Some (m, u) \<and> m \<notin> D \<and>
         resolve d (butlast (comps path)) = Some (p, EXT2_FT_DIR) \<and>
         (\<forall>b \<in> set (dir_blocks d p). b < 23 \<longrightarrow>
            (\<exists>x \<in> set (block_list d (entries d b)). fst x \<noteq> last (comps path))) \<and>
         (links d (inode_at m) = 1 \<longrightarrow> last_link d D p (last (comps path)) m)))"
| "fits d D (Hard_Link source dest) =
     (ln_error d source dest = None \<and>
      (\<exists>m u p. resolve d (comps source) = Some (m, u) \<and> live d m \<and> new_name d (comps dest) p \<and>
         can_add d p (length (last (comps dest)))))"
| "fits d D (Soft_Link source dest) =
     (ln_error d source dest = None \<and> length (strtok_buffer source) < 1024 \<and>
      (\<exists>p. new_name d (comps dest) p \<and> cp_room d p (length (last (comps dest))) 1))"
| "fits d D (Cp files source dest) =
     (\<exists>w p. files (strtok_buffer source) = Some w \<and> new_name d (cp_names d source dest) p \<and>
        cp_room d p (length (last (cp_names d source dest))) (length w))"

fun refused :: "bytes \<Rightarrow> command \<Rightarrow> bool" where
  "refused d (Mkdir path) = (mkdir_error d path \<noteq> None \<or> free_inodes d = 0)"
| "refused d (Rm path) = (tokens path \<noteq> [] \<and> rm_error d path \<noteq> None)"
| "refused d (Hard_Link source dest) = (ln_error d source dest \<noteq> None)"
| "refused d (Soft_Link source dest) = (ln_error d source dest \<noteq> None)"
| "refused d (Cp files source dest) = (files (strtok_buffer source) = None)"

text \<open>The directories after a command that succeeded.\<close>

fun directories :: "bytes \<Rightarrow> command \<Rightarrow> nat set \<Rightarrow> nat set" where
  "directories d' (Mkdir path) D = (case resolve d' (comps path) of Some (n, _) \<Rightarrow> insert n D | None \<Rightarrow> D)"
| "directories d' c D = D"

inductive session :: "bytes \<Rightarrow> nat set \<Rightarrow> bytes \<Rightarrow> nat set \<Rightarrow> bool" for d0 D0 where
  session_start: "session d0 D0 d0 D0"
| session_done: "session d0 D0 d D \<Longrightarrow> fits d D c \<Longrightarrow> run now c d = Ret d' \<Longrightarrow> session d0 D0 d' (directories d' c D)"
| session_refused: "session d0 D0 d D \<Longrightarrow> refused d c \<Longrightarrow> run now c d = Quit e d' \<Longrightarrow> session d0 D0 d' D"

lemma fits_ok:
  assumes fs: "fs_ok d D" and fit: "fits d D c"
  shows "\<exists>d'. run now c d = Ret d' \<and> fs_ok d' (directories d' c D) \<and> D \<subseteq> directories d' c D"
proof (cases c)
  case (Mkdir path)
  then obtain p where "mkdir_error d path = None" "resolve d (butlast (comps path)) = Some (p, EXT2_FT_DIR)"
    "length (last (comps path)) < 256" "mkdir_room d p (length (last (comps path)))"
    using fit by (auto simp: new_name_def)
  from mkdir_ok[OF fs this, of now] show ?thesis unfolding Mkdir by (elim exE conjE) (auto simp: Mkdir)
next
  case (Rm path)
  then obtain m u p where r: "rm_error d path = None" "tokens path \<noteq> []" "resolve d (comps path) = Some (m, u)"
    "resolve d (butlast (comps path)) = Some (p, EXT2_FT_DIR)" "m \<notin> D"
    "\<forall>b \<in> set (dir_blocks d p). b < 23 \<longrightarrow> (\<exists>x \<in> set (block_list d (entries d b)). fst x \<noteq> last (comps path))"
    "links d (inode_at m) = 1 \<longrightarrow> last_link d D p (last (comps path)) m"
    using fit unfolding Rm fits.simps by (elim conjE exE)
  from rm_ok[OF fs r, of now] show ?thesis unfolding Rm by (elim exE conjE) simp
next
  case (Hard_Link source dest)
  then obtain m u p where r: "ln_error d source dest = None" "resolve d (comps source) = Some (m, u)"
    "resolve d (butlast (comps dest)) = Some (p, EXT2_FT_DIR)" "dir_map d p (last (comps dest)) = None" "live d m"
    "length (last (comps dest)) < 256" "can_add d p (length (last (comps dest)))"
    using fit by (auto simp: new_name_def)
  from ln_ok[OF fs r, of now] show ?thesis unfolding Hard_Link by (elim exE conjE) simp
next
  case (Soft_Link source dest)
  then obtain p where r: "ln_error d source dest = None"
    "resolve d (butlast (comps dest)) = Some (p, EXT2_FT_DIR)" "dir_map d p (last (comps dest)) = None"
    "length (last (comps dest)) < 256" "length (strtok_buffer source) < 1024"
    "cp_room d p (length (last (comps dest))) 1"
    using fit by (auto simp: new_name_def)
  from ln_soft_path_ok[OF fs r, of now] show ?thesis unfolding Soft_Link by (auto simp: linked_def)
next
  case (Cp files source dest)
  then obtain w p where r: "files (strtok_buffer source) = Some w" "butlast (cp_names d source dest) \<noteq> []"
    "resolve d (butlast (cp_names d source dest)) = Some (p, EXT2_FT_DIR)"
    "dir_map d p (last (cp_names d source dest)) = None" "length (last (cp_names d source dest)) < 256"
    "cp_room d p (length (last (cp_names d source dest))) (length w)"
    using fit by (auto simp: new_name_def)
  from cp_new_ok[where files = files and source = source and dest = dest and now = now, OF fs r]
  show ?thesis unfolding Cp by (auto simp: copied_def)
qed

lemma refused_same:
  assumes "tree_ok d D" "refused d c"
  shows "\<exists>e. run now c d = Quit e d"
proof (cases c)
  case (Mkdir path)
  then show ?thesis
    using assms(2) mkdir_split[OF assms(1), of path now] mkdir_rest_refused by auto
next
  case (Rm path)
  then show ?thesis using assms(2) rm_split[OF assms(1), of path now] by auto
next
  case (Hard_Link source dest)
  then show ?thesis
    using assms(2) ln_split[OF assms(1), where source = source and dest = dest and now = now and sl = False] by auto
next
  case (Soft_Link source dest)
  then show ?thesis
    using assms(2) ln_split[OF assms(1), where source = source and dest = dest and now = now and sl = True] by auto
next
  case (Cp files source dest)
  then show ?thesis using assms(2) cp_no_source[OF assms(1), of files source now dest] by auto
qed

lemma session_ok:
  assumes "session d0 D0 d D" "fs_ok d0 D0"
  shows "fs_ok d D \<and> D0 \<subseteq> D"
  using assms
proof (induction rule: session.induct)
  case (session_done d D c now d')
  then show ?case using fits_ok[of d D c now] by auto
next
  case (session_refused d D c now e d')
  then show ?case using refused_same[of d D c now] fs_okD(1)[of d D] by auto
qed simp

end
