(* ===== verification/Ext2_Props.thy ===== *)
theory Ext2_Props
  imports Ext2_Demo Ext2_Session
begin

text \<open>
  The properties of the ext2 tools, each with an instance on the small image of
  \<open>Ext2_Demo\<close> or on a block of its own.
\<close>

section \<open>Making directories\<close>

text \<open>C2: \<open>ext2_mkdir\<close> on a consistent image, with a path that is not refused and enough room,
  takes a free inode, enters it under the new name, gives the new directory exactly \<open>.\<close> and
  \<open>..\<close>, and leaves every other directory and file as it was; the image stays consistent and the
  path then leads to the new directory.\<close>

theorem mkdir_adds_directory:
  assumes fs: "fs_ok d D" and e: "mkdir_error d path = None"
    and p: "resolve d (butlast (comps path)) = Some (p, EXT2_FT_DIR)"
    and len: "length (last (comps path)) < 256" and room: "mkdir_room d p (length (last (comps path)))"
  shows "\<exists>n d'. ext2_mkdir now d path = Ret d' \<and> \<not> live d n \<and> fs_ok d' (insert n D) \<and>
     (\<forall>k \<in> insert n D. dir_map d' k = with_dir (dir_map d) p (last (comps path)) n k) \<and>
     resolve d' (comps path) = Some (n, EXT2_FT_DIR) \<and>
     (\<forall>k. live d k \<and> k \<noteq> p \<longrightarrow> agree (dir_bytes d k) d d')"
  by (rule mkdir_ok[OF fs e p len room])

theorem mkdir_adds_directory_witness:
  "\<exists>n d'. ext2_mkdir 7 demo ''/a'' = Ret d' \<and> n \<noteq> 2 \<and> dir_map d' 2 ''a'' = Some (n, 2)"
proof -
  have e: "mkdir_error demo ''/a'' = None"
    by (simp add: mkdir_error_def demo_comps demo_root demo_map EXT2_FT_DIR_def)
  have p: "resolve demo (butlast (comps ''/a'')) = Some (2, EXT2_FT_DIR)"
    by (simp add: demo_comps demo_root EXT2_FT_DIR_def)
  have room: "mkdir_room demo 2 (length (last (comps ''/a'')))"
    by (simp add: mkdir_room_def demo_counts demo_blocks demo_room demo_comps)
  have len: "length (last (comps ''/a'')) < 256" by (simp add: demo_comps)
  from mkdir_adds_directory[OF demo_ok e p len room, of 7] obtain n d' where
    r: "ext2_mkdir 7 demo ''/a'' = Ret d'" "\<not> live demo n"
      "\<forall>k \<in> insert n {2}. dir_map d' k = with_dir (dir_map demo) 2 (last (comps ''/a'')) n k" by auto
  have "n \<noteq> 2" using r(2) by (auto simp: demo_live)
  moreover have "dir_map d' 2 ''a'' = Some (n, 2)"
    using bspec[OF r(3), of 2] calculation by (simp add: with_dir_def demo_comps EXT2_FT_DIR_def)
  ultimately show ?thesis using r(1) by blast
qed

section \<open>Removing names\<close>

text \<open>C5: \<open>ext2_rm\<close> of a path to something that is not a directory takes exactly that name from
  its directory; with other links the inode keeps its blocks and counts one link less, with the
  last one the inode and all its blocks become free. The image stays consistent and all other
  directories and files are unchanged. With the last link, the inode has no other name, no
  indirect block, and it and its blocks are among those the tools give out (\<open>last_link\<close>); each
  block below 23 of the parent directory holds another name.\<close>

theorem rm_removes_name:
  assumes fs: "fs_ok d D" and e: "rm_error d path = None" and ne: "tokens path \<noteq> []"
    and r: "resolve d (comps path) = Some (m, u)"
    and p: "resolve d (butlast (comps path)) = Some (p, EXT2_FT_DIR)" and m: "m \<notin> D"
    and early: "\<forall>b \<in> set (dir_blocks d p). b < 23 \<longrightarrow>
      (\<exists>x \<in> set (block_list d (entries d b)). fst x \<noteq> last (comps path))"
    and last: "links d (inode_at m) = 1 \<longrightarrow> last_link d D p (last (comps path)) m"
  shows "\<exists>d'. ext2_rm now d path = Ret d' \<and> fs_ok d' D \<and>
     (\<forall>k \<in> D. dir_map d' k = ((dir_map d)(p := (dir_map d p)(last (comps path) := None))) k) \<and>
     (\<forall>k. live d k \<and> k \<noteq> p \<and> k \<noteq> m \<longrightarrow> agree (dir_bytes d k) d d') \<and>
     (\<forall>k. live d' k = (live d k \<and> (links d (inode_at m) = 1 \<longrightarrow> k \<noteq> m))) \<and>
     (links d (inode_at m) = 1 \<longrightarrow> (\<forall>b \<in> set (dir_blocks d m). \<not> block_used d' b)) \<and>
     (links d (inode_at m) \<noteq> 1 \<longrightarrow> dir_blocks d' m = dir_blocks d m \<and>
        links d' (inode_at m) = nat ((int (links d (inode_at m)) - 1) mod 65536))"
  by (rule rm_ok[OF fs e ne r p m early last])

theorem rm_removes_name_witness:
  "\<exists>d'. ext2_rm 7 demo ''/f'' = Ret d' \<and> dir_map d' 2 = [''.'' \<mapsto> (2, 2), ''..'' \<mapsto> (2, 2)] \<and> \<not> live d' 12"
proof -
  have e: "rm_error demo ''/f'' = None"
    by (simp add: rm_error_def demo_comps demo_lookup EXT2_FT_DIR_def)
  have ne: "tokens ''/f'' \<noteq> []" by (simp add: demo_comps)
  have r: "resolve demo (comps ''/f'') = Some (12, 1)" by (simp add: demo_comps demo_lookup)
  have p: "resolve demo (butlast (comps ''/f'')) = Some (2, EXT2_FT_DIR)"
    by (simp add: demo_comps demo_root EXT2_FT_DIR_def)
  have early: "\<forall>b \<in> set (dir_blocks demo 2). b < 23 \<longrightarrow>
      (\<exists>x \<in> set (block_list demo (entries demo b)). fst x \<noteq> last (comps ''/f''))"
    by (simp add: demo_blocks demo_entries demo_entries_fields demo_names demo_comps)
  have last: "links demo (inode_at 12) = 1 \<longrightarrow> last_link demo {2} 2 (last (comps ''/f'')) 12"
    by (simp add: last_link_def demo_direct demo_blocks demo_list demo_comps)
  have m: "(12 :: nat) \<notin> {2}" by simp
  from rm_removes_name[OF demo_ok e ne r p m early last, of 7] obtain d' where
    d': "ext2_rm 7 demo ''/f'' = Ret d'"
      "\<forall>k \<in> {2}. dir_map d' k = ((dir_map demo)(2 := (dir_map demo 2)(last (comps ''/f'') := None))) k"
      "\<forall>k. live d' k = (live demo k \<and> (links demo (inode_at 12) = 1 \<longrightarrow> k \<noteq> 12))" by auto
  have "\<not> live d' 12" using d'(3) demo_links by simp
  then show ?thesis using d'(1,2) by (auto simp: demo_map demo_comps)
qed

section \<open>Links\<close>

text \<open>C10: a hard link made by \<open>ext2_ln\<close> enters the inode of the source under the new name, as a
  regular file, counts one link more in that inode and changes nothing else in the tree.\<close>

theorem ln_adds_link:
  assumes fs: "fs_ok d D" and e: "ln_error d source dest = None"
    and s: "resolve d (comps source) = Some (m, u)"
    and p: "resolve d (butlast (comps dest)) = Some (p, EXT2_FT_DIR)"
    and new: "dir_map d p (last (comps dest)) = None" and m: "live d m"
    and len: "length (last (comps dest)) < 256" and add: "can_add d p (length (last (comps dest)))"
  shows "\<exists>d'. ext2_ln now d source dest False = Ret d' \<and> fs_ok d' D \<and>
     (\<forall>k \<in> D. dir_map d' k =
        ((dir_map d)(p := (dir_map d p)(last (comps dest) \<mapsto> (m, EXT2_FT_REG_FILE)))) k) \<and>
     (\<forall>k. live d' k = live d k) \<and> (\<forall>k. live d k \<and> k \<noteq> p \<and> k \<noteq> m \<longrightarrow> agree (dir_bytes d k) d d') \<and>
     links d' (inode_at m) = (links d (inode_at m) + 1) mod 65536"
  by (rule ln_ok[OF fs e s p new m len add])

theorem ln_adds_link_witness:
  "\<exists>d'. ext2_ln 7 demo ''/f'' ''/a'' False = Ret d' \<and> dir_map d' 2 ''a'' = Some (12, 1) \<and>
     links d' (inode_at 12) = 2"
proof -
  have e: "ln_error demo ''/f'' ''/a'' = None"
    by (simp add: ln_error_def demo_comps demo_lookup demo_root EXT2_FT_DIR_def)
  have s: "resolve demo (comps ''/f'') = Some (12, 1)" by (simp add: demo_comps demo_lookup)
  have p: "resolve demo (butlast (comps ''/a'')) = Some (2, EXT2_FT_DIR)"
    by (simp add: demo_comps demo_root EXT2_FT_DIR_def)
  have new: "dir_map demo 2 (last (comps ''/a'')) = None" by (simp add: demo_map demo_comps)
  have m: "live demo 12" by (simp add: demo_live)
  have len: "length (last (comps ''/a'')) < 256" by (simp add: demo_comps)
  have add: "can_add demo 2 (length (last (comps ''/a'')))"
    by (simp add: can_add_def demo_blocks demo_room demo_comps)
  from ln_adds_link[OF demo_ok e s p new m len add, of 7] show ?thesis
    by (auto simp: demo_map demo_comps demo_links EXT2_FT_REG_FILE_def)
qed

text \<open>C40: a symbolic link made by \<open>ext2_ln\<close> is a free inode entered under the new name as a
  link, and nothing else changes in the tree; but its contents are the source path only up to its
  first component, so that a path with several components is cut.\<close>

theorem ln_symlink_cut:
  assumes fs: "fs_ok d D" and e: "ln_error d source dest = None"
    and p: "resolve d (butlast (comps dest)) = Some (p, EXT2_FT_DIR)"
    and new: "dir_map d p (last (comps dest)) = None"
    and len: "length (last (comps dest)) < 256" "length (strtok_buffer source) < 1024"
    and room: "cp_room d p (length (last (comps dest))) 1"
  shows "\<exists>m d'. ext2_ln now d source dest True = Ret d' \<and>
     linked d D p (last (comps dest)) (strtok_buffer source) m d' \<and>
     (1 < length (tokens source) \<longrightarrow> file_bytes d' m \<noteq> map char_byte source)"
proof -
  obtain m d' where r: "ext2_ln now d source dest True = Ret d'"
    "linked d D p (last (comps dest)) (strtok_buffer source) m d'"
    using ln_soft_path_ok[OF fs e p new len room, of now] by blast
  have "file_bytes d' m \<noteq> map char_byte source" if "1 < length (tokens source)"
  proof
    assume "file_bytes d' m = map char_byte source"
    then have "map char_byte (strtok_buffer source) = map char_byte source" using r(2) by (simp add: linked_def)
    then have "strtok_buffer source = source" by (rule map_injective) (metis byte_char_byte injI)
    then show False using strtok_buffer_cut[OF that] by simp
  qed
  then show ?thesis using r by blast
qed

theorem ln_symlink_cut_witness:
  "\<exists>m d'. ext2_ln 7 demo ''/f'' ''/a'' True = Ret d' \<and> dir_map d' 2 ''a'' = Some (m, 7) \<and>
     file_bytes d' m = map char_byte ''/f''"
proof -
  have e: "ln_error demo ''/f'' ''/a'' = None"
    by (simp add: ln_error_def demo_comps demo_lookup demo_root EXT2_FT_DIR_def)
  have p: "resolve demo (butlast (comps ''/a'')) = Some (2, EXT2_FT_DIR)"
    by (simp add: demo_comps demo_root EXT2_FT_DIR_def)
  have new: "dir_map demo 2 (last (comps ''/a'')) = None" by (simp add: demo_map demo_comps)
  have len: "length (last (comps ''/a'')) < 256" "length (strtok_buffer ''/f'') < 1024"
    by (simp_all add: demo_comps strtok_buffer_def)
  have room: "cp_room demo 2 (length (last (comps ''/a''))) 1"
    by (simp add: cp_room_def demo_counts demo_blocks demo_room demo_comps pieces_def)
  obtain m d' where r: "ext2_ln 7 demo ''/f'' ''/a'' True = Ret d'"
    "linked demo {2} 2 (last (comps ''/a'')) (strtok_buffer ''/f'') m d'"
    using ln_symlink_cut[OF demo_ok e p new len room, of 7] by blast
  then show ?thesis
    by (intro exI[of _ m] exI[of _ d']) (simp add: linked_def demo_comps strtok_buffer_def EXT2_FT_SYMLINK_def)
qed

section \<open>Sequences of commands\<close>

text \<open>C4: from a consistent image, any sequence of commands that fit and of commands that are
  refused keeps the image consistent and all its directories, and at every point each command that
  fits succeeds.\<close>

theorem sessions_stay_consistent:
  assumes "fs_ok d0 D0" "session d0 D0 d D"
  shows "fs_ok d D \<and> D0 \<subseteq> D \<and> (\<forall>now c. fits d D c \<longrightarrow> (\<exists>d'. run now c d = Ret d'))"
  using session_ok[OF assms(2,1)] fits_ok[of d D] by blast

theorem sessions_stay_consistent_witness:
  "\<exists>n d'. ext2_mkdir 7 demo ''/a'' = Ret d' \<and> fs_ok d' {n, 2}"
proof -
  have fit: "fits demo {2} (Mkdir ''/a'')"
    by (auto simp: mkdir_error_def new_name_def mkdir_room_def demo_comps demo_root demo_map demo_counts
        demo_blocks demo_room EXT2_FT_DIR_def intro!: exI[of _ 2])
  have "session demo {2} demo {2}" by (rule session_start)
  from sessions_stay_consistent[OF demo_ok this] fit obtain d' where
    d': "run 7 (Mkdir ''/a'') demo = Ret d'" by blast
  have s: "session demo {2} d' (directories d' (Mkdir ''/a'') {2})"
    by (rule session_done[OF session_start fit d'])
  from sessions_stay_consistent[OF demo_ok s] have ok: "fs_ok d' (directories d' (Mkdir ''/a'') {2})" by blast
  have "\<exists>n. directories d' (Mkdir ''/a'') {2} = {n, 2}"
    by (cases "resolve d' (comps ''/a'')") auto
  then show ?thesis using d' ok by auto
qed

end
