(* ===== verification/Ext2_Cp_Props.thy ===== *)
theory Ext2_Cp_Props
  imports Ext2_Demo
begin

text \<open>
  The properties of \<open>ext2_cp\<close>: a file that fits into the twelve direct blocks is read back from
  the image as it was, a longer one is cut off although the command succeeds.
\<close>

section \<open>Copying into the image\<close>

text \<open>C6: a file of at most twelve blocks that \<open>ext2_cp\<close> copies to a new name of a directory with
  room is read back from the image byte for byte, under an inode that was free, with its size; the
  image stays consistent and every other name, file and directory is unchanged.\<close>

theorem cp_roundtrip:
  assumes fs: "fs_ok d D" and w: "files (strtok_buffer source) = Some w" and small: "length w \<le> 12288"
    and p: "butlast (cp_names d source dest) \<noteq> []"
      "resolve d (butlast (cp_names d source dest)) = Some (p, EXT2_FT_DIR)"
    and new: "dir_map d p (last (cp_names d source dest)) = None"
    and len: "length (last (cp_names d source dest)) < 256"
    and room: "cp_room d p (length (last (cp_names d source dest))) (length w)"
  shows "\<exists>m d'. ext2_cp now files d source dest = Ret d' \<and>
     copied d D p (last (cp_names d source dest)) w m d' \<and> file_bytes d' m = w"
  using cp_new_ok[where files = files and source = source and dest = dest and now = now,
      OF fs w p new len room] small by auto

lemma demo_cp:
  assumes "length w \<le> 14000"
  shows "cp_names demo ''x'' ''/a'' = [''.'', ''a'']" "cp_room demo 2 1 (length w)"
proof -
  show "cp_names demo ''x'' ''/a'' = [''.'', ''a'']"
    by (simp add: cp_names_def demo_comps demo_lookup)
  have "pieces (length w) \<le> 50" using assms by (simp add: pieces_def)
  then show "cp_room demo 2 1 (length w)"
    using assms by (simp add: cp_room_def demo_counts demo_blocks demo_room)
qed

theorem cp_roundtrip_witness:
  "\<exists>m d'. ext2_cp 7 (\<lambda>_. Some [1, 2, 3]) demo ''x'' ''/a'' = Ret d' \<and>
     dir_map d' 2 ''a'' = Some (m, 1) \<and> file_bytes d' m = [1, 2, 3]"
proof -
  have n: "cp_names demo ''x'' ''/a'' = [''.'', ''a'']" "cp_room demo 2 1 (length [1 :: u8, 2, 3])"
    by (rule demo_cp[of "[1, 2, 3]"], simp)+
  have p: "butlast (cp_names demo ''x'' ''/a'') \<noteq> []"
    "resolve demo (butlast (cp_names demo ''x'' ''/a'')) = Some (2, EXT2_FT_DIR)"
    "dir_map demo 2 (last (cp_names demo ''x'' ''/a'')) = None"
    "length (last (cp_names demo ''x'' ''/a'')) < 256"
    "cp_room demo 2 (length (last (cp_names demo ''x'' ''/a''))) (length [1 :: u8, 2, 3])"
    using n(2) by (simp_all add: n(1) demo_root demo_map EXT2_FT_DIR_def)
  obtain m d' where r: "ext2_cp 7 (\<lambda>_. Some [1, 2, 3]) demo ''x'' ''/a'' = Ret d'"
     "copied demo {2} 2 (last (cp_names demo ''x'' ''/a'')) [1, 2, 3] m d'" "file_bytes d' m = [1, 2, 3]"
    using cp_roundtrip[OF demo_ok _ _ p, of "\<lambda>_. Some [1, 2, 3]" 7] by auto
  have "dir_map d' 2 ''a'' = Some (m, 1)"
    using r(2) by (simp add: copied_def n(1) EXT2_FT_REG_FILE_def)
  then show ?thesis using r(1,3) by blast
qed

text \<open>C33: a file of more than twelve blocks, within the limit that \<open>ext2_cp\<close> checks, is copied
  without an error, and the size written to its inode is that of the whole file, but only its first
  12288 bytes can be read back: the indirect block that the rest needs is never allocated.\<close>

theorem cp_truncates:
  assumes fs: "fs_ok d D" and w: "files (strtok_buffer source) = Some w" and big: "12288 < length w"
    and p: "butlast (cp_names d source dest) \<noteq> []"
      "resolve d (butlast (cp_names d source dest)) = Some (p, EXT2_FT_DIR)"
    and new: "dir_map d p (last (cp_names d source dest)) = None"
    and len: "length (last (cp_names d source dest)) < 256"
    and room: "cp_room d p (length (last (cp_names d source dest))) (length w)"
  shows "\<exists>m d'. ext2_cp now files d source dest = Ret d' \<and>
     dir_map d' p (last (cp_names d source dest)) = Some (m, EXT2_FT_REG_FILE) \<and>
     i_size_of d' m = length w \<and> file_bytes d' m = take 12288 w \<and> file_bytes d' m \<noteq> w"
proof -
  obtain m d' where r: "ext2_cp now files d source dest = Ret d'"
    "copied d D p (last (cp_names d source dest)) w m d'" "file_bytes d' m = take 12288 w"
    using cp_new_ok[where files = files and source = source and dest = dest and now = now,
      OF fs w p new len room] by blast
  have "p \<in> D" using resolve_range[OF fs_okD(1)[OF fs] p(2)] by simp
  moreover have "take 12288 w \<noteq> w" using big by simp
  moreover have "dir_map d' p (last (cp_names d source dest)) = Some (m, EXT2_FT_REG_FILE)"
    "i_size_of d' m = length w"
    using r(2) calculation(1) by (simp_all add: copied_def)
  ultimately show ?thesis using r(1,3) by (intro exI[of _ m] exI[of _ d']) simp
qed

theorem cp_truncates_witness:
  "\<exists>m d'. ext2_cp 7 (\<lambda>_. Some (replicate 13000 5)) demo ''x'' ''/a'' = Ret d' \<and>
     i_size_of d' m = 13000 \<and> length (file_bytes d' m) = 12288"
proof -
  let ?w = "replicate 13000 5 :: u8 list"
  have n: "cp_names demo ''x'' ''/a'' = [''.'', ''a'']" "cp_room demo 2 1 (length ?w)"
    by (rule demo_cp[of ?w], simp)+
  have p: "butlast (cp_names demo ''x'' ''/a'') \<noteq> []"
    "resolve demo (butlast (cp_names demo ''x'' ''/a'')) = Some (2, EXT2_FT_DIR)"
    "dir_map demo 2 (last (cp_names demo ''x'' ''/a'')) = None"
    "length (last (cp_names demo ''x'' ''/a'')) < 256"
    "cp_room demo 2 (length (last (cp_names demo ''x'' ''/a''))) (length ?w)"
    using n(2) by (simp_all add: n(1) demo_root demo_map EXT2_FT_DIR_def)
  have b: "12288 < length ?w" by simp
  obtain m d' where r: "ext2_cp 7 (\<lambda>_. Some ?w) demo ''x'' ''/a'' = Ret d'"
    "i_size_of d' m = length ?w" "file_bytes d' m = take 12288 ?w"
    using cp_truncates[OF demo_ok _ b p, of "\<lambda>_. Some ?w" 7] by auto
  have "length (file_bytes d' m) = 12288" unfolding r(3) length_take length_replicate by simp
  moreover have "i_size_of d' m = 13000" unfolding r(2) length_replicate by simp
  ultimately show ?thesis using r(1) by (intro exI[of _ m] exI[of _ d']) simp
qed

end
