(* ===== verification/Ext2_Dir_Props.thy ===== *)
theory Ext2_Dir_Props
  imports Ext2_Demo
begin

text \<open>
  Properties of the parts that the ext2 commands share: paths, lookup, listing, names that fill
  their entry, allocation, and commands that are refused.
\<close>

section \<open>Paths and lookup\<close>

text \<open>C34: \<open>split_path\<close> of a path that is put together from non-empty components without
  slashes gives back these components, after the leading \<open>.\<close>.\<close>

theorem split_path_joined:
  assumes "\<forall>c \<in> set cs. c \<noteq> [] \<and> CHR ''/'' \<notin> set c"
  shows "\<exists>l. split_path (concat (map (\<lambda>c. CHR ''/'' # c) cs)) = Ret l \<and> dl_inv l \<and>
     dl_abs l = map Some (''.'' # cs)"
proof -
  have "tokens (concat (map (\<lambda>c. CHR ''/'' # c) cs)) = cs \<and>
      (cs = [] \<or> concat (map (\<lambda>c. CHR ''/'' # c) cs) = CHR ''/'' # drop 1 (concat (map (\<lambda>c. CHR ''/'' # c) cs)))"
    using assms
  proof (induction cs)
    case Nil
    then show ?case by (simp add: tokens_def)
  next
    case (Cons c cs)
    let ?r = "concat (map (\<lambda>c. CHR ''/'' # c) cs)"
    from Cons have IH: "tokens ?r = cs" "?r = [] \<or> ?r = CHR ''/'' # drop 1 ?r" by auto
    have "tokens (drop 1 ?r) = tokens ?r"
      using IH(2) tokens_slashes[of "''/''" "drop 1 ?r"] by (cases ?r) auto
    moreover have "tokens (c @ ?r) = c # tokens (drop 1 ?r)"
      using tokens_word[of c ?r "drop 1 ?r"] Cons.prems IH(2) by auto
    moreover have "tokens (CHR ''/'' # c @ ?r) = tokens (c @ ?r)"
      using tokens_slashes[of "''/''" "c @ ?r"] by simp
    ultimately show ?case using IH(1) by simp
  qed
  then show ?thesis using split_path_ok[of "concat (map (\<lambda>c. CHR ''/'' # c) cs)"] by metis
qed

theorem split_path_joined_witness:
  "\<exists>l. split_path ''/usr/a'' = Ret l \<and> dl_abs l = [Some ''.'', Some ''usr'', Some ''a'']"
  using split_path_joined[of "[''usr'', ''a'']"] by auto

text \<open>C20: on a consistent tree, \<open>traverse_path\<close> of the components that \<open>split_path\<close> makes
  never reads outside the image and finds exactly the entry that following the names through the
  abstract directories gives: its inode and type, or nothing.\<close>

theorem traverse_refines_resolve:
  assumes "tree_ok d D"
  shows "\<exists>l e. split_path path = Ret l \<and> traverse_path d l = Ret e \<and>
     (case e of
        None \<Rightarrow> resolve d (''.'' # tokens path) = None
      | Some a \<Rightarrow> resolve d (''.'' # tokens path) = Some (einode d a, ftype d a) \<and> located d D a)"
proof -
  obtain l e where "split_path path = Ret l" "traverse_path d l = Ret e"
    "points d D e (resolve d (''.'' # tokens path))"
    by (rule traverse_split[OF assms])
  then show ?thesis unfolding points_def by (intro exI[of _ l] exI[of _ e]) (auto split: option.splits)
qed

theorem traverse_refines_resolve_witness:
  "\<exists>l a. split_path ''/f'' = Ret l \<and> traverse_path demo l = Ret (Some a) \<and> einode demo a = 12"
proof -
  have t: "tokens ''/f'' = [''f'']" by (simp add: demo_comps)
  from traverse_refines_resolve[OF fs_okD(1)[OF demo_ok], of "''/f''"] obtain l e where
    "split_path ''/f'' = Ret l" "traverse_path demo l = Ret e"
    "case e of None \<Rightarrow> resolve demo [''.'', ''f''] = None
      | Some a \<Rightarrow> resolve demo [''.'', ''f''] = Some (einode demo a, ftype demo a) \<and> located demo {2} a"
    unfolding t by blast
  then show ?thesis by (cases e) (auto simp: demo_lookup)
qed

section \<open>Listing\<close>



section \<open>Names that fill their entry\<close>

text \<open>C36: a name whose length is a multiple of four and that fills its entry to the end makes
  \<open>make_entry_in_existing_block\<close> write the new entry over the one that follows: the room is
  computed as a negative number in an unsigned short. No name of the block but those before it and
  the new one is found afterwards.\<close>

theorem tight_entry_overwritten:
  assumes "entry_block d s (xs @ e # y # ys)" "roomy d xs" "\<forall>x \<in> set xs. \<not> has_room d (length name) x"
    and "rlen d e = 8 + nlen d e" "nlen d e mod 4 = 0"
    and "length name < 256" "ft < 256" "ino < 2 ^ 32" "e + 12 + nlen d e + 8 + length name \<le> s + 1024"
  shows "\<exists>d'. make_entry_in_existing_block d s ino name ft = Ret (Some (e + 12 + nlen d e), d') \<and>
     y < e + 12 + nlen d e \<and> e + 12 + nlen d e < y + 8 \<and>
     (\<forall>n. n \<noteq> name \<and> n \<notin> ename d ` set (xs @ [e]) \<longrightarrow> block_matching_pair d' s n = Ret None)"
  using insert_overwrites[OF assms] by blast

text \<open>The entry \<open>abcd\<close> of 12 bytes, then \<open>x\<close> up to the end of the block.\<close>

definition tight_block :: bytes where
  "tight_block = (\<lambda>_. 0)(9216 := 12, 9220 := 12, 9222 := 4, 9223 := 1, 9224 := 97, 9225 := 98, 9226 := 99,
     9227 := 100, 9228 := 13, 9232 := 244, 9233 := 3, 9234 := 1, 9235 := 1, 9236 := 120)"

lemma tight_block_fields:
  "rlen tight_block 9216 = 12" "nlen tight_block 9216 = 4" "rlen tight_block 9228 = 1012"
  "nlen tight_block 9228 = 1"
  by (simp_all add: rlen_def nlen_def ext2_layout load_2 tight_block_def)

lemma tight_block_names: "ename tight_block 9216 = ''abcd''"
proof -
  have u: "[0..<4] = [0, 1, 2, 3 :: nat]" by (simp add: upt_rec)
  have c: "byte_char 97 = CHR ''a''" "byte_char 98 = CHR ''b''" "byte_char 99 = CHR ''c''"
    "byte_char 100 = CHR ''d''" by (simp_all add: byte_char_def) code_simp+
  have b: "tight_block 9224 = 97" "tight_block 9225 = 98" "tight_block 9226 = 99" "tight_block 9227 = 100"
    by (simp_all add: tight_block_def)
  show ?thesis by (simp add: ename_def tight_block_fields e_name_def u b c del: upt_rec_numeral)
qed

theorem tight_entry_overwritten_witness:
  "\<exists>d'. make_entry_in_existing_block tight_block 9216 14 ''zz'' 1 = Ret (Some 9232, d') \<and>
     block_matching_pair d' 9216 ''x'' = Ret None"
proof -
  have h: "entry_block tight_block 9216 ([] @ 9216 # 9228 # [])" "roomy tight_block []"
    "\<forall>x \<in> set []. \<not> has_room tight_block (length ''zz'') x"
    "rlen tight_block 9216 = 8 + nlen tight_block 9216" "nlen tight_block 9216 mod 4 = 0"
    "length ''zz'' < 256" "(1 :: nat) < 256" "(14 :: nat) < 2 ^ 32"
    "9216 + 12 + nlen tight_block 9216 + 8 + length ''zz'' \<le> 9216 + 1024"
    by (simp_all add: entry_block_def DISK_SIZE_def tight_block_fields)
  from tight_entry_overwritten[OF h] obtain d' where
    r: "make_entry_in_existing_block tight_block 9216 14 ''zz'' 1 = Ret (Some 9232, d')"
      "\<forall>n. n \<noteq> ''zz'' \<and> n \<notin> ename tight_block ` set ([] @ [9216]) \<longrightarrow>
        block_matching_pair d' 9216 n = Ret None"
    by (auto simp: tight_block_fields)
  have "block_matching_pair d' 9216 ''x'' = Ret None"
    using r(2) by (simp add: tight_block_names)
  then show ?thesis using r(1) by blast
qed

section \<open>Refused commands\<close>

text \<open>C37: \<open>ext2_mkdir\<close>, \<open>ext2_rm\<close> and \<open>ext2_ln\<close> on a consistent image end with the error code
  of the first path check that fails, and with 1 when a directory or a symbolic link finds no free
  inode; \<open>ext2_cp\<close> ends with \<open>ENOENT\<close> for a file that cannot be opened and with 1 for one
  that needs more blocks than are free. The image is then as it was. Only when \<open>ext2_cp\<close> is
  refused later, because the parent directory does not exist, the file is too long or no inode is
  free, the image differs: the blocks for the file stay marked as used.\<close>

theorem refused_unchanged:
  assumes fs: "fs_ok d D"
  shows "(mkdir_error d path = Some c \<longrightarrow> ext2_mkdir now d path = Quit c d) \<and>
    (mkdir_error d path = None \<and> free_inodes d = 0 \<longrightarrow> ext2_mkdir now d path = Quit 1 d) \<and>
    (tokens path \<noteq> [] \<and> rm_error d path = Some c \<longrightarrow> ext2_rm now d path = Quit c d) \<and>
    (ln_error d source path = Some c \<longrightarrow> ext2_ln now d source path sl = Quit c d) \<and>
    (ln_error d source path = None \<and> free_inodes d = 0 \<longrightarrow> ext2_ln now d source path True = Quit 1 d) \<and>
    (case files (strtok_buffer source) of
       None \<Rightarrow> ext2_cp now files d source path = Quit ENOENT d
     | Some w \<Rightarrow>
         let n = get_required_block_count (length w); names = cp_names d source path in
         (free_blocks d < n \<longrightarrow> ext2_cp now files d source path = Quit 1 d) \<and>
         (n \<le> free_blocks d \<and> tokens path \<noteq> [] \<longrightarrow>
            (resolve d (butlast names) = None \<longrightarrow>
               (\<exists>d'. ext2_cp now files d source path = Quit EEXIST d' \<and> leaks_blocks d D n d')) \<and>
            (resolve d (butlast names) \<noteq> None \<and> resolve d names = None \<and>
             (INODE_BLOCK_LIMIT < n \<or> free_inodes d = 0) \<longrightarrow>
               (\<exists>d'. ext2_cp now files d source path = Quit 1 d' \<and> leaks_blocks d D n d'))))"
proof -
  note t = fs_okD(1)[OF fs]
  have "(mkdir_error d path = Some c \<longrightarrow> ext2_mkdir now d path = Quit c d) \<and>
    (mkdir_error d path = None \<and> free_inodes d = 0 \<longrightarrow> ext2_mkdir now d path = Quit 1 d)"
    using mkdir_split[OF t, of path now] mkdir_rest_refused by auto
  moreover have "tokens path \<noteq> [] \<and> rm_error d path = Some c \<longrightarrow> ext2_rm now d path = Quit c d"
    using rm_split[OF t, of path now] by auto
  moreover have "ln_error d source path = Some c \<longrightarrow> ext2_ln now d source path sl = Quit c d"
    using ln_split[OF t, where source = source and dest = path and now = now and sl = sl] by auto
  ultimately show ?thesis
    using ln_no_inode[OF t, of source path now] cp_no_source[OF t, of files source now path]
      cp_no_blocks[OF t, of files source _ now path] cp_refused_late[OF fs, of files source _ path now]
    by (simp add: Let_def split: option.split)
qed

theorem refused_unchanged_witness:
  "ext2_mkdir 7 demo ''/f'' = Quit EEXIST demo \<and> ext2_rm 7 demo ''/a'' = Quit ENOENT demo \<and>
   ext2_ln 7 demo ''/a'' ''/f'' False = Quit ENOENT demo \<and> ext2_cp 7 (\<lambda>_. None) demo ''x'' ''/a'' = Quit ENOENT demo"
proof -
  have "mkdir_error demo ''/f'' = Some EEXIST"
    by (simp add: mkdir_error_def demo_comps demo_root demo_map EXT2_FT_DIR_def)
  moreover have "rm_error demo ''/a'' = Some ENOENT" "tokens ''/a'' \<noteq> []"
    by (simp_all add: rm_error_def demo_comps demo_lookup)
  moreover have "ln_error demo ''/a'' ''/f'' = Some ENOENT"
    by (simp add: ln_error_def demo_comps demo_lookup)
  ultimately show ?thesis
    using refused_unchanged[OF demo_ok, where path = "''/f''" and c = EEXIST and now = 7 and files = "\<lambda>_. None"]
      refused_unchanged[OF demo_ok, where path = "''/a''" and c = ENOENT and now = 7 and files = "\<lambda>_. None"]
      refused_unchanged[OF demo_ok, where path = "''/f''" and source = "''/a''" and c = ENOENT and now = 7
        and sl = False and files = "\<lambda>_. None"]
      refused_unchanged[OF demo_ok, where path = "''/a''" and source = "''x''" and files = "\<lambda>_. None" and now = 7]
    by simp
qed

section \<open>Allocation\<close>

text \<open>C38: \<open>allocate_blocks\<close> on a consistent image with too few free blocks is refused without
  a change; otherwise it gives the number asked for of different data blocks that were free,
  marks exactly these as used, counts them, and keeps the image, its directories and the blocks of
  all inodes as they were.\<close>

theorem allocate_blocks_distinct:
  assumes fs: "fs_ok d D"
  shows "free_blocks d < n \<and> allocate_blocks d n = Quit 1 d \<or>
    (\<exists>bs d'. allocate_blocks d n = Ret (bs, d') \<and> length bs = n \<and> distinct bs \<and> set bs \<subseteq> {23 ..< 128} \<and>
       (\<forall>b \<in> set bs. \<not> block_used d b) \<and> free_blocks d' = free_blocks d - n \<and> fs_ok d' D \<and>
       (\<forall>b. 0 < b \<and> b < 129 \<longrightarrow> block_used d' b = (b \<in> set bs \<or> block_used d b)) \<and>
       (\<forall>k \<in> D. dir_list d' k = dir_list d k) \<and> (\<forall>k. live d k \<longrightarrow> agree (dir_bytes d k) d d'))"
proof (cases "free_blocks d < n")
  case True
  then show ?thesis by (simp add: allocate_blocks_refused)
next
  case False
  note c = fs_claims[OF fs, of n]
  let ?bs = "take n (free_from d 23)" and ?d = "claims (take n (free_from d 23)) (bump_blocks (- int n) d)"
  have n: "n \<le> free_blocks d" using False by simp
  have "\<forall>b. 0 < b \<and> b < 129 \<longrightarrow> block_used ?d b = (b \<in> set ?bs \<or> block_used d b)"
    "\<forall>k \<in> D. dir_list ?d k = dir_list d k" "\<forall>k. live d k \<longrightarrow> agree (dir_bytes d k) d ?d"
    using c(3,5,6)[OF n] by blast+
  then show ?thesis
    using c(1,2,7,9-12)[OF n] by (intro disjI2 exI[of _ ?bs] exI[of _ ?d] conjI)
qed

theorem allocate_blocks_distinct_witness:
  "allocate_blocks demo 51 = Quit 1 demo \<and> (\<exists>bs d'. allocate_blocks demo 50 = Ret (bs, d') \<and>
     distinct bs \<and> length bs = 50 \<and> free_blocks d' = 0)"
proof -
  have "allocate_blocks demo 51 = Quit 1 demo"
    by (simp add: allocate_blocks_refused demo_counts)
  moreover have "\<not> free_blocks demo < 50" by (simp add: demo_counts)
  then obtain bs d' where "allocate_blocks demo 50 = Ret (bs, d')" "length bs = 50" "distinct bs"
    "free_blocks d' = free_blocks demo - 50"
    using allocate_blocks_distinct[OF demo_ok, of 50] by blast
  ultimately show ?thesis by (simp add: demo_counts)
qed

end
