(* ===== verification/Matmul.thy ===== *)
theory Matmul
  imports Prelude
begin

text \<open>
  The two matrix programs of \<^verbatim>\<open>a2/starter/traceprogs\<close> whose memory traces feed the
  simulator: \<^verbatim>\<open>matmul.c\<close> multiplies row by row, \<^verbatim>\<open>blocked.c\<close> block by block.
  An array is the list of its values (the padding of \<open>struct record\<close> is never read), a pointer
  into it is an index, and every access is checked. The operations on \<open>double\<close> are the parameters
  \<open>fadd\<close>, \<open>fmul\<close> and \<open>z\<close> (0.0, which is also what \<open>memset\<close> to zero makes): nothing
  is assumed of them, so that the results below hold bit for bit.
\<close>

section \<open>Arrays and loops\<close>

definition get_at :: "'a list \<Rightarrow> nat \<Rightarrow> 'a outcome" where
  "get_at xs k = (if k < length xs then Ok (xs ! k) else Undef)"

definition put_at :: "'a list \<Rightarrow> nat \<Rightarrow> 'a \<Rightarrow> 'a list outcome" where
  "put_at xs k x = (if k < length xs then Ok (xs[k := x]) else Undef)"

text \<open>\<open>for (i = 0; i < n; i++)\<close>.\<close>

fun for_in :: "'i list \<Rightarrow> ('i \<Rightarrow> 's \<Rightarrow> 's outcome) \<Rightarrow> 's \<Rightarrow> 's outcome" where
  "for_in [] body s = Ok s"
| "for_in (i # is) body s = bind_o (body i s) (for_in is body)"

abbreviation for_up :: "nat \<Rightarrow> (nat \<Rightarrow> 's \<Rightarrow> 's outcome) \<Rightarrow> 's \<Rightarrow> 's outcome" where
  "for_up n \<equiv> for_in [0..<n]"

section \<open>The programs\<close>

record 'a mats =
  gA :: "'a list"
  gB :: "'a list"
  gC :: "'a list"
  C_p :: nat
  gn :: nat
  gb :: nat
  n_bar :: nat
  b_sqr :: nat

text \<open>\<open>rnd\<close> are the quotients of successive results of \<open>random()\<close> by \<open>RAND_MAX\<close>.\<close>

definition Get_matrices :: "(nat \<Rightarrow> 'a) \<Rightarrow> nat \<Rightarrow> 'a list \<Rightarrow> 'a list \<Rightarrow> ('a list \<times> 'a list) outcome" where
  "Get_matrices rnd n A B =
     for_up (n * n) (\<lambda>i (A, B).
       bind_o (put_at A i (rnd (2 * i))) (\<lambda>A.
       bind_o (put_at B i (rnd (2 * i + 1))) (\<lambda>B. Ok (A, B)))) (A, B)"

text \<open>\<open>C[c] += A[a] * B[b]\<close>.\<close>

definition accumulate ::
  "('a \<Rightarrow> 'a \<Rightarrow> 'a) \<Rightarrow> ('a \<Rightarrow> 'a \<Rightarrow> 'a) \<Rightarrow> 'a list \<Rightarrow> 'a list \<Rightarrow> nat \<Rightarrow> nat \<Rightarrow> nat \<Rightarrow> 'a list \<Rightarrow> 'a list outcome" where
  "accumulate fadd fmul A B a b c C =
     bind_o (get_at A a) (\<lambda>x. bind_o (get_at B b) (\<lambda>y. bind_o (get_at C c) (\<lambda>v.
     put_at C c (fadd v (fmul x y)))))"

definition Mat_mult :: "('a \<Rightarrow> 'a \<Rightarrow> 'a) \<Rightarrow> ('a \<Rightarrow> 'a \<Rightarrow> 'a) \<Rightarrow> 'a \<Rightarrow> 'a mats \<Rightarrow> 'a mats outcome" where
  "Mat_mult fadd fmul z g =
     bind_o
       (for_up (gn g) (\<lambda>i. for_up (gn g) (\<lambda>j C.
          bind_o (put_at C (i * gn g + j) z)
            (for_up (gn g) (\<lambda>k. accumulate fadd fmul (gA g) (gB g)
               (i * gn g + k) (k * gn g + j) (i * gn g + j))))) (gC g))
       (\<lambda>C. Ok (g\<lparr>gC := C\<rparr>))"

definition Zero_C :: "'a \<Rightarrow> nat \<Rightarrow> nat \<Rightarrow> 'a mats \<Rightarrow> 'a mats outcome" where
  "Zero_C z i_bar j_bar g =
     (let p = (i_bar * n_bar g + j_bar) * b_sqr g in
      if p + b_sqr g \<le> length (gC g)
      then Ok (g\<lparr>C_p := p, gC := take p (gC g) @ replicate (b_sqr g) z @ drop (p + b_sqr g) (gC g)\<rparr>)
      else Undef)"

definition Mult_add ::
  "('a \<Rightarrow> 'a \<Rightarrow> 'a) \<Rightarrow> ('a \<Rightarrow> 'a \<Rightarrow> 'a) \<Rightarrow> nat \<Rightarrow> nat \<Rightarrow> nat \<Rightarrow> 'a mats \<Rightarrow> 'a mats outcome" where
  "Mult_add fadd fmul i_bar j_bar k_bar g =
     (let c_p = C_p g; a_p = (i_bar * n_bar g + k_bar) * b_sqr g; b_p = (k_bar * n_bar g + j_bar) * b_sqr g in
      bind_o
        (for_up (gb g) (\<lambda>i. for_up (gb g) (\<lambda>j. for_up (gb g) (\<lambda>k.
           accumulate fadd fmul (gA g) (gB g)
             (a_p + i * gb g + k) (b_p + k * gb g + j) (c_p + i * gb g + j)))) (gC g))
        (\<lambda>C. Ok (g\<lparr>gC := C\<rparr>)))"

definition Blocked_mat_mult ::
  "('a \<Rightarrow> 'a \<Rightarrow> 'a) \<Rightarrow> ('a \<Rightarrow> 'a \<Rightarrow> 'a) \<Rightarrow> 'a \<Rightarrow> 'a mats \<Rightarrow> 'a mats outcome" where
  "Blocked_mat_mult fadd fmul z g =
     for_up (n_bar g) (\<lambda>i_bar. for_up (n_bar g) (\<lambda>j_bar g.
       bind_o (Zero_C z i_bar j_bar g)
         (for_up (n_bar g) (\<lambda>k_bar. Mult_add fadd fmul i_bar j_bar k_bar)))) g"

definition copy_records :: "'a list \<Rightarrow> 'a list \<Rightarrow> nat \<Rightarrow> 'a list outcome" where
  "copy_records A T m =
     (if m \<le> length A \<and> m \<le> length T then Ok (take m T @ drop m A) else Undef)"

text \<open>
  The conversions copy through a temporary \<open>T\<close>; \<open>T\<close> is what \<open>malloc\<close> returned, with
  contents that the code does not know, or \<open>None\<close>.
\<close>

definition To_blocked :: "'a list option \<Rightarrow> 'a list \<Rightarrow> nat \<Rightarrow> nat \<Rightarrow> 'a list outcome" where
  "To_blocked T A n b =
     (case T of
        None \<Rightarrow> Exit (- 1)
      | Some T \<Rightarrow>
          bind_o
            (for_up (n div b) (\<lambda>i_bar. for_up (n div b) (\<lambda>j_bar (T, t_p).
               bind_o
                 (for_up b (\<lambda>i (T, t_p, a_p).
                    bind_o
                      (for_up b (\<lambda>j (T, t_p, a_p).
                         bind_o (get_at A a_p) (\<lambda>v. bind_o (put_at T t_p v) (\<lambda>T. Ok (T, t_p + 1, a_p + 1))))
                       (T, t_p, a_p))
                      (\<lambda>(T, t_p, a_p). Ok (T, t_p, a_p + (n - b))))
                  (T, t_p, i_bar * b * n + j_bar * b))
                 (\<lambda>(T, t_p, a_p). Ok (T, t_p)))) (T, 0))
            (\<lambda>(T, t_p). copy_records A T (n * n)))"

definition From_blocked :: "'a list option \<Rightarrow> 'a list \<Rightarrow> nat \<Rightarrow> nat \<Rightarrow> 'a list outcome" where
  "From_blocked T C n b =
     (case T of
        None \<Rightarrow> Exit (- 1)
      | Some T \<Rightarrow>
          bind_o
            (for_up (n div b) (\<lambda>i_bar. for_up (n div b) (\<lambda>j_bar (T, c_p).
               bind_o
                 (for_up b (\<lambda>i (T, c_p, t_p).
                    bind_o
                      (for_up b (\<lambda>j (T, c_p, t_p).
                         bind_o (get_at C c_p) (\<lambda>v. bind_o (put_at T t_p v) (\<lambda>T. Ok (T, c_p + 1, t_p + 1))))
                       (T, c_p, t_p))
                      (\<lambda>(T, c_p, t_p). Ok (T, c_p, t_p + (n - b))))
                  (T, c_p, i_bar * b * n + j_bar * b))
                 (\<lambda>(T, c_p, t_p). Ok (T, c_p)))) (T, 0))
            (\<lambda>(T, c_p). copy_records C T (n * n)))"

text \<open>\<open>fmt\<close> prints one value with its blank, as \<open>printf("%.2e ", ...)\<close> does.\<close>

definition Print_matrix :: "('a \<Rightarrow> string) \<Rightarrow> 'a list \<Rightarrow> nat \<Rightarrow> string outcome" where
  "Print_matrix fmt C n =
     for_up n (\<lambda>i out.
       bind_o (for_up n (\<lambda>j out. bind_o (get_at C (i * n + j)) (\<lambda>v. Ok (out @ fmt v))) out)
         (\<lambda>out. Ok (out @ [CHR 0x0A]))) []"

text \<open>
  The main functions, from the orders that \<open>strtol\<close> reads, taken to be non-negative. The file of
  the markers is opened or not, \<open>malloc k m\<close> is the result of call \<open>k\<close> for \<open>m\<close> records, and
  \<open>secs\<close> is the time as printed. The result is what the program writes to its output.
\<close>

definition blocked_main ::
  "('a \<Rightarrow> 'a \<Rightarrow> 'a) \<Rightarrow> ('a \<Rightarrow> 'a \<Rightarrow> 'a) \<Rightarrow> 'a \<Rightarrow> ('a \<Rightarrow> string) \<Rightarrow> (nat \<Rightarrow> 'a) \<Rightarrow> (nat \<Rightarrow> nat \<Rightarrow> 'a list option) \<Rightarrow>
    string \<Rightarrow> bool \<Rightarrow> bool \<Rightarrow> nat \<Rightarrow> nat \<Rightarrow> nat \<Rightarrow> string outcome" where
  "blocked_main fadd fmul z fmt rnd malloc secs marker debug argc n b =
     (if \<not> marker then Exit 1
      else if argc < 3 \<or> 4 < argc then Exit 0
      else
        bind_o (defined_o (b \<noteq> 0)) (\<lambda>_.
        if n mod b \<noteq> 0 then Exit 0
        else
          bind_o (defined_o (n * n < 2 ^ 31 \<and> b * b < 2 ^ 31)) (\<lambda>_.
          case (malloc 0 (n * n), malloc 1 (n * n), malloc 2 (n * n)) of
            (Some A, Some B, Some C) \<Rightarrow>
              bind_o (Get_matrices rnd n A B) (\<lambda>(A, B).
              bind_o (if debug then To_blocked (malloc 3 (n * n)) A n b else Ok A) (\<lambda>A.
              bind_o (if debug then To_blocked (malloc 4 (n * n)) B n b else Ok B) (\<lambda>B.
              bind_o (Blocked_mat_mult fadd fmul z
                \<lparr>gA = A, gB = B, gC = C, C_p = 0, gn = n, gb = b, n_bar = n div b, b_sqr = b * b\<rparr>) (\<lambda>g.
              bind_o
                (if debug then
                   bind_o (From_blocked (malloc 5 (n * n)) (gC g) n b) (\<lambda>C.
                   bind_o (Print_matrix fmt C n) (\<lambda>out. Ok (''Blocked algorithm'' @ [CHR 0x0A] @ out)))
                 else Ok []) (\<lambda>out.
              Ok (out @ ''Elapsed time for blocked algorithm = '' @ secs @ '' seconds'' @ [CHR 0x0A]))))))
          | _ \<Rightarrow> Exit (- 1))))"

definition matmul_main ::
  "('a \<Rightarrow> 'a \<Rightarrow> 'a) \<Rightarrow> ('a \<Rightarrow> 'a \<Rightarrow> 'a) \<Rightarrow> 'a \<Rightarrow> ('a \<Rightarrow> string) \<Rightarrow> (nat \<Rightarrow> 'a) \<Rightarrow> (nat \<Rightarrow> nat \<Rightarrow> 'a list option) \<Rightarrow>
    string \<Rightarrow> bool \<Rightarrow> bool \<Rightarrow> nat \<Rightarrow> nat \<Rightarrow> string outcome" where
  "matmul_main fadd fmul z fmt rnd malloc secs marker debug argc n =
     (if \<not> marker then Exit 1
      else if argc \<noteq> 2 then Exit 0
      else
        bind_o (defined_o (n * n < 2 ^ 31)) (\<lambda>_.
        case (malloc 0 (n * n), malloc 1 (n * n), malloc 2 (n * n)) of
          (Some A, Some B, Some C) \<Rightarrow>
            bind_o (Get_matrices rnd n A B) (\<lambda>(A, B).
            bind_o (Mat_mult fadd fmul z
              \<lparr>gA = A, gB = B, gC = C, C_p = 0, gn = n, gb = 0, n_bar = 0, b_sqr = 0\<rparr>) (\<lambda>g.
            bind_o
              (if debug then
                 bind_o (Print_matrix fmt (gC g) n) (\<lambda>out. Ok (''Standard algorithm'' @ [CHR 0x0A] @ out))
               else Ok []) (\<lambda>out.
            Ok (out @ ''Elapsed time for standard algorithm = '' @ secs @ '' seconds'' @ [CHR 0x0A]))))
        | _ \<Rightarrow> Exit (- 1)))"

section \<open>Reasoning about the loops\<close>

text \<open>An invariant that every round keeps holds after the loop, and the loop does not fail.\<close>

lemma for_up_inv:
  assumes "I 0 s" "\<And>i s. i < n \<Longrightarrow> I i s \<Longrightarrow> \<exists>s'. body i s = Ok s' \<and> I (Suc i) s'"
  shows "\<exists>s'. for_up n body s = Ok s' \<and> I n s'"
proof -
  have "\<exists>s'. for_in [m..<n] body s = Ok s' \<and> I n s'" if "m \<le> n" "I m s" for m s
    using that
  proof (induction "n - m" arbitrary: m s)
    case 0
    then show ?case by simp
  next
    case (Suc k)
    then have m: "m < n" by simp
    obtain s1 where s1: "body m s = Ok s1" "I (Suc m) s1" using assms(2)[OF m Suc.prems(2)] by blast
    have "\<exists>s'. for_in [Suc m..<n] body s1 = Ok s' \<and> I n s'"
      by (rule Suc.hyps(1)) (use Suc.hyps(2) m s1 in auto)
    then show ?case using s1(1) m by (simp add: upt_conv_Cons)
  qed
  then show ?thesis using assms(1) by simp
qed

text \<open>The product of a row and a column, in the order in which both programs add.\<close>

primrec dot :: "('a \<Rightarrow> 'a \<Rightarrow> 'a) \<Rightarrow> ('a \<Rightarrow> 'a \<Rightarrow> 'a) \<Rightarrow> 'a \<Rightarrow> (nat \<Rightarrow> 'a) \<Rightarrow> (nat \<Rightarrow> 'a) \<Rightarrow> nat \<Rightarrow> 'a" where
  "dot fadd fmul z f g 0 = z"
| "dot fadd fmul z f g (Suc k) = fadd (dot fadd fmul z f g k) (fmul (f k) (g k))"

lemma dot_cong: "(\<And>k. k < m \<Longrightarrow> f k = f' k \<and> g k = g' k) \<Longrightarrow> dot fadd fmul z f g m = dot fadd fmul z f' g' m"
  by (induction m) auto

text \<open>Row \<open>i\<close> and column \<open>j\<close> of a table with rows of length \<open>k\<close>.\<close>

lemma cell_less: "i < m \<Longrightarrow> j < k \<Longrightarrow> i * k + j < m * (k :: nat)"
proof -
  assume a: "i < m" "j < k"
  then have "i * k + j < Suc i * k" by simp
  also have "\<dots> \<le> m * k" using a by (intro mult_le_mono1) simp
  finally show ?thesis .
qed

lemma cell_eq: "j < k \<Longrightarrow> j' < k \<Longrightarrow> i * k + j = i' * k + j' \<longleftrightarrow> i = i' \<and> j = (j' :: nat)"
  by (metis add.commute div_mult_self3 div_less mod_less mod_mult_self3 add_0_right gr_implies_not0)

lemma cell_split: "p < m * k \<Longrightarrow> \<exists>i j. i < m \<and> j < k \<and> p = i * k + (j :: nat)"
  by (metis div_mult_mod_eq less_mult_imp_div_less mod_less_divisor mult_0_right not_less_zero gr0I)

section \<open>Tables\<close>

lemma get_at_ok [simp]: "k < length xs \<Longrightarrow> get_at xs k = Ok (xs ! k)"
  by (simp add: get_at_def)

lemma put_at_ok [simp]: "k < length xs \<Longrightarrow> put_at xs k x = Ok (xs[k := x])"
  by (simp add: put_at_def)

lemma accumulate_loop:
  assumes c: "c < length C" "C ! c = dot fadd fmul z f g s"
    and ab: "\<And>k. k < m \<Longrightarrow> a k < length A \<and> b k < length B \<and> f (s + k) = A ! a k \<and> g (s + k) = B ! b k"
  shows "for_up m (\<lambda>k. accumulate fadd fmul A B (a k) (b k) c) C = Ok (C[c := dot fadd fmul z f g (s + m)])"
proof -
  have "\<exists>C'. for_up m (\<lambda>k. accumulate fadd fmul A B (a k) (b k) c) C = Ok C' \<and>
      C' = C[c := dot fadd fmul z f g (s + m)]"
  proof (rule for_up_inv[where I = "\<lambda>k C'. C' = C[c := dot fadd fmul z f g (s + k)]"])
    show "C = C[c := dot fadd fmul z f g (s + 0)]" using c by (metis list_update_id add_0_right)
    fix k C' assume "k < m" "C' = C[c := dot fadd fmul z f g (s + k)]"
    then show "\<exists>C''. accumulate fadd fmul A B (a k) (b k) c C' = Ok C'' \<and>
        C'' = C[c := dot fadd fmul z f g (s + Suc k)]"
      using ab[of k] c(1) by (simp add: accumulate_def)
  qed
  then show ?thesis by simp
qed

text \<open>Two loops that set the cells of a table, one after the other, each once.\<close>

lemma table_loops:
  assumes ix: "\<And>i j. i < m \<Longrightarrow> j < w \<Longrightarrow> ix i j < length C"
    and inj: "\<And>i j i' j'. i < m \<Longrightarrow> j < w \<Longrightarrow> i' < m \<Longrightarrow> j' < w \<Longrightarrow> ix i j = ix i' j' \<Longrightarrow> i = i' \<and> j = j'"
    and body: "\<And>i j C'. i < m \<Longrightarrow> j < w \<Longrightarrow> length C' = length C \<Longrightarrow> C' ! ix i j = C ! ix i j \<Longrightarrow>
      body i j C' = Ok (C'[ix i j := v i j])"
  shows "\<exists>C'. for_up m (\<lambda>i. for_up w (body i)) C = Ok C' \<and> length C' = length C \<and>
    (\<forall>i < m. \<forall>j < w. C' ! ix i j = v i j) \<and>
    (\<forall>p < length C. (\<forall>i < m. \<forall>j < w. p \<noteq> ix i j) \<longrightarrow> C' ! p = C ! p)"
proof -
  define I where "I = (\<lambda>D C'. length C' = length C \<and> (\<forall>(i, j) \<in> D. C' ! ix i j = v i j) \<and>
    (\<forall>p < length C. (\<forall>(i, j) \<in> D. p \<noteq> ix i j) \<longrightarrow> C' ! p = C ! p))"
  have step: "\<exists>C''. body i j C' = Ok C'' \<and> I (insert (i, j) D) C''"
    if "i < m" "j < w" "(i, j) \<notin> D" "D \<subseteq> {..<m} \<times> {..<w}" "I D C'" for i j D C'
  proof -
    have ne: "ix i j \<noteq> ix k l" if "(k, l) \<in> D" for k l
      using inj[of i j k l] that \<open>i < m\<close> \<open>j < w\<close> \<open>(i, j) \<notin> D\<close> \<open>D \<subseteq> _\<close> by auto
    have ne': "\<forall>(k, l) \<in> D. ix i j \<noteq> ix k l" using ne by auto
    have "length C' = length C" using that(5) by (simp add: I_def)
    moreover have "C' ! ix i j = C ! ix i j" using that(5) ix[OF that(1,2)] ne' unfolding I_def by blast
    ultimately have "body i j C' = Ok (C'[ix i j := v i j])" using body that(1,2) by simp
    moreover have "I (insert (i, j) D) (C'[ix i j := v i j])"
      using that(5) ix[OF that(1,2)] ne by (fastforce simp: I_def nth_list_update split: prod.splits)
    ultimately show ?thesis by blast
  qed
  have "\<exists>C'. for_up m (\<lambda>i. for_up w (body i)) C = Ok C' \<and> I ({..<m} \<times> {..<w}) C'"
  proof (rule for_up_inv[where I = "\<lambda>i. I ({..<i} \<times> {..<w})"])
    show "I ({..<0} \<times> {..<w}) C" by (simp add: I_def)
    fix i C1 assume i: "i < m" "I ({..<i} \<times> {..<w}) C1"
    have "\<exists>C2. for_up w (body i) C1 = Ok C2 \<and> I ({..<i} \<times> {..<w} \<union> {i} \<times> {..<w}) C2"
    proof (rule for_up_inv[where I = "\<lambda>j. I ({..<i} \<times> {..<w} \<union> {i} \<times> {..<j})"])
      show "I ({..<i} \<times> {..<w} \<union> {i} \<times> {..<0}) C1" using i(2) by simp
      fix j C2 assume j: "j < w" "I ({..<i} \<times> {..<w} \<union> {i} \<times> {..<j}) C2"
      have "insert (i, j) ({..<i} \<times> {..<w} \<union> {i} \<times> {..<j}) = {..<i} \<times> {..<w} \<union> {i} \<times> {..<Suc j}" by auto
      moreover have "(i, j) \<notin> {..<i} \<times> {..<w} \<union> {i} \<times> {..<j}"
        "{..<i} \<times> {..<w} \<union> {i} \<times> {..<j} \<subseteq> {..<m} \<times> {..<w}"
        using i(1) j(1) by auto
      ultimately show "\<exists>C3. body i j C2 = Ok C3 \<and> I ({..<i} \<times> {..<w} \<union> {i} \<times> {..<Suc j}) C3"
        using step[OF i(1) j(1) _ _ j(2)] by simp
    qed
    moreover have "{..<i} \<times> {..<w} \<union> {i} \<times> {..<w} = {..<Suc i} \<times> {..<w}" by auto
    ultimately show "\<exists>C2. for_up w (body i) C1 = Ok C2 \<and> I ({..<Suc i} \<times> {..<w}) C2" by simp
  qed
  then obtain C' where "for_up m (\<lambda>i. for_up w (body i)) C = Ok C'" "I ({..<m} \<times> {..<w}) C'" by blast
  then show ?thesis unfolding I_def by (intro exI[of _ C']) auto
qed

lemma Get_matrices_ok:
  assumes "length A = n * n" "length B = n * n"
  shows "Get_matrices rnd n A B = Ok (map (\<lambda>i. rnd (2 * i)) [0..<n * n], map (\<lambda>i. rnd (2 * i + 1)) [0..<n * n])"
proof -
  define I where "I = (\<lambda>k (X, Y). length X = n * n \<and> length Y = n * n \<and>
    (\<forall>i < k. X ! i = rnd (2 * i) \<and> Y ! i = rnd (2 * i + 1)))"
  have "\<exists>s. Get_matrices rnd n A B = Ok s \<and> I (n * n) s"
    unfolding Get_matrices_def
    by (rule for_up_inv) (use assms in \<open>auto simp: I_def nth_list_update less_Suc_eq\<close>)
  then obtain X Y where "Get_matrices rnd n A B = Ok (X, Y)" "I (n * n) (X, Y)" by auto
  then show ?thesis by (auto simp: I_def intro!: nth_equalityI)
qed

section \<open>The row by row product\<close>

definition product :: "('a \<Rightarrow> 'a \<Rightarrow> 'a) \<Rightarrow> ('a \<Rightarrow> 'a \<Rightarrow> 'a) \<Rightarrow> 'a \<Rightarrow> nat \<Rightarrow> 'a list \<Rightarrow> 'a list \<Rightarrow> nat \<Rightarrow> nat \<Rightarrow> 'a" where
  "product fadd fmul z n A B i j = dot fadd fmul z (\<lambda>k. A ! (i * n + k)) (\<lambda>k. B ! (k * n + j)) n"

lemma Mat_mult_ok:
  fixes z :: 'a
  assumes len: "length (gA g) = n * n" "length (gB g) = n * n" "length (gC g) = n * n" and n: "gn g = n"
  shows "\<exists>C. Mat_mult fadd fmul z g = Ok (g\<lparr>gC := C\<rparr>) \<and> length C = n * n \<and>
    (\<forall>i < n. \<forall>j < n. C ! (i * n + j) = product fadd fmul z n (gA g) (gB g) i j)"
proof -
  let ?b = "\<lambda>i j C. bind_o (put_at C (i * n + j) z) (for_up n (\<lambda>k. accumulate fadd fmul (gA g) (gB g)
               (i * n + k) (k * n + j) (i * n + j)))"
  have "\<exists>C. for_up n (\<lambda>i. for_up n (?b i)) (gC g) = Ok C \<and> length C = length (gC g) \<and>
    (\<forall>i < n. \<forall>j < n. C ! (i * n + j) = product fadd fmul z n (gA g) (gB g) i j) \<and>
    (\<forall>p < length (gC g). (\<forall>i < n. \<forall>j < n. p \<noteq> i * n + j) \<longrightarrow> C ! p = gC g ! p)"
  proof (rule table_loops)
    fix i j and C :: "'a list" assume a: "i < n" "j < n" "length C = length (gC g)"
    have c: "i * n + j < n * n" using cell_less a by blast
    have "for_up n (\<lambda>k. accumulate fadd fmul (gA g) (gB g) (i * n + k) (k * n + j) (i * n + j)) (C[i * n + j := z])
      = Ok (C[i * n + j := z, i * n + j :=
          dot fadd fmul z (\<lambda>k. gA g ! (i * n + k)) (\<lambda>k. gB g ! (k * n + j)) (0 + n)])"
      by (rule accumulate_loop) (use a c len cell_less in auto)
    then show "?b i j C = Ok (C[i * n + j := product fadd fmul z n (gA g) (gB g) i j])"
      using c a(3) len by (simp add: product_def)
  qed (use len cell_less cell_eq in auto)
  then show ?thesis using n len by (auto simp: Mat_mult_def)
qed

section \<open>Blocked storage\<close>

text \<open>Cell \<open>(i, j)\<close> of block \<open>(i_bar, j_bar)\<close>, in blocked storage and row by row.\<close>

definition blk :: "nat \<Rightarrow> nat \<Rightarrow> nat \<Rightarrow> nat \<Rightarrow> nat \<Rightarrow> nat \<Rightarrow> nat" where
  "blk m b ib jb i j = (ib * m + jb) * (b * b) + (i * b + j)"

definition row :: "nat \<Rightarrow> nat \<Rightarrow> nat \<Rightarrow> nat \<Rightarrow> nat \<Rightarrow> nat \<Rightarrow> nat" where
  "row m b ib jb i j = (ib * b + i) * (m * b) + (jb * b + j)"

definition in_block :: "nat \<Rightarrow> nat \<Rightarrow> nat \<Rightarrow> nat \<Rightarrow> nat \<Rightarrow> nat \<Rightarrow> bool" where
  "in_block m b ib jb i j \<longleftrightarrow> ib < m \<and> jb < m \<and> i < b \<and> j < b"

lemma blk_less: "in_block m b ib jb i j \<Longrightarrow> blk m b ib jb i j < m * b * (m * b)"
  using cell_less[of "ib * m + jb" "m * m" "i * b + j" "b * b"] cell_less[of ib m jb m] cell_less[of i b j b]
  by (simp add: in_block_def blk_def mult.assoc mult.left_commute)

lemma row_less: "in_block m b ib jb i j \<Longrightarrow> row m b ib jb i j < m * b * (m * b)"
  using cell_less[of "ib * b + i" "m * b" "jb * b + j" "m * b"] cell_less[of ib m i b] cell_less[of jb m j b]
  by (simp add: in_block_def row_def)

lemma blk_eq:
  "in_block m b ib jb i j \<Longrightarrow> in_block m b ib' jb' i' j' \<Longrightarrow>
    blk m b ib jb i j = blk m b ib' jb' i' j' \<longleftrightarrow> (ib, jb, i, j) = (ib', jb', i', j')"
  using cell_less[of i b j b] cell_less[of i' b j' b] cell_eq[of "i * b + j" "b * b" "i' * b + j'" "ib * m + jb" "ib' * m + jb'"]
    cell_eq[of jb m jb' ib ib'] cell_eq[of j b j' i i']
  by (auto simp: in_block_def blk_def)

lemma row_eq:
  "in_block m b ib jb i j \<Longrightarrow> in_block m b ib' jb' i' j' \<Longrightarrow>
    row m b ib jb i j = row m b ib' jb' i' j' \<longleftrightarrow> (ib, jb, i, j) = (ib', jb', i', j')"
  using cell_less[of jb m j b] cell_less[of jb' m j' b] cell_eq[of "jb * b + j" "m * b" "jb' * b + j'" "ib * b + i" "ib' * b + i'"]
    cell_eq[of i b i' ib ib'] cell_eq[of j b j' jb jb']
  by (auto simp: in_block_def row_def)

lemma row_split: "i < m * b \<Longrightarrow> j < m * b \<Longrightarrow>
    in_block m b (i div b) (j div b) (i mod b) (j mod b) \<and> row m b (i div b) (j div b) (i mod b) (j mod b) = i * (m * b) + j"
  by (cases "b = 0") (auto simp: in_block_def row_def less_mult_imp_div_less)

lemma blk_split:
  assumes "p < m * b * (m * b)"
  shows "\<exists>ib jb i j. in_block m b ib jb i j \<and> p = blk m b ib jb i j"
proof -
  have "p < (m * m) * (b * b)" using assms by (simp add: mult.assoc mult.left_commute)
  then obtain x y where x: "x < m * m" "y < b * b" "p = x * (b * b) + y" using cell_split by blast
  obtain ib jb where "ib < m" "jb < m" "x = ib * m + jb" using cell_split[OF x(1)] by blast
  moreover obtain i j where "i < b" "j < b" "y = i * b + j" using cell_split[OF x(2)] by blast
  ultimately show ?thesis
    using x(3) by (intro exI[of _ ib] exI[of _ jb] exI[of _ i] exI[of _ j]) (simp add: in_block_def blk_def)
qed

lemma blk_next: "Suc (blk m b ib jb i j) = blk m b ib jb i (Suc j)" "blk m b ib jb i b = blk m b ib jb (Suc i) 0"
    "blk m b ib jb b 0 = blk m b ib (Suc jb) 0 0" "blk m b ib m 0 0 = blk m b (Suc ib) 0 0 0"
  by (simp_all add: blk_def algebra_simps)

text \<open>
  The walk of both conversions: one pointer goes over the blocked storage cell by cell, the other
  over the rows of one block after the other. \<open>copy\<close> copies one value.
\<close>

definition walk :: "nat \<Rightarrow> nat \<Rightarrow> (nat \<Rightarrow> nat \<Rightarrow> 't \<Rightarrow> 't outcome) \<Rightarrow> 't \<Rightarrow> ('t \<times> nat) outcome" where
  "walk n b copy T =
     for_up (n div b) (\<lambda>i_bar. for_up (n div b) (\<lambda>j_bar (T, s).
       bind_o
         (for_up b (\<lambda>i (T, s, r).
            bind_o
              (for_up b (\<lambda>j (T, s, r). bind_o (copy s r T) (\<lambda>T. Ok (T, s + 1, r + 1))) (T, s, r))
              (\<lambda>(T, s, r). Ok (T, s, r + (n - b))))
          (T, s, i_bar * b * n + j_bar * b))
         (\<lambda>(T, s, r). Ok (T, s)))) (T, 0)"

lemma walk_row:
  assumes step: "\<And>j T. j < b \<Longrightarrow> Q (s0 + j) T \<Longrightarrow> \<exists>T'. copy (s0 + j) (r0 + j) T = Ok T' \<and> Q (Suc (s0 + j)) T'"
    and "Q s0 T"
  shows "\<exists>T'. for_up b (\<lambda>j (T, s, r). bind_o (copy s r T) (\<lambda>T. Ok (T, s + 1, r + 1))) (T, s0, r0) =
    Ok (T', s0 + b, r0 + b) \<and> Q (s0 + b) T'"
proof -
  have "\<exists>x. for_up b (\<lambda>j (T, s, r). bind_o (copy s r T) (\<lambda>T. Ok (T, s + 1, r + 1))) (T, s0, r0) = Ok x \<and>
      (\<exists>T'. x = (T', s0 + b, r0 + b) \<and> Q (s0 + b) T')"
  proof (rule for_up_inv[where I = "\<lambda>j x. \<exists>T'. x = (T', s0 + j, r0 + j) \<and> Q (s0 + j) T'"])
    fix j x assume j: "j < b" "\<exists>T'. x = (T', s0 + j, r0 + j) \<and> Q (s0 + j) T'"
    then obtain T' where T': "x = (T', s0 + j, r0 + j)" "Q (s0 + j) T'" by blast
    with step[OF j(1) T'(2)]
    show "\<exists>s'. (case x of (T, s, r) \<Rightarrow> bind_o (copy s r T) (\<lambda>T. Ok (T, s + 1, r + 1))) = Ok s' \<and>
        (\<exists>T'. s' = (T', s0 + Suc j, r0 + Suc j) \<and> Q (s0 + Suc j) T')" by auto
  qed (use assms(2) in simp)
  then show ?thesis by blast
qed

lemma walk_block:
  assumes step: "\<And>i j T. in_block m b ib jb i j \<Longrightarrow> Q (blk m b ib jb i j) T \<Longrightarrow>
      \<exists>T'. copy (blk m b ib jb i j) (row m b ib jb i j) T = Ok T' \<and> Q (Suc (blk m b ib jb i j)) T'"
    and Q: "Q (blk m b ib jb 0 0) T" and ib: "ib < m" "jb < m"
  shows "\<exists>T'. bind_o
         (for_up b (\<lambda>i (T, s, r).
            bind_o
              (for_up b (\<lambda>j (T, s, r). bind_o (copy s r T) (\<lambda>T. Ok (T, s + 1, r + 1))) (T, s, r))
              (\<lambda>(T, s, r). Ok (T, s, r + (m * b - b))))
          (T, blk m b ib jb 0 0, ib * b * (m * b) + jb * b))
         (\<lambda>(T, s, r). Ok (T, s)) = Ok (T', blk m b ib (Suc jb) 0 0) \<and> Q (blk m b ib (Suc jb) 0 0) T'"
proof -
  let ?body = "\<lambda>i (T, s, r).
            bind_o
              (for_up b (\<lambda>j (T, s, r). bind_o (copy s r T) (\<lambda>T. Ok (T, s + 1, r + 1))) (T, s, r))
              (\<lambda>(T, s, r). Ok (T, s, r + (m * b - b)))"
  define I where "I = (\<lambda>i x. \<exists>T r. x = (T, blk m b ib jb i 0, r) \<and> r = row m b ib jb i 0 \<and> Q (blk m b ib jb i 0) T)"
  have "\<exists>x. for_up b ?body (T, blk m b ib jb 0 0, ib * b * (m * b) + jb * b) = Ok x \<and> I b x"
  proof (rule for_up_inv)
    show "I 0 (T, blk m b ib jb 0 0, ib * b * (m * b) + jb * b)" using Q by (simp add: I_def row_def)
    fix i x assume i: "i < b" "I i x"
    then obtain T1 where x: "x = (T1, blk m b ib jb i 0, row m b ib jb i 0)" "Q (blk m b ib jb i 0) T1"
      by (auto simp: I_def)
    have c: "blk m b ib jb i 0 + j = blk m b ib jb i j" "row m b ib jb i 0 + j = row m b ib jb i j" for j
      by (simp_all add: blk_def row_def)
    have "\<exists>T'. for_up b (\<lambda>j (T, s, r). bind_o (copy s r T) (\<lambda>T. Ok (T, s + 1, r + 1)))
        (T1, blk m b ib jb i 0, row m b ib jb i 0) = Ok (T', blk m b ib jb i 0 + b, row m b ib jb i 0 + b) \<and>
        Q (blk m b ib jb i 0 + b) T'"
    proof (rule walk_row)
      fix j T assume "j < b" "Q (blk m b ib jb i 0 + j) T"
      then show "\<exists>T'. copy (blk m b ib jb i 0 + j) (row m b ib jb i 0 + j) T = Ok T' \<and>
          Q (Suc (blk m b ib jb i 0 + j)) T'"
        using step[of i j T] i(1) ib by (simp add: c in_block_def)
    qed (rule x(2))
    moreover have "blk m b ib jb i 0 + b = blk m b ib jb (Suc i) 0" using c(1)[of b] blk_next(2) by simp
    moreover have "b \<le> m * b" using ib by (cases m) auto
    then have "row m b ib jb i 0 + b + (m * b - b) = row m b ib jb i 0 + m * b" by simp
    then have "row m b ib jb i 0 + b + (m * b - b) = row m b ib jb (Suc i) 0"
      by (simp add: row_def distrib_right)
    ultimately show "\<exists>x'. ?body i x = Ok x' \<and> I (Suc i) x'" by (auto simp: x(1) I_def)
  qed
  then show ?thesis by (auto simp: I_def blk_next(3))
qed

lemma walk_ok:
  assumes step: "\<And>ib jb i j T. in_block m b ib jb i j \<Longrightarrow> Q (blk m b ib jb i j) T \<Longrightarrow>
      \<exists>T'. copy (blk m b ib jb i j) (row m b ib jb i j) T = Ok T' \<and> Q (Suc (blk m b ib jb i j)) T'"
    and Q: "Q 0 T" and b: "0 < b"
  shows "\<exists>T' s. walk (m * b) b copy T = Ok (T', s) \<and> Q (m * b * (m * b)) T'"
proof -
  have nb: "m * b div b = m" using b by simp
  define I where "I = (\<lambda>ib jb x. \<exists>T. x = (T, blk m b ib jb 0 0) \<and> Q (blk m b ib jb 0 0) T)"
  have "\<exists>x. walk (m * b) b copy T = Ok x \<and> I m 0 x"
    unfolding walk_def nb
  proof (rule for_up_inv[where I = "\<lambda>ib. I ib 0"])
    show "I 0 0 (T, 0)" using Q by (simp add: I_def blk_def)
    fix ib x assume ib: "ib < m" "I ib 0 x"
    have "I (Suc ib) 0 = I ib m" by (simp add: I_def blk_next(4))
    moreover have "\<exists>x'. for_up m (\<lambda>j_bar (T, s).
       bind_o
         (for_up b (\<lambda>i (T, s, r).
            bind_o
              (for_up b (\<lambda>j (T, s, r). bind_o (copy s r T) (\<lambda>T. Ok (T, s + 1, r + 1))) (T, s, r))
              (\<lambda>(T, s, r). Ok (T, s, r + (m * b - b))))
          (T, s, ib * b * (m * b) + j_bar * b))
         (\<lambda>(T, s, r). Ok (T, s))) x = Ok x' \<and> I ib m x'"
    proof (rule for_up_inv)
      show "I ib 0 x" by (rule ib(2))
      fix jb y assume jb: "jb < m" "I ib jb y"
      then obtain T1 where y: "y = (T1, blk m b ib jb 0 0)" "Q (blk m b ib jb 0 0) T1" by (auto simp: I_def)
      from walk_block[OF step y(2) ib(1) jb(1)] show "\<exists>s'. (case y of (T, s) \<Rightarrow>
          bind_o
         (for_up b (\<lambda>i (T, s, r).
            bind_o
              (for_up b (\<lambda>j (T, s, r). bind_o (copy s r T) (\<lambda>T. Ok (T, s + 1, r + 1))) (T, s, r))
              (\<lambda>(T, s, r). Ok (T, s, r + (m * b - b))))
          (T, s, ib * b * (m * b) + jb * b))
         (\<lambda>(T, s, r). Ok (T, s))) = Ok s' \<and> I ib (Suc jb) s'"
        by (auto simp: y(1) I_def)
    qed
    ultimately show "\<exists>x'. for_up m (\<lambda>j_bar (T, s).
       bind_o
         (for_up b (\<lambda>i (T, s, r).
            bind_o
              (for_up b (\<lambda>j (T, s, r). bind_o (copy s r T) (\<lambda>T. Ok (T, s + 1, r + 1))) (T, s, r))
              (\<lambda>(T, s, r). Ok (T, s, r + (m * b - b))))
          (T, s, ib * b * (m * b) + j_bar * b))
         (\<lambda>(T, s, r). Ok (T, s))) x = Ok x' \<and> I (Suc ib) 0 x'" by simp
  qed
  moreover have "blk m b m 0 0 0 = m * b * (m * b)" by (simp add: blk_def mult.assoc mult.left_commute)
  ultimately show ?thesis by (auto simp: I_def)
qed

lemma conversions_walk:
  "To_blocked (Some T) A n b =
     bind_o (walk n b (\<lambda>s r T. bind_o (get_at A r) (put_at T s)) T) (\<lambda>(T, s). copy_records A T (n * n))"
  "From_blocked (Some T) A n b =
     bind_o (walk n b (\<lambda>s r T. bind_o (get_at A s) (put_at T r)) T) (\<lambda>(T, s). copy_records A T (n * n))"
  by (simp_all add: To_blocked_def From_blocked_def walk_def bind_o_assoc)

lemma To_blocked_ok:
  assumes b: "0 < b" and len: "length A = m * b * (m * b)" "length T = m * b * (m * b)"
  shows "\<exists>A'. To_blocked (Some T) A (m * b) b = Ok A' \<and> length A' = m * b * (m * b) \<and>
    (\<forall>ib jb i j. in_block m b ib jb i j \<longrightarrow> A' ! blk m b ib jb i j = A ! row m b ib jb i j)"
proof -
  define Q where "Q = (\<lambda>t T. length T = m * b * (m * b) \<and>
    (\<forall>ib jb i j. in_block m b ib jb i j \<and> blk m b ib jb i j < t \<longrightarrow> T ! blk m b ib jb i j = A ! row m b ib jb i j))"
  have "\<exists>T' s. walk (m * b) b (\<lambda>s r T. bind_o (get_at A r) (put_at T s)) T = Ok (T', s) \<and> Q (m * b * (m * b)) T'"
  proof (rule walk_ok[OF _ _ b])
    show "Q 0 T" using len by (simp add: Q_def)
    fix ib jb i j T1 assume a: "in_block m b ib jb i j" "Q (blk m b ib jb i j) T1"
    have "Q (Suc (blk m b ib jb i j)) (T1[blk m b ib jb i j := A ! row m b ib jb i j])"
    proof -
      have "T1[blk m b ib jb i j := A ! row m b ib jb i j] ! blk m b ib' jb' i' j' = A ! row m b ib' jb' i' j'"
        if c: "in_block m b ib' jb' i' j'" "blk m b ib' jb' i' j' < Suc (blk m b ib jb i j)" for ib' jb' i' j'
      proof (cases "(ib', jb', i', j') = (ib, jb, i, j)")
        case True
        then show ?thesis using blk_less[OF a(1)] a(2) by (simp add: Q_def)
      next
        case False
        then have "blk m b ib' jb' i' j' < blk m b ib jb i j" "blk m b ib' jb' i' j' \<noteq> blk m b ib jb i j"
          using blk_eq[OF c(1) a(1)] c(2) by auto
        then show ?thesis using a(2) c(1) by (simp add: Q_def)
      qed
      then show ?thesis using a(2) by (simp add: Q_def)
    qed
    then show "\<exists>T'. bind_o (get_at A (row m b ib jb i j)) (put_at T1 (blk m b ib jb i j)) = Ok T' \<and>
        Q (Suc (blk m b ib jb i j)) T'"
      using row_less[OF a(1)] blk_less[OF a(1)] len a(2) by (auto simp: Q_def)
  qed
  then obtain T' s where w: "walk (m * b) b (\<lambda>s r T. bind_o (get_at A r) (put_at T s)) T = Ok (T', s)"
    "Q (m * b * (m * b)) T'" by blast
  then have "To_blocked (Some T) A (m * b) b = Ok T'"
    using len by (simp add: conversions_walk copy_records_def Q_def)
  then show ?thesis using w(2) blk_less by (auto simp: Q_def)
qed

lemma From_blocked_ok:
  assumes b: "0 < b" and len: "length C = m * b * (m * b)" "length T = m * b * (m * b)"
  shows "\<exists>C'. From_blocked (Some T) C (m * b) b = Ok C' \<and> length C' = m * b * (m * b) \<and>
    (\<forall>ib jb i j. in_block m b ib jb i j \<longrightarrow> C' ! row m b ib jb i j = C ! blk m b ib jb i j)"
proof -
  define Q where "Q = (\<lambda>t T. length T = m * b * (m * b) \<and>
    (\<forall>ib jb i j. in_block m b ib jb i j \<and> blk m b ib jb i j < t \<longrightarrow> T ! row m b ib jb i j = C ! blk m b ib jb i j))"
  have "\<exists>T' s. walk (m * b) b (\<lambda>s r T. bind_o (get_at C s) (put_at T r)) T = Ok (T', s) \<and> Q (m * b * (m * b)) T'"
  proof (rule walk_ok[OF _ _ b])
    show "Q 0 T" using len by (simp add: Q_def)
    fix ib jb i j T1 assume a: "in_block m b ib jb i j" "Q (blk m b ib jb i j) T1"
    have "Q (Suc (blk m b ib jb i j)) (T1[row m b ib jb i j := C ! blk m b ib jb i j])"
    proof -
      have "T1[row m b ib jb i j := C ! blk m b ib jb i j] ! row m b ib' jb' i' j' = C ! blk m b ib' jb' i' j'"
        if c: "in_block m b ib' jb' i' j'" "blk m b ib' jb' i' j' < Suc (blk m b ib jb i j)" for ib' jb' i' j'
      proof (cases "(ib', jb', i', j') = (ib, jb, i, j)")
        case True
        then show ?thesis using row_less[OF a(1)] a(2) by (simp add: Q_def)
      next
        case False
        then have "blk m b ib' jb' i' j' < blk m b ib jb i j" "row m b ib' jb' i' j' \<noteq> row m b ib jb i j"
          using blk_eq[OF c(1) a(1)] row_eq[OF c(1) a(1)] c(2) by auto
        then show ?thesis using a(2) c(1) by (simp add: Q_def)
      qed
      then show ?thesis using a(2) by (simp add: Q_def)
    qed
    then show "\<exists>T'. bind_o (get_at C (blk m b ib jb i j)) (put_at T1 (row m b ib jb i j)) = Ok T' \<and>
        Q (Suc (blk m b ib jb i j)) T'"
      using row_less[OF a(1)] blk_less[OF a(1)] len a(2) by (auto simp: Q_def)
  qed
  then obtain T' s where w: "walk (m * b) b (\<lambda>s r T. bind_o (get_at C s) (put_at T r)) T = Ok (T', s)"
    "Q (m * b * (m * b)) T'" by blast
  then have "From_blocked (Some T) C (m * b) b = Ok T'"
    using len by (simp add: conversions_walk copy_records_def Q_def)
  then show ?thesis using w(2) blk_less by (auto simp: Q_def)
qed

section \<open>The product block by block\<close>

text \<open>The cells of a row of blocks of \<open>A\<close> and of a column of blocks of \<open>B\<close>.\<close>

definition block_row :: "nat \<Rightarrow> nat \<Rightarrow> 'a list \<Rightarrow> nat \<Rightarrow> nat \<Rightarrow> nat \<Rightarrow> 'a" where
  "block_row m b A ib i k = A ! blk m b ib (k div b) i (k mod b)"

definition block_col :: "nat \<Rightarrow> nat \<Rightarrow> 'a list \<Rightarrow> nat \<Rightarrow> nat \<Rightarrow> nat \<Rightarrow> 'a" where
  "block_col m b B jb j k = B ! blk m b (k div b) jb (k mod b) j"

definition shape :: "nat \<Rightarrow> nat \<Rightarrow> 'a mats \<Rightarrow> bool" where
  "shape m b g \<longleftrightarrow> length (gA g) = m * b * (m * b) \<and> length (gB g) = m * b * (m * b) \<and>
     length (gC g) = m * b * (m * b) \<and> gb g = b \<and> n_bar g = m \<and> b_sqr g = b * b"

text \<open>\<open>C\<close> and \<open>C'\<close> differ at most in block \<open>(ib, jb)\<close>.\<close>

definition only_block :: "nat \<Rightarrow> nat \<Rightarrow> nat \<Rightarrow> nat \<Rightarrow> 'a list \<Rightarrow> 'a list \<Rightarrow> bool" where
  "only_block m b ib jb C C' \<longleftrightarrow> length C' = length C \<and>
     (\<forall>p < length C. (\<forall>i < b. \<forall>j < b. p \<noteq> blk m b ib jb i j) \<longrightarrow> C' ! p = C ! p)"

lemma only_block_trans:
  "only_block m b ib jb C C' \<Longrightarrow> only_block m b ib jb C' C'' \<Longrightarrow> only_block m b ib jb C C''"
  by (auto simp: only_block_def)

lemma Zero_C_ok:
  assumes s: "shape m b g" and ib: "ib < m" "jb < m"
  shows "\<exists>C. Zero_C z ib jb g = Ok (g\<lparr>C_p := blk m b ib jb 0 0, gC := C\<rparr>) \<and> only_block m b ib jb (gC g) C \<and>
    (\<forall>i < b. \<forall>j < b. C ! blk m b ib jb i j = z)"
proof -
  let ?p = "blk m b ib jb 0 0" and ?C = "gC g"
  let ?D = "take ?p ?C @ replicate (b * b) z @ drop (?p + b * b) ?C"
  have p: "(ib * m + jb) * (b * b) = ?p" by (simp add: blk_def)
  have "Suc (ib * m + jb) * (b * b) \<le> m * m * (b * b)"
    using cell_less[OF ib] by (intro mult_le_mono1) simp
  then have le: "?p + b * b \<le> length ?C" using s by (simp add: shape_def blk_def algebra_simps)
  have nth: "?D ! q = (if q < ?p then ?C ! q else if q < ?p + b * b then z else ?C ! q)" if "q < length ?C" for q
    using le that by (auto simp: nth_append)
  have "?D ! blk m b ib jb i j = z" if ij: "i < b" "j < b" for i j
  proof -
    have "blk m b ib jb i j = ?p + (i * b + j)" by (simp add: blk_def)
    then show ?thesis using nth[of "blk m b ib jb i j"] cell_less[OF ij] le by simp
  qed
  moreover have "only_block m b ib jb ?C ?D"
    unfolding only_block_def
  proof (intro conjI allI impI)
    show "length ?D = length ?C" using le by simp
    fix q assume q: "q < length ?C" "\<forall>i < b. \<forall>j < b. q \<noteq> blk m b ib jb i j"
    have "\<not> (?p \<le> q \<and> q < ?p + b * b)"
    proof
      assume a: "?p \<le> q \<and> q < ?p + b * b"
      then have "q - ?p < b * b" by linarith
      then obtain i j where ij: "i < b" "j < b" "q - ?p = i * b + j" using cell_split by blast
      then have "q = ?p + (i * b + j)" using a by linarith
      then have "q = blk m b ib jb i j" by (simp add: blk_def)
      then show False using q(2) ij by blast
    qed
    then show "?D ! q = ?C ! q" using nth[OF q(1)] by auto
  qed
  ultimately show ?thesis using s le by (intro exI[of _ ?D]) (simp add: Zero_C_def Let_def shape_def p)
qed

lemma Mult_add_ok:
  fixes g :: "'a mats"
  assumes s: "shape m b g" and ib: "ib < m" "jb < m" "kb < m" and p: "C_p g = blk m b ib jb 0 0"
    and before: "\<forall>i < b. \<forall>j < b. gC g ! blk m b ib jb i j =
      dot fadd fmul z (block_row m b (gA g) ib i) (block_col m b (gB g) jb j) (kb * b)"
  shows "\<exists>C. Mult_add fadd fmul ib jb kb g = Ok (g\<lparr>gC := C\<rparr>) \<and> only_block m b ib jb (gC g) C \<and>
    (\<forall>i < b. \<forall>j < b. C ! blk m b ib jb i j =
      dot fadd fmul z (block_row m b (gA g) ib i) (block_col m b (gB g) jb j) (Suc kb * b))"
proof -
  let ?d = "\<lambda>i j. dot fadd fmul z (block_row m b (gA g) ib i) (block_col m b (gB g) jb j)"
  let ?b = "\<lambda>i j. for_up b (\<lambda>k. accumulate fadd fmul (gA g) (gB g) (blk m b ib kb i k) (blk m b kb jb k j)
      (blk m b ib jb i j))"
  have len: "length (gC g) = m * b * (m * b)" "length (gA g) = m * b * (m * b)" "length (gB g) = m * b * (m * b)"
    using s by (simp_all add: shape_def)
  have "\<exists>C. for_up b (\<lambda>i. for_up b (?b i)) (gC g) = Ok C \<and> length C = length (gC g) \<and>
    (\<forall>i < b. \<forall>j < b. C ! blk m b ib jb i j = ?d i j (Suc kb * b)) \<and>
    (\<forall>p < length (gC g). (\<forall>i < b. \<forall>j < b. p \<noteq> blk m b ib jb i j) \<longrightarrow> C ! p = gC g ! p)"
  proof (rule table_loops)
    fix i j assume ij: "i < b" "j < b"
    show "blk m b ib jb i j < length (gC g)" using blk_less ij ib len by (simp add: in_block_def)
    show "i = i' \<and> j = j'" if "i' < b" "j' < b" "blk m b ib jb i j = blk m b ib jb i' j'" for i' j'
      using blk_eq[of m b ib jb i j ib jb i' j'] that ij ib by (simp add: in_block_def)
    fix C :: "'a list" assume C: "length C = length (gC g)" "C ! blk m b ib jb i j = gC g ! blk m b ib jb i j"
    have "?b i j C = Ok (C[blk m b ib jb i j := ?d i j (kb * b + b)])"
    proof (rule accumulate_loop)
      show "blk m b ib jb i j < length C" using blk_less ij ib len C by (simp add: in_block_def)
      show "C ! blk m b ib jb i j = ?d i j (kb * b)" using C(2) before ij by simp
      show "blk m b ib kb i k < length (gA g) \<and> blk m b kb jb k j < length (gB g) \<and>
          block_row m b (gA g) ib i (kb * b + k) = gA g ! blk m b ib kb i k \<and>
          block_col m b (gB g) jb j (kb * b + k) = gB g ! blk m b kb jb k j" if "k < b" for k
        using blk_less ij ib len that by (simp add: in_block_def block_row_def block_col_def)
    qed
    then show "?b i j C = Ok (C[blk m b ib jb i j := ?d i j (Suc kb * b)])" by (simp add: add.commute)
  qed
  moreover have "(ib * m + kb) * (b * b) + i * b + k = blk m b ib kb i k"
    "(kb * m + jb) * (b * b) + k * b + j = blk m b kb jb k j" "blk m b ib jb 0 0 + i * b + j = blk m b ib jb i j"
    for i j k by (simp_all add: blk_def)
  ultimately show ?thesis
    using s p by (auto simp: Mult_add_def Let_def shape_def only_block_def)
qed

lemma block_ok:
  fixes g :: "'a mats"
  assumes s: "shape m b g" and ib: "ib < m" "jb < m"
  shows "\<exists>C. bind_o (Zero_C z ib jb g) (for_up m (Mult_add fadd fmul ib jb)) =
      Ok (g\<lparr>C_p := blk m b ib jb 0 0, gC := C\<rparr>) \<and> only_block m b ib jb (gC g) C \<and>
    (\<forall>i < b. \<forall>j < b. C ! blk m b ib jb i j =
      dot fadd fmul z (block_row m b (gA g) ib i) (block_col m b (gB g) jb j) (m * b))"
proof -
  obtain C0 where C0: "Zero_C z ib jb g = Ok (g\<lparr>C_p := blk m b ib jb 0 0, gC := C0\<rparr>)"
    "only_block m b ib jb (gC g) C0" "\<forall>i < b. \<forall>j < b. C0 ! blk m b ib jb i j = z"
    using Zero_C_ok[OF s ib, of z] by blast
  define I where "I = (\<lambda>kb h. \<exists>C. h = g\<lparr>C_p := blk m b ib jb 0 0, gC := C\<rparr> \<and> only_block m b ib jb (gC g) C \<and>
    (\<forall>i < b. \<forall>j < b. C ! blk m b ib jb i j =
      dot fadd fmul z (block_row m b (gA g) ib i) (block_col m b (gB g) jb j) (kb * b)))"
  have "\<exists>h. for_up m (Mult_add fadd fmul ib jb) (g\<lparr>C_p := blk m b ib jb 0 0, gC := C0\<rparr>) = Ok h \<and> I m h"
  proof (rule for_up_inv)
    show "I 0 (g\<lparr>C_p := blk m b ib jb 0 0, gC := C0\<rparr>)" using C0 by (auto simp: I_def)
    fix kb h assume kb: "kb < m" "I kb h"
    then obtain C where C: "h = g\<lparr>C_p := blk m b ib jb 0 0, gC := C\<rparr>" "only_block m b ib jb (gC g) C"
      "\<forall>i < b. \<forall>j < b. C ! blk m b ib jb i j =
        dot fadd fmul z (block_row m b (gA g) ib i) (block_col m b (gB g) jb j) (kb * b)"
      by (auto simp: I_def)
    have sh: "shape m b h" using s C(2) by (simp add: shape_def C(1) only_block_def)
    have "C_p h = blk m b ib jb 0 0" "gC h = C" "gA h = gA g" "gB h = gB g" by (simp_all add: C(1))
    then obtain C' where C': "Mult_add fadd fmul ib jb kb h = Ok (h\<lparr>gC := C'\<rparr>)" "only_block m b ib jb C C'"
      "\<forall>i < b. \<forall>j < b. C' ! blk m b ib jb i j =
        dot fadd fmul z (block_row m b (gA g) ib i) (block_col m b (gB g) jb j) (Suc kb * b)"
      using Mult_add_ok[OF sh ib kb(1), of fadd fmul z] C(3) by auto
    then show "\<exists>h'. Mult_add fadd fmul ib jb kb h = Ok h' \<and> I (Suc kb) h'"
      using only_block_trans[OF C(2) C'(2)] by (auto simp: I_def C(1))
  qed
  then show ?thesis using C0(1) by (auto simp: I_def)
qed

lemma Blocked_mat_mult_ok:
  fixes g :: "'a mats"
  assumes s: "shape m b g"
  shows "\<exists>h. Blocked_mat_mult fadd fmul z g = Ok h \<and> length (gC h) = m * b * (m * b) \<and>
    (\<forall>ib jb i j. in_block m b ib jb i j \<longrightarrow> gC h ! blk m b ib jb i j =
      dot fadd fmul z (block_row m b (gA g) ib i) (block_col m b (gB g) jb j) (m * b))"
proof -
  let ?body = "\<lambda>ib jb g. bind_o (Zero_C z ib jb g) (for_up (n_bar g) (Mult_add fadd fmul ib jb))"
  have nb: "n_bar g = m" using s by (simp add: shape_def)
  define P where "P = (\<lambda>x y C. \<forall>i < b. \<forall>j < b. C ! blk m b x y i j =
      dot fadd fmul z (block_row m b (gA g) x i) (block_col m b (gB g) y j) (m * b))"
  define I where "I = (\<lambda>ib jb h. \<exists>p C. h = g\<lparr>C_p := p, gC := C\<rparr> \<and> length C = m * b * (m * b) \<and>
    (\<forall>x < m. \<forall>y < m. x < ib \<or> x = ib \<and> y < jb \<longrightarrow> P x y C))"
  have step: "\<exists>h'. ?body ib jb h = Ok h' \<and> I ib (Suc jb) h'" if ib: "ib < m" "jb < m" and h: "I ib jb h" for ib jb h
  proof -
    from h obtain p C where C: "h = g\<lparr>C_p := p, gC := C\<rparr>" "length C = m * b * (m * b)"
      "\<forall>x < m. \<forall>y < m. x < ib \<or> x = ib \<and> y < jb \<longrightarrow> P x y C" by (auto simp: I_def)
    have "shape m b h" using s C by (simp add: shape_def)
    from block_ok[OF this ib, of z fadd fmul] obtain C' where C':
      "?body ib jb h = Ok (h\<lparr>C_p := blk m b ib jb 0 0, gC := C'\<rparr>)" "only_block m b ib jb C C'" "P ib jb C'"
      by (auto simp: C(1) P_def nb)
    have "P x y C'" if xy: "x < m" "y < m" "x < ib \<or> x = ib \<and> y < jb" for x y
      unfolding P_def
    proof (intro allI impI)
      fix i j assume ij: "i < b" "j < b"
      have "C' ! blk m b x y i j = C ! blk m b x y i j"
        using C'(2) blk_less[of m b x y i j] blk_eq[of m b x y i j ib jb] xy ij ib C(2)
        by (auto simp: only_block_def in_block_def)
      moreover have "P x y C" using C(3) xy by blast
      ultimately show "C' ! blk m b x y i j =
          dot fadd fmul z (block_row m b (gA g) x i) (block_col m b (gB g) y j) (m * b)"
        using ij by (simp add: P_def)
    qed
    then have "\<forall>x < m. \<forall>y < m. x < ib \<or> x = ib \<and> y < Suc jb \<longrightarrow> P x y C'"
      using C'(3) by (auto simp: less_Suc_eq)
    moreover have "length C' = m * b * (m * b)" using C'(2) C(2) by (simp add: only_block_def)
    ultimately show ?thesis using C'(1) by (auto simp: I_def C(1))
  qed
  have "\<exists>h. for_up m (\<lambda>ib. for_up m (?body ib)) g = Ok h \<and> I m 0 h"
  proof (rule for_up_inv[where I = "\<lambda>ib. I ib 0"])
    show "I 0 0 g" using s unfolding I_def
      by (intro exI[of _ "C_p g"] exI[of _ "gC g"]) (simp add: shape_def)
    fix ib h assume ib: "ib < m" "I ib 0 h"
    have "\<exists>h'. for_up m (?body ib) h = Ok h' \<and> I ib m h'"
      by (rule for_up_inv[where I = "I ib"]) (use ib step in auto)
    moreover have "I ib m h' \<Longrightarrow> I (Suc ib) 0 h'" for h' by (auto simp: I_def less_Suc_eq)
    ultimately show "\<exists>h'. for_up m (?body ib) h = Ok h' \<and> I (Suc ib) 0 h'" by blast
  qed
  then obtain h where h: "for_up m (\<lambda>ib. for_up m (?body ib)) g = Ok h" "I m 0 h" by blast
  have "Blocked_mat_mult fadd fmul z g = Ok h" using h(1) s by (simp add: Blocked_mat_mult_def shape_def)
  then show ?thesis using h(2) by (auto simp: I_def P_def in_block_def)
qed

section \<open>The two products agree\<close>

lemma product_blocked:
  assumes A: "\<forall>ib jb i j. in_block m b ib jb i j \<longrightarrow> A' ! blk m b ib jb i j = A ! row m b ib jb i j"
    and B: "\<forall>ib jb i j. in_block m b ib jb i j \<longrightarrow> B' ! blk m b ib jb i j = B ! row m b ib jb i j"
    and i: "i < m * b" "j < m * b"
  shows "dot fadd fmul z (block_row m b A' (i div b) (i mod b)) (block_col m b B' (j div b) (j mod b)) (m * b) =
    product fadd fmul z (m * b) A B i j"
  unfolding product_def
proof (rule dot_cong)
  fix k assume k: "k < m * b"
  show "block_row m b A' (i div b) (i mod b) k = A ! (i * (m * b) + k) \<and>
      block_col m b B' (j div b) (j mod b) k = B ! (k * (m * b) + j)"
    using A B row_split[OF i(1) k] row_split[OF k i(2)] by (simp add: block_row_def block_col_def)
qed

lemma table_eq:
  assumes "length C = n * n" "length D = n * n" "\<forall>i < n. \<forall>j < n. C ! (i * n + j) = D ! (i * n + j)"
  shows "C = D"
proof (rule nth_equalityI)
  fix p assume "p < length C"
  then obtain i j where "i < n" "j < n" "p = i * n + j" using cell_split assms(1) by metis
  then show "C ! p = D ! p" using assms(3) by simp
qed (use assms in simp)

text \<open>The conversions in between, the block product computes the very table of the plain product.\<close>

lemma blocked_product:
  assumes b: "0 < b" and len: "length A = m * b * (m * b)" "length B = m * b * (m * b)" "length C = m * b * (m * b)"
      "length C1 = m * b * (m * b)" "length T1 = m * b * (m * b)" "length T2 = m * b * (m * b)" "length T3 = m * b * (m * b)"
  shows "\<exists>A' B' h D g. To_blocked (Some T1) A (m * b) b = Ok A' \<and> To_blocked (Some T2) B (m * b) b = Ok B' \<and>
    Blocked_mat_mult fadd fmul z
      \<lparr>gA = A', gB = B', gC = C, C_p = 0, gn = m * b, gb = b, n_bar = m, b_sqr = b * b\<rparr> = Ok h \<and>
    From_blocked (Some T3) (gC h) (m * b) b = Ok D \<and> length D = m * b * (m * b) \<and>
    Mat_mult fadd fmul z \<lparr>gA = A, gB = B, gC = C1, C_p = 0, gn = m * b, gb = 0, n_bar = 0, b_sqr = 0\<rparr> = Ok g \<and>
    gC g = D"
proof -
  obtain A' where A': "To_blocked (Some T1) A (m * b) b = Ok A'" "length A' = m * b * (m * b)"
    "\<forall>ib jb i j. in_block m b ib jb i j \<longrightarrow> A' ! blk m b ib jb i j = A ! row m b ib jb i j"
    using To_blocked_ok[OF b len(1,5)] by blast
  obtain B' where B': "To_blocked (Some T2) B (m * b) b = Ok B'" "length B' = m * b * (m * b)"
    "\<forall>ib jb i j. in_block m b ib jb i j \<longrightarrow> B' ! blk m b ib jb i j = B ! row m b ib jb i j"
    using To_blocked_ok[OF b len(2,6)] by blast
  let ?g = "\<lparr>gA = A', gB = B', gC = C, C_p = 0, gn = m * b, gb = b, n_bar = m, b_sqr = b * b\<rparr>"
  have "shape m b ?g" using len A'(2) B'(2) by (simp add: shape_def)
  from Blocked_mat_mult_ok[OF this, of fadd fmul z] obtain h where
    h: "Blocked_mat_mult fadd fmul z ?g = Ok h" "length (gC h) = m * b * (m * b)"
      "\<forall>ib jb i j. in_block m b ib jb i j \<longrightarrow> gC h ! blk m b ib jb i j =
        dot fadd fmul z (block_row m b A' ib i) (block_col m b B' jb j) (m * b)" by auto
  obtain D where D: "From_blocked (Some T3) (gC h) (m * b) b = Ok D" "length D = m * b * (m * b)"
    "\<forall>ib jb i j. in_block m b ib jb i j \<longrightarrow> D ! row m b ib jb i j = gC h ! blk m b ib jb i j"
    using From_blocked_ok[OF b h(2) len(7)] by blast
  let ?k = "\<lparr>gA = A, gB = B, gC = C1, C_p = 0, gn = m * b, gb = 0, n_bar = 0, b_sqr = 0\<rparr>"
  from Mat_mult_ok[of ?k "m * b" fadd fmul z] len obtain E where
    E: "Mat_mult fadd fmul z ?k = Ok (?k\<lparr>gC := E\<rparr>)" "length E = m * b * (m * b)"
      "\<forall>i < m * b. \<forall>j < m * b. E ! (i * (m * b) + j) = product fadd fmul z (m * b) A B i j" by auto
  have "E ! (i * (m * b) + j) = D ! (i * (m * b) + j)" if ij: "i < m * b" "j < m * b" for i j
  proof -
    note r = row_split[OF ij]
    have "D ! (i * (m * b) + j) = gC h ! blk m b (i div b) (j div b) (i mod b) (j mod b)"
      using D(3) r by metis
    also have "\<dots> = product fadd fmul z (m * b) A B i j"
      using h(3) r product_blocked[OF A'(3) B'(3) ij] by simp
    finally show ?thesis using E(3) ij by simp
  qed
  then have "E = D" using table_eq[OF E(2) D(2)] by blast
  then show ?thesis using A'(1) B'(1) h(1) D(1,2) E(1) by auto
qed

end
