(* ===== verification/Matmul_Props.thy ===== *)
theory Matmul_Props
  imports Matmul
begin

text \<open>
  The properties of the matrix programs: run with \<open>DEBUG\<close> on the same random numbers they print
  the same product, and the conversions of blocked storage undo each other.
\<close>

definition printed :: "('a \<Rightarrow> string) \<Rightarrow> 'a list \<Rightarrow> nat \<Rightarrow> nat \<Rightarrow> string" where
  "printed fmt C n m = concat (map (\<lambda>i. concat (map (\<lambda>j. fmt (C ! (i * n + j))) [0..<n]) @ [CHR 0x0A]) [0..<m])"

lemma Print_matrix_ok:
  assumes "length C = n * n"
  shows "Print_matrix fmt C n = Ok (printed fmt C n n)"
proof -
  have "\<exists>out. Print_matrix fmt C n = Ok out \<and> out = printed fmt C n n"
    unfolding Print_matrix_def
  proof (rule for_up_inv[where I = "\<lambda>i out. out = printed fmt C n i"])
    fix i out assume i: "i < n" "out = printed fmt C n i"
    have "\<exists>o'. for_up n (\<lambda>j out. bind_o (get_at C (i * n + j)) (\<lambda>v. Ok (out @ fmt v))) out = Ok o' \<and>
        o' = out @ concat (map (\<lambda>j. fmt (C ! (i * n + j))) [0..<n])"
      by (rule for_up_inv[where I = "\<lambda>k o'. o' = out @ concat (map (\<lambda>j. fmt (C ! (i * n + j))) [0..<k])"]) (use assms i cell_less in auto)
    then show "\<exists>s'. bind_o (for_up n (\<lambda>j out. bind_o (get_at C (i * n + j)) (\<lambda>v. Ok (out @ fmt v))) out)
         (\<lambda>out. Ok (out @ [CHR 0x0A])) = Ok s' \<and> s' = printed fmt C n (Suc i)"
      using i(2) by (auto simp: printed_def)
  qed (simp add: printed_def)
  then show ?thesis by simp
qed

text \<open>C18: for every order of the matrices and every block order that divides it, and whatever
  addition and multiplication of \<open>double\<close> do, \<open>blocked\<close> with \<open>DEBUG\<close> prints exactly the
  product matrix that \<open>matmul\<close> prints from the same random numbers; no array is overrun.\<close>

theorem blocked_prints_same_product:
  fixes fadd fmul :: "'a \<Rightarrow> 'a \<Rightarrow> 'a"
  assumes n: "b dvd n" "0 < n" "n * n < 2 ^ 31" and argc: "argc \<in> {3, 4}"
    and mem: "\<forall>k. \<exists>xs. malloc k (n * n) = Some xs \<and> length xs = n * n"
  shows "\<exists>out. blocked_main fadd fmul z fmt rnd malloc secs True True argc n b =
      Ok (''Blocked algorithm'' @ [CHR 0x0A] @ out @
        ''Elapsed time for blocked algorithm = '' @ secs @ '' seconds'' @ [CHR 0x0A]) \<and>
    matmul_main fadd fmul z fmt rnd malloc secs True True 2 n =
      Ok (''Standard algorithm'' @ [CHR 0x0A] @ out @
        ''Elapsed time for standard algorithm = '' @ secs @ '' seconds'' @ [CHR 0x0A])"
proof -
  obtain m where m: "n = m * b" using n(1) by (metis dvdE mult.commute)
  have b: "0 < b" using m n(2) by (cases b) auto
  have "b * b \<le> n * n" using dvd_imp_le[OF n(1,2)] by (rule mult_le_mono) (rule dvd_imp_le[OF n(1,2)])
  then have bb: "b * b < 2 ^ 31" using n(3) by linarith
  obtain xs where xs: "\<And>k. malloc k (n * n) = Some (xs k)" "\<And>k. length (xs k) = n * n"
    using mem by metis
  let ?A = "map (\<lambda>i. rnd (2 * i)) [0..<n * n]" and ?B = "map (\<lambda>i. rnd (2 * i + 1)) [0..<n * n]"
  have G: "Get_matrices rnd n (xs 0) (xs 1) = Ok (?A, ?B)" by (rule Get_matrices_ok) (rule xs(2))+
  have len: "length ?A = m * b * (m * b)" "length ?B = m * b * (m * b)" "\<And>k. length (xs k) = m * b * (m * b)"
    using xs(2) by (simp_all add: m)
  from blocked_product[OF b len(1,2) len(3) len(3) len(3) len(3) len(3), of 3 4 fadd fmul z 2 5 2] obtain A' B' h D g where
    r: "To_blocked (Some (xs 3)) ?A n b = Ok A'" "To_blocked (Some (xs 4)) ?B n b = Ok B'"
      "Blocked_mat_mult fadd fmul z
        \<lparr>gA = A', gB = B', gC = xs 2, C_p = 0, gn = n, gb = b, n_bar = m, b_sqr = b * b\<rparr> = Ok h"
      "From_blocked (Some (xs 5)) (gC h) n b = Ok D" "length D = n * n"
      "Mat_mult fadd fmul z \<lparr>gA = ?A, gB = ?B, gC = xs 2, C_p = 0, gn = n, gb = 0, n_bar = 0, b_sqr = 0\<rparr> = Ok g"
      "gC g = D" unfolding m by blast
  have d: "n div b = m" "n mod b = 0" using m b by simp_all
  note P = Print_matrix_ok[OF r(5), of fmt]
  have "blocked_main fadd fmul z fmt rnd malloc secs True True argc n b =
      Ok (''Blocked algorithm'' @ [CHR 0x0A] @ printed fmt D n n @
        ''Elapsed time for blocked algorithm = '' @ secs @ '' seconds'' @ [CHR 0x0A])"
    using argc b n(3) bb unfolding blocked_main_def d xs(1)
    by (auto simp: G r(1-4) P simp del: One_nat_def)
  moreover have "matmul_main fadd fmul z fmt rnd malloc secs True True 2 n =
      Ok (''Standard algorithm'' @ [CHR 0x0A] @ printed fmt D n n @
        ''Elapsed time for standard algorithm = '' @ secs @ '' seconds'' @ [CHR 0x0A])"
    using n(3) unfolding matmul_main_def xs(1) by (simp add: G r(6,7) P del: One_nat_def)
  ultimately show ?thesis by blast
qed

theorem blocked_prints_same_product_witness:
  "\<exists>out. blocked_main (+) (*) 0 (\<lambda>v. replicate v CHR ''1'') id (\<lambda>_ m. Some (replicate m (0 :: nat))) ''1'' True True 3 4 2 =
      Ok (''Blocked algorithm'' @ [CHR 0x0A] @ out @ ''Elapsed time for blocked algorithm = 1 seconds'' @ [CHR 0x0A]) \<and>
    matmul_main (+) (*) 0 (\<lambda>v. replicate v CHR ''1'') id (\<lambda>_ m. Some (replicate m 0)) ''1'' True True 2 4 =
      Ok (''Standard algorithm'' @ [CHR 0x0A] @ out @ ''Elapsed time for standard algorithm = 1 seconds'' @ [CHR 0x0A])"
  using blocked_prints_same_product[of 2 4 3 "\<lambda>_ m. Some (replicate m (0 :: nat))" "(+)" "(*)" 0
      "\<lambda>v. replicate v CHR ''1''" id "''1''"] by simp

text \<open>The conversions undo each other, whatever the temporary held.\<close>

lemma blocked_storage_roundtrip:
  assumes b: "0 < b" "b dvd n" and len: "length A = n * n" "length T = n * n" "length U = n * n"
  shows "bind_o (To_blocked (Some T) A n b) (\<lambda>A. From_blocked (Some U) A n b) = Ok A \<and>
    bind_o (From_blocked (Some T) A n b) (\<lambda>A. To_blocked (Some U) A n b) = Ok A"
proof -
  obtain m where m: "n = m * b" using b(2) by (metis dvdE mult.commute)
  note l = len[unfolded m]
  obtain X where X: "To_blocked (Some T) A n b = Ok X" "length X = m * b * (m * b)"
    "\<forall>ib jb i j. in_block m b ib jb i j \<longrightarrow> X ! blk m b ib jb i j = A ! row m b ib jb i j"
    using To_blocked_ok[OF b(1) l(1,2)] m by blast
  obtain Y where Y: "From_blocked (Some U) X n b = Ok Y" "length Y = m * b * (m * b)"
    "\<forall>ib jb i j. in_block m b ib jb i j \<longrightarrow> Y ! row m b ib jb i j = X ! blk m b ib jb i j"
    using From_blocked_ok[OF b(1) X(2) l(3)] m by blast
  have "Y = A"
  proof (rule table_eq[OF Y(2) l(1)], intro allI impI)
    fix i j assume "i < m * b" "j < m * b"
    note r = row_split[OF this]
    show "Y ! (i * (m * b) + j) = A ! (i * (m * b) + j)" using X(3) Y(3) r by metis
  qed
  obtain V where V: "From_blocked (Some T) A n b = Ok V" "length V = m * b * (m * b)"
    "\<forall>ib jb i j. in_block m b ib jb i j \<longrightarrow> V ! row m b ib jb i j = A ! blk m b ib jb i j"
    using From_blocked_ok[OF b(1) l(1,2)] m by blast
  obtain W where W: "To_blocked (Some U) V n b = Ok W" "length W = m * b * (m * b)"
    "\<forall>ib jb i j. in_block m b ib jb i j \<longrightarrow> W ! blk m b ib jb i j = V ! row m b ib jb i j"
    using To_blocked_ok[OF b(1) V(2) l(3)] m by blast
  have "W = A"
  proof (rule nth_equalityI)
    fix p assume "p < length W"
    then obtain ib jb i j where p: "in_block m b ib jb i j" "p = blk m b ib jb i j"
      using blk_split W(2) by metis
    then show "W ! p = A ! p" using V(3) W(3) by simp
  qed (use W(2) l(1) in simp)
  with \<open>Y = A\<close> show ?thesis using X(1) Y(1) V(1) W(1) by simp
qed

end
