(* ===== verification/Printing.thy ===== *)
theory Printing
  imports Prelude
begin

text \<open>
  What the programs use of the C library to read their command lines and to print: decimal
  numbers, \<open>strtoul\<close> with base 10, and \<open>getopt\<close>.
\<close>

section \<open>Decimal numbers\<close>

definition digit :: "nat \<Rightarrow> char" where
  "digit n = char_of (48 + n)"

text \<open>\<open>%u\<close>, \<open>%lu\<close> and \<open>%hu\<close>, and \<open>%d\<close> of an \<open>int\<close>.\<close>

fun dec :: "nat \<Rightarrow> string" where
  "dec n = (if n < 10 then [digit n] else dec (n div 10) @ [digit (n mod 10)])"

declare dec.simps [simp del]

definition dec_int :: "int \<Rightarrow> string" where
  "dec_int i = (if i < 0 then CHR ''-'' # dec (nat (- i)) else dec (nat i))"

text \<open>\<open>%d\<close> of an \<open>unsigned\<close> value: the bits are read as an \<open>int\<close>.\<close>

definition dec_signed :: "nat \<Rightarrow> string" where
  "dec_signed n = dec_int (if n < 2 ^ 31 then int n else int n - 2 ^ 32)"

definition newline :: string where
  "newline = [CHR 0x0A]"

text \<open>The value of a string of digits, and \<open>strtoul(s, NULL, 10)\<close>.\<close>

definition is_space :: "char \<Rightarrow> bool" where
  "is_space c = (let n = of_char c :: nat in n = 32 \<or> (9 \<le> n \<and> n \<le> 13))"

definition is_digit :: "char \<Rightarrow> bool" where
  "is_digit c = (let n = of_char c :: nat in 48 \<le> n \<and> n \<le> 57)"

definition dec_value :: "string \<Rightarrow> nat" where
  "dec_value ds = foldl (\<lambda>a c. 10 * a + (of_char c - 48)) 0 ds"

definition strtoul :: "string \<Rightarrow> u64" where
  "strtoul s =
     (let s1 = dropWhile is_space s;
          neg = (s1 \<noteq> [] \<and> hd s1 = CHR ''-'');
          s2 = (if s1 \<noteq> [] \<and> hd s1 \<in> {CHR ''-'', CHR ''+''} then tl s1 else s1);
          n = dec_value (takeWhile is_digit s2)
      in if 2 ^ 64 \<le> n then - 1 else if neg then - word_of_nat n else word_of_nat n)"

lemma digit_value: "n < 10 \<Longrightarrow> of_char (digit n) - 48 = n" "n < 10 \<Longrightarrow> is_digit (digit n)"
  by (simp_all add: digit_def is_digit_def)

lemma dec_digits: "\<forall>c \<in> set (dec n). is_digit c"
proof (induction n rule: dec.induct)
  case (1 n)
  then show ?case by (cases "n < 10") (auto simp: dec.simps[of n] digit_value(2))
qed

lemma dec_ne [simp]: "dec n \<noteq> []"
  by (simp add: dec.simps[of n])

lemma dec_value_dec: "dec_value (dec n) = n"
proof (induction n rule: dec.induct)
  case (1 n)
  then show ?case
    by (cases "n < 10") (auto simp: dec.simps[of n] dec_value_def digit_value)
qed

lemma strtoul_dec: "n < 2 ^ 64 \<Longrightarrow> strtoul (dec n) = word_of_nat n"
proof -
  assume n: "n < 2 ^ 64"
  obtain c cs where c: "dec n = c # cs" by (cases "dec n") auto
  have d: "is_digit c" using dec_digits[of n] c by simp
  then have "\<not> is_space c" "c \<noteq> CHR ''-''" "c \<noteq> CHR ''+''" by (auto simp: is_digit_def is_space_def Let_def)
  moreover have "takeWhile is_digit (dec n) = dec n" using dec_digits by (simp add: takeWhile_eq_all_conv)
  ultimately show ?thesis using n c dec_value_dec[of n] by (simp add: strtoul_def Let_def)
qed

text \<open>\<open>atoi\<close> of a number that fits an \<open>int\<close>.\<close>

definition atoi :: "string \<Rightarrow> int" where
  "atoi s =
     (let s1 = dropWhile is_space s;
          neg = (s1 \<noteq> [] \<and> hd s1 = CHR ''-'');
          s2 = (if s1 \<noteq> [] \<and> hd s1 \<in> {CHR ''-'', CHR ''+''} then tl s1 else s1);
          n = int (dec_value (takeWhile is_digit s2))
      in if neg then - n else n)"

lemma dec_word: "\<forall>c \<in> set (dec_int n). c \<noteq> CHR '' ''"
  using dec_digits[of "nat n"] dec_digits[of "nat (- n)"] by (auto simp: dec_int_def is_digit_def)

lemma dec_int_ne [simp]: "dec_int n \<noteq> []"
  by (simp add: dec_int_def)

lemma atoi_dec_int: "atoi (dec_int n) = n"
proof -
  have d: "takeWhile is_digit (dec k) = dec k" "\<exists>c cs. dec k = c # cs \<and> is_digit c" for k
  proof -
    show "takeWhile is_digit (dec k) = dec k" using dec_digits by (simp add: takeWhile_eq_all_conv)
    show "\<exists>c cs. dec k = c # cs \<and> is_digit c" using dec_digits[of k] dec_ne[of k] by (cases "dec k") auto
  qed
  obtain c cs where c: "dec (nat n) = c # cs" "is_digit c" using d(2) by blast
  have s: "\<not> is_space CHR ''-''" "\<not> is_space c" "c \<noteq> CHR ''-''" "c \<noteq> CHR ''+''"
    using c(2) by (auto simp: is_space_def is_digit_def Let_def)
  show ?thesis
  proof (cases "n < 0")
    case True
    then show ?thesis using s(1) by (simp add: atoi_def dec_int_def d(1) dec_value_dec)
  next
    case False
    have tw: "takeWhile is_digit cs = cs" using d(1)[of "nat n"] c by simp
    show ?thesis using False s c dec_value_dec[of "nat n"] by (simp add: atoi_def dec_int_def tw)
  qed
qed

lemma length_dec: "0 < k \<Longrightarrow> n < 10 ^ k \<Longrightarrow> length (dec n) \<le> k"
proof (induction k arbitrary: n)
  case (Suc k)
  show ?case
  proof (cases "n < 10")
    case True
    then show ?thesis by (simp add: dec.simps[of n])
  next
    case False
    have "n div 10 < 10 ^ k" using Suc.prems(2) by (simp add: less_mult_imp_div_less)
    moreover have "0 < k" using False Suc.prems(2) by (cases k) auto
    ultimately show ?thesis using Suc.IH[of "n div 10"] False by (subst dec.simps) simp
  qed
qed simp

lemma length_dec_int: "\<bar>n\<bar> < 10 ^ 10 \<Longrightarrow> length (dec_int n) \<le> 11"
  using length_dec[of 10 "nat n"] length_dec[of 10 "nat (- n)"] by (auto simp: dec_int_def nat_less_iff)

text \<open>\<open>%x\<close>, and \<open>%lx\<close> where a \<open>long\<close> has 32 bits.\<close>

fun hex :: "nat \<Rightarrow> string" where
  "hex n = (if n < 16 then [if n < 10 then digit n else char_of (87 + n)]
            else hex (n div 16) @ [if n mod 16 < 10 then digit (n mod 16) else char_of (87 + n mod 16)])"

declare hex.simps [simp del]

definition hex_long :: "int \<Rightarrow> string" where
  "hex_long i = hex (nat (i mod 2 ^ 32))"

text \<open>\<open>sprintf\<close> of a format with \<open>%d\<close> only; there may be more arguments than it uses.\<close>

fun sprintf_d :: "string \<Rightarrow> int list \<Rightarrow> string" where
  "sprintf_d [] as = []"
| "sprintf_d [c] as = [c]"
| "sprintf_d (c # e # cs) as =
     (if c = CHR ''%'' \<and> e = CHR ''d'' \<and> as \<noteq> [] then dec_int (hd as) @ sprintf_d cs (tl as)
      else c # sprintf_d (e # cs) as)"

text \<open>The words of a command line.\<close>

fun split_blanks :: "string \<Rightarrow> string list" where
  "split_blanks [] = [[]]"
| "split_blanks (c # cs) =
     (if c = CHR '' '' then [] # split_blanks cs
      else (case split_blanks cs of [] \<Rightarrow> [[c]] | w # ws \<Rightarrow> (c # w) # ws))"

definition shell_words :: "string \<Rightarrow> string list" where
  "shell_words s = filter (\<lambda>w. w \<noteq> []) (split_blanks s)"

lemma split_blanks_word: "\<forall>c \<in> set w. c \<noteq> CHR '' '' \<Longrightarrow> split_blanks (w @ CHR '' '' # s) = w # split_blanks s"
  by (induction w) auto

lemma split_blanks_last: "\<forall>c \<in> set w. c \<noteq> CHR '' '' \<Longrightarrow> split_blanks w = [w]"
  by (induction w) auto

lemmas split_blanks_dec = split_blanks_word[OF dec_word] split_blanks_last[OF dec_word]

section \<open>Options\<close>

text \<open>
  \<open>getopt\<close> of the GNU library: arguments that are not options are passed over, wherever they
  stand; \<open>--\<close> ends the options. The result are the values of the successive calls, \<open>?\<close> for
  an option that is not in \<open>optstring\<close> or has no argument. \<open>takes_arg\<close> looks for the colon.
\<close>

fun takes_arg :: "string \<Rightarrow> char \<Rightarrow> bool option" where
  "takes_arg [] c = None"
| "takes_arg (x # xs) c =
     (if x = c \<and> c \<noteq> CHR '':'' then Some (xs \<noteq> [] \<and> hd xs = CHR '':'') else takes_arg xs c)"

text \<open>One word of options; an argument is the rest of the word or the next one.\<close>

fun option_word :: "string \<Rightarrow> string \<Rightarrow> string list \<Rightarrow> (char \<times> string) list \<times> string list" where
  "option_word opts [] args = ([], args)"
| "option_word opts (c # cs) args =
     (case takes_arg opts c of
        None \<Rightarrow> (let (os, rest) = option_word opts cs args in ((CHR ''?'', []) # os, rest))
      | Some False \<Rightarrow> (let (os, rest) = option_word opts cs args in ((c, []) # os, rest))
      | Some True \<Rightarrow>
          if cs \<noteq> [] then ([(c, cs)], args)
          else (case args of [] \<Rightarrow> ([(CHR ''?'', [])], []) | a # as \<Rightarrow> ([(c, a)], as)))"

lemma option_word_shorter: "length (snd (option_word opts cs args)) \<le> length args"
  by (induction opts cs args rule: option_word.induct) (auto split: option.splits bool.splits list.splits prod.splits)

function getopt :: "string \<Rightarrow> string list \<Rightarrow> (char \<times> string) list" where
  "getopt opts [] = []"
| "getopt opts (a # as) =
     (if a = ''--'' then []
      else if 1 < length a \<and> hd a = CHR ''-'' then
        (let (os, rest) = option_word opts (tl a) as in os @ getopt opts rest)
      else getopt opts as)"
  by pat_completeness auto

termination
  by (relation "measure (\<lambda>(opts, as). length as)") (auto, metis le_imp_less_Suc option_word_shorter snd_conv)

lemma getopt_flag:
  "takes_arg opts c = Some False \<Longrightarrow> c \<noteq> CHR ''-'' \<Longrightarrow> getopt opts ([CHR ''-'', c] # as) = (c, []) # getopt opts as"
  by simp

lemma getopt_arg:
  "takes_arg opts c = Some True \<Longrightarrow> c \<noteq> CHR ''-'' \<Longrightarrow> getopt opts ([CHR ''-'', c] # a # as) = (c, a) # getopt opts as"
  by simp

lemma getopt_word: "hd a \<noteq> CHR ''-'' \<or> length a < 2 \<Longrightarrow> a \<noteq> ''--'' \<Longrightarrow> getopt opts (a # as) = getopt opts as"
  by auto

end
