(* ===== verification/Sim_Report.thy ===== *)
theory Sim_Report
  imports Simulator Printing
begin

text \<open>
  The rest of \<^verbatim>\<open>a2/starter/sim.c\<close>: the options of \<open>main\<close>, and what it prints after the
  replay: the page directory, with the functions of \<^verbatim>\<open>pagetable.c\<close>, and the counters.
  \<open>addr\<close> prints the address of a table and \<open>rate\<close> the quotient of two counters in percent
  (\<open>%.4f\<close> of a \<open>double\<close>).
\<close>

section \<open>Printing the page tables\<close>

text \<open>
  The lines of a table, as the calls of \<open>printf\<close> make them; \<open>first\<close> and \<open>final\<close> are the bounds
  of the unprinted invalid entries, \<open>-1\<close> without any.
\<close>

datatype pt_line = Invalid_Entries int int | Valid_Entry nat bool nat | Swapped_Entry nat int

definition invalid_pte :: "pte \<Rightarrow> bool" where
  "invalid_pte e \<longleftrightarrow> \<not> pte_valid e \<and> \<not> pte_onswap e"

definition entry_line :: "nat \<Rightarrow> pte \<Rightarrow> pt_line outcome" where
  "entry_line i e =
     (if pte_valid e then Ok (Valid_Entry i (pte_dirty e) (frame_no e))
      else bind_o (assert_o (pte_onswap e)) (\<lambda>_. Ok (Swapped_Entry i (swap_off e))))"

fun pagetbl_loop :: "nat list \<Rightarrow> (nat \<Rightarrow> pte) \<Rightarrow> int \<Rightarrow> int \<Rightarrow> pt_line list \<Rightarrow> pt_line list outcome" where
  "pagetbl_loop [] tb first final out =
     Ok (if first \<noteq> -1 then out @ [Invalid_Entries first final] else out)"
| "pagetbl_loop (i # is) tb first final out =
     (if invalid_pte (tb i) then pagetbl_loop is tb (if first = -1 then int i else first) (int i) out
      else
        bind_o (entry_line i (tb i)) (\<lambda>l.
        pagetbl_loop is tb (-1) (-1) ((if first \<noteq> -1 then out @ [Invalid_Entries first final] else out) @ [l])))"

definition pt_text :: "pt_line \<Rightarrow> string" where
  "pt_text l =
     (case l of
        Invalid_Entries a b \<Rightarrow>
          [CHR 0x09] @ ''['' @ dec_int a @ ''] - ['' @ dec_int b @ '']: INVALID'' @ newline
      | Valid_Entry i dirty f \<Rightarrow>
          [CHR 0x09] @ ''['' @ dec i @ '']: VALID, '' @ (if dirty then ''DIRTY, '' else []) @ ''in frame '' @
          dec f @ newline
      | Swapped_Entry i off \<Rightarrow>
          [CHR 0x09] @ ''['' @ dec i @ '']: ONSWAP, at offset '' @ dec (nat (off mod 2 ^ 64)) @ newline)"

definition print_pagetbl :: "(nat \<Rightarrow> pte) \<Rightarrow> string outcome" where
  "print_pagetbl tb =
     bind_o (pagetbl_loop [0..<PTRS_PER_PGTBL] tb (-1) (-1) []) (\<lambda>lines. Ok (concat (map pt_text lines)))"

fun pagedir_loop ::
  "nat list \<Rightarrow> (nat \<Rightarrow> string) \<Rightarrow> (nat \<Rightarrow> (nat \<Rightarrow> pte) option) \<Rightarrow> int \<Rightarrow> int \<Rightarrow> string \<Rightarrow> string outcome" where
  "pagedir_loop [] addr dir first final out = Ok out"
| "pagedir_loop (i # is) addr dir first final out =
     (case dir i of
        None \<Rightarrow> pagedir_loop is addr dir (if first = -1 then int i else first) (int i) out
      | Some tb \<Rightarrow>
          bind_o (print_pagetbl tb) (\<lambda>text.
          pagedir_loop is addr dir (-1) (-1)
            (out
             @ (if first \<noteq> -1
                then ''['' @ dec_int first @ '']: INVALID'' @ newline @ ''  to'' @ newline @
                     ''['' @ dec_int final @ '']: INVALID'' @ newline
                else [])
             @ ''['' @ dec i @ '']: '' @ addr i @ newline @ text)))"

definition print_pagedirectory :: "(nat \<Rightarrow> string) \<Rightarrow> 'z core_scheme \<Rightarrow> string outcome" where
  "print_pagedirectory addr s = pagedir_loop [0..<PTRS_PER_PGDIR] addr (pgdir s) (-1) (-1) []"

section \<open>Every entry is printed\<close>

text \<open>What a line says of entry \<open>i\<close>.\<close>

fun says :: "pt_line \<Rightarrow> nat \<Rightarrow> pte \<Rightarrow> bool" where
  "says (Invalid_Entries a b) i e \<longleftrightarrow> a \<le> int i \<and> int i \<le> b \<and> invalid_pte e"
| "says (Valid_Entry k dirty f) i e \<longleftrightarrow> k = i \<and> pte_valid e \<and> dirty = pte_dirty e \<and> f = frame_no e"
| "says (Swapped_Entry k off) i e \<longleftrightarrow> k = i \<and> \<not> pte_valid e \<and> pte_onswap e \<and> off = swap_off e"

fun covers :: "pt_line \<Rightarrow> nat \<Rightarrow> bool" where
  "covers (Invalid_Entries a b) i \<longleftrightarrow> a \<le> int i \<and> int i \<le> b"
| "covers (Valid_Entry k dirty f) i \<longleftrightarrow> k = i"
| "covers (Swapped_Entry k off) i \<longleftrightarrow> k = i"

text \<open>The lines so far are right about the entries below \<open>m\<close>, the pending ones from \<open>first\<close> on.\<close>

definition lines_ok :: "(nat \<Rightarrow> pte) \<Rightarrow> nat \<Rightarrow> pt_line list \<Rightarrow> bool" where
  "lines_ok tb m out \<longleftrightarrow> (\<forall>l \<in> set out. \<forall>i. covers l i \<longrightarrow> i < m \<and> says l i (tb i)) \<and>
     (\<forall>i < m. length (filter (\<lambda>l. covers l i) out) = 1)"

lemma lines_ok_snoc:
  assumes "lines_ok tb m out" "m \<le> n" "\<forall>i. covers l i \<longleftrightarrow> m \<le> i \<and> i < n" "\<forall>i. m \<le> i \<and> i < n \<longrightarrow> says l i (tb i)"
  shows "lines_ok tb n (out @ [l])"
proof -
  have "length (filter (\<lambda>l. covers l i) (out @ [l])) = 1" if i: "i < n" for i
  proof (cases "i < m")
    case True
    then show ?thesis using assms(1,3) by (simp add: lines_ok_def)
  next
    case False
    then have "filter (\<lambda>l. covers l i) out = []" using assms(1) by (auto simp: lines_ok_def filter_empty_conv)
    then show ?thesis using assms(3) False i by simp
  qed
  then show ?thesis using assms by (fastforce simp: lines_ok_def)
qed

lemma pagetbl_loop_ok:
  assumes "m \<le> n" "lines_ok tb (if first = -1 then m else nat first) out"
    and "first = -1 \<or> 0 \<le> first \<and> final = int m - 1 \<and> first \<le> final \<and> (\<forall>i. first \<le> int i \<and> i < m \<longrightarrow> invalid_pte (tb i))"
  shows "\<exists>out'. pagetbl_loop [m..<n] tb first final out = Ok out' \<and> lines_ok tb n out'"
  using assms
proof (induction "n - m" arbitrary: m first final out)
  case 0
  then have "m = n" by simp
  have "first \<noteq> -1 \<Longrightarrow> lines_ok tb n (out @ [Invalid_Entries first final])"
    by (rule lines_ok_snoc[where m = "nat first"]) (use 0 \<open>m = n\<close> in auto)
  then show ?case using 0 \<open>m = n\<close> by auto
next
  case (Suc k)
  then have m: "m < n" by simp
  then have u: "[m..<n] = m # [Suc m..<n]" by (rule upt_conv_Cons)
  show ?case
  proof (cases "invalid_pte (tb m)")
    case True
    have "\<exists>out'. pagetbl_loop [Suc m..<n] tb (if first = -1 then int m else first) (int m) out = Ok out' \<and> lines_ok tb n out'"
      by (rule Suc.hyps(1)) (use Suc.hyps(2) Suc.prems m True in \<open>auto simp: less_Suc_eq\<close>)
    then show ?thesis unfolding u using True by simp
  next
    case False
    have e: "\<forall>i. m = i \<longleftrightarrow> m \<le> i \<and> i < Suc m" by auto
    obtain l where l: "entry_line m (tb m) = Ok l" "\<forall>i. covers l i \<longleftrightarrow> m \<le> i \<and> i < Suc m" "says l m (tb m)"
      using False e by (cases "pte_valid (tb m)") (auto simp: entry_line_def invalid_pte_def)
    let ?out = "if first \<noteq> -1 then out @ [Invalid_Entries first final] else out"
    have "first \<noteq> -1 \<Longrightarrow> lines_ok tb m (out @ [Invalid_Entries first final])"
      by (rule lines_ok_snoc[where m = "nat first"]) (use Suc.prems in auto)
    then have "lines_ok tb m ?out" using Suc.prems by auto
    then have "lines_ok tb (Suc m) (?out @ [l])"
      by (rule lines_ok_snoc) (use l in \<open>auto simp: less_Suc_eq\<close>)
    then have "\<exists>out'. pagetbl_loop [Suc m..<n] tb (-1) (-1) (?out @ [l]) = Ok out' \<and> lines_ok tb n out'"
      by (intro Suc.hyps(1)) (use Suc.hyps(2) m in auto)
    then show ?thesis unfolding u using False l(1) by simp
  qed
qed

text \<open>Printing a table never trips its assertion, and tells the state of each entry once.\<close>

lemma print_pagetbl_ok:
  "\<exists>lines. print_pagetbl tb = Ok (concat (map pt_text lines)) \<and> lines_ok tb PTRS_PER_PGTBL lines"
  using pagetbl_loop_ok[of 0 PTRS_PER_PGTBL tb "-1" "[]" "-1"]
  by (auto simp: print_pagetbl_def lines_ok_def)

section \<open>The text that is printed\<close>

text \<open>
  The text of a table without the state of the loop: each maximal run of entries that are neither
  in memory nor on swap is one line with its bounds, every other entry has its own line.
\<close>

definition entry_text :: "nat \<Rightarrow> pte \<Rightarrow> string" where
  "entry_text i e =
     [CHR 0x09] @ ''['' @ dec i @ '']: '' @
     (if pte_valid e
      then ''VALID, '' @ (if pte_dirty e then ''DIRTY, '' else []) @ ''in frame '' @ dec (frame_no e)
      else ''ONSWAP, at offset '' @ dec (nat (swap_off e mod 2 ^ 64))) @ newline"

definition run_text :: "int \<Rightarrow> int \<Rightarrow> string" where
  "run_text a b = [CHR 0x09] @ ''['' @ dec_int a @ ''] - ['' @ dec_int b @ '']: INVALID'' @ newline"

function table_text :: "(nat \<Rightarrow> pte) \<Rightarrow> nat list \<Rightarrow> string" where
  "table_text tb [] = []"
| "table_text tb (i # is) =
     (if invalid_pte (tb i)
      then run_text (int i) (int (last (i # takeWhile (\<lambda>j. invalid_pte (tb j)) is))) @
           table_text tb (dropWhile (\<lambda>j. invalid_pte (tb j)) is)
      else entry_text i (tb i) @ table_text tb is)"
  by pat_completeness auto

termination
  by (relation "measure (\<lambda>(tb, is). length is)") (simp_all add: le_imp_less_Suc length_dropWhile_le)

text \<open>Of the directory, a run of invalid entries is three lines, and none at the end.\<close>

definition dir_run_text :: "int \<Rightarrow> int \<Rightarrow> string" where
  "dir_run_text a b = ''['' @ dec_int a @ '']: INVALID'' @ newline @ ''  to'' @ newline @
     ''['' @ dec_int b @ '']: INVALID'' @ newline"

function directory_text :: "(nat \<Rightarrow> string) \<Rightarrow> (nat \<Rightarrow> (nat \<Rightarrow> pte) option) \<Rightarrow> nat list \<Rightarrow> string" where
  "directory_text addr dir [] = []"
| "directory_text addr dir (i # is) =
     (case dir i of
        None \<Rightarrow>
          (case dropWhile (\<lambda>j. dir j = None) is of
             [] \<Rightarrow> []
           | k # ks \<Rightarrow>
               dir_run_text (int i) (int (last (i # takeWhile (\<lambda>j. dir j = None) is))) @
               directory_text addr dir (k # ks))
      | Some tb \<Rightarrow>
          ''['' @ dec i @ '']: '' @ addr i @ newline @ table_text tb [0..<PTRS_PER_PGTBL] @
          directory_text addr dir is)"
  by pat_completeness auto

termination
proof (relation "measure (\<lambda>(addr, dir, is). length is)")
  fix addr :: "nat \<Rightarrow> string" and dir :: "nat \<Rightarrow> (nat \<Rightarrow> pte) option" and i k "is" ks
  assume "dropWhile (\<lambda>j. dir j = None) is = k # ks"
  then have "length (k # ks) \<le> length is" by (metis length_dropWhile_le)
  then show "((addr, dir, k # ks), addr, dir, i # is) \<in> measure (\<lambda>(addr, dir, is). length is)" by simp
qed simp_all

lemma run_line_text: "pt_text (Invalid_Entries a b) = run_text a b"
  by (simp add: pt_text_def run_text_def)

lemma entry_line_text: "\<not> invalid_pte e \<Longrightarrow> \<exists>l. entry_line i e = Ok l \<and> pt_text l = entry_text i e"
  by (auto simp: entry_line_def invalid_pte_def pt_text_def entry_text_def)

lemma pagetbl_loop_text:
  "\<exists>out'. pagetbl_loop is tb first final out = Ok out' \<and>
     concat (map pt_text out') = concat (map pt_text out) @
       (if first = -1 then table_text tb is
        else run_text first (if takeWhile (\<lambda>j. invalid_pte (tb j)) is = [] then final
                             else int (last (takeWhile (\<lambda>j. invalid_pte (tb j)) is))) @
             table_text tb (dropWhile (\<lambda>j. invalid_pte (tb j)) is))"
proof (induction "is" arbitrary: first final out)
  case Nil
  then show ?case by (simp add: run_line_text)
next
  case (Cons i "is")
  show ?case
  proof (cases "invalid_pte (tb i)")
    case True
    from Cons[of "if first = -1 then int i else first" "int i" out] True show ?thesis
      by (auto simp: last_ConsR)
  next
    case False
    from entry_line_text[OF False, of i] obtain l where l: "entry_line i (tb i) = Ok l"
      "pt_text l = entry_text i (tb i)" by blast
    from Cons[of "-1" "-1" "(if first \<noteq> -1 then out @ [Invalid_Entries first final] else out) @ [l]"] False l
    show ?thesis by (auto simp: run_line_text)
  qed
qed

lemma print_pagetbl_text: "print_pagetbl tb = Ok (table_text tb [0..<PTRS_PER_PGTBL])"
  using pagetbl_loop_text[of "[0..<PTRS_PER_PGTBL]" tb "-1" "-1" "[]"] by (auto simp: print_pagetbl_def)

lemma pagedir_loop_text:
  "pagedir_loop is addr dir first final out = Ok (out @
     (if first = -1 then directory_text addr dir is
      else case dropWhile (\<lambda>j. dir j = None) is of
             [] \<Rightarrow> []
           | k # ks \<Rightarrow>
               dir_run_text first (if takeWhile (\<lambda>j. dir j = None) is = [] then final
                                   else int (last (takeWhile (\<lambda>j. dir j = None) is))) @
               directory_text addr dir (k # ks)))"
proof (induction "is" arbitrary: first final out)
  case Nil
  then show ?case by simp
next
  case (Cons i "is")
  show ?case
  proof (cases "dir i")
    case None
    then have "pagedir_loop (i # is) addr dir first final out =
      pagedir_loop is addr dir (if first = -1 then int i else first) (int i) out" by simp
    with None show ?thesis
      unfolding Cons
      by (cases "dropWhile (\<lambda>j. dir j = None) is"; cases "takeWhile (\<lambda>j. dir j = None) is")
        (simp_all del: dropWhile_eq_Nil_conv)
  next
    case (Some tb)
    then show ?thesis by (simp add: print_pagetbl_text Cons dir_run_text_def)
  qed
qed

lemma print_pagedirectory_text:
  "print_pagedirectory addr s = Ok (directory_text addr (pgdir s) [0..<PTRS_PER_PGDIR])"
  by (simp add: print_pagedirectory_def pagedir_loop_text)

text \<open>
  Unlike \<open>print_pagetbl\<close>, the directory printer has nothing after its loop: the invalid entries
  behind the last valid one are not printed.
\<close>

lemma pagedir_tail_silent:
  "\<forall>i \<in> set is. dir i = None \<Longrightarrow> pagedir_loop is addr dir first final out = Ok out"
  by (induction "is" arbitrary: first final) auto

section \<open>The options of \<open>main\<close>\<close>

record options =
  tracefile :: "string option"
  memsize_opt :: u32
  replacement_alg :: "string option"
  swapsize :: u32

fun option_loop :: "(char \<times> string) list \<Rightarrow> options \<Rightarrow> options outcome" where
  "option_loop [] opts = Ok opts"
| "option_loop ((opt, optarg) # rest) opts =
     (if opt = CHR ''f'' then option_loop rest (opts\<lparr>tracefile := Some optarg\<rparr>)
      else if opt = CHR ''m'' then option_loop rest (opts\<lparr>memsize_opt := ucast (strtoul optarg)\<rparr>)
      else if opt = CHR ''a'' then option_loop rest (opts\<lparr>replacement_alg := Some optarg\<rparr>)
      else if opt = CHR ''s'' then option_loop rest (opts\<lparr>swapsize := ucast (strtoul optarg)\<rparr>)
      else Exit 1)"

definition parse_options :: "string list \<Rightarrow> options outcome" where
  "parse_options args =
     option_loop (getopt ''f:m:a:s:'' args)
       \<lparr>tracefile = None, memsize_opt = 0, replacement_alg = None, swapsize = 4096\<rparr>"

section \<open>The whole program\<close>

definition bitmap_destroy :: "bitmap \<Rightarrow> bitmap" where
  "bitmap_destroy b = \<lparr>nbits = 0, words_of = []\<rparr>"

text \<open>The swap file is closed and removed.\<close>

definition swap_destroy :: "'z core_scheme \<Rightarrow> 'z core_scheme" where
  "swap_destroy s = s\<lparr>swapfile := (\<lambda>_. 0), file_size := 0, swapmap := bitmap_destroy (swapmap s)\<rparr>"

definition counters :: "(int \<Rightarrow> int \<Rightarrow> string) \<Rightarrow> 'z core_scheme \<Rightarrow> string" where
  "counters rate s =
     newline @ ''Hit count: '' @ dec_int (hit_count s) @ newline
     @ ''Miss count: '' @ dec_int (miss_count s) @ newline
     @ ''Clean evictions: '' @ dec_int (evict_clean_count s) @ newline
     @ ''Dirty evictions: '' @ dec_int (evict_dirty_count s) @ newline
     @ ''Total references : '' @ dec_int (ref_count s) @ newline
     @ ''Hit rate: '' @ rate (hit_count s) (ref_count s) @ newline
     @ ''Miss rate: '' @ rate (miss_count s) (ref_count s) @ newline"

text \<open>\<open>files\<close> is what opening a file for reading gives; \<open>env\<close> holds the rest of the environment.\<close>

definition program ::
  "(nat \<Rightarrow> string) \<Rightarrow> (int \<Rightarrow> int \<Rightarrow> string) \<Rightarrow> (string \<Rightarrow> string option) \<Rightarrow> environment \<Rightarrow> string list \<Rightarrow>
   (string \<times> sim) outcome" where
  "program addr rate files env args =
     bind_o (parse_options args) (\<lambda>opts.
     bind_o (sim_main (env\<lparr>trace_opt := map_option files (tracefile opts), mem_opt := memsize_opt opts,
                           swap_opt := swapsize opts, alg_opt := replacement_alg opts\<rparr>)) (\<lambda>s.
     bind_o (print_pagedirectory addr s) (\<lambda>out.
     let s = swap_destroy s in Ok (out @ counters rate s, s))))"

lemma parse_command_line:
  assumes "f \<noteq> ''--''" "alg \<noteq> ''--''" "m < 2 ^ 32" "n < 2 ^ 32"
  shows "parse_options [''-f'', f, ''-m'', dec m, ''-s'', dec n, ''-a'', alg] =
    Ok \<lparr>tracefile = Some f, memsize_opt = word_of_nat m, replacement_alg = Some alg, swapsize = word_of_nat n\<rparr>"
proof -
  have "ucast (word_of_nat k :: u64) = (word_of_nat k :: u32)" if "k < 2 ^ 32" for k :: nat
    using that by (simp add: unsigned_of_nat take_bit_nat_eq_self)
  then show ?thesis using assms by (simp add: parse_options_def strtoul_dec)
qed

text \<open>Whatever run ends, its page tables and counters are printed.\<close>

lemma program_ok:
  assumes "parse_options args = Ok opts"
    "sim_main (env\<lparr>trace_opt := map_option files (tracefile opts), mem_opt := memsize_opt opts,
                   swap_opt := swapsize opts, alg_opt := replacement_alg opts\<rparr>) = Ok s"
  shows "program addr rate files env args =
    Ok (directory_text addr (pgdir s) [0..<PTRS_PER_PGDIR] @ counters rate s, swap_destroy s)"
  using assms by (simp add: program_def Let_def print_pagedirectory_text counters_def swap_destroy_def)

end
