(* ===== verification/Sim_Report_Props.thy ===== *)
theory Sim_Report_Props
  imports Sim_Props Sim_Report
begin

text \<open>The simulator as it is called, from its command line to what it prints.\<close>

text \<open>C3: called with a trace file of fewer than \<open>2^31\<close> references, a number of frames, a size of
  the swap file and \<open>rand\<close>, \<open>lru\<close>, \<open>fifo\<close> or \<open>clock\<close>, the simulator reads its options as
  they were printed, runs the trace as a memory without paging would, counting each reference once,
  and prints exactly this: of the page directory and each of its tables every entry that is in
  memory or on swap, with its state, and the bounds of each run of the others (those behind the
  last table are not mentioned), and then the counters.\<close>

theorem program_reports_run:
  fixes env :: environment and alg f input :: string and m n :: nat
  defines "env' \<equiv> env\<lparr>trace_opt := Some (Some input), mem_opt := word_of_nat m,
                      swap_opt := word_of_nat n, alg_opt := Some alg\<rparr>"
  assumes "files f = Some input" "f \<noteq> ''--''" "m < 2 ^ 32" "n < 2 ^ 32"
    "alg \<in> {''rand'', ''lru'', ''fifo'', ''clock''}"
    "fits env' (trace_refs input)" "length (trace_refs input) < 2 ^ 31"
  shows "\<exists>s. sim_main env' = Ok s \<and> good_run (trace_refs input) s \<and>
    program addr rate files env [''-f'', f, ''-m'', dec m, ''-s'', dec n, ''-a'', alg] =
      Ok (directory_text addr (pgdir s) [0..<PTRS_PER_PGDIR]
          @ newline @ ''Hit count: '' @ dec_int (hit_count s) @ newline
          @ ''Miss count: '' @ dec_int (miss_count s) @ newline
          @ ''Clean evictions: '' @ dec_int (evict_clean_count s) @ newline
          @ ''Dirty evictions: '' @ dec_int (evict_dirty_count s) @ newline
          @ ''Total references : '' @ dec (length (trace_refs input)) @ newline
          @ ''Hit rate: '' @ rate (hit_count s) (int (length (trace_refs input))) @ newline
          @ ''Miss rate: '' @ rate (miss_count s) (int (length (trace_refs input))) @ newline,
          swap_destroy s)"
proof -
  have "alg \<noteq> ''--''" using assms(6) by auto
  from parse_command_line[OF assms(3) this assms(4,5)]
  have o: "parse_options [''-f'', f, ''-m'', dec m, ''-s'', dec n, ''-a'', alg] =
    Ok \<lparr>tracefile = Some f, memsize_opt = word_of_nat m, replacement_alg = Some alg, swapsize = word_of_nat n\<rparr>" .
  have "trace_opt env' = Some (Some input)" "alg_opt env' = Some alg" by (simp_all add: env'_def)
  from sim_main_good[OF assms(7,8) this assms(6)] obtain s where
    s: "sim_main env' = Ok s" "good_run (trace_refs input) s" by blast
  then have "env\<lparr>trace_opt := map_option files (Some f), mem_opt := word_of_nat m,
      swap_opt := word_of_nat n, alg_opt := Some alg\<rparr> = env'" and "ref_count s = int (length (trace_refs input))"
    using assms(2) by (simp_all add: env'_def good_run_def)
  then show ?thesis
    using program_ok[OF o, where env = env and files = files and s = s and addr = addr and rate = rate] s
    by (simp add: counters_def dec_int_def)
qed

theorem program_reports_run_witness:
  "\<exists>s rest. program dec (\<lambda>_ _. ''?'') (\<lambda>_. Some (print_trace demo_trace)) (demo_env ''lru'' 2)
      [''-f'', ''t'', ''-m'', ''2'', ''-s'', ''4'', ''-a'', ''lru''] =
      Ok (directory_text dec (pgdir s) [0..<PTRS_PER_PGDIR] @ rest, swap_destroy s) \<and> good_run demo_trace s"
proof -
  have d: "dec 2 = ''2''" "dec 4 = ''4''" by code_simp+
  have e: "(demo_env ''lru'' 2)\<lparr>trace_opt := Some (Some (print_trace demo_trace)), mem_opt := word_of_nat 2,
      swap_opt := word_of_nat 4, alg_opt := Some ''lru''\<rparr> = demo_env ''lru'' 2"
    by (simp add: demo_env_def)
  have l: "length demo_trace < 2 ^ 31" by (simp add: demo_trace_def)
  show ?thesis
    using program_reports_run[where env = "demo_env ''lru'' 2" and input = "print_trace demo_trace" and m = 2 and n = 4
        and alg = "''lru''" and f = "''t''" and files = "\<lambda>_. Some (print_trace demo_trace)" and addr = dec
        and rate = "\<lambda>_ _. ''?''", unfolded e d demo_refs] demo_fits[of 2 "''lru''"] l
    by auto
qed

end
