(* ===== verification/Ext2_Main.thy ===== *)
theory Ext2_Main
  imports Ext2_Cmd Printing
begin

text \<open>
  The main functions of the five tools of \<^verbatim>\<open>a3\<close>: checks and options of the command line, and
  the opening of the image. \<open>argv\<close> is the command line with the name of the program. \<open>fd\<close> is the
  result of \<open>open\<close> and \<open>mapped\<close> that of \<open>mmap\<close>, \<open>None\<close> when it fails.
\<close>

section \<open>Running a tool\<close>

text \<open>
  The exit code and the image as it is left, if it was mapped; \<open>None\<close> stands for undefined
  behaviour. A main function that runs off its end returns 0.
\<close>

type_synonym ended = "(int \<times> bytes option) option"

fun finish :: "bytes fsres \<Rightarrow> ended" where
  "finish (Ret d) = Some (0, Some d)"
| "finish (Quit c d) = Some (c, Some d)"
| "finish Fault = None"

text \<open>The test of the descriptor is for 0, which \<open>open\<close> returns only when standard input is closed.\<close>

definition load_disk_to_mem ::
  "(string \<Rightarrow> int) \<Rightarrow> (int \<Rightarrow> bytes option) \<Rightarrow> string \<Rightarrow> (int \<Rightarrow> 'r) \<Rightarrow> (bytes \<Rightarrow> 'r) \<Rightarrow> 'r" where
  "load_disk_to_mem fd mapped img exits k =
     (if fd img = 0 then exits ENOENT
      else (case mapped (fd img) of None \<Rightarrow> exits 1 | Some disk \<Rightarrow> k disk))"

definition exits :: "int \<Rightarrow> ended" where
  "exits c = Some (c, None)"

definition crash_with_usage :: ended where
  "crash_with_usage = exits 1"

text \<open>\<open>sprintf\<close> into a buffer of 100 characters.\<close>

definition usage_fits :: "string \<Rightarrow> string \<Rightarrow> bool" where
  "usage_fits prog rest \<longleftrightarrow> length (''Usage: '' @ prog @ rest) < 100"

section \<open>The tools\<close>

text \<open>The flag of a command line, \<open>None\<close> when \<open>getopt\<close> meets another option.\<close>

fun flag_loop :: "char \<Rightarrow> (char \<times> string) list \<Rightarrow> bool \<Rightarrow> bool option" where
  "flag_loop c [] flag = Some flag"
| "flag_loop c ((ch, _) # rest) flag = (if ch = c then flag_loop c rest True else None)"

definition ls_main ::
  "(string \<Rightarrow> int) \<Rightarrow> (int \<Rightarrow> bytes option) \<Rightarrow> string list \<Rightarrow> (ended \<times> string list)" where
  "ls_main fd mapped argv =
     (if \<not> usage_fits (argv ! 0) '' [disk] [option -a] [path]'' then (None, [])
      else
        (case (if length argv = 3 then (if argv ! 2 = ''-a'' then None else Some (argv ! 2))
               else if length argv = 4 then Some (argv ! 3) else None) of
           None \<Rightarrow> (crash_with_usage, [])
         | Some path \<Rightarrow>
             (case flag_loop CHR ''a'' (getopt ''a'' (tl argv)) False of
                None \<Rightarrow> (crash_with_usage, [])
              | Some show_dots \<Rightarrow>
                  load_disk_to_mem fd mapped (argv ! 1) (\<lambda>c. (exits c, []))
                    (\<lambda>d. case ext2_ls d path show_dots of
                           Ret out \<Rightarrow> (Some (0, Some d), out)
                         | Quit c d \<Rightarrow> (Some (c, Some d), [])
                         | Fault \<Rightarrow> (None, [])))))"

definition rm_main :: "nat \<Rightarrow> (string \<Rightarrow> int) \<Rightarrow> (int \<Rightarrow> bytes option) \<Rightarrow> string list \<Rightarrow> ended" where
  "rm_main now fd mapped argv =
     (if length argv \<noteq> 3 then crash_with_usage
      else load_disk_to_mem fd mapped (argv ! 1) exits (\<lambda>d. finish (ext2_rm now d (argv ! 2))))"

definition mkdir_main :: "nat \<Rightarrow> (string \<Rightarrow> int) \<Rightarrow> (int \<Rightarrow> bytes option) \<Rightarrow> string list \<Rightarrow> ended" where
  "mkdir_main now fd mapped argv =
     (if length argv \<noteq> 3 then exits 1
      else load_disk_to_mem fd mapped (argv ! 1) exits (\<lambda>d. finish (ext2_mkdir now d (argv ! 2))))"

definition ln_main :: "nat \<Rightarrow> (string \<Rightarrow> int) \<Rightarrow> (int \<Rightarrow> bytes option) \<Rightarrow> string list \<Rightarrow> ended" where
  "ln_main now fd mapped argv =
     (if \<not> usage_fits (argv ! 0) '' [disk] [option -s] [source path] [destination path]'' then None
      else
        (case (if length argv = 4
               then (if argv ! 2 = ''-s'' \<or> argv ! 3 = ''-s'' then None else Some (argv ! 2, argv ! 3))
               else if length argv = 5 then Some (argv ! 3, argv ! 4) else None) of
           None \<Rightarrow> crash_with_usage
         | Some (source, dest) \<Rightarrow>
             (case flag_loop CHR ''s'' (getopt ''s'' (tl argv)) False of
                None \<Rightarrow> crash_with_usage
              | Some is_sym_link \<Rightarrow>
                  load_disk_to_mem fd mapped (argv ! 1) exits
                    (\<lambda>d. finish (ext2_ln now d source dest is_sym_link)))))"

definition cp_main ::
  "nat \<Rightarrow> (string \<Rightarrow> u8 list option) \<Rightarrow> (string \<Rightarrow> int) \<Rightarrow> (int \<Rightarrow> bytes option) \<Rightarrow> string list \<Rightarrow> ended" where
  "cp_main now files fd mapped argv =
     (if length argv \<noteq> 4 then exits 1
      else load_disk_to_mem fd mapped (argv ! 1) exits (\<lambda>d. finish (ext2_cp now files d (argv ! 2) (argv ! 3))))"

section \<open>What the command lines mean\<close>

lemma load_ok: "fd img \<noteq> 0 \<Longrightarrow> mapped (fd img) = Some d \<Longrightarrow> load_disk_to_mem fd mapped img e k = k d"
  by (simp add: load_disk_to_mem_def)

lemma plain_words: "hd a \<noteq> CHR ''-'' \<Longrightarrow> a \<noteq> [] \<Longrightarrow> getopt opts (a # as) = getopt opts as"
  by (cases a) auto

text \<open>An image that cannot be opened is not reported as missing: the failure of \<open>mmap\<close> is.\<close>

lemma missing_image: "fd img = -1 \<Longrightarrow> mapped (-1) = None \<Longrightarrow> mkdir_main now fd mapped [p, img, path] = Some (1, None)"
  by (simp add: mkdir_main_def load_disk_to_mem_def exits_def)

lemma ln_command_line:
  assumes "fd img \<noteq> 0" "mapped (fd img) = Some d" "usage_fits p '' [disk] [option -s] [source path] [destination path]''"
    and "img \<noteq> []" "hd img \<noteq> CHR ''-''" "source \<noteq> []" "hd source \<noteq> CHR ''-''" "dest \<noteq> []" "hd dest \<noteq> CHR ''-''"
  shows "ln_main now fd mapped [p, img, source, dest] = finish (ext2_ln now d source dest False)"
    and "ln_main now fd mapped [p, img, ''-s'', source, dest] = finish (ext2_ln now d source dest True)"
proof -
  have "source \<noteq> ''-s''" "dest \<noteq> ''-s''" using assms by auto
  then show "ln_main now fd mapped [p, img, source, dest] = finish (ext2_ln now d source dest False)"
    using assms by (simp add: ln_main_def load_ok plain_words del: getopt.simps(2)) 
  have f: "takes_arg ''s'' CHR ''s'' = Some False" by simp
  have "getopt ''s'' [img, ''-s'', source, dest] = [(CHR ''s'', [])]"
    using assms getopt_flag[OF f, of "[source, dest]"] by (simp add: plain_words del: getopt.simps(2))
  then show "ln_main now fd mapped [p, img, ''-s'', source, dest] = finish (ext2_ln now d source dest True)"
    using assms by (simp add: ln_main_def load_ok del: getopt.simps(2))
qed

end
