(* ===== verification/Ext2_Dump.thy ===== *)
theory Ext2_Dump
  imports Ext2_Path Printing
begin

text \<open>
  The tool of \<^verbatim>\<open>a3/read_images.c\<close>, which prints the structures of an image. The walk
  over a directory block has no guard against entries of length 0, so it is a partial function:
  \<open>None\<close> stands for a run that never ends. The products with an unsigned block number wrap at
  \<open>2^32\<close>; those with an \<open>int\<close> (of the two bitmaps and of a directory block) overflow, or lead
  outside the mapping, exactly where the model's offset lies outside it. Counts above \<open>2^31\<close>,
  which C turns into negative numbers and back, lead outside the mapping here as there.
\<close>

unbundle bit_operations_syntax

section \<open>Printing\<close>

text \<open>A loop that prints.\<close>

fun print_for :: "(nat \<Rightarrow> string fsres) \<Rightarrow> nat list \<Rightarrow> string fsres" where
  "print_for f [] = Ret []"
| "print_for f (i # is) = bind_f (f i) (\<lambda>s. bind_f (print_for f is) (\<lambda>t. Ret (s @ t)))"

definition nul :: char where "nul = char_of (0 :: nat)"

definition s_blocks_count :: nat where "s_blocks_count = 4"
definition EXT2_GOOD_OLD_FIRST_INO :: nat where "EXT2_GOOD_OLD_FIRST_INO = 11"
definition EXT2_S_IFREG :: nat where "EXT2_S_IFREG = 0x8000"
definition super_block :: nat where "super_block = 1024"
definition group_desc :: nat where "group_desc = 2 * EXT2_BLOCK_SIZE"

text \<open>The product with an \<^verbatim>\<open>unsigned int\<close>.\<close>

definition unsigned_block :: "nat \<Rightarrow> nat" where
  "unsigned_block b = (EXT2_BLOCK_SIZE * b) mod 2 ^ 32"

definition dump_group :: "bytes \<Rightarrow> string fsres" where
  "dump_group d =
     bind_f (rd 4 d (super_block + s_inodes_count)) (\<lambda>inodes.
     bind_f (rd 4 d (super_block + s_blocks_count)) (\<lambda>blocks.
     bind_f (rd 4 d (group_desc + bg_block_bitmap)) (\<lambda>bb.
     bind_f (rd 4 d (group_desc + bg_inode_bitmap)) (\<lambda>ib.
     bind_f (rd 4 d (group_desc + bg_inode_table)) (\<lambda>it.
     bind_f (rd 2 d (group_desc + bg_free_blocks_count)) (\<lambda>fb.
     bind_f (rd 2 d (group_desc + bg_free_inodes_count)) (\<lambda>fi.
     bind_f (rd 2 d (group_desc + bg_used_dirs_count)) (\<lambda>ud.
     Ret (''Inodes: '' @ dec_signed inodes @ newline @ ''Blocks: '' @ dec_signed blocks @ newline
       @ ''Block group:'' @ newline
       @ ''    block bitmap: '' @ dec_signed bb @ newline @ ''    inode bitmap: '' @ dec_signed ib @ newline
       @ ''    inode table: '' @ dec_signed it @ newline @ ''    free blocks: '' @ dec fb @ newline
       @ ''    free inodes: '' @ dec fi @ newline @ ''    used_dirs: '' @ dec ud)))))))))"

text \<open>The bits of one byte, the least significant one first, and a bitmap.\<close>

definition dump_bits :: "bytes \<Rightarrow> nat \<Rightarrow> string fsres" where
  "dump_bits d a =
     bind_f (rd_byte d a) (\<lambda>x.
     Ret (concat (map (\<lambda>k. dec (unat (drop_bit k x AND 1))) [0..<8]) @ '' ''))"

definition dump_bitmap :: "bytes \<Rightarrow> nat \<Rightarrow> nat \<Rightarrow> string fsres" where
  "dump_bitmap d start num_bit = print_for (\<lambda>i. dump_bits d (start + i)) [0..<num_bit div 8]"

text \<open>The root and the inodes that are not reserved, by their index.\<close>

definition shown_inode :: "nat \<Rightarrow> bool" where
  "shown_inode i \<longleftrightarrow> i = 1 \<or> EXT2_GOOD_OLD_FIRST_INO \<le> i"

definition mode_type :: "nat \<Rightarrow> char" where
  "mode_type m =
     (if m AND EXT2_S_IFREG \<noteq> 0 \<and> \<not> (drop_bit 13 m AND 1 \<noteq> 0) then CHR ''f''
      else if m AND EXT2_S_IFDIR \<noteq> 0 then CHR ''d''
      else if m AND EXT2_S_IFLNK \<noteq> 0 then CHR ''l'' else nul)"

text \<open>The numbers of the blocks; there is no blank after the one at \<open>no_white_space\<close>.\<close>

definition dump_indirect :: "bytes \<Rightarrow> nat \<Rightarrow> string fsres" where
  "dump_indirect d b =
     bind_f (print_for (\<lambda>h. bind_f (rd 4 d (unsigned_block b + 4 * h)) (\<lambda>x.
               Ret (if x \<noteq> 0 then dec x @ '' '' else []))) [0..<EXT2_BLOCK_SIZE div 4]) (\<lambda>s.
     Ret (newline @ ''Second level blocks: '' @ s))"

fun last_used :: "bytes \<Rightarrow> nat \<Rightarrow> nat list \<Rightarrow> nat option \<Rightarrow> nat option fsres" where
  "last_used d inode [] no_white_space = Ret no_white_space"
| "last_used d inode (k # ks) no_white_space =
     bind_f (rd 4 d (inode + i_block + 4 * k)) (\<lambda>b.
     last_used d inode ks (if b \<noteq> 0 then Some k else no_white_space))"

definition dump_block_numbers :: "bytes \<Rightarrow> nat \<Rightarrow> string fsres" where
  "dump_block_numbers d inode =
     bind_f (last_used d inode [0..<15] None) (\<lambda>no_white_space.
     print_for (\<lambda>k.
       bind_f (rd 4 d (inode + i_block + 4 * k)) (\<lambda>b.
       if b \<noteq> 0 then
         bind_f (if k = 12 then dump_indirect d b else Ret []) (\<lambda>s.
         Ret (dec b @ (if no_white_space = Some k then [] else '' '') @ s))
       else Ret [])) [0..<15])"

definition dump_inode :: "bytes \<Rightarrow> nat \<Rightarrow> nat \<Rightarrow> string fsres" where
  "dump_inode d table i =
     (let inode = table + inode_size * i in
      bind_f (rd 4 d (inode + i_size)) (\<lambda>size.
      if 0 < size \<and> shown_inode i then
        bind_f (rd 2 d (inode + i_mode)) (\<lambda>mode.
        bind_f (rd 2 d (inode + i_links_count)) (\<lambda>links.
        bind_f (rd 4 d (inode + i_blocks)) (\<lambda>blocks.
        bind_f (dump_block_numbers d inode) (\<lambda>s.
        Ret (''['' @ dec (i + 1) @ ''] type: '' @ [mode_type mode] @ '' size: '' @ dec size
          @ '' links: '' @ dec links @ '' blocks: '' @ dec blocks @ newline
          @ ''['' @ dec (i + 1) @ ''] Blocks:  '' @ s @ newline)))))
      else Ret []))"

section \<open>Directories\<close>

definition entry_type :: "nat \<Rightarrow> char" where
  "entry_type t =
     (if t = EXT2_FT_REG_FILE then CHR ''f'' else if t = EXT2_FT_DIR then CHR ''d''
      else if t = EXT2_FT_SYMLINK then CHR ''l'' else nul)"

text \<open>One entry, with its length; the name is printed up to a terminator in it.\<close>

definition dump_entry :: "bytes \<Rightarrow> nat \<Rightarrow> nat \<Rightarrow> (string \<times> nat) fsres" where
  "dump_entry d dir curr_pos =
     bind_f (rd 1 d (dir + file_type)) (\<lambda>t.
     bind_f (rd 4 d (dir + e_inode)) (\<lambda>ino.
     bind_f (rd 2 d (dir + rec_len)) (\<lambda>r.
     bind_f (rd 1 d (dir + name_len)) (\<lambda>n.
     bind_f (print_for (\<lambda>u. bind_f (rd_byte d (dir + e_name + u)) (\<lambda>c. Ret [byte_char c])) [0..<n]) (\<lambda>name.
     Ret (''Inode: '' @ dec ino @ '' rec_len: '' @ dec r @ '' name_len: '' @ dec n
          @ '' type= '' @ [entry_type t] @ '' name='' @ takeWhile (\<lambda>c. c \<noteq> nul) name @ newline
          @ ''curr_pos: '' @ dec (curr_pos + r) @ newline, r))))))"

partial_function (option) dump_dir_loop :: "bytes \<Rightarrow> nat \<Rightarrow> nat \<Rightarrow> string \<Rightarrow> string fsres option" where
  "dump_dir_loop d curr_pos dir out =
     (if EXT2_BLOCK_SIZE \<le> curr_pos then Some (Ret out)
      else
        (case dump_entry d dir curr_pos of
           Ret (s, r) \<Rightarrow> dump_dir_loop d (curr_pos + r) (dir + r) (out @ s)
         | Quit c d' \<Rightarrow> Some (Quit c d')
         | Fault \<Rightarrow> Some Fault))"

text \<open>Loops whose rounds may not end.\<close>

fun print_for_opt :: "(nat \<Rightarrow> string fsres option) \<Rightarrow> nat list \<Rightarrow> string fsres option" where
  "print_for_opt f [] = Some (Ret [])"
| "print_for_opt f (i # is) =
     (case f i of
        None \<Rightarrow> None
      | Some (Quit c d) \<Rightarrow> Some (Quit c d)
      | Some Fault \<Rightarrow> Some Fault
      | Some (Ret s) \<Rightarrow>
          (case print_for_opt f is of
             None \<Rightarrow> None
           | Some r \<Rightarrow> Some (bind_f r (\<lambda>t. Ret (s @ t)))))"

definition dump_dir :: "bytes \<Rightarrow> nat \<Rightarrow> nat \<Rightarrow> string fsres option" where
  "dump_dir d inode i =
     print_for_opt (\<lambda>k.
       case rd 4 d (inode + i_block + 4 * k) of
         Ret b \<Rightarrow>
           if b = 0 then Some (Ret [])
           else
             (case dump_dir_loop d 0 (EXT2_BLOCK_SIZE * b) [] of
                None \<Rightarrow> None
              | Some r \<Rightarrow>
                  Some (bind_f r (\<lambda>s. Ret (''   DIR BLOCK NUM: '' @ dec_signed b @ '' (for inode '' @ dec (i + 1)
                    @ '')'' @ newline @ s))))
       | _ \<Rightarrow> Some Fault) [0..<12]"

definition dump_dir_of_inode :: "bytes \<Rightarrow> nat \<Rightarrow> nat \<Rightarrow> nat \<Rightarrow> string fsres option" where
  "dump_dir_of_inode d bitmap table i =
     (if \<not> shown_inode i then Some (Ret [])
      else
        (case rd_byte d (bitmap + i div 8) of
           Ret x \<Rightarrow>
             if drop_bit (i mod 8) x AND 1 = 0 then Some (Ret [])
             else
               (case rd 2 d (table + inode_size * i + i_mode) of
                  Ret mode \<Rightarrow>
                    if mode AND EXT2_S_IFDIR = 0 then Some (Ret []) else dump_dir d (table + inode_size * i) i
                | _ \<Rightarrow> Some Fault)
         | _ \<Rightarrow> Some Fault))"

section \<open>The program\<close>

definition dump_static :: "bytes \<Rightarrow> string fsres" where
  "dump_static d =
     bind_f (dump_group d) (\<lambda>g.
     bind_f (rd 4 d (super_block + s_inodes_count)) (\<lambda>inodes.
     bind_f (rd 4 d (super_block + s_blocks_count)) (\<lambda>blocks.
     bind_f (rd 4 d (group_desc + bg_block_bitmap)) (\<lambda>bb.
     bind_f (rd 4 d (group_desc + bg_inode_bitmap)) (\<lambda>ib.
     bind_f (rd 4 d (group_desc + bg_inode_table)) (\<lambda>it.
     bind_f (dump_bitmap d (EXT2_BLOCK_SIZE * bb) blocks) (\<lambda>s1.
     bind_f (dump_bitmap d (EXT2_BLOCK_SIZE * ib) inodes) (\<lambda>s2.
     bind_f (print_for (dump_inode d (unsigned_block it)) [0..<inodes]) (\<lambda>s3.
     Ret (g @ newline @ ''Block bitmap: '' @ s1 @ newline @ ''Inode bitmap: '' @ s2 @ newline @ newline
       @ ''Inodes:'' @ newline @ s3 @ newline @ ''Directory Blocks:'' @ newline))))))))))"

definition dump_dirs :: "bytes \<Rightarrow> string fsres option" where
  "dump_dirs d =
     (case (rd 4 d (super_block + s_inodes_count), rd 4 d (group_desc + bg_inode_bitmap),
            rd 4 d (group_desc + bg_inode_table)) of
        (Ret inodes, Ret ib, Ret it) \<Rightarrow>
          print_for_opt (dump_dir_of_inode d (EXT2_BLOCK_SIZE * ib) (unsigned_block it)) [0..<inodes]
      | _ \<Rightarrow> Some Fault)"

definition read_images :: "bytes \<Rightarrow> string fsres option" where
  "read_images d =
     (case dump_static d of
        Ret s \<Rightarrow> (case dump_dirs d of None \<Rightarrow> None | Some r \<Rightarrow> Some (bind_f r (\<lambda>t. Ret (s @ t))))
      | Quit c d' \<Rightarrow> Some (Quit c d')
      | Fault \<Rightarrow> Some Fault)"

text \<open>\<open>mapped\<close> is the result of \<open>open\<close> and \<open>mmap\<close>; the descriptor is not checked.\<close>

definition read_images_main :: "(string \<Rightarrow> bytes option) \<Rightarrow> string list \<Rightarrow> (int \<times> string) option" where
  "read_images_main mapped argv =
     (if length argv \<noteq> 2 then Some (1, [])
      else
        (case mapped (argv ! 1) of
           None \<Rightarrow> Some (1, [])
         | Some d \<Rightarrow> (case read_images d of Some (Ret s) \<Rightarrow> Some (0, s) | _ \<Rightarrow> None)))"

section \<open>The walk over a block\<close>

definition entry_text :: "bytes \<Rightarrow> nat \<Rightarrow> nat \<Rightarrow> string" where
  "entry_text d start e =
     ''Inode: '' @ dec (einode d e) @ '' rec_len: '' @ dec (rlen d e) @ '' name_len: '' @ dec (nlen d e)
     @ '' type= '' @ [entry_type (ftype d e)] @ '' name='' @ takeWhile (\<lambda>c. c \<noteq> nul) (ename d e) @ newline
     @ ''curr_pos: '' @ dec (e + rlen d e - start) @ newline"

lemma print_for_map: "(\<And>i. i \<in> set is \<Longrightarrow> f i = Ret (g i)) \<Longrightarrow> print_for f is = Ret (concat (map g is))"
  by (induction "is") auto

lemma dump_entry_reads:
  assumes "e + 8 + nlen d e \<le> DISK_SIZE"
  shows "\<exists>s. dump_entry d e p = Ret (s, rlen d e) \<and> (\<forall>b \<le> e. p = e - b \<longrightarrow> s = entry_text d b e)"
proof -
  have "print_for (\<lambda>u. bind_f (rd_byte d (e + e_name + u)) (\<lambda>c. Ret [byte_char c])) [0..<nlen d e] =
      Ret (concat (map (\<lambda>u. [byte_char (d (e + e_name + u))]) [0..<nlen d e]))"
    by (rule print_for_map) (use assms in \<open>auto simp: e_name_def\<close>)
  then have n: "print_for (\<lambda>u. bind_f (rd_byte d (e + e_name + u)) (\<lambda>c. Ret [byte_char c])) [0..<nlen d e] =
      Ret (ename d e)" by (simp add: ename_def concat_map_singleton)
  have r: "rd 1 d (e + file_type) = Ret (ftype d e)" "rd 4 d (e + e_inode) = Ret (einode d e)"
    "rd 2 d (e + rec_len) = Ret (rlen d e)" "rd 1 d (e + name_len) = Ret (nlen d e)"
    using assms
    by (simp_all add: ftype_def einode_def rlen_def nlen_def file_type_def e_inode_def rec_len_def name_len_def
        del: load_le.simps One_nat_def)
  have "\<forall>b \<le> e. e - b + rlen d e = e + rlen d e - b" by simp
  then show ?thesis by (simp only: dump_entry_def r n bind_f.simps entry_text_def) auto
qed

lemma dump_entry_ok:
  "e + 8 + nlen d e \<le> DISK_SIZE \<Longrightarrow> s \<le> e \<Longrightarrow> dump_entry d e (e - s) = Ret (entry_text d s e, rlen d e)"
  using dump_entry_reads by blast

lemma dump_dir_loop_ok:
  assumes "chain d a es (s + 1024)" "s \<le> a" "s + 1024 \<le> DISK_SIZE"
  shows "dump_dir_loop d (a - s) a out = Some (Ret (out @ concat (map (entry_text d s) es)))"
  using assms
proof (induction es arbitrary: a out)
  case Nil
  then show ?case by (subst dump_dir_loop.simps) (simp add: EXT2_BLOCK_SIZE_def)
next
  case (Cons e es)
  then have c: "e = a" "8 + nlen d a \<le> rlen d a" "chain d (a + rlen d a) es (s + 1024)" by auto
  have le: "a + rlen d a \<le> s + 1024" using chain_le[OF c(3)] .
  have "dump_entry d a (a - s) = Ret (entry_text d s a, rlen d a)"
    by (rule dump_entry_ok) (use c le Cons.prems in auto)
  moreover have "a - s + rlen d a = a + rlen d a - s" using Cons.prems(2) by simp
  moreover have "\<not> EXT2_BLOCK_SIZE \<le> a - s" using le c(2) by (simp add: EXT2_BLOCK_SIZE_def)
  moreover have "dump_dir_loop d (a + rlen d a - s) (a + rlen d a) (out @ entry_text d s a) =
      Some (Ret ((out @ entry_text d s a) @ concat (map (entry_text d s) es)))"
    by (rule Cons.IH[OF c(3)]) (use Cons.prems in auto)
  ultimately show ?case unfolding c(1) by (subst dump_dir_loop.simps) simp
qed

text \<open>An entry of length 0 is printed for ever.\<close>

lemma dump_dir_loop_ends:
  assumes run: "dump_dir_loop d p a out = Some r"
  shows "\<not> (p < 1024 \<and> rlen d a = 0 \<and> a + 8 + nlen d a \<le> DISK_SIZE)"
proof (rule dump_dir_loop.raw_induct[where
      P = "\<lambda>d p a out r. \<not> (p < 1024 \<and> rlen d a = 0 \<and> a + 8 + nlen d a \<le> DISK_SIZE)", OF _ run])
  fix loop d p a out r
  assume IH: "\<And>d p a out r. loop d p a out = Some r \<Longrightarrow>
      \<not> (p < 1024 \<and> rlen d a = 0 \<and> a + 8 + nlen d a \<le> DISK_SIZE)"
    and body: "(if EXT2_BLOCK_SIZE \<le> p then Some (Ret out)
      else (case dump_entry d a p of
              Ret (s, l) \<Rightarrow> loop d (p + l) (a + l) (out @ s)
            | Quit c d' \<Rightarrow> Some (Quit c d') | Fault \<Rightarrow> Some Fault)) = Some r"
  show "\<not> (p < 1024 \<and> rlen d a = 0 \<and> a + 8 + nlen d a \<le> DISK_SIZE)"
  proof
    assume h: "p < 1024 \<and> rlen d a = 0 \<and> a + 8 + nlen d a \<le> DISK_SIZE"
    obtain s where s: "dump_entry d a p = Ret (s, rlen d a)"
      using dump_entry_reads h by blast
    have "loop d p a (out @ s) = Some r" using body h s by (simp add: EXT2_BLOCK_SIZE_def)
    then show False using IH h by blast
  qed
qed

corollary dump_dir_loop_stuck:
  "p < 1024 \<Longrightarrow> rlen d a = 0 \<Longrightarrow> a + 8 + nlen d a \<le> DISK_SIZE \<Longrightarrow> dump_dir_loop d p a out = None"
  using dump_dir_loop_ends[of d p a out] by (cases "dump_dir_loop d p a out") auto

text \<open>The blocks of a directory, and the inodes the walk visits.\<close>

definition block_text :: "bytes \<Rightarrow> nat \<Rightarrow> nat \<Rightarrow> string" where
  "block_text d n b = ''   DIR BLOCK NUM: '' @ dec_signed b @ '' (for inode '' @ dec n @ '')'' @ newline
     @ concat (map (entry_text d (1024 * b)) (entries d b))"

lemma print_for_opt_map: "(\<And>i. i \<in> set is \<Longrightarrow> f i = Some (Ret (g i))) \<Longrightarrow> print_for_opt f is = Some (Ret (concat (map g is)))"
  by (induction "is") auto

lemma concat_if: "concat (map (\<lambda>i. if P i then g i else []) is) = concat (map g (filter P is))"
  by (induction "is") auto

lemma block_text_ok:
  "good_block d b \<Longrightarrow> dump_dir_loop d 0 (EXT2_BLOCK_SIZE * b) [] =
    Some (Ret (concat (map (entry_text d (1024 * b)) (entries d b))))"
  using dump_dir_loop_ok[of d "1024 * b" "entries d b" "1024 * b" "[]"]
  by (simp add: good_block_def entry_block_def EXT2_BLOCK_SIZE_def)

lemma dump_dir_ok:
  assumes "dir_ok d (Suc i)"
  shows "dump_dir d (inode_at (Suc i)) i = Some (Ret (concat (map (block_text d (Suc i)) (dir_blocks d (Suc i)))))"
proof -
  let ?b = "bnum d (inode_at (Suc i))"
  have ds: "inode_at (Suc i) + 128 \<le> DISK_SIZE" using assms by (simp add: dir_ok_def direct_def)
  have good: "good_block d (?b k)" if "k < 12" "?b k \<noteq> 0" for k
    using assms that by (auto simp: dir_ok_def dir_blocks_def inode_blocks_def simp del: upt_rec_numeral)
  have "dump_dir d (inode_at (Suc i)) i =
      Some (Ret (concat (map (\<lambda>k. if ?b k \<noteq> 0 then block_text d (Suc i) (?b k) else []) [0..<12])))"
    unfolding dump_dir_def
  proof (rule print_for_opt_map)
    fix k assume "k \<in> set [0..<12 :: nat]"
    then have k: "k < 12" by simp
    have "rd 4 d (inode_at (Suc i) + i_block + 4 * k) = Ret (?b k)"
      using ds k by (simp add: bnum_def i_block_def add.assoc)
    then show "(case rd 4 d (inode_at (Suc i) + i_block + 4 * k) of
         Ret b \<Rightarrow>
           if b = 0 then Some (Ret [])
           else
             (case dump_dir_loop d 0 (EXT2_BLOCK_SIZE * b) [] of
                None \<Rightarrow> None
              | Some r \<Rightarrow>
                  Some (bind_f r (\<lambda>s. Ret (''   DIR BLOCK NUM: '' @ dec_signed b @ '' (for inode '' @ dec (i + 1)
                    @ '')'' @ newline @ s))))
       | _ \<Rightarrow> Some Fault) = Some (Ret (if ?b k \<noteq> 0 then block_text d (Suc i) (?b k) else []))"
      using good[OF k] by (simp add: block_text_ok block_text_def)
  qed
  then show ?thesis
    by (simp add: concat_if dir_blocks_def inode_blocks_def filter_map comp_def del: upt_rec_numeral)
qed

text \<open>A walk that reaches an entry of length 0 inside the block, after good ones.\<close>

lemma dump_dir_loop_zero:
  assumes "chain d a es z" "s \<le> a" "z < s + 1024" "z + 8 + nlen d z \<le> DISK_SIZE" "rlen d z = 0"
  shows "dump_dir_loop d (a - s) a out = None"
  using assms
proof (induction es arbitrary: a out)
  case Nil
  then show ?case by (auto intro: dump_dir_loop_stuck)
next
  case (Cons e es)
  then have c: "e = a" "8 + nlen d a \<le> rlen d a" "chain d (a + rlen d a) es z" by auto
  have le: "a + rlen d a \<le> z" using chain_le[OF c(3)] .
  have "dump_entry d a (a - s) = Ret (entry_text d s a, rlen d a)"
    by (rule dump_entry_ok) (use c le Cons.prems in auto)
  moreover have "a - s + rlen d a = a + rlen d a - s" using Cons.prems(2) by simp
  moreover have "\<not> EXT2_BLOCK_SIZE \<le> a - s" using le c(2) Cons.prems(3) by (simp add: EXT2_BLOCK_SIZE_def)
  moreover have "dump_dir_loop d (a + rlen d a - s) (a + rlen d a) (out @ entry_text d s a) = None"
    by (rule Cons.IH[OF c(3)]) (use Cons.prems in auto)
  ultimately show ?case by (subst dump_dir_loop.simps) simp
qed

end
