(* ===== verification/Ext2_Dump_Props.thy ===== *)
theory Ext2_Dump_Props
  imports Ext2_Demo Ext2_Dump
begin

text \<open>
  The dump of the directories of an image: it ends and prints every entry on an image that the
  commands keep consistent, and never ends on a block with an entry of length 0.
\<close>

unbundle bit_operations_syntax

section \<open>A consistent image\<close>

definition listed :: "bytes \<Rightarrow> nat \<Rightarrow> bool" where
  "listed d n \<longleftrightarrow> live d n \<and> shown_inode (n - 1) \<and> load_le 2 d (inode_at n) AND EXT2_S_IFDIR \<noteq> 0"

lemma bit_test: "(drop_bit k (x :: u8) AND 1 = 0) \<longleftrightarrow> \<not> bit x k"
  by (simp add: and_one_eq mod_2_eq_odd bit_iff_odd_drop_bit)

lemma dump_dir_of_inode_ok:
  assumes "geometry d" "i < 32" "listed d (Suc i) \<Longrightarrow> dir_ok d (Suc i)"
  shows "dump_dir_of_inode d 4096 5120 i =
    Some (Ret (if listed d (Suc i) then concat (map (block_text d (Suc i)) (dir_blocks d (Suc i))) else []))"
proof -
  have a: "5120 + inode_size * i = inode_at (Suc i)" by (simp add: inode_size_def inode_at_def)
  have "rd_byte d (4096 + i div 8) = Ret (d (4096 + i div 8))" using assms(2) by (simp add: DISK_SIZE_def)
  moreover have "rd 2 d (inode_at (Suc i) + i_mode) = Ret (load_le 2 d (inode_at (Suc i)))"
    using inode_at_bounds[of "Suc i"] assms(2) by (simp add: DISK_SIZE_def i_mode_def)
  moreover have "live d (Suc i) \<longleftrightarrow> bit (d (4096 + i div 8)) (i mod 8)"
    using assms(2) by (simp add: live_def inode_used_def bit_at_def)
  ultimately show ?thesis
    using dump_dir_ok[of d i] assms(3)
    by (auto simp: dump_dir_of_inode_def a bit_test listed_def simp del: load_le.simps)
qed

text \<open>C21: on an image that the commands keep consistent, and whose allocated inodes with a
  directory's mode are directories of the tree, the walk over the directories ends without a
  fault and prints, in the order of the inodes, each of their blocks with the text of every
  entry of it.\<close>

theorem dump_dirs_lists_entries:
  assumes "fs_ok d D" "\<forall>n. listed d n \<longrightarrow> n \<in> D"
  shows "dump_dirs d = Some (Ret (concat (map (\<lambda>n. concat (map (block_text d n) (dir_blocks d n)))
           (filter (listed d) (map Suc [0..<32])))))"
proof -
  note f = fs_okD[OF assms(1)]
  have r: "rd 4 d (super_block + s_inodes_count) = Ret 32" "rd 4 d (group_desc + bg_inode_bitmap) = Ret 4"
    "rd 4 d (group_desc + bg_inode_table) = Ret 5"
    using f(4) by (simp_all add: geometry_def super_block_def group_desc_def ext2_layout)
  have "print_for_opt (dump_dir_of_inode d 4096 5120) [0..<32] = Some (Ret (concat (map (\<lambda>i.
      if listed d (Suc i) then concat (map (block_text d (Suc i)) (dir_blocks d (Suc i))) else []) [0..<32])))"
    by (rule print_for_opt_map) (use dump_dir_of_inode_ok[OF f(4)] f(8) assms(2) in auto)
  then show ?thesis
    by (simp add: dump_dirs_def r unsigned_block_def EXT2_BLOCK_SIZE_def concat_if filter_map comp_def del: upt_rec_numeral)
qed

text \<open>The small image with the mode of the root set.\<close>

definition demo_mode :: bytes where
  "demo_mode = demo(5249 := 64)"

lemma demo_mode_used:
  "0 < b \<Longrightarrow> b < 128 \<Longrightarrow> block_used demo_mode b = (b \<le> 9)"
  "0 < n \<Longrightarrow> n \<le> 32 \<Longrightarrow> inode_used demo_mode n = (n \<le> 12)"
proof -
  have "block_used demo_mode b = block_used demo b" if "b < 128" for b
  proof -
    have "3072 + (b - 1) div 8 \<noteq> 5249" using that by presburger
    then show ?thesis by (simp add: block_used_def bit_at_def demo_mode_def)
  qed
  then show "0 < b \<Longrightarrow> b < 128 \<Longrightarrow> block_used demo_mode b = (b \<le> 9)" using demo_block_used by simp
  have "inode_used demo_mode n = inode_used demo n" if "n \<le> 32" for n
  proof -
    have "4096 + (n - 1) div 8 \<noteq> 5249" using that by presburger
    then show ?thesis by (simp add: inode_used_def bit_at_def demo_mode_def)
  qed
  then show "0 < n \<Longrightarrow> n \<le> 32 \<Longrightarrow> inode_used demo_mode n = (n \<le> 12)" using demo_inode_used by simp
qed

lemma demo_mode_bnum: "0 < k \<Longrightarrow> k \<le> 32 \<Longrightarrow> i \<le> 12 \<Longrightarrow> bnum demo_mode (inode_at k) i = bnum demo (inode_at k) i"
proof -
  assume a: "0 < k" "k \<le> 32" "i \<le> 12"
  obtain q where q: "k = Suc q" using a by (cases k) auto
  have "\<not> (inode_at k + 40 + 4 * i \<le> 5249 \<and> 5249 < inode_at k + 40 + 4 * i + 4)"
    using a(3) q by (simp add: inode_at_def) presburger
  then show ?thesis by (simp add: bnum_def demo_mode_def load_upd_other)
qed

lemma demo_mode_blocks: "0 < k \<Longrightarrow> k \<le> 32 \<Longrightarrow> dir_blocks demo_mode k = (if k = 2 then [9] else [])"
proof -
  assume k: "0 < k" "k \<le> 32"
  have "dir_blocks demo_mode k = dir_blocks demo k"
    unfolding dir_blocks_def inode_blocks_def
    using demo_mode_bnum[OF k] by (intro arg_cong[where f = "filter _"] map_cong) auto
  then show ?thesis using demo_blocks[OF k] by simp
qed

lemma demo_mode_direct: "0 < k \<Longrightarrow> k \<le> 32 \<Longrightarrow> direct demo_mode (inode_at k)"
  using demo_direct[of k] demo_mode_bnum[of k 12] by (simp add: direct_def)

lemma demo_mode_block: "good_block demo_mode 9" "entries demo_mode 9 = entries demo 9"
    "block_list demo_mode (entries demo 9) = block_list demo (entries demo 9)"
  using good_block_agree[OF agree_upd[of 5249 "block_bytes 9" demo 64] demo_good]
  by (simp_all add: demo_mode_def block_bytes_def)

lemma demo_mode_list: "dir_list demo_mode 2 = [(''.'', 2, 2), (''..'', 2, 2), (''f'', 12, 1)]"
  using demo_list by (simp add: dir_list_def demo_mode_blocks demo_blocks demo_mode_block)

lemma demo_mode_live: "live demo_mode n \<longleftrightarrow> 0 < n \<and> n \<le> 12"
  using demo_mode_used(2)[of n] by (auto simp: live_def)

lemma demo_mode_ok: "fs_ok demo_mode {2}"
proof -
  have "owns_ok demo_mode"
    by (auto simp: owns_ok_def owns_def demo_mode_live demo_mode_blocks demo_mode_used(1))
  moreover have "dir_ok demo_mode 2"
    by (simp add: dir_ok_def demo_mode_direct demo_mode_blocks demo_mode_block(1))
  then have "names_ok demo_mode {2} 2"
    by (simp add: names_ok_def demo_mode_list names_live_def demo_mode_live EXT2_FT_DIR_def)
  moreover have g: "geometry demo_mode"
    using geometry_agree[OF agree_upd[of 5249 geo_bytes demo 64]] demo_geometry
    by (simp add: demo_mode_def geo_bytes_def)
  moreover have "alloc_ok demo_mode"
  proof -
    have "free_from demo_mode 23 = free_from demo 23"
      unfolding free_from_def using demo_mode_used(1) demo_block_used
      by (intro filter_cong refl) (simp del: upt_rec_numeral)
    moreover have "free_inodes_from demo_mode 12 = free_inodes_from demo 12"
      by (rule free_inodes_from_cong) (use demo_mode_used(2) demo_inode_used in simp)
    moreover have "free_blocks demo_mode = 50" "free_inodes demo_mode = 10"
      using demo_counts by (simp_all add: free_blocks_def free_inodes_def demo_mode_def load_upd_other)
    ultimately show ?thesis
      using demo_alloc_ok g demo_mode_direct by (simp add: alloc_ok_def demo_counts)
  qed
  ultimately show ?thesis by (simp add: fs_ok_alt demo_mode_live)
qed

lemma demo_mode_listed: "listed demo_mode n \<longleftrightarrow> n = 2"
proof -
  have "n = 2 \<or> n = 12" if "0 < n" "n \<le> 12" "n - 1 = 1 \<or> 11 \<le> n - 1" using that by linarith
  moreover have "load_le 2 demo_mode (inode_at 2) = 16384" "load_le 2 demo_mode (inode_at 12) = 0"
    by (simp_all add: load_2 demo_mode_def inode_at_def demo_def)
  ultimately show ?thesis
    by (auto simp: listed_def demo_mode_live shown_inode_def EXT2_GOOD_OLD_FIRST_INO_def EXT2_S_IFDIR_def)
qed

lemma dump_dirs_lists_entries_witness:
  "dump_dirs demo_mode = Some (Ret (block_text demo_mode 2 9)) \<and> entries demo_mode 9 = [9216, 9228, 9240]"
proof -
  have "filter (listed demo_mode) (map Suc [0..<32]) = [2]"
  proof -
    have "map Suc [0..<32] = [Suc 0] @ [2] @ map Suc [2..<32]"
      by (simp del: upt_rec_numeral add: upt_conv_Cons numeral_2_eq_2)
    moreover have "filter (\<lambda>n. n = 2) (map Suc [2..<32]) = []" by (auto simp: filter_empty_conv)
    moreover have "listed demo_mode = (\<lambda>n. n = 2)" using demo_mode_listed by blast
    ultimately show ?thesis by (simp del: upt_rec_numeral)
  qed
  then show ?thesis
    using dump_dirs_lists_entries[OF demo_mode_ok] demo_mode_listed
    by (simp add: demo_mode_blocks demo_mode_block demo_entries del: upt_rec_numeral)
qed

section \<open>An entry of length 0\<close>

text \<open>C39: the walk over a directory block never ends when it comes to an entry of length 0 before
  the end of the block, whatever good entries stand before it.\<close>

theorem dump_loops_on_zero_length:
  assumes "chain d (1024 * b) es z" "z < 1024 * b + 1024" "z + 8 + nlen d z \<le> DISK_SIZE" "rlen d z = 0"
  shows "dump_dir_loop d 0 (EXT2_BLOCK_SIZE * b) out = None"
  using dump_dir_loop_zero[OF assms(1) le_refl assms(2-4), of out] by (simp add: EXT2_BLOCK_SIZE_def)

lemma dump_loops_on_zero_length_witness:
  "dump_dir_loop (demo(9244 := 0, 9245 := 0)) 0 (EXT2_BLOCK_SIZE * 9) [] = None"
proof (rule dump_loops_on_zero_length)
  let ?d = "demo(9244 := 0, 9245 := 0)"
  have u: "rlen ?d e = rlen demo e" "nlen ?d e = nlen demo e" if "e + 8 \<le> 9244" for e
    using that by (simp_all add: rlen_def nlen_def load_upd_other ext2_layout del: load_le.simps)
  show "chain ?d (1024 * 9) [9216, 9228] 9240"
    by (simp add: u demo_entries_fields)
  show "9240 < 1024 * 9 + (1024 :: nat)" by simp
  show "rlen ?d 9240 = 0" by (simp add: rlen_def rec_len_def load_2)
  have "nlen ?d 9240 = 1" by (simp add: nlen_def name_len_def demo_def)
  then show "9240 + 8 + nlen ?d 9240 \<le> DISK_SIZE" by (simp add: DISK_SIZE_def)
qed

end
