(* ===== verification/Tester.thy ===== *)
theory Tester
  imports Interceptor_Life Printing "HOL-Library.Sublist"
begin

text \<open>
  The user-space programs \<^verbatim>\<open>test_full.c\<close> and \<^verbatim>\<open>test_intercept.c\<close> of
  \<^verbatim>\<open>a1/starter_code/starter_code\<close>, which load the module, exercise its command and
  print whether each answer is the expected one. They run against the model of the module: a
  system call goes through the system call table, a process that ends goes through the exit call.

  Of the processes that run beside the tester, those of \<open>do_as_guest\<close> are modelled (the shell it
  starts and the guest's program); the helpers of \<open>system\<close> and \<open>popen\<close> only load and unload the
  module and read the log. \<open>long\<close> has 32 bits.
\<close>

section \<open>The machine\<close>

text \<open>
  What the operating system and the C library decide: the numbers of the calls, the pids of the
  \<open>n\<close>-th shell and of the program in it, the user \<open>nobody\<close>, the values of \<open>rand\<close>, what the
  original functions of the system call table return, and whether \<open>kmalloc\<close> succeeds.
\<close>

record machine =
  kern :: kernel
  nr_exit :: int
  sys_open :: int
  nobody :: nat
  child_pid :: "nat \<Rightarrow> int"
  guest_pid :: "nat \<Rightarrow> int"
  rand_value :: "nat \<Rightarrow> int"
  returns :: "handler \<Rightarrow> int list \<Rightarrow> int"
  memory_left :: bool

text \<open>The state of the running tester: the module, the processes with their users, the process itself.\<close>

record tester =
  kstate :: kmod
  procs :: "int \<Rightarrow> nat option"
  forks :: nat
  draws :: nat
  screen :: string
  getpid :: int
  getuid :: nat
  errno :: int
  last_child :: int

definition ENOSYS :: int where "ENOSYS = 38"

definition the_caller :: "machine \<Rightarrow> tester \<Rightarrow> caller" where
  "the_caller m w =
     \<lparr>current_pid = getpid w, current_uid = getuid w, proc_uid = procs w, kmalloc_ok = memory_left m\<rparr>"

definition regs_of :: "nat \<Rightarrow> int list \<Rightarrow> pt_regs" where
  "regs_of n args =
     (let a = (\<lambda>i. if i < length args then word_of_int (args ! i) else 0) in
      \<lparr>ax = word_of_nat n, bx = a 0, cx = a 1, dx = a 2, si = a 3, di = a 4, bp = a 5\<rparr>)"

definition run_handler :: "machine \<Rightarrow> handler \<Rightarrow> int list \<Rightarrow> tester \<Rightarrow> (int \<times> tester) outcome" where
  "run_handler m h args w =
     (case h of
        Kernel i \<Rightarrow> Ok (returns m h args, w)
      | My_syscall \<Rightarrow>
          (case args of
             cmd # sysc # pid # _ \<Rightarrow>
               bind_o (my_syscall (kern m) (the_caller m w) cmd sysc pid (kstate w)) (\<lambda>(r, s).
               Ok (r, w\<lparr>kstate := s\<rparr>))
           | _ \<Rightarrow> Undef)
      | My_exit_group \<Rightarrow>
          bind_o (my_exit_group (kern m) (the_caller m w) (kstate w)) (\<lambda>(h, s). Ok (0, w\<lparr>kstate := s\<rparr>))
      | Interceptor \<Rightarrow> Undef)"

definition system_call :: "machine \<Rightarrow> int \<Rightarrow> int list \<Rightarrow> tester \<Rightarrow> (int \<times> tester) outcome" where
  "system_call m sno args w =
     (if sno < 0 \<or> int (NR_syscalls (kern m)) < sno then Ok (- ENOSYS, w)
      else
        let h = sys_call_table (kstate w) (nat sno) in
        if h = Interceptor then
          bind_o (interceptor (kern m) (the_caller m w) (regs_of (nat sno) args) (kstate w)) (\<lambda>((h, _), s).
          run_handler m h args (w\<lparr>kstate := s\<rparr>))
        else run_handler m h args w)"

text \<open>\<open>syscall\<close> of the C library turns an error into \<open>-1\<close> and \<open>errno\<close>.\<close>

definition libc_syscall :: "machine \<Rightarrow> int \<Rightarrow> int list \<Rightarrow> tester \<Rightarrow> (int \<times> tester) outcome" where
  "libc_syscall m sno args w =
     bind_o (system_call m sno args w) (\<lambda>(r, w).
     Ok (if - 4095 \<le> r \<and> r < 0 then (- 1, w\<lparr>errno := - r\<rparr>) else (r, w)))"

definition process_exit :: "machine \<Rightarrow> int \<Rightarrow> tester \<Rightarrow> tester outcome" where
  "process_exit m p w =
     bind_o (system_call m (int (NR_exit_group (kern m))) [0] (w\<lparr>getpid := p\<rparr>)) (\<lambda>(_, w).
     Ok (w\<lparr>procs := (procs w)(p := None)\<rparr>))"

definition insmod :: "machine \<Rightarrow> tester \<Rightarrow> (bool \<times> tester) outcome" where
  "insmod m w = bind_o (init_function (kern m) (kstate w)) (\<lambda>(r, s). Ok (r = 0, w\<lparr>kstate := s\<rparr>))"

definition rmmod :: "machine \<Rightarrow> tester \<Rightarrow> (bool \<times> tester) outcome" where
  "rmmod m w = bind_o (exit_function (kern m) (kstate w)) (\<lambda>s. Ok (True, w\<lparr>kstate := s\<rparr>))"

section \<open>The functions of the testers\<close>

definition vsyscall_arg :: "machine \<Rightarrow> int \<Rightarrow> int \<Rightarrow> int \<Rightarrow> int \<Rightarrow> tester \<Rightarrow> (int \<times> tester) outcome" where
  "vsyscall_arg m sno a b c w =
     bind_o (libc_syscall m sno [a, b, c] w) (\<lambda>(ret, w). Ok (if ret \<noteq> 0 then - errno w else ret, w))"

definition say :: "string \<Rightarrow> tester \<Rightarrow> tester" where
  "say s w = w\<lparr>screen := screen w @ s\<rparr>"

text \<open>
  The macro \<open>test\<close>; the difference that bounds its loop is unsigned, so more than 60 characters
  would make the loop run over the range of its counter.
\<close>

definition test_that :: "string \<Rightarrow> (tester \<Rightarrow> (bool \<times> tester) outcome) \<Rightarrow> tester \<Rightarrow> tester outcome" where
  "test_that dummy t w =
     (if 60 < length dummy then Undef
      else
        bind_o (t (say (''test: '' @ dummy @ replicate (60 - length dummy) CHR ''.'') w)) (\<lambda>(passed, w).
        Ok (say ((if passed then ''passed'' else ''failed'') @ newline) w)))"

definition answers :: "machine \<Rightarrow> int \<Rightarrow> int \<Rightarrow> int \<Rightarrow> int \<Rightarrow> tester \<Rightarrow> (bool \<times> tester) outcome" where
  "answers m cmd sysc pid status w =
     bind_o (vsyscall_arg m (int MY_CUSTOM_SYSCALL) cmd sysc pid w) (\<lambda>(r, w). Ok (r = status, w))"

definition do_intercept :: "machine \<Rightarrow> int \<Rightarrow> int \<Rightarrow> tester \<Rightarrow> tester outcome" where
  "do_intercept m sysc status w =
     test_that (sprintf_d ''%d intercept'' [sysc]) (answers m REQUEST_SYSCALL_INTERCEPT sysc (getpid w) status) w"

definition do_release :: "machine \<Rightarrow> int \<Rightarrow> int \<Rightarrow> tester \<Rightarrow> tester outcome" where
  "do_release m sysc status w =
     test_that (sprintf_d ''%d release'' [sysc]) (answers m REQUEST_SYSCALL_RELEASE sysc (getpid w) status) w"

definition do_start :: "machine \<Rightarrow> int \<Rightarrow> int \<Rightarrow> int \<Rightarrow> tester \<Rightarrow> tester outcome" where
  "do_start m sysc pid status w =
     (let pid = (if pid = - 1 then getpid w else pid) in
      test_that (sprintf_d ''%d start'' [sysc]) (answers m REQUEST_START_MONITORING sysc pid status) w)"

definition do_stop :: "machine \<Rightarrow> int \<Rightarrow> int \<Rightarrow> int \<Rightarrow> tester \<Rightarrow> tester outcome" where
  "do_stop m sysc pid status w =
     test_that (sprintf_d ''%d stop'' [sysc]) (answers m REQUEST_STOP_MONITORING sysc pid status) w"

text \<open>The line of a logged call, and the search for it in what \<open>dmesg\<close> shows.\<close>

definition log_line :: "int \<Rightarrow> int \<Rightarrow> int list \<Rightarrow> string" where
  "log_line pid sno args =
     ''['' @ hex_long pid @ '']'' @ hex_long sno @ ''('' @
     concat (map (\<lambda>a. hex_long a @ '','') (butlast args)) @ hex_long (last args) @ '')''"

fun log_text :: "log_entry \<Rightarrow> string" where
  "log_text (Log pid sno args) = log_line pid (uint sno) (map uint args) @ newline"

definition find_log :: "int \<Rightarrow> int list \<Rightarrow> tester \<Rightarrow> bool" where
  "find_log sno args w = list_ex (\<lambda>e. sublist (log_line (getpid w) sno args) (log_text e)) (klog (kstate w))"

definition do_monitor :: "machine \<Rightarrow> int \<Rightarrow> tester \<Rightarrow> tester outcome" where
  "do_monitor m sysno w =
     (let args = map (\<lambda>i. rand_value m (draws w + i)) [0..<6] in
      bind_o (libc_syscall m sysno args (w\<lparr>draws := draws w + 6\<rparr>)) (\<lambda>(ret, w).
      test_that (sprintf_d ''%d nonroot monitor'' [sysno]) (\<lambda>w. Ok (find_log sysno args w, w)) w))"

text \<open>Statements one after the other.\<close>

fun run_all :: "(tester \<Rightarrow> tester outcome) list \<Rightarrow> tester \<Rightarrow> tester outcome" where
  "run_all [] w = Ok w"
| "run_all (f # fs) w = bind_o (f w) (run_all fs)"

text \<open>
  \<open>do_as_guest\<close>: a shell that runs the program \<open>prog\<close> as the user \<open>nobody\<close>. Both processes have
  ended when the tester goes on.
\<close>

definition do_as_guest ::
  "(string list \<Rightarrow> tester \<Rightarrow> tester outcome) \<Rightarrow> machine \<Rightarrow> string \<Rightarrow> int \<Rightarrow> int \<Rightarrow> tester \<Rightarrow> tester outcome" where
  "do_as_guest prog m str args1 args2 w =
     (let p = child_pid m (forks w); g = guest_pid m (forks w);
          guest = w\<lparr>forks := forks w + 1, procs := (procs w)(p \<mapsto> getuid w, g \<mapsto> nobody m),
                    getpid := g, getuid := nobody m, errno := 0, last_child := 0\<rparr> in
      bind_o (prog (shell_words (sprintf_d str [args1, args2])) guest) (\<lambda>v.
      bind_o (process_exit m g v) (\<lambda>v.
      bind_o (process_exit m p v) (\<lambda>v.
      Ok (v\<lparr>getpid := getpid w, getuid := getuid w, errno := errno w, last_child := p\<rparr>)))))"

text \<open>\<open>atoi(argv[i])\<close>\<close>

definition num_arg :: "string list \<Rightarrow> nat \<Rightarrow> int outcome" where
  "num_arg argv i = (if i < length argv then Ok (atoi (argv ! i)) else Undef)"

section \<open>\<open>test_full.c\<close>\<close>

definition do_nonroot :: "machine \<Rightarrow> int \<Rightarrow> tester \<Rightarrow> tester outcome" where
  "do_nonroot m sysc =
     run_all [
       do_intercept m sysc (- EPERM),
       do_release m sysc (- EPERM),
       do_start m sysc 0 (- EPERM),
       do_stop m sysc 0 (- EPERM),
       do_start m sysc 1 (- EPERM),
       do_stop m sysc 1 (- EPERM),
       (\<lambda>w. do_start m sysc (getpid w) 0 w),
       (\<lambda>w. do_start m sysc (getpid w) (- EBUSY) w),
       do_monitor m sysc,
       (\<lambda>w. do_stop m sysc (getpid w) 0 w),
       (\<lambda>w. do_stop m sysc (getpid w) (- EINVAL) w)]"

definition test_syscall ::
  "(string list \<Rightarrow> tester \<Rightarrow> tester outcome) \<Rightarrow> machine \<Rightarrow> int \<Rightarrow> tester \<Rightarrow> tester outcome" where
  "test_syscall prog m sysc =
     run_all [
       do_intercept m sysc 0,
       do_intercept m sysc (- EBUSY),
       do_as_guest prog m ''./test_full nonroot %d'' sysc 0,
       do_start m sysc (- 2) (- EINVAL),
       do_start m sysc 0 0,
       do_stop m sysc 0 0,
       do_start m sysc 1 0,
       do_as_guest prog m ''./test_full stop %d 1 %d'' sysc (- EPERM),
       do_stop m sysc 1 0,
       do_as_guest prog m ''./test_full start %d -1 %d'' sysc 0,
       (\<lambda>w. do_stop m sysc (last_child w) (- EINVAL) w),
       do_release m sysc 0]"

text \<open>The modes of \<open>main\<close>, \<open>None\<close> when it runs the whole test.\<close>

definition full_mode :: "machine \<Rightarrow> string list \<Rightarrow> (tester \<Rightarrow> tester outcome) option" where
  "full_mode m argv =
     (if length argv \<le> 1 then None
      else if argv ! 1 = ''intercept'' then
        Some (\<lambda>w. bind_o (num_arg argv 2) (\<lambda>s. bind_o (num_arg argv 3) (\<lambda>r. do_intercept m s r w)))
      else if argv ! 1 = ''release'' then
        Some (\<lambda>w. bind_o (num_arg argv 2) (\<lambda>s. bind_o (num_arg argv 3) (\<lambda>r. do_release m s r w)))
      else if argv ! 1 = ''start'' then
        Some (\<lambda>w. bind_o (num_arg argv 2) (\<lambda>s. bind_o (num_arg argv 3) (\<lambda>p. bind_o (num_arg argv 4) (\<lambda>r.
          do_start m s p r w))))
      else if argv ! 1 = ''stop'' then
        Some (\<lambda>w. bind_o (num_arg argv 2) (\<lambda>s. bind_o (num_arg argv 3) (\<lambda>p. bind_o (num_arg argv 4) (\<lambda>r.
          do_stop m s p r w))))
      else if argv ! 1 = ''monitor'' then Some (\<lambda>w. bind_o (num_arg argv 2) (\<lambda>s. do_monitor m s w))
      else if argv ! 1 = ''nonroot'' then Some (\<lambda>w. bind_o (num_arg argv 2) (\<lambda>s. do_nonroot m s w))
      else None)"

definition full_tests ::
  "(string list \<Rightarrow> tester \<Rightarrow> tester outcome) \<Rightarrow> machine \<Rightarrow> tester \<Rightarrow> tester outcome" where
  "full_tests prog m =
     run_all [
       test_that ''insmod interceptor.ko '' (insmod m),
       test_that ''bad MY_SYSCALL args'' (answers m 100 0 0 (- EINVAL)),
       do_intercept m (int MY_CUSTOM_SYSCALL) (- EINVAL),
       do_release m (int MY_CUSTOM_SYSCALL) (- EINVAL),
       do_intercept m (- 1) (- EINVAL),
       do_release m (- 1) (- EINVAL),
       do_intercept m (nr_exit m) 0,
       do_release m (nr_exit m) 0,
       test_syscall prog m (sys_open m),
       test_that ''rmmod interceptor.ko '' (rmmod m)]"

text \<open>The program; \<open>fuel\<close> bounds how deep it may start itself.\<close>

fun test_full :: "nat \<Rightarrow> machine \<Rightarrow> string list \<Rightarrow> tester \<Rightarrow> tester outcome" where
  "test_full 0 m argv w = Hang"
| "test_full (Suc fuel) m argv w =
     (case full_mode m argv of Some run \<Rightarrow> run w | None \<Rightarrow> full_tests (test_full fuel m) m w)"

section \<open>\<open>test_intercept.c\<close>\<close>

text \<open>The functions it shares with \<^verbatim>\<open>test_full.c\<close> have the same text.\<close>

definition intercept_nonroot :: "machine \<Rightarrow> int \<Rightarrow> tester \<Rightarrow> tester outcome" where
  "intercept_nonroot m sysc = run_all [do_intercept m sysc (- EPERM), do_release m sysc (- EPERM)]"

definition intercept_test_syscall ::
  "(string list \<Rightarrow> tester \<Rightarrow> tester outcome) \<Rightarrow> machine \<Rightarrow> int \<Rightarrow> tester \<Rightarrow> tester outcome" where
  "intercept_test_syscall prog m sysc =
     run_all [
       do_intercept m sysc 0,
       do_intercept m sysc (- EBUSY),
       do_as_guest prog m ''./test_intercept nonroot %d'' sysc 0,
       do_release m sysc 0]"

definition intercept_mode :: "machine \<Rightarrow> string list \<Rightarrow> (tester \<Rightarrow> tester outcome) option" where
  "intercept_mode m argv =
     (if length argv \<le> 1 then None
      else if argv ! 1 = ''intercept'' then
        Some (\<lambda>w. bind_o (num_arg argv 2) (\<lambda>s. bind_o (num_arg argv 3) (\<lambda>r. do_intercept m s r w)))
      else if argv ! 1 = ''release'' then
        Some (\<lambda>w. bind_o (num_arg argv 2) (\<lambda>s. bind_o (num_arg argv 3) (\<lambda>r. do_release m s r w)))
      else if argv ! 1 = ''nonroot'' then Some (\<lambda>w. bind_o (num_arg argv 2) (\<lambda>s. intercept_nonroot m s w))
      else None)"

definition intercept_tests ::
  "(string list \<Rightarrow> tester \<Rightarrow> tester outcome) \<Rightarrow> machine \<Rightarrow> tester \<Rightarrow> tester outcome" where
  "intercept_tests prog m =
     run_all [
       test_that ''insmod interceptor.ko '' (insmod m),
       test_that ''bad MY_CUSTOM_SYSCALL args'' (answers m 100 0 0 (- EINVAL)),
       do_intercept m (int MY_CUSTOM_SYSCALL) (- EINVAL),
       do_release m (int MY_CUSTOM_SYSCALL) (- EINVAL),
       do_intercept m (- 1) (- EINVAL),
       do_release m (- 1) (- EINVAL),
       do_intercept m (nr_exit m) 0,
       do_release m (nr_exit m) 0,
       intercept_test_syscall prog m (sys_open m),
       test_that ''rmmod interceptor.ko '' (rmmod m)]"

fun test_intercept :: "nat \<Rightarrow> machine \<Rightarrow> string list \<Rightarrow> tester \<Rightarrow> tester outcome" where
  "test_intercept 0 m argv w = Hang"
| "test_intercept (Suc fuel) m argv w =
     (case intercept_mode m argv of Some run \<Rightarrow> run w | None \<Rightarrow> intercept_tests (test_intercept fuel m) m w)"

end
