(* ===== verification/Tester_Ok.thy ===== *)
theory Tester_Ok
  imports Tester
begin

text \<open>
  What the testers do on a loaded module. \<open>at\<close> says which process runs on which abstract state
  of the module; \<open>passes\<close> is a Hoare triple for a statement of a tester: from such a state it
  returns to one, having printed that the named tests passed.
\<close>

section \<open>States and statements\<close>

definition machine_ok :: "machine \<Rightarrow> bool" where
  "machine_ok m \<longleftrightarrow> kernel_ok (kern m) \<and> NR_syscalls (kern m) < 2 ^ 31 \<and> memory_left m"

definition at ::
  "machine \<Rightarrow> (nat \<Rightarrow> handler) \<Rightarrow> (int \<Rightarrow> nat option) \<Rightarrow> int \<Rightarrow> nat \<Rightarrow> monitor \<Rightarrow> tester \<Rightarrow> bool" where
  "at m orig P p u A w \<longleftrightarrow> machine_ok m \<and>
     mod_inv (kern m) orig (kstate w) \<and> abs_mod (kern m) (kstate w) = A \<and> MY_CUSTOM_SYSCALL \<notin> fst A \<and>
     procs w = P \<and> getpid w = p \<and> getuid w = u \<and> 0 < p \<and> P p = Some u"

definition who :: "machine \<Rightarrow> (int \<Rightarrow> nat option) \<Rightarrow> int \<Rightarrow> nat \<Rightarrow> caller" where
  "who m P p u = \<lparr>current_pid = p, current_uid = u, proc_uid = P, kmalloc_ok = memory_left m\<rparr>"

definition passed :: "string \<Rightarrow> string" where
  "passed d = ''test: '' @ d @ replicate (60 - length d) CHR ''.'' @ ''passed'' @ newline"

definition passes ::
  "machine \<Rightarrow> (nat \<Rightarrow> handler) \<Rightarrow> (int \<Rightarrow> nat option) \<Rightarrow> int \<Rightarrow> nat \<Rightarrow>
   (tester \<Rightarrow> tester outcome) \<Rightarrow> monitor \<Rightarrow> string list \<Rightarrow> monitor \<Rightarrow> bool" where
  "passes m orig P p u f A ns A' \<longleftrightarrow>
     (\<forall>w. at m orig P p u A w \<longrightarrow>
        (\<exists>w'. f w = Ok w' \<and> at m orig P p u A' w' \<and> screen w' = screen w @ concat (map passed ns)))"

lemma passes_Nil: "passes m orig P p u (run_all []) A [] A"
  by (simp add: passes_def)

lemma passes_Cons:
  assumes "passes m orig P p u f A ns B" "passes m orig P p u (run_all fs) B ns' C"
  shows "passes m orig P p u (run_all (f # fs)) A (ns @ ns') C"
  unfolding passes_def
proof (intro allI impI)
  fix w assume "at m orig P p u A w"
  then obtain v where v: "f w = Ok v" "at m orig P p u B v" "screen v = screen w @ concat (map passed ns)"
    using assms(1) by (auto simp: passes_def)
  then obtain x where "run_all fs v = Ok x" "at m orig P p u C x" "screen x = screen v @ concat (map passed ns')"
    using assms(2) by (auto simp: passes_def)
  then show "\<exists>w'. run_all (f # fs) w = Ok w' \<and> at m orig P p u C w' \<and>
      screen w' = screen w @ concat (map passed (ns @ ns'))" using v by simp
qed

lemma passes_self: "passes m orig P p u (f p) A ns B \<Longrightarrow> passes m orig P p u (\<lambda>w. f (getpid w) w) A ns B"
  by (auto simp: passes_def at_def)

section \<open>A test of one answer\<close>

lemma answers_ok:
  assumes "at m orig P p u A w"
    and "spec_syscall (kern m) (who m P p u) cmd sysc pid A = (status, A')"
    and "- 4095 \<le> status" "status \<le> 0" "MY_CUSTOM_SYSCALL \<notin> fst A'"
  shows "\<exists>w'. answers m cmd sysc pid status w = Ok (True, w') \<and> at m orig P p u A' w' \<and> screen w' = screen w"
proof -
  let ?c = "who m P p u"
  note a = assms(1)[unfolded at_def]
  have c: "the_caller m w = ?c" using a by (simp add: the_caller_def who_def)
  have "caller_ok ?c" using a by (simp add: caller_ok_def who_def)
  then obtain s where s: "my_syscall (kern m) ?c cmd sysc pid (kstate w) = Ok (status, s)"
    "mod_inv (kern m) orig s" "abs_mod (kern m) s = A'"
    using my_syscall_spec[of "kern m" orig "kstate w" ?c cmd sysc pid] a assms(2) by auto
  have r: "row_ok (kern m) orig (kstate w) MY_CUSTOM_SYSCALL" "intercepted (table (kstate w) MY_CUSTOM_SYSCALL) = 0"
    using a by (auto simp: mod_inv_def mod_core_def abs_mod_def MY_CUSTOM_SYSCALL_def)
  have "sys_call_table (kstate w) MY_CUSTOM_SYSCALL = My_syscall"
    using r a by (simp add: row_ok_def base_call_def machine_ok_def kernel_ok_def MY_CUSTOM_SYSCALL_def)
  then have "system_call m (int MY_CUSTOM_SYSCALL) [cmd, sysc, pid] w = Ok (status, w\<lparr>kstate := s\<rparr>)"
    using s(1) by (simp add: system_call_def run_handler_def c MY_CUSTOM_SYSCALL_def)
  then show ?thesis
    using a s assms(3-5) by (auto simp: answers_def vsyscall_arg_def libc_syscall_def at_def)
qed

lemma at_say [simp]: "at m orig P p u A (say s w) = at m orig P p u A w"
  by (simp add: at_def say_def)

lemma screen_say [simp]: "screen (say s w) = screen w @ s"
  by (simp add: say_def)

lemma passes_test:
  assumes "length d \<le> 60"
    and "\<And>w. at m orig P p u A w \<Longrightarrow> \<exists>w'. t w = Ok (True, w') \<and> at m orig P p u A' w' \<and> screen w' = screen w"
  shows "passes m orig P p u (test_that d t) A [d] A'"
  unfolding passes_def
proof (intro allI impI)
  fix w assume "at m orig P p u A w"
  then obtain v where "t (say (''test: '' @ d @ replicate (60 - length d) CHR ''.'') w) = Ok (True, v)"
    "at m orig P p u A' v" "screen v = screen w @ ''test: '' @ d @ replicate (60 - length d) CHR ''.''"
    using assms(2)[of "say (''test: '' @ d @ replicate (60 - length d) CHR ''.'') w"] by auto
  then show "\<exists>w'. test_that d t w = Ok w' \<and> at m orig P p u A' w' \<and>
      screen w' = screen w @ concat (map passed [d])"
    using assms(1) by (simp add: test_that_def passed_def)
qed

lemma passes_answers:
  assumes "length d \<le> 60"
    and "spec_syscall (kern m) (who m P p u) cmd sysc pid A = (status, A')"
    and "- 4095 \<le> status" "status \<le> 0" "MY_CUSTOM_SYSCALL \<notin> fst A'"
  shows "passes m orig P p u (test_that d (answers m cmd sysc pid status)) A [d] A'"
  by (rule passes_test[OF assms(1)]) (rule answers_ok[OF _ assms(2-5)])

section \<open>The commands\<close>

lemma do_passes:
  assumes "\<bar>sysc\<bar> < 10 ^ 10" "- 4095 \<le> status" "status \<le> 0" "MY_CUSTOM_SYSCALL \<notin> fst A'"
  shows "spec_syscall (kern m) (who m P p u) REQUEST_SYSCALL_INTERCEPT sysc p A = (status, A') \<Longrightarrow>
      passes m orig P p u (do_intercept m sysc status) A [dec_int sysc @ '' intercept''] A'"
    and "spec_syscall (kern m) (who m P p u) REQUEST_SYSCALL_RELEASE sysc p A = (status, A') \<Longrightarrow>
      passes m orig P p u (do_release m sysc status) A [dec_int sysc @ '' release''] A'"
    and "pid \<noteq> - 1 \<Longrightarrow> spec_syscall (kern m) (who m P p u) REQUEST_START_MONITORING sysc pid A = (status, A') \<Longrightarrow>
      passes m orig P p u (do_start m sysc pid status) A [dec_int sysc @ '' start''] A'"
    and "spec_syscall (kern m) (who m P p u) REQUEST_START_MONITORING sysc p A = (status, A') \<Longrightarrow>
      passes m orig P p u (do_start m sysc (- 1) status) A [dec_int sysc @ '' start''] A'"
    and "spec_syscall (kern m) (who m P p u) REQUEST_STOP_MONITORING sysc pid A = (status, A') \<Longrightarrow>
      passes m orig P p u (do_stop m sysc pid status) A [dec_int sysc @ '' stop''] A'"
proof -
  have l: "length (dec_int sysc @ '' intercept'') \<le> 60" "length (dec_int sysc @ '' release'') \<le> 60"
    "length (dec_int sysc @ '' start'') \<le> 60" "length (dec_int sysc @ '' stop'') \<le> 60"
    using length_dec_int[OF assms(1)] by simp_all
  have s: "sprintf_d ''%d intercept'' [sysc] = dec_int sysc @ '' intercept''"
    "sprintf_d ''%d release'' [sysc] = dec_int sysc @ '' release''"
    "sprintf_d ''%d start'' [sysc] = dec_int sysc @ '' start''"
    "sprintf_d ''%d stop'' [sysc] = dec_int sysc @ '' stop''" by simp_all
  note pa = passes_answers[where p = p and u = u and P = P and m = m and sysc = sysc and A = A and A' = A'
      and status = status and orig = orig, OF _ _ assms(2-4)]
  show "spec_syscall (kern m) (who m P p u) REQUEST_SYSCALL_INTERCEPT sysc p A = (status, A') \<Longrightarrow>
      passes m orig P p u (do_intercept m sysc status) A [dec_int sysc @ '' intercept''] A'"
    unfolding do_intercept_def s
    by (rule passes_self[where f = "\<lambda>p. test_that (dec_int sysc @ '' intercept'') (answers m _ sysc p status)"])
      (rule pa[OF l(1)])
  show "spec_syscall (kern m) (who m P p u) REQUEST_SYSCALL_RELEASE sysc p A = (status, A') \<Longrightarrow>
      passes m orig P p u (do_release m sysc status) A [dec_int sysc @ '' release''] A'"
    unfolding do_release_def s
    by (rule passes_self[where f = "\<lambda>p. test_that (dec_int sysc @ '' release'') (answers m _ sysc p status)"])
      (rule pa[OF l(2)])
  show "passes m orig P p u (do_start m sysc pid status) A [dec_int sysc @ '' start''] A'"
    if "pid \<noteq> - 1" "spec_syscall (kern m) (who m P p u) REQUEST_START_MONITORING sysc pid A = (status, A')"
  proof -
    have "do_start m sysc pid status =
        test_that (dec_int sysc @ '' start'') (answers m REQUEST_START_MONITORING sysc pid status)"
      using that(1) by (simp add: do_start_def s fun_eq_iff Let_def)
    then show ?thesis using pa[OF l(3)] that(2) by simp
  qed
  show "passes m orig P p u (do_start m sysc (- 1) status) A [dec_int sysc @ '' start''] A'"
    if "spec_syscall (kern m) (who m P p u) REQUEST_START_MONITORING sysc p A = (status, A')"
  proof -
    have "do_start m sysc (- 1) status = (\<lambda>w. (\<lambda>p. test_that (dec_int sysc @ '' start'')
        (answers m REQUEST_START_MONITORING sysc p status)) (getpid w) w)"
      by (simp add: do_start_def s fun_eq_iff Let_def)
    then show ?thesis
      using passes_self[where f = "\<lambda>p. test_that (dec_int sysc @ '' start'') (answers m REQUEST_START_MONITORING sysc p status)"]
        pa[OF l(3)] that by simp
  qed
  show "spec_syscall (kern m) (who m P p u) REQUEST_STOP_MONITORING sysc pid A = (status, A') \<Longrightarrow>
      passes m orig P p u (do_stop m sysc pid status) A [dec_int sysc @ '' stop''] A'"
    unfolding do_stop_def s by (rule pa[OF l(4)])
qed

text \<open>Only the call \<open>n\<close> is monitored, for the pids in \<open>S\<close>.\<close>

definition mon :: "nat \<Rightarrow> int set \<Rightarrow> nat \<Rightarrow> int set" where
  "mon n S = (\<lambda>i. if i = n then S else {})"

lemma mon_simps [simp]: "mon n S n = S" "(mon n S)(n := T) = mon n T"
  by (simp_all add: mon_def fun_eq_iff)

lemma mon_empty: "mon n {} = (\<lambda>_. {})"
  by (simp add: mon_def)

lemma spec_cases:
  assumes "0 < n" "n \<le> NR_syscalls k" "is_valid_pid c pid"
  shows "spec_syscall k c REQUEST_SYSCALL_INTERCEPT (int n) pid (I, M) =
      (if current_uid c \<noteq> 0 then (- EPERM, (I, M)) else if n \<in> I then (- EBUSY, (I, M)) else (0, (insert n I, M)))"
    and "spec_syscall k c REQUEST_SYSCALL_RELEASE (int n) pid (I, M) =
      (if current_uid c \<noteq> 0 then (- EPERM, (I, M)) else if n \<notin> I then (- EINVAL, (I, M)) else (0, (I - {n}, M)))"
    and "spec_syscall k c REQUEST_START_MONITORING (int n) pid (I, M) =
      (if \<not> permitted c REQUEST_START_MONITORING pid then (- EPERM, (I, M)) else spec_start c n pid (I, M))"
    and "spec_syscall k c REQUEST_STOP_MONITORING (int n) pid (I, M) =
      (if \<not> permitted c REQUEST_STOP_MONITORING pid then (- EPERM, (I, M)) else spec_stop c n pid (I, M))"
  using assms
  by (simp_all add: spec_syscall_def is_valid_cmd_def is_valid_syscall_def permitted_def request_defs
      MY_CUSTOM_SYSCALL_def)

lemma spec_invalid: "\<not> is_valid_cmd cmd \<or> \<not> is_valid_syscall k sysc \<or> \<not> is_valid_pid c pid \<Longrightarrow>
    spec_syscall k c cmd sysc pid A = (- EINVAL, A)"
  by (cases A) (simp add: spec_syscall_def Let_def)

section \<open>Intercepted calls, processes that end\<close>

lemma log_line_register: "log_line p (uint (word_of_int s :: u32)) (map uint (map word_of_int as :: u32 list)) = log_line p s as"
proof -
  have h: "hex_long (uint (word_of_int i :: u32)) = hex_long i" for i
    by (simp add: hex_long_def uint_word_of_int)
  show ?thesis
  proof (cases as rule: rev_cases)
    case Nil
    then show ?thesis by (simp add: log_line_def h)
  next
    case (snoc bs a)
    then show ?thesis by (simp add: log_line_def h comp_def)
  qed
qed

lemma do_monitor_passes:
  assumes "0 < n" "n \<le> NR_syscalls (kern m)" "n \<noteq> NR_exit_group (kern m)" "n \<in> I" "p \<in> M n" "orig n = Kernel i"
  shows "passes m orig P p u (do_monitor m (int n)) (I, M) [dec_int (int n) @ '' nonroot monitor''] (I, M)"
  unfolding passes_def
proof (intro allI impI)
  fix w assume at: "at m orig P p u (I, M) w"
  note a = at[unfolded at_def machine_ok_def]
  define args where "args = map (\<lambda>i. rand_value m (draws w + i)) [0..<6]"
  let ?w = "w\<lparr>draws := draws w + 6\<rparr>"
  let ?reg = "regs_of n args"
  have n32: "unat (ax ?reg) = n"
    using assms(2) a by (simp add: regs_of_def Let_def unsigned_of_nat take_bit_nat_eq_self)
  have ro: "row_ok (kern m) orig (kstate w) n" "intercepted (table (kstate w) n) \<noteq> 0"
    using a assms(2,4) by (auto simp: mod_inv_def mod_core_def abs_mod_def)
  then have h: "sys_call_table (kstate w) n = Interceptor" by (simp add: row_ok_def)
  have b: "base_call (kern m) orig n = Kernel i"
    using assms(1,3,6) by (simp add: base_call_def MY_CUSTOM_SYSCALL_def)
  have regs: "[bx ?reg, cx ?reg, dx ?reg, si ?reg, di ?reg, bp ?reg] = map word_of_int args"
    by (simp add: regs_of_def Let_def args_def upt_rec)
  let ?s = "(kstate w)\<lparr>klog := klog (kstate w) @ [Log p (ax ?reg) (map word_of_int args)]\<rparr>"
  have "interceptor (kern m) (the_caller m ?w) ?reg (kstate w) = Ok ((Kernel i, ?reg), ?s)"
    using interceptor_eq[of "kern m" orig "kstate w" ?reg "the_caller m ?w"] a assms(2,5) regs
    by (simp add: n32 b the_caller_def)
  then have sc: "system_call m (int n) args ?w = Ok (returns m (Kernel i) args, ?w\<lparr>kstate := ?s\<rparr>)"
    using assms(2) h by (simp add: system_call_def run_handler_def)
  have "find_log (int n) args v" if "kstate v = ?s" "getpid v = p" for v
  proof -
    have "ax ?reg = word_of_int (int n)" by (simp add: regs_of_def Let_def)
    then have "log_text (Log p (ax ?reg) (map word_of_int args)) = log_line p (int n) args @ newline"
      using log_line_register[of p "int n" args] by simp
    then show ?thesis using that by (simp add: find_log_def sublist_appendI[of _ "[]", simplified])
  qed
  moreover obtain r e where l: "libc_syscall m (int n) args ?w = Ok (r, ?w\<lparr>kstate := ?s, errno := e\<rparr>)"
  proof (cases "- 4095 \<le> returns m (Kernel i) args \<and> returns m (Kernel i) args < 0")
    case True
    then show ?thesis using that[of "-1" "- returns m (Kernel i) args"] by (simp add: libc_syscall_def sc)
  next
    case False
    then show ?thesis using that[of "returns m (Kernel i) args" "errno w"] by (auto simp: libc_syscall_def sc)
  qed
  ultimately have run: "\<exists>w'. do_monitor m (int n) w = Ok w' \<and>
      w' = say (''passed'' @ newline) (say (''test: '' @ dec_int (int n) @ '' nonroot monitor'' @
        replicate (60 - length (dec_int (int n) @ '' nonroot monitor'')) CHR ''.'') (?w\<lparr>kstate := ?s, errno := e\<rparr>))"
    using length_dec_int[of "int n"] a assms(2)
    by (simp add: do_monitor_def args_def[symmetric] test_that_def say_def del: replicate.simps)
  have at': "at m orig P p u (I, M) (?w\<lparr>kstate := ?s, errno := e\<rparr>)"
    using at by (simp add: at_def abs_mod_def cong: if_cong)
  show "\<exists>w'. do_monitor m (int n) w = Ok w' \<and> at m orig P p u (I, M) w' \<and>
      screen w' = screen w @ concat (map passed [dec_int (int n) @ '' nonroot monitor''])"
    using run at' by (auto simp: passed_def)
qed

text \<open>The exit hook takes a process out of the monitored ones.\<close>

lemma process_exit_ok:
  assumes m: "machine_ok m" and inv: "mod_inv (kern m) orig (kstate w)"
    and abs: "abs_mod (kern m) (kstate w) = (I, mon n S)" and n: "0 < n" "n < NR_syscalls (kern m)"
    and I: "NR_exit_group (kern m) \<notin> I" and S: "0 \<notin> S"
  shows "\<exists>w'. process_exit m q w = Ok w' \<and> mod_inv (kern m) orig (kstate w') \<and>
     abs_mod (kern m) (kstate w') = (I, mon n (S - {q})) \<and> procs w' = (procs w)(q := None) \<and> screen w' = screen w"
proof -
  let ?k = "kern m" let ?w = "w\<lparr>getpid := q\<rparr>"
  let ?s = "(kstate w)\<lparr>table := (\<lambda>n. if 1 \<le> n \<and> n < NR_syscalls ?k then exit_row q (table (kstate w) n)
                      else table (kstate w) n)\<rparr>"
  have ok: "kernel_ok ?k" using m by (simp add: machine_ok_def)
  have ro: "row_ok ?k orig (kstate w) (NR_exit_group ?k)" "intercepted (table (kstate w) (NR_exit_group ?k)) = 0"
    using inv ok I abs by (auto simp: mod_inv_def mod_core_def abs_mod_def kernel_ok_def)
  then have h: "sys_call_table (kstate w) (NR_exit_group ?k) = My_exit_group" by (simp add: row_ok_def base_call_def)
  have hook: "my_exit_group ?k (the_caller m ?w) (kstate w) = Ok (orig (NR_exit_group ?k), ?s)"
    using my_exit_group_eq[OF inv, of "the_caller m ?w"] by (simp add: the_caller_def cong: if_cong)
  then have run: "process_exit m q w = Ok (?w\<lparr>kstate := ?s, procs := (procs w)(q := None)\<rparr>)"
    using h ok by (simp add: process_exit_def system_call_def run_handler_def kernel_ok_def)
  have inv': "mod_inv ?k orig ?s" using my_exit_group_inv[OF inv hook] .
  have row: "row_pids (table (kstate w) i) = mon n S i" "row_inv (table (kstate w) i)" if "i \<le> NR_syscalls ?k" for i
    using abs inv that by (auto simp: abs_mod_def fun_eq_iff mod_inv_def mod_core_def row_ok_def split: if_splits)
  have m2: "monitored (table (kstate w) i) \<noteq> 2" if "i \<le> NR_syscalls ?k" for i
    using row[OF that] row_pids_0_iff[of "table (kstate w) i"] S by (auto simp: mon_def split: if_splits)
  have "row_pids (table ?s i) = mon n (S - {q}) i" if "i \<le> NR_syscalls ?k" for i
    using row[OF that] m2[OF that] n by (auto simp: exit_row_pids mon_def)
  moreover have "snd (abs_mod ?k ?s) i = (if i \<le> NR_syscalls ?k then row_pids (table ?s i) else {})" for i
    by (simp only: abs_mod_def snd_conv)
  moreover have "mon n (S - {q}) i = {}" if "\<not> i \<le> NR_syscalls ?k" for i using that n by (simp add: mon_def)
  ultimately have "snd (abs_mod ?k ?s) i = mon n (S - {q}) i" for i by (cases "i \<le> NR_syscalls ?k") presburger+
  then have "snd (abs_mod ?k ?s) = mon n (S - {q})" by (rule ext)
  moreover have "fst (abs_mod ?k ?s) = I" using abs by (auto simp: abs_mod_def)
  ultimately have "abs_mod ?k ?s = (I, mon n (S - {q}))" by (metis prod.collapse)
  then show ?thesis using run inv' by simp
qed

definition pids_ok :: "machine \<Rightarrow> (int \<Rightarrow> nat option) \<Rightarrow> bool" where
  "pids_ok m P \<longleftrightarrow> (\<forall>i. 0 < child_pid m i \<and> 0 < guest_pid m i \<and> P (child_pid m i) = None \<and> P (guest_pid m i) = None)"

lemma guest_passes:
  assumes pids: "pids_ok m P" and n: "0 < n" "n < NR_syscalls (kern m)"
    and I: "NR_exit_group (kern m) \<notin> I" and S: "\<And>g. 0 \<notin> S g"
    and T: "\<And>i. S (guest_pid m i) - {guest_pid m i} - {child_pid m i} = T"
    and run: "\<And>c g. 0 < g \<Longrightarrow> P g = None \<Longrightarrow> P c = None \<Longrightarrow>
      passes m orig (P(c \<mapsto> u, g \<mapsto> nobody m)) g (nobody m) (prog (shell_words (sprintf_d str [a1, a2])))
        (I, mon n R) ns (I, mon n (S g))"
  shows "passes m orig P p u (do_as_guest prog m str a1 a2) (I, mon n R) ns (I, mon n T)"
  unfolding passes_def
proof (intro allI impI)
  fix w assume at: "at m orig P p u (I, mon n R) w"
  let ?c = "child_pid m (forks w)" let ?g = "guest_pid m (forks w)"
  let ?P = "P(?c \<mapsto> u, ?g \<mapsto> nobody m)"
  let ?w = "w\<lparr>forks := forks w + 1, procs := ?P, getpid := ?g, getuid := nobody m, errno := 0, last_child := 0\<rparr>"
  have pid: "0 < ?g" "P ?g = None" "P ?c = None" "0 < ?c" using pids by (auto simp: pids_ok_def)
  have w: "procs w = P" "getuid w = u" "getpid w = p" using at by (auto simp: at_def)
  have "at m orig ?P ?g (nobody m) (I, mon n R) ?w" using at pid by (simp add: at_def)
  then obtain v where v: "prog (shell_words (sprintf_d str [a1, a2])) ?w = Ok v"
    "at m orig ?P ?g (nobody m) (I, mon n (S ?g)) v" "screen v = screen w @ concat (map passed ns)"
    using run[OF pid(1-3)] by (auto simp: passes_def)
  have m: "machine_ok m" and mv: "mod_inv (kern m) orig (kstate v)" "abs_mod (kern m) (kstate v) = (I, mon n (S ?g))"
    and pv: "procs v = ?P" using v(2) by (auto simp: at_def)
  obtain x where x: "process_exit m ?g v = Ok x" "mod_inv (kern m) orig (kstate x)"
    "abs_mod (kern m) (kstate x) = (I, mon n (S ?g - {?g}))" "procs x = ?P(?g := None)" "screen x = screen v"
    using process_exit_ok[OF m mv n I S, of ?g] unfolding pv by blast
  obtain y where y: "process_exit m ?c x = Ok y" "mod_inv (kern m) orig (kstate y)"
    "abs_mod (kern m) (kstate y) = (I, mon n T)" "procs y = ?P(?g := None, ?c := None)" "screen y = screen x"
    using process_exit_ok[OF m x(2,3) n I, of ?c] S x(4) T by auto
  have "procs y = P" using y(4) pid by (auto simp: fun_eq_iff)
  then have "at m orig P p u (I, mon n T) (y\<lparr>getpid := p, getuid := u, errno := errno w, last_child := ?c\<rparr>)"
    using at y by (simp add: at_def)
  then show "\<exists>w'. do_as_guest prog m str a1 a2 w = Ok w' \<and> at m orig P p u (I, mon n T) w' \<and>
      screen w' = screen w @ concat (map passed ns)"
    using v(1,3) x(1,5) y(1,5) w by (simp add: do_as_guest_def Let_def)
qed

section \<open>The tests of one call\<close>

lemma passes_step:
  "passes m orig P p u f A [d] B \<Longrightarrow> passes m orig P p u (run_all fs) B ns C \<Longrightarrow>
    passes m orig P p u (run_all (f # fs)) A (d # ns) C"
  using passes_Cons[of m orig P p u f A "[d]" B fs ns C] by simp

text \<open>The machine the tests are written for: the users, and a call that is safe to intercept.\<close>

definition users_ok :: "machine \<Rightarrow> (int \<Rightarrow> nat option) \<Rightarrow> bool" where
  "users_ok m P \<longleftrightarrow> nobody m \<noteq> 0 \<and> P 1 = Some 0"

definition testable :: "machine \<Rightarrow> (nat \<Rightarrow> handler) \<Rightarrow> nat \<Rightarrow> bool" where
  "testable m orig n \<longleftrightarrow> 0 < n \<and> n < NR_syscalls (kern m) \<and> n \<noteq> NR_exit_group (kern m) \<and> (\<exists>i. orig n = Kernel i)"

lemmas status_defs = EPERM_def EBUSY_def EINVAL_def MY_CUSTOM_SYSCALL_def

lemmas spec_now = spec_cases permitted_def spec_start_def spec_stop_def who_def is_valid_pid_def

definition nonroot_names :: "int \<Rightarrow> string list" where
  "nonroot_names n = map ((@) (dec_int n))
     ['' intercept'', '' release'', '' start'', '' stop'', '' start'', '' stop'', '' start'', '' start'',
      '' nonroot monitor'', '' stop'', '' stop'']"

lemma do_nonroot_passes:
  assumes m: "machine_ok m" and t: "testable m orig n" and u: "users_ok m P" "u \<noteq> 0"
    and p: "0 < p" "P p = Some u"
  shows "passes m orig P p u (do_nonroot m (int n)) ({n}, mon n {}) (nonroot_names (int n)) ({n}, mon n {})"
proof -
  let ?A = "({n}, mon n {})" let ?B = "({n}, mon n {p})"
  have n: "0 < n" "n \<le> NR_syscalls (kern m)" "\<bar>int n\<bar> < 10 ^ 10" "memory_left m"
    using m t by (auto simp: machine_ok_def testable_def)
  have p1: "p \<noteq> 1" "P 1 = Some 0" using u p by (auto simp: users_ok_def)
  note now = spec_now status_defs
  note d = do_passes[OF n(3)]
  have 1: "passes m orig P p u (do_intercept m (int n) (- EPERM)) ?A [dec_int (int n) @ '' intercept''] ?A"
    by (rule d(1)) (use n u p in \<open>simp_all add: now\<close>)
  have 2: "passes m orig P p u (do_release m (int n) (- EPERM)) ?A [dec_int (int n) @ '' release''] ?A"
    by (rule d(2)) (use n u p in \<open>simp_all add: now\<close>)
  have 3: "passes m orig P p u (do_start m (int n) q (- EPERM)) ?A [dec_int (int n) @ '' start''] ?A" if "q = 0 \<or> q = 1" for q
    by (rule d(3)) (use n u p p1 that in \<open>auto simp: now\<close>)
  have 4: "passes m orig P p u (do_stop m (int n) q (- EPERM)) ?A [dec_int (int n) @ '' stop''] ?A" if "q = 0 \<or> q = 1" for q
    by (rule d(5)) (use n u p p1 that in \<open>auto simp: now\<close>)
  have "passes m orig P p u (do_start m (int n) p 0) ?A [dec_int (int n) @ '' start''] ?B"
    by (rule d(3)) (use n u p in \<open>simp_all add: now\<close>)
  note 5 = passes_self[where f = "\<lambda>p. do_start m (int n) p 0", OF this]
  have "passes m orig P p u (do_start m (int n) p (- EBUSY)) ?B [dec_int (int n) @ '' start''] ?B"
    by (rule d(3)) (use n u p in \<open>simp_all add: now\<close>)
  note 6 = passes_self[where f = "\<lambda>p. do_start m (int n) p (- EBUSY)", OF this]
  have 7: "passes m orig P p u (do_monitor m (int n)) ?B [dec_int (int n) @ '' nonroot monitor''] ?B"
    using do_monitor_passes[of n m "{n}" p "mon n {p}" orig] t by (auto simp: testable_def)
  have "passes m orig P p u (do_stop m (int n) p 0) ?B [dec_int (int n) @ '' stop''] ?A"
    by (rule d(5)) (use n u p in \<open>simp_all add: now\<close>)
  note 8 = passes_self[where f = "\<lambda>p. do_stop m (int n) p 0", OF this]
  have "passes m orig P p u (do_stop m (int n) p (- EINVAL)) ?A [dec_int (int n) @ '' stop''] ?A"
    by (rule d(5)) (use n u p in \<open>simp_all add: now\<close>)
  note 9 = passes_self[where f = "\<lambda>p. do_stop m (int n) p (- EINVAL)", OF this]
  show ?thesis
    unfolding do_nonroot_def nonroot_names_def list.map
    by (intro passes_step[OF 1] passes_step[OF 2] passes_step[OF 3] passes_step[OF 4] passes_step[OF 5]
        passes_step[OF 6] passes_step[OF 7] passes_step[OF 8] passes_step[OF 9] passes_Nil) simp_all
qed

text \<open>The programs that \<open>do_as_guest\<close> starts.\<close>

lemmas command_line = shell_words_def split_blanks_dec full_mode_def intercept_mode_def num_arg_def atoi_dec_int

lemma atoi_numbers: "atoi ''1'' = 1" "atoi ''-1'' = - 1"
  using atoi_dec_int[of 1] atoi_dec_int[of "- 1"] by (simp_all add: dec_int_def dec.simps digit_def) code_simp+

lemma guest_programs:
  "test_full (Suc f) m (shell_words (sprintf_d ''./test_full nonroot %d'' [n, k])) = do_nonroot m n"
  "test_full (Suc f) m (shell_words (sprintf_d ''./test_full stop %d 1 %d'' [n, k])) = do_stop m n 1 k"
  "test_full (Suc f) m (shell_words (sprintf_d ''./test_full start %d -1 %d'' [n, k])) = do_start m n (- 1) k"
  "test_intercept (Suc f) m (shell_words (sprintf_d ''./test_intercept nonroot %d'' [n, k])) = intercept_nonroot m n"
  by (simp_all add: command_line atoi_numbers fun_eq_iff)

definition syscall_names :: "int \<Rightarrow> string list" where
  "syscall_names n =
     (let t = (@) (dec_int n) in
      [t '' intercept'', t '' intercept''] @ nonroot_names n @
      [t '' start'', t '' start'', t '' stop'', t '' start'', t '' stop'', t '' stop'', t '' start'', t '' stop'',
       t '' release''])"

lemma passes_any: "(\<And>q. passes m orig P p u (f q) A ns B) \<Longrightarrow> passes m orig P p u (\<lambda>w. f (g w) w) A ns B"
  by (simp add: passes_def)

lemma test_syscall_passes:
  assumes m: "machine_ok m" and t: "testable m orig n" and u: "users_ok m P" and pids: "pids_ok m P"
    and p: "0 < p" "P p = Some 0"
  shows "passes m orig P p 0 (test_syscall (test_full (Suc f) m) m (int n)) ({}, mon n {}) (syscall_names (int n)) ({}, mon n {})"
proof -
  let ?A = "({n}, mon n {})" let ?U = "({n}, mon n UNIV)" let ?I = "({n}, mon n {1})"
  have n: "0 < n" "n \<le> NR_syscalls (kern m)" "\<bar>int n\<bar> < 10 ^ 10" "memory_left m" "n < NR_syscalls (kern m)"
    "NR_exit_group (kern m) \<notin> {n}" "NR_exit_group (kern m) \<notin> {}"
    using m t by (auto simp: machine_ok_def testable_def)
  have p1: "P 1 = Some 0" "nobody m \<noteq> 0" using u by (auto simp: users_ok_def)
  note now = spec_now status_defs
  note d = do_passes[OF n(3)]
  have 1: "passes m orig P p 0 (do_intercept m (int n) 0) ({}, mon n {}) [dec_int (int n) @ '' intercept''] ?A"
    by (rule d(1)) (use n p in \<open>simp_all add: now\<close>)
  have 2: "passes m orig P p 0 (do_intercept m (int n) (- EBUSY)) ?A [dec_int (int n) @ '' intercept''] ?A"
    by (rule d(1)) (use n p in \<open>simp_all add: now\<close>)
  have 3: "passes m orig P p 0 (do_as_guest (test_full (Suc f) m) m ''./test_full nonroot %d'' (int n) 0)
      ?A (nonroot_names (int n)) ?A"
  proof (rule guest_passes[OF pids n(1,5,6), where S = "\<lambda>_. {}"])
    show "passes m orig (P(c \<mapsto> 0, g \<mapsto> nobody m)) g (nobody m) (test_full (Suc f) m
        (shell_words (sprintf_d ''./test_full nonroot %d'' [int n, 0]))) ?A (nonroot_names (int n)) ?A"
      if "0 < g" "P g = None" "P c = None" for c g
      unfolding guest_programs
      by (rule do_nonroot_passes[OF m t]) (use p1 that in \<open>auto simp: users_ok_def\<close>)
  qed simp_all
  have 4: "passes m orig P p 0 (do_start m (int n) (- 2) (- EINVAL)) ?A [dec_int (int n) @ '' start''] ?A"
    by (rule d(3)) (use n in \<open>simp_all add: spec_invalid is_valid_pid_def status_defs\<close>)
  have 5: "passes m orig P p 0 (do_start m (int n) 0 0) ?A [dec_int (int n) @ '' start''] ?U"
    by (rule d(3)) (use n in \<open>simp_all add: now\<close>)
  have 6: "passes m orig P p 0 (do_stop m (int n) 0 0) ?U [dec_int (int n) @ '' stop''] ?A"
    by (rule d(5)) (use n in \<open>simp_all add: now\<close>)
  have 7: "passes m orig P p 0 (do_start m (int n) 1 0) ?A [dec_int (int n) @ '' start''] ?I"
    by (rule d(3)) (use n p1 in \<open>simp_all add: now\<close>)
  have 8: "passes m orig P p 0 (do_as_guest (test_full (Suc f) m) m ''./test_full stop %d 1 %d'' (int n) (- EPERM))
      ?I [dec_int (int n) @ '' stop''] ?I"
  proof (rule guest_passes[OF pids n(1,5,6), where S = "\<lambda>_. {1}"])
    show "{1} - {guest_pid m i} - {child_pid m i} = {1}" for i
    proof -
      have "P (guest_pid m i) = None" "P (child_pid m i) = None" using pids by (auto simp: pids_ok_def)
      then have "guest_pid m i \<noteq> 1" "child_pid m i \<noteq> 1" using p1 by auto
      then show ?thesis by blast
    qed
    show "passes m orig (P(c \<mapsto> 0, g \<mapsto> nobody m)) g (nobody m) (test_full (Suc f) m
        (shell_words (sprintf_d ''./test_full stop %d 1 %d'' [int n, - EPERM]))) ?I [dec_int (int n) @ '' stop''] ?I"
      if "0 < g" "P g = None" "P c = None" for c g
      unfolding guest_programs
      by (rule d(5)) (use n p1 that in \<open>auto simp: now\<close>)
  qed simp
  have 9: "passes m orig P p 0 (do_stop m (int n) 1 0) ?I [dec_int (int n) @ '' stop''] ?A"
    by (rule d(5)) (use n p1 in \<open>simp_all add: now\<close>)
  have 10: "passes m orig P p 0 (do_as_guest (test_full (Suc f) m) m ''./test_full start %d -1 %d'' (int n) 0)
      ?A [dec_int (int n) @ '' start''] ?A"
  proof (rule guest_passes[OF pids n(1,5,6), where S = "\<lambda>g. if 0 < g then {g} else {}"])
    show "passes m orig (P(c \<mapsto> 0, g \<mapsto> nobody m)) g (nobody m) (test_full (Suc f) m
        (shell_words (sprintf_d ''./test_full start %d -1 %d'' [int n, 0]))) ?A [dec_int (int n) @ '' start'']
        ({n}, mon n (if 0 < g then {g} else {}))"
      if "0 < g" "P g = None" "P c = None" for c g
      unfolding guest_programs
      by (rule d(4)) (use n p1 that in \<open>auto simp: now\<close>)
  qed auto
  have "passes m orig P p 0 (do_stop m (int n) q (- EINVAL)) ?A [dec_int (int n) @ '' stop''] ?A" for q
    by (rule d(5)) (use n in \<open>simp_all add: status_defs spec_syscall_def permitted_def spec_stop_def who_def request_defs\<close>)
  note 11 = passes_any[where f = "\<lambda>q. do_stop m (int n) q (- EINVAL)" and g = last_child, OF this]
  have 12: "passes m orig P p 0 (do_release m (int n) 0) ?A [dec_int (int n) @ '' release''] ({}, mon n {})"
    by (rule d(2)) (use n p in \<open>simp_all add: now\<close>)
  have e: "xs @ [] = xs" for xs :: "string list" by simp
  show ?thesis
    unfolding test_syscall_def syscall_names_def Let_def append_Cons append_Nil
    by (intro passes_step[OF 1] passes_step[OF 2] passes_Cons[OF 3] passes_step[OF 4] passes_step[OF 5]
        passes_step[OF 6] passes_step[OF 7] passes_step[OF 8] passes_step[OF 9] passes_step[OF 10]
        passes_step[OF 11] passes_step[OF 12] passes_Nil)
qed

definition intercept_names :: "int \<Rightarrow> string list" where
  "intercept_names n =
     map ((@) (dec_int n)) ['' intercept'', '' intercept'', '' intercept'', '' release'', '' release'']"

lemma intercept_test_syscall_passes:
  assumes m: "machine_ok m" and t: "testable m orig n" and u: "users_ok m P" and pids: "pids_ok m P"
    and p: "0 < p" "P p = Some 0"
  shows "passes m orig P p 0 (intercept_test_syscall (test_intercept (Suc f) m) m (int n))
    ({}, mon n {}) (intercept_names (int n)) ({}, mon n {})"
proof -
  let ?A = "({n}, mon n {})"
  have n: "0 < n" "n \<le> NR_syscalls (kern m)" "\<bar>int n\<bar> < 10 ^ 10" "n < NR_syscalls (kern m)"
    "NR_exit_group (kern m) \<notin> {n}"
    using m t by (auto simp: machine_ok_def testable_def)
  note now = spec_now status_defs
  note d = do_passes[OF n(3)]
  have 1: "passes m orig P p 0 (do_intercept m (int n) 0) ({}, mon n {}) [dec_int (int n) @ '' intercept''] ?A"
    by (rule d(1)) (use n p in \<open>simp_all add: now\<close>)
  have 2: "passes m orig P p 0 (do_intercept m (int n) (- EBUSY)) ?A [dec_int (int n) @ '' intercept''] ?A"
    by (rule d(1)) (use n p in \<open>simp_all add: now\<close>)
  have 3: "passes m orig P p 0 (do_as_guest (test_intercept (Suc f) m) m ''./test_intercept nonroot %d'' (int n) 0)
      ?A [dec_int (int n) @ '' intercept'', dec_int (int n) @ '' release''] ?A"
  proof (rule guest_passes[OF pids n(1,4,5), where S = "\<lambda>_. {}"])
    fix c g assume g: "0 < g" "P g = None" "P c = None"
    let ?P = "P(c \<mapsto> 0, g \<mapsto> nobody m)"
    have u0: "nobody m \<noteq> 0" using u by (simp add: users_ok_def)
    have i: "passes m orig ?P g (nobody m) (do_intercept m (int n) (- EPERM)) ?A [dec_int (int n) @ '' intercept''] ?A"
      by (rule d(1)) (use n g u0 in \<open>simp_all add: now\<close>)
    have r: "passes m orig ?P g (nobody m) (do_release m (int n) (- EPERM)) ?A [dec_int (int n) @ '' release''] ?A"
      by (rule d(2)) (use n g u0 in \<open>simp_all add: now\<close>)
    show "passes m orig ?P g (nobody m) (test_intercept (Suc f) m
        (shell_words (sprintf_d ''./test_intercept nonroot %d'' [int n, 0]))) ?A
        [dec_int (int n) @ '' intercept'', dec_int (int n) @ '' release''] ?A"
      unfolding guest_programs intercept_nonroot_def by (intro passes_step[OF i] passes_step[OF r] passes_Nil)
  qed simp_all
  have 4: "passes m orig P p 0 (do_release m (int n) 0) ?A [dec_int (int n) @ '' release''] ({}, mon n {})"
    by (rule d(2)) (use n p in \<open>simp_all add: now\<close>)
  have "passes m orig P p 0 (intercept_test_syscall (test_intercept (Suc f) m) m (int n)) ({}, mon n {})
      ((dec_int (int n) @ '' intercept'') # (dec_int (int n) @ '' intercept'') #
       [dec_int (int n) @ '' intercept'', dec_int (int n) @ '' release''] @ [dec_int (int n) @ '' release'']) ({}, mon n {})"
    unfolding intercept_test_syscall_def
    by (intro passes_step[OF 1] passes_step[OF 2] passes_Cons[OF 3] passes_step[OF 4] passes_Nil)
  then show ?thesis by (simp add: intercept_names_def)
qed

section \<open>The programs\<close>

lemma run_all_append: "run_all (fs @ gs) w = bind_o (run_all fs w) (run_all gs)"
proof (induction fs arbitrary: w)
  case (Cons f fs)
  then show ?case by (cases "f w") auto
qed simp

definition frame_names :: "string \<Rightarrow> int \<Rightarrow> string list" where
  "frame_names bad e =
     [bad, dec_int 0 @ '' intercept'', dec_int 0 @ '' release'', dec_int (- 1) @ '' intercept'',
      dec_int (- 1) @ '' release'', dec_int e @ '' intercept'', dec_int e @ '' release'']"

lemma frame_passes:
  assumes m: "machine_ok m" and e: "0 < e" "e \<le> NR_syscalls (kern m)" and p: "0 < p" "P p = Some 0"
    and bad: "length bad \<le> 60"
    and rest: "passes m orig P p 0 f ({}, mon n {}) ns ({}, mon n {})"
  shows "passes m orig P p 0 (run_all [
       test_that bad (answers m 100 0 0 (- EINVAL)),
       do_intercept m (int MY_CUSTOM_SYSCALL) (- EINVAL), do_release m (int MY_CUSTOM_SYSCALL) (- EINVAL),
       do_intercept m (- 1) (- EINVAL), do_release m (- 1) (- EINVAL),
       do_intercept m (int e) 0, do_release m (int e) 0, f]) ({}, mon n {}) (frame_names bad (int e) @ ns) ({}, mon n {})"
proof -
  let ?A = "({}, mon n {})" let ?E = "({e}, mon n {})"
  have b: "\<bar>int e\<bar> < 10 ^ 10" using m e by (auto simp: machine_ok_def)
  note bad_args = is_valid_syscall_def is_valid_cmd_def status_defs request_defs
  have 1: "passes m orig P p 0 (test_that bad (answers m 100 0 0 (- EINVAL))) ?A [bad] ?A"
    by (rule passes_answers[OF bad]) (simp_all add: spec_invalid bad_args)
  have 2: "passes m orig P p 0 (do_intercept m (int MY_CUSTOM_SYSCALL) (- EINVAL)) ?A [dec_int 0 @ '' intercept''] ?A"
    using do_passes(1)[of "int MY_CUSTOM_SYSCALL" "- EINVAL" ?A m P p 0 ?A orig] by (simp add: spec_invalid bad_args)
  have 3: "passes m orig P p 0 (do_release m (int MY_CUSTOM_SYSCALL) (- EINVAL)) ?A [dec_int 0 @ '' release''] ?A"
    using do_passes(2)[of "int MY_CUSTOM_SYSCALL" "- EINVAL" ?A m P p 0 ?A orig] by (simp add: spec_invalid bad_args)
  have 4: "passes m orig P p 0 (do_intercept m (- 1) (- EINVAL)) ?A [dec_int (- 1) @ '' intercept''] ?A"
    by (rule do_passes(1)) (simp_all add: spec_invalid bad_args)
  have 5: "passes m orig P p 0 (do_release m (- 1) (- EINVAL)) ?A [dec_int (- 1) @ '' release''] ?A"
    by (rule do_passes(2)) (simp_all add: spec_invalid bad_args)
  have 6: "passes m orig P p 0 (do_intercept m (int e) 0) ?A [dec_int (int e) @ '' intercept''] ?E"
    by (rule do_passes(1)[OF b]) (use e p in \<open>simp_all add: spec_now status_defs\<close>)
  have 7: "passes m orig P p 0 (do_release m (int e) 0) ?E [dec_int (int e) @ '' release''] ?A"
    by (rule do_passes(2)[OF b]) (use e p in \<open>simp_all add: spec_now status_defs\<close>)
  have 8: "passes m orig P p 0 (run_all [f]) ?A ns ?A" using passes_Cons[OF rest passes_Nil] by simp
  show ?thesis
    unfolding frame_names_def append_Cons append_Nil
    by (intro passes_step[OF 1] passes_step[OF 2] passes_step[OF 3] passes_step[OF 4] passes_step[OF 5]
        passes_step[OF 6] passes_step[OF 7] 8)
qed

text \<open>Loading, the tests, unloading.\<close>

lemma load_tests_unload:
  assumes m: "machine_ok m" and w: "pristine orig (kstate w)" "procs w = P" "getpid w = p" "getuid w = 0"
    and p: "0 < p" "P p = Some 0"
    and rest: "passes m orig P p 0 (run_all fs) ({}, mon n {}) ns ({}, mon n {})"
  shows "\<exists>w'. run_all (test_that ''insmod interceptor.ko '' (insmod m) # fs @ [test_that ''rmmod interceptor.ko '' (rmmod m)]) w
      = Ok w' \<and> pristine orig (kstate w') \<and>
     screen w' = screen w @ concat (map passed (''insmod interceptor.ko '' # ns @ [''rmmod interceptor.ko '']))"
proof -
  have k: "kernel_ok (kern m)" using m by (simp add: machine_ok_def)
  obtain s where s: "init_function (kern m) (kstate w) = Ok (0, s)" "mod_inv (kern m) orig s"
    "abs_mod (kern m) s = ({}, \<lambda>_. {})" using init_function_loads[OF k w(1)] by blast
  define v where "v = say (''passed'' @ newline) (say (''test: '' @ ''insmod interceptor.ko '' @
      replicate (60 - length ''insmod interceptor.ko '') CHR ''.'') (w\<lparr>kstate := s\<rparr>))"
  have l: "test_that ''insmod interceptor.ko '' (insmod m) w = Ok v"
    using s(1) by (simp add: test_that_def insmod_def say_def v_def del: replicate.simps)
  have "at m orig P p 0 ({}, mon n {}) v" using m w s p by (simp add: v_def at_def mon_empty say_def)
  then obtain x where x: "run_all fs v = Ok x" "at m orig P p 0 ({}, mon n {}) x"
    "screen x = screen v @ concat (map passed ns)" using rest by (auto simp: passes_def)
  then have "mod_inv (kern m) orig (kstate x)" by (simp add: at_def)
  then obtain t where t: "exit_function (kern m) (kstate x) = Ok t" "pristine orig t"
    using exit_function_restores[OF k] by blast
  define y where "y = say (''passed'' @ newline) (say (''test: '' @ ''rmmod interceptor.ko '' @
      replicate (60 - length ''rmmod interceptor.ko '') CHR ''.'') (x\<lparr>kstate := t\<rparr>))"
  have "test_that ''rmmod interceptor.ko '' (rmmod m) x = Ok y"
    using t(1) by (simp add: test_that_def rmmod_def say_def y_def del: replicate.simps)
  moreover have "kstate y = t" by (simp add: y_def say_def)
  moreover have "screen y = screen w @ concat (map passed (''insmod interceptor.ko '' # ns @ [''rmmod interceptor.ko '']))"
    using x(3) by (simp add: y_def v_def passed_def del: replicate.simps)
  ultimately show ?thesis using l x(1) t(2) by (simp add: run_all_append del: replicate.simps)
qed

text \<open>What the two programs print.\<close>

definition full_names :: "int \<Rightarrow> int \<Rightarrow> string list" where
  "full_names e n = ''insmod interceptor.ko '' # (frame_names ''bad MY_SYSCALL args'' e @ syscall_names n) @
     [''rmmod interceptor.ko '']"

definition intercept_all_names :: "int \<Rightarrow> int \<Rightarrow> string list" where
  "intercept_all_names e n = ''insmod interceptor.ko '' # (frame_names ''bad MY_CUSTOM_SYSCALL args'' e @ intercept_names n) @
     [''rmmod interceptor.ko '']"

lemma programs_pass:
  assumes m: "machine_ok m" and w: "pristine orig (kstate w)" "getuid w = 0" "0 < getpid w" "procs w (getpid w) = Some 0"
    and u: "users_ok m (procs w)" "pids_ok m (procs w)"
    and calls: "sys_open m = int n" "testable m orig n" "nr_exit m = int e" "0 < e" "e \<le> NR_syscalls (kern m)"
  shows "\<exists>w'. test_full (Suc (Suc f)) m [name] w = Ok w' \<and> pristine orig (kstate w') \<and>
      screen w' = screen w @ concat (map passed (full_names (int e) (int n)))"
    and "\<exists>w'. test_intercept (Suc (Suc f)) m [name] w = Ok w' \<and> pristine orig (kstate w') \<and>
      screen w' = screen w @ concat (map passed (intercept_all_names (int e) (int n)))"
proof -
  note lt = load_tests_unload[OF m w(1) refl refl w(2-4), where n = n]
  note fp = frame_passes[where P = "procs w" and p = "getpid w" and n = n, OF m calls(4,5) w(3,4)]
  show "\<exists>w'. test_full (Suc (Suc f)) m [name] w = Ok w' \<and> pristine orig (kstate w') \<and>
      screen w' = screen w @ concat (map passed (full_names (int e) (int n)))"
    using lt[OF fp[OF _ test_syscall_passes[OF m calls(2) u w(3,4), of f], of "''bad MY_SYSCALL args''"]] calls(1,3)
    by (simp add: full_mode_def full_tests_def full_names_def del: run_all.simps)
  show "\<exists>w'. test_intercept (Suc (Suc f)) m [name] w = Ok w' \<and> pristine orig (kstate w') \<and>
      screen w' = screen w @ concat (map passed (intercept_all_names (int e) (int n)))"
    using lt[OF fp[OF _ intercept_test_syscall_passes[OF m calls(2) u w(3,4), of f], of "''bad MY_CUSTOM_SYSCALL args''"]]
      calls(1,3)
    by (simp add: intercept_mode_def intercept_tests_def intercept_all_names_def del: run_all.simps)
qed

end
