(* ===== verification/Tester_Props.thy ===== *)
theory Tester_Props
  imports Interceptor_Props Tester_Ok
begin

text \<open>The testers of the module, run against it.\<close>

text \<open>C9: on a kernel whose numbers fit the tests (the call \<open>SYS_open\<close> that is tested is not the
  exit call and not the last one), with users and pids as on a running system and enough memory,
  \<^verbatim>\<open>test_full\<close> and \<^verbatim>\<open>test_intercept\<close> run to the end, print exactly the
  listed tests with ``passed'' after each of them, and leave the kernel with its own system call
  table.\<close>

theorem testers_pass:
  assumes "machine_ok m" "pristine orig (kstate w)" "getuid w = 0" "0 < getpid w" "procs w (getpid w) = Some 0"
    and "users_ok m (procs w)" "pids_ok m (procs w)"
    and "sys_open m = int n" "testable m orig n" "nr_exit m = int e" "0 < e" "e \<le> NR_syscalls (kern m)"
  shows "(\<exists>w'. test_full (Suc (Suc f)) m [name] w = Ok w' \<and> pristine orig (kstate w') \<and>
      screen w' = screen w @ concat (map passed (full_names (int e) (int n)))) \<and>
    (\<exists>w'. test_intercept (Suc (Suc f)) m [name] w = Ok w' \<and> pristine orig (kstate w') \<and>
      screen w' = screen w @ concat (map passed (intercept_all_names (int e) (int n))))"
  using programs_pass[OF assms] by blast

definition ex_machine :: machine where
  "ex_machine = \<lparr>kern = ex_kernel, nr_exit = 1, sys_open = 5, nobody = 1000,
     child_pid = (\<lambda>i. 100 + 2 * int i), guest_pid = (\<lambda>i. 101 + 2 * int i), rand_value = (\<lambda>i. int i),
     returns = (\<lambda>_ _. - 14), memory_left = True\<rparr>"

definition ex_tester :: tester where
  "ex_tester = \<lparr>kstate = ex_before, procs = [1 \<mapsto> 0, 7 \<mapsto> 0], forks = 0, draws = 0, screen = [],
     getpid = 7, getuid = 0, errno = 0, last_child = 0\<rparr>"

theorem testers_pass_witness:
  "(\<exists>w. test_full 2 ex_machine [''./test_full''] ex_tester = Ok w \<and> sys_call_table (kstate w) = ex_orig \<and>
      screen w = concat (map passed (full_names 1 5))) \<and> length (full_names 1 5) = 31"
proof -
  have m: "machine_ok ex_machine" "testable ex_machine ex_orig 5"
    using ex_kernel_ok by (simp_all add: machine_ok_def testable_def ex_machine_def ex_orig_def)
  have u: "users_ok ex_machine (procs ex_tester)" "pids_ok ex_machine (procs ex_tester)"
    by (simp_all add: users_ok_def pids_ok_def ex_machine_def ex_tester_def)
  have w: "pristine ex_orig (kstate ex_tester)" using ex_before_pristine by (simp add: ex_tester_def)
  obtain v where "test_full (Suc (Suc 0)) ex_machine [''./test_full''] ex_tester = Ok v" "pristine ex_orig (kstate v)"
    "screen v = screen ex_tester @ concat (map passed (full_names (int 1) (int 5)))"
  proof -
    have "\<exists>w. test_full (Suc (Suc 0)) ex_machine [''./test_full''] ex_tester = Ok w \<and> pristine ex_orig (kstate w) \<and>
      screen w = screen ex_tester @ concat (map passed (full_names (int 1) (int 5)))"
      by (rule conjunct1[OF testers_pass[OF m(1) w _ _ _ u _ m(2)]]) (simp_all add: ex_machine_def ex_tester_def)
    then show ?thesis using that by blast
  qed
  moreover have "length (full_names 1 5) = 31"
    by (simp add: full_names_def frame_names_def syscall_names_def nonroot_names_def Let_def)
  moreover have "screen ex_tester = []" by (simp add: ex_tester_def)
  ultimately show ?thesis by (auto simp: pristine_def numeral_2_eq_2 simp del: test_full.simps)
qed

end
