(* ===== verification/Fastslim.thy ===== *)
theory Fastslim
  imports Trace Printing
begin

text \<open>
  The trace filter \<^verbatim>\<open>a2/starter/traceprogs/fastslim.py\<close> (Python 2) between valgrind and
  the simulator. It keeps the first reference to each page of a phase, a stretch of the trace with
  as many pages as its buffer has entries. The item that a later reference marks is a new one that
  is not put anywhere, so no item of the buffer is ever marked; and nothing is printed when the
  input ends. The lemmas describe what reaches the simulator.
\<close>

section \<open>The program\<close>

record trace_item =
  reftype :: string
  pg :: int
  tstamp :: nat
  marked :: bool

text \<open>\<open>format(i, 'x')\<close> and \<open>__repr__\<close>.\<close>

definition format_x :: "int \<Rightarrow> string" where
  "format_x i = (if i < 0 then CHR ''-'' # hex_of (nat (- i)) else hex_of (nat i))"

definition item_repr :: "trace_item \<Rightarrow> string" where
  "item_repr ti = reftype ti @ '' '' @ format_x (pg ti * 4096)"

text \<open>The set \<open>tracebuffer\<close>, in which items are equal when their pages are, is a list here.\<close>

record slim =
  ts :: nat
  tracebuffer :: "trace_item list"
  toprint :: "trace_item list"
  stdout :: string

definition in_buffer :: "trace_item \<Rightarrow> slim \<Rightarrow> bool" where
  "in_buffer ti s = list_ex (\<lambda>x. pg x = pg ti) (tracebuffer s)"

definition emit_marked_in_ts_order :: "slim \<Rightarrow> slim" where
  "emit_marked_in_ts_order s =
     (let tp = sort_key tstamp (toprint s @ filter marked (tracebuffer s)) in
      s\<lparr>stdout := stdout s @ concat (map (\<lambda>ti. item_repr ti @ [NEWLINE]) tp),
        tracebuffer := [], toprint := []\<rparr>)"

definition strip :: "string \<Rightarrow> string" where
  "strip s = rev (dropWhile isspace (rev (dropWhile isspace s)))"

text \<open>\<open>int(s, 16)\<close> of a stripped string: a sign, \<open>0x\<close>, digits; \<open>None\<close> is the \<open>ValueError\<close>.\<close>

definition int16 :: "string \<Rightarrow> int option" where
  "int16 s =
     (let neg = (take 1 s = ''-'');
          s1 = (if take 1 s \<in> {''-'', ''+''} then tl s else s);
          s2 = (if take 2 s1 \<in> {''0x'', ''0X''} then drop 2 s1 else s1)
      in if s2 \<noteq> [] \<and> list_all is_hex s2
         then Some (if neg then - int (hex_value s2) else int (hex_value s2)) else None)"

text \<open>An item for a reference, or for a further one to a page of the buffer.\<close>

definition add_item :: "nat \<Rightarrow> trace_item \<Rightarrow> slim \<Rightarrow> slim" where
  "add_item buffersize ti s =
     (if in_buffer ti s then
        (let ti = ti\<lparr>marked := True, tstamp := ts s\<rparr> in s)
      else
        (let s1 = (if length (tracebuffer s) = buffersize then emit_marked_in_ts_order s else s)
         in s1\<lparr>toprint := toprint s1 @ [ti], tracebuffer := tracebuffer s1 @ [ti]\<rparr>))"

definition process_line :: "bool \<Rightarrow> nat \<Rightarrow> string \<Rightarrow> slim \<Rightarrow> slim" where
  "process_line keepcode buffersize line s =
     (if hd line = CHR ''='' then s
      else
        let rt = strip (take 2 line) in
        if rt = ''I'' \<and> \<not> keepcode then s
        else
          (case int16 (strip (drop 3 (takeWhile (\<lambda>c. c \<noteq> CHR '','') line))) of
             None \<Rightarrow> s
           | Some addr \<Rightarrow>
               let s1 = add_item buffersize \<lparr>reftype = rt, pg = addr div 4096, tstamp = ts s, marked = False\<rparr> s
               in s1\<lparr>ts := ts s1 + 1\<rparr>))"

text \<open>The lines of a file, with the characters that end them.\<close>

fun lines_of :: "string \<Rightarrow> string list" where
  "lines_of [] = []"
| "lines_of (c # cs) =
     (if c = NEWLINE then [c] # lines_of cs
      else (case lines_of cs of [] \<Rightarrow> [[c]] | l # ls \<Rightarrow> (c # l) # ls))"

definition fastslim :: "bool \<Rightarrow> nat \<Rightarrow> string \<Rightarrow> string" where
  "fastslim keepcode buffersize text =
     stdout (fold (process_line keepcode buffersize) (lines_of text)
       \<lparr>ts = 0, tracebuffer = [], toprint = [], stdout = []\<rparr>)"

section \<open>Phases\<close>

text \<open>
  What the filter is to do with references to pages: split them into phases of \<open>k\<close> pages, and
  keep the first reference to each page of a phase. \<open>cur\<close> has what is kept of the current one.
\<close>

fun phases :: "nat \<Rightarrow> ('t \<times> 'p) list \<Rightarrow> ('t \<times> 'p) list \<Rightarrow> ('t \<times> 'p) list list" where
  "phases k cur [] = [cur]"
| "phases k cur (r # rs) =
     (if snd r \<in> snd ` set cur then phases k cur rs
      else if length cur = k then cur # phases k [r] rs
      else phases k (cur @ [r]) rs)"

lemma phases_ne [simp]: "phases k cur rs \<noteq> []"
  by (induction k cur rs rule: phases.induct) auto

text \<open>In a phase no page comes twice; all phases but the last are full; no page gets lost.\<close>

lemma phases_distinct:
  "0 < k \<Longrightarrow> length cur \<le> k \<Longrightarrow> distinct (map snd cur) \<Longrightarrow> p \<in> set (phases k cur rs) \<Longrightarrow>
     distinct (map snd p) \<and> length p \<le> k"
proof (induction k cur rs rule: phases.induct)
  case (2 k cur r rs)
  show ?case
  proof (cases "snd r \<in> snd ` set cur")
    case False
    then show ?thesis using 2 by (cases "length cur = k") auto
  qed (use 2 in auto)
qed auto

lemma phases_full: "p \<in> set (butlast (phases k cur rs)) \<Longrightarrow> length p = k"
proof (induction k cur rs rule: phases.induct)
  case (2 k cur r rs)
  then show ?case by (cases "snd r \<in> snd ` set cur"; cases "length cur = k") auto
qed simp

lemma phases_cover: "snd ` set (concat (phases k cur rs)) = snd ` (set cur \<union> set rs)"
proof (induction k cur rs rule: phases.induct)
  case (2 k cur r rs)
  show ?case
  proof (cases "snd r \<in> snd ` set cur")
    case True
    then have "snd ` set (concat (phases k cur (r # rs))) = snd ` (set cur \<union> set rs)" using 2(1) by simp
    then show ?thesis using True by auto
  next
    case False
    then show ?thesis using 2(2,3) by (cases "length cur = k") (auto simp: image_Un)
  qed
qed simp

lemma phases_subset: "set (concat (phases k cur rs)) \<subseteq> set cur \<union> set rs"
proof (induction k cur rs rule: phases.induct)
  case (2 k cur r rs)
  then show ?case by (cases "snd r \<in> snd ` set cur"; cases "length cur = k") auto
qed simp

section \<open>Lines of valgrind\<close>

text \<open>A reference of \<open>lackey\<close>: its type, the address in at least eight digits, the size.\<close>

definition pad8 :: "string \<Rightarrow> string" where
  "pad8 s = replicate (8 - length s) CHR ''0'' @ s"

definition lackey_line :: "char \<times> u64 \<times> nat \<Rightarrow> string" where
  "lackey_line = (\<lambda>(t, v, sz).
     (if t = CHR ''I'' then ''I  '' else '' '' @ [t] @ '' '') @ pad8 (hex_of (unat v)) @ '','' @ dec sz @ [NEWLINE])"

definition lackey_type :: "char \<Rightarrow> bool" where
  "lackey_type t \<longleftrightarrow> t \<in> {CHR ''I'', CHR ''L'', CHR ''S'', CHR ''M''}"

lemma hex_chars: "is_hex c \<Longrightarrow> c \<noteq> CHR '','' \<and> c \<noteq> CHR ''-'' \<and> c \<noteq> CHR ''+'' \<and> c \<noteq> CHR ''x'' \<and> c \<noteq> CHR ''X''"
  by (auto simp: is_hex_def hex_digit_def)

lemma hex_value_zeros: "hex_value (replicate n CHR ''0'' @ ds) = hex_value ds"
proof (induction n)
  case (Suc n)
  have "the (hex_digit CHR ''0'') = 0" by (simp add: hex_digit_def)
  then show ?case using Suc by (simp add: hex_value_def)
qed simp

lemma pad8_hex: "c \<in> set (pad8 (hex_of n)) \<Longrightarrow> is_hex c" "pad8 (hex_of n) \<noteq> []" "hex_value (pad8 (hex_of n)) = n"
proof -
  have z: "is_hex CHR ''0''" by (simp add: is_hex_def hex_digit_def)
  show "c \<in> set (pad8 (hex_of n)) \<Longrightarrow> is_hex c" using is_hex_of[of c n] z by (auto simp: pad8_def)
  show "pad8 (hex_of n) \<noteq> []" by (simp add: pad8_def hex_of_ne)
  show "hex_value (pad8 (hex_of n)) = n" by (simp add: pad8_def hex_value_zeros hex_value_of)
qed

lemma int16_hex:
  assumes "\<forall>c \<in> set s. is_hex c" "s \<noteq> []"
  shows "int16 s = Some (int (hex_value s))"
proof -
  have "take 1 s \<notin> {''-'', ''+''}"
    using assms hex_chars by (cases s) auto
  moreover have "take 2 s \<notin> {''0x'', ''0X''}"
  proof
    assume "take 2 s \<in> {''0x'', ''0X''}"
    then have "CHR ''x'' \<in> set s \<or> CHR ''X'' \<in> set s" using set_take_subset[of 2 s] by auto
    then show False using assms(1) hex_chars by blast
  qed
  ultimately show ?thesis using assms by (simp add: int16_def list_all_iff)
qed

lemma strip_hex: "\<forall>c \<in> set s. is_hex c \<Longrightarrow> strip s = s"
proof -
  assume "\<forall>c \<in> set s. is_hex c"
  then have "\<forall>c \<in> set s. \<not> isspace c" using hex_space by blast
  then have "s = [] \<or> \<not> isspace (hd s)" "s = [] \<or> \<not> isspace (last s)" by auto
  then have "dropWhile isspace s = s" "dropWhile isspace (rev s) = rev s"
    by (simp_all add: dropWhile_eq_self_iff hd_rev)
  then show ?thesis by (simp add: strip_def)
qed

lemma lackey_fields:
  assumes "lackey_type t"
  shows "hd (lackey_line (t, v, sz)) \<noteq> CHR ''=''" "strip (take 2 (lackey_line (t, v, sz))) = [t]"
    "int16 (strip (drop 3 (takeWhile (\<lambda>c. c \<noteq> CHR '','') (lackey_line (t, v, sz))))) = Some (int (unat v))"
proof -
  let ?h = "pad8 (hex_of (unat v))"
  show "hd (lackey_line (t, v, sz)) \<noteq> CHR ''=''" by (simp add: lackey_line_def)
  have sp: "isspace CHR '' ''" "\<not> isspace t" using assms by (auto simp: isspace_def lackey_type_def)
  show "strip (take 2 (lackey_line (t, v, sz))) = [t]"
    using sp by (auto simp: lackey_line_def strip_def numeral_2_eq_2)
  have "takeWhile (\<lambda>c. c \<noteq> CHR '','') (?h @ CHR '','' # x) = ?h" for x
    using pad8_hex(1)[of _ "unat v"] hex_chars by (subst takeWhile_append2) auto
  then have "drop 3 (takeWhile (\<lambda>c. c \<noteq> CHR '','') (lackey_line (t, v, sz))) = ?h"
    using assms by (auto simp: lackey_line_def lackey_type_def numeral_3_eq_3)
  then show "int16 (strip (drop 3 (takeWhile (\<lambda>c. c \<noteq> CHR '','') (lackey_line (t, v, sz))))) = Some (int (unat v))"
    using strip_hex[of ?h] int16_hex[of ?h] pad8_hex(1)[of _ "unat v"] pad8_hex(2,3)[of "unat v"] by simp
qed

lemma newline_ne: "of_char c \<noteq> (10 :: nat) \<Longrightarrow> NEWLINE \<noteq> c"
  by (auto simp: NEWLINE_def)

lemma lines_of_line: "NEWLINE \<notin> set body \<Longrightarrow> lines_of (body @ NEWLINE # rest) = (body @ [NEWLINE]) # lines_of rest"
  by (induction body) auto

lemma lines_of_lackey:
  "\<forall>r \<in> set rs. lackey_type (fst r) \<Longrightarrow> lines_of (concat (map lackey_line rs)) = map lackey_line rs"
proof (induction rs)
  case (Cons r rs)
  obtain t v sz where r: "r = (t, v, sz)" by (cases r)
  let ?b = "(if t = CHR ''I'' then ''I  '' else '' '' @ [t] @ '' '') @ pad8 (hex_of (unat v)) @ '','' @ dec sz"
  have nd: "\<not> is_digit NEWLINE" by (simp add: is_digit_def NEWLINE_def)
  then have "NEWLINE \<notin> set (dec sz)" using dec_digits by blast
  moreover have "NEWLINE \<notin> set (pad8 (hex_of (unat v)))" using pad8_hex(1) newline(2) by blast
  moreover have "NEWLINE \<notin> {CHR ''I'', CHR ''L'', CHR ''S'', CHR ''M'', CHR '' '', CHR '',''}"
    using newline_ne[of "CHR ''I''"] newline_ne[of "CHR ''L''"] newline_ne[of "CHR ''S''"] newline_ne[of "CHR ''M''"]
      newline_ne[of "CHR '' ''"] newline_ne[of "CHR '',''"] by simp
  moreover have "t \<in> {CHR ''I'', CHR ''L'', CHR ''S'', CHR ''M''}" using Cons.prems by (simp add: r lackey_type_def)
  ultimately have "NEWLINE \<notin> set ?b" by auto
  from lines_of_line[OF this, of "concat (map lackey_line rs)"] show ?case
    using Cons by (simp add: r lackey_line_def)
qed simp

section \<open>What is printed\<close>

definition page_ref :: "char \<times> u64 \<times> nat \<Rightarrow> char \<times> u64" where
  "page_ref = (\<lambda>(t, v, sz). (t, word_of_nat (unat v div 4096 * 4096)))"

definition item_for :: "trace_item \<Rightarrow> char \<times> u64 \<Rightarrow> bool" where
  "item_for ti r \<longleftrightarrow> reftype ti = [fst r] \<and> pg ti * 4096 = int (unat (snd r)) \<and> \<not> marked ti"

definition slim_at :: "slim \<Rightarrow> (char \<times> u64) list \<Rightarrow> (char \<times> u64) list \<Rightarrow> bool" where
  "slim_at s cur out \<longleftrightarrow> tracebuffer s = toprint s \<and> list_all2 item_for (toprint s) cur \<and>
     sorted (map tstamp (toprint s)) \<and> (\<forall>ti \<in> set (toprint s). tstamp ti < ts s) \<and> stdout s = print_trace out"

lemma print_trace_append: "print_trace (rs @ qs) = print_trace rs @ print_trace qs"
  by (simp add: print_trace_def)

lemma item_line: "item_for ti r \<Longrightarrow> item_repr ti @ [NEWLINE] = trace_line r"
  by (simp add: item_for_def item_repr_def format_x_def trace_line_def)

lemma emit_at: "slim_at s cur out \<Longrightarrow> slim_at (emit_marked_in_ts_order s) [] (out @ cur)"
proof -
  assume a: "slim_at s cur out"
  have "concat (map (\<lambda>ti. item_repr ti @ [NEWLINE]) tp) = print_trace cur" if "list_all2 item_for tp cur" for tp
    using that by (induction rule: list_all2_induct) (simp_all add: print_trace_def item_line)
  moreover have "filter marked tp = []" if "list_all2 item_for tp cur" for tp
    using that by (induction rule: list_all2_induct) (simp_all add: item_for_def)
  ultimately show ?thesis
    using a by (simp add: slim_at_def emit_marked_in_ts_order_def Let_def print_trace_append
        sort_key_id_if_sorted)
qed

text \<open>One reference.\<close>

definition kept :: "bool \<Rightarrow> char \<times> u64 \<times> nat \<Rightarrow> bool" where
  "kept keepcode r \<longleftrightarrow> keepcode \<or> fst r \<noteq> CHR ''I''"

lemma unat_page: "unat (snd (page_ref (t, v, sz))) = unat v div 4096 * 4096"
proof -
  have "unat v div 4096 * 4096 < 2 ^ 64"
    using unsigned_less[of v, where ?'a = nat] by (simp add: le_less_trans[OF div_times_less_eq_dividend])
  then show ?thesis by (simp add: page_ref_def unsigned_of_nat take_bit_nat_eq_self del: of_nat_mult)
qed

definition new_item :: "char \<times> u64 \<times> nat \<Rightarrow> slim \<Rightarrow> trace_item" where
  "new_item = (\<lambda>(t, v, sz) s. \<lparr>reftype = [t], pg = int (unat v div 4096), tstamp = ts s, marked = False\<rparr>)"

lemma item_for_new: "item_for (new_item r s) (page_ref r)"
  by (cases r) (simp add: item_for_def new_item_def unat_page, simp add: page_ref_def)

lemma process_lackey:
  "lackey_type (fst r) \<Longrightarrow> process_line keepcode k (lackey_line r) s =
     (if kept keepcode r then (add_item k (new_item r s) s)\<lparr>ts := ts s + 1\<rparr> else s)"
  by (cases r) (auto simp: process_line_def lackey_fields kept_def new_item_def zdiv_int add_item_def
      emit_marked_in_ts_order_def Let_def)

lemma in_buffer_iff:
  assumes "slim_at s cur out"
  shows "in_buffer (new_item r s) s \<longleftrightarrow> snd (page_ref r) \<in> snd ` set cur"
proof -
  have "list_ex (\<lambda>x. pg x = pg (new_item r s)) tp \<longleftrightarrow> snd (page_ref r) \<in> snd ` set cur"
    if "list_all2 item_for tp cur" for tp
    using that
  proof (induction rule: list_all2_induct)
    case (Cons x xs y ys)
    have "pg x = pg (new_item r s) \<longleftrightarrow> int (unat (snd y)) = int (unat (snd (page_ref r)))"
      using Cons(1) item_for_new[of r s] by (auto simp: item_for_def)
    also have "\<dots> \<longleftrightarrow> snd y = snd (page_ref r)" by (simp only: of_nat_eq_iff word_unat_eq_iff)
    finally show ?case using Cons(3) by auto
  qed simp
  then show ?thesis using assms by (simp add: slim_at_def in_buffer_def)
qed

lemma push_at:
  assumes "slim_at s cur out"
  shows "slim_at (s\<lparr>toprint := toprint s @ [new_item r s], tracebuffer := tracebuffer s @ [new_item r s],
      ts := ts s + 1\<rparr>) (cur @ [page_ref r]) out"
proof -
  have "tstamp (new_item r s) = ts s" by (cases r) (simp add: new_item_def)
  then show ?thesis
    using assms item_for_new[of r s]
    by (auto simp: slim_at_def sorted_append list_all2_appendI less_imp_le intro: less_SucI)
qed

text \<open>The whole trace.\<close>

lemma fold_lackey:
  assumes "\<forall>r \<in> set rs. lackey_type (fst r)" "slim_at s cur out"
  shows "\<exists>cur'. slim_at (fold (process_line keepcode k) (map lackey_line rs) s) cur'
    (out @ concat (butlast (phases k cur (map page_ref (filter (kept keepcode) rs)))))"
  using assms
proof (induction rs arbitrary: s cur out)
  case (Cons r rs)
  let ?rs = "map page_ref (filter (kept keepcode) rs)"
  note step = process_lackey[of r keepcode k s]
  have lt: "lackey_type (fst r)" "\<forall>r \<in> set rs. lackey_type (fst r)" using Cons.prems(1) by auto
  show ?case
  proof (cases "kept keepcode r")
    case False
    then show ?thesis using Cons.IH[OF lt(2) Cons.prems(2)] step[OF lt(1)] by simp
  next
    case True
    let ?s = "process_line keepcode k (lackey_line r) s"
    note in_b = in_buffer_iff[OF Cons.prems(2), of r]
    have len: "length (tracebuffer s) = length cur" using Cons.prems(2) by (auto simp: slim_at_def dest: list_all2_lengthD)
    consider "snd (page_ref r) \<in> snd ` set cur" | "snd (page_ref r) \<notin> snd ` set cur" "length cur = k"
      | "snd (page_ref r) \<notin> snd ` set cur" "length cur \<noteq> k" by blast
    then show ?thesis
    proof cases
      case 1
      then have "?s = s\<lparr>ts := ts s + 1\<rparr>" using step[OF lt(1)] True in_b by (simp add: add_item_def)
      then have "slim_at ?s cur out" using Cons.prems(2) by (auto simp: slim_at_def intro: less_SucI)
      from Cons.IH[OF lt(2) this] show ?thesis using True 1 by simp
    next
      case 2
      let ?e = "emit_marked_in_ts_order s"
      have ts: "ts ?e = ts s" by (simp add: emit_marked_in_ts_order_def Let_def)
      then have ni: "new_item r ?e = new_item r s" by (cases r) (simp add: new_item_def)
      have "?s = ?e\<lparr>toprint := toprint ?e @ [new_item r ?e], tracebuffer := tracebuffer ?e @ [new_item r ?e], ts := ts ?e + 1\<rparr>"
        using step[OF lt(1)] True in_b 2 len by (simp add: add_item_def Let_def ts ni)
      then have "slim_at ?s [page_ref r] (out @ cur)" using push_at[OF emit_at[OF Cons.prems(2)], of r] by simp
      from Cons.IH[OF lt(2) this] show ?thesis using True 2 by simp
    next
      case 3
      have "?s = s\<lparr>toprint := toprint s @ [new_item r s], tracebuffer := tracebuffer s @ [new_item r s], ts := ts s + 1\<rparr>"
        using step[OF lt(1)] True in_b 3 len by (simp add: add_item_def Let_def)
      then have "slim_at ?s (cur @ [page_ref r]) out" using push_at[OF Cons.prems(2), of r] by simp
      from Cons.IH[OF lt(2) this] show ?thesis using True 3 by simp
    qed
  qed
qed auto

lemma fastslim_prints:
  assumes "\<forall>r \<in> set rs. lackey_type (fst r)"
  shows "fastslim keepcode k (concat (map lackey_line rs)) =
    print_trace (concat (butlast (phases k [] (map page_ref (filter (kept keepcode) rs)))))"
proof -
  have "slim_at \<lparr>ts = 0, tracebuffer = [], toprint = [], stdout = []\<rparr> [] []" by (simp add: slim_at_def print_trace_def)
  from fold_lackey[OF assms this, of keepcode k] show ?thesis
    by (auto simp: fastslim_def lines_of_lackey[OF assms] slim_at_def)
qed

end
