(* ===== verification/Fastslim_Props.thy ===== *)
theory Fastslim_Props
  imports Sim_Props Fastslim
begin

text \<open>
  What the simulator gets of a trace that went through the filter, and what this does to the
  misses it counts.
\<close>

text \<open>C19: of a trace as valgrind prints it, the simulator reads behind the filter the first
  reference to each page in each phase, by the address of the page, for all phases but the last. A
  phase has as many pages as the buffer has entries, no page twice; together they have every page
  of the trace (without those of the code, if these are not kept).\<close>

theorem fastslim_reaches_simulator:
  assumes "\<forall>r \<in> set rs. lackey_type (fst r)" "0 < k"
  shows "\<exists>ps. ps \<noteq> [] \<and>
    ps = phases k [] (map page_ref (filter (kept keepcode) rs)) \<and>
    trace_refs (fastslim keepcode k (concat (map lackey_line rs))) = concat (butlast ps) \<and>
    (\<forall>p \<in> set ps. distinct (map snd p) \<and> length p \<le> k) \<and> (\<forall>p \<in> set (butlast ps). length p = k) \<and>
    snd ` set (concat ps) = snd ` set (map page_ref (filter (kept keepcode) rs))"
proof -
  let ?rs = "map page_ref (filter (kept keepcode) rs)"
  have "set (concat (phases k [] ?rs)) \<subseteq> set ?rs" using phases_subset[of k "[]" ?rs] by simp
  moreover have "set (concat (butlast (phases k [] ?rs))) \<subseteq> set (concat (phases k [] ?rs))"
    using in_set_butlastD by fastforce
  moreover have "\<forall>(t, v) \<in> set ?rs. plain_type t"
    using assms(1) by (auto simp: page_ref_def lackey_type_def plain_type_def isspace_def)
  ultimately have "\<forall>(t, v) \<in> set (concat (butlast (phases k [] ?rs))). plain_type t" by blast
  from trace_refs_print[OF this] show ?thesis
    using phases_distinct[OF assms(2), of "[]" _ ?rs] phases_full[of _ k "[]" ?rs] phases_cover[of k "[]" ?rs]
    by (auto simp: fastslim_prints[OF assms(1)])
qed

text \<open>Six references to four pages, of eight bytes each.\<close>

definition slim_trace :: "(char \<times> u64 \<times> nat) list" where
  "slim_trace = [(CHR ''S'', 0x1008, 8), (CHR ''L'', 0x2000, 8), (CHR ''L'', 0x1010, 8), (CHR ''S'', 0x3000, 8),
     (CHR ''L'', 0x1018, 8), (CHR ''S'', 0x4000, 8)]"

lemma slim_types: "\<forall>r \<in> set slim_trace. lackey_type (fst r)"
  by (simp add: slim_trace_def lackey_type_def)

lemma slim_phases: "phases 2 [] (map page_ref (filter (kept True) slim_trace)) =
    [[(CHR ''S'', 0x1000), (CHR ''L'', 0x2000)], [(CHR ''S'', 0x3000), (CHR ''L'', 0x1000)], [(CHR ''S'', 0x4000)]]"
  by (simp add: slim_trace_def kept_def page_ref_def)

lemma fastslim_reaches_simulator_witness:
  "trace_refs (fastslim True 2 (concat (map lackey_line slim_trace))) =
    [(CHR ''S'', 0x1000), (CHR ''L'', 0x2000), (CHR ''S'', 0x3000), (CHR ''L'', 0x1000)]"
  using fastslim_reaches_simulator[OF slim_types, of 2 True] by (simp add: slim_phases)

text \<open>
  The filter is meant to keep the last reference to a page of a phase too. As it does not, an LRU
  memory of two frames misses once more on its output than on the references it stands for.
\<close>

lemma fastslim_adds_misses:
  "cache_misses (lru_step 2) [] (page_refs (map page_ref (butlast slim_trace))) = 3 \<and>
   cache_misses (lru_step 2) [] (page_refs (trace_refs (fastslim True 2 (concat (map lackey_line slim_trace))))) = 4"
proof -
  note p = page_refs_def page_of_def PGDIR_INDEX_def PGTBL_INDEX_def PGDIR_SHIFT_def PAGE_SHIFT_def
    PTRS_PER_PGTBL_def drop_bit_eq_div
  have r: "trace_refs (fastslim True 2 (concat (map lackey_line slim_trace))) =
      [(CHR ''S'', 0x1000), (CHR ''L'', 0x2000), (CHR ''S'', 0x3000), (CHR ''L'', 0x1000)]"
    using trace_refs_print[of "concat (butlast (phases 2 [] (map page_ref (filter (kept True) slim_trace))))"]
    by (simp add: fastslim_prints[OF slim_types] slim_phases plain_type_def isspace_def)
  have "page_refs (map page_ref (butlast slim_trace)) = [(0, 1), (0, 2), (0, 1), (0, 3), (0, 1)]"
    by (simp add: slim_trace_def page_ref_def p)
  moreover have "page_refs [(CHR ''S'', 0x1000), (CHR ''L'', 0x2000), (CHR ''S'', 0x3000), (CHR ''L'', 0x1000)] =
      [(0, 1), (0, 2), (0, 3), (0, 1)]" by (simp add: p)
  ultimately show ?thesis unfolding r by (simp add: lru_step_def)
qed

end
