(* ===== verification/Simpleloop.thy ===== *)
theory Simpleloop
  imports Prelude
begin

text \<open>
  The trace program \<^verbatim>\<open>a2/starter/traceprogs/simpleloop.c\<close>. It computes nothing; what it is
  for are the addresses it writes to, which are the results here. \<open>malloc\<close> is a parameter, \<open>None\<close>
  is the null pointer.
\<close>

definition RECORD_SIZE :: nat where "RECORD_SIZE = 128"

text \<open>\<open>sizeof(struct krec)\<close>, an array of \<open>double\<close>.\<close>

definition krec_size :: nat where "krec_size = RECORD_SIZE * 8"

text \<open>The loop of both functions: the first \<open>double\<close> of record \<open>i\<close> is written.\<close>

fun store_loop :: "nat list \<Rightarrow> nat option \<Rightarrow> nat list outcome" where
  "store_loop [] ptr = Ok []"
| "store_loop (i # is) ptr =
     (case ptr of None \<Rightarrow> Undef
      | Some p \<Rightarrow> bind_o (store_loop is ptr) (\<lambda>as. Ok ((p + krec_size * i) # as)))"

definition heap_loop :: "(nat \<Rightarrow> nat option) \<Rightarrow> int \<Rightarrow> nat list outcome" where
  "heap_loop malloc iters = store_loop [0..<nat iters] (malloc (nat ((iters * int krec_size) mod 2 ^ 64)))"

text \<open>The array on the stack needs a positive length.\<close>

definition stack_loop :: "nat \<Rightarrow> int \<Rightarrow> nat list outcome" where
  "stack_loop a iters = (if iters \<le> 0 then Undef else store_loop [0..<nat iters] (Some a))"

text \<open>\<open>marker_ok\<close> says whether the marker file can be opened; the markers are variables of \<open>main\<close>.\<close>

definition simpleloop_main :: "bool \<Rightarrow> (nat \<Rightarrow> nat option) \<Rightarrow> nat \<Rightarrow> nat \<Rightarrow> nat list outcome" where
  "simpleloop_main marker_ok malloc MARKER_START MARKER_END =
     (if \<not> marker_ok then Exit 1
      else bind_o (heap_loop malloc 10000) (\<lambda>as. Ok (MARKER_START # as @ [MARKER_END])))"

lemma store_loop_Some: "store_loop is (Some p) = Ok (map (\<lambda>i. p + krec_size * i) is)"
  by (induction "is") simp_all

text \<open>
  Every write is inside the allocated block, to a record of its own: with pages of 4 KiB the trace
  has at most four writes to a page.
\<close>

lemma heap_loop_writes:
  assumes "0 \<le> iters" "iters * int krec_size < 2 ^ 64" "malloc (nat iters * krec_size) = Some p"
  shows "heap_loop malloc iters = Ok (map (\<lambda>i. p + krec_size * i) [0..<nat iters])"
    and "\<forall>a \<in> set (map (\<lambda>i. p + krec_size * i) [0..<nat iters]). p \<le> a \<and> a + 8 \<le> p + nat iters * krec_size"
    and "distinct (map (\<lambda>i. p + krec_size * i) [0..<nat iters])"
proof -
  have "nat ((iters * int krec_size) mod 2 ^ 64) = nat iters * krec_size"
    using assms(1,2) by (simp add: mod_pos_pos_trivial nat_mult_distrib)
  then show "heap_loop malloc iters = Ok (map (\<lambda>i. p + krec_size * i) [0..<nat iters])"
    using assms(3) by (simp add: heap_loop_def store_loop_Some)
  have "krec_size * i + 8 \<le> n * krec_size" if "i < n" for i n
  proof -
    have "krec_size * (i + 1) \<le> krec_size * n" using that by (intro mult_le_mono2) simp
    then show ?thesis by (simp add: krec_size_def RECORD_SIZE_def)
  qed
  then show "\<forall>a \<in> set (map (\<lambda>i. p + krec_size * i) [0..<nat iters]). p \<le> a \<and> a + 8 \<le> p + nat iters * krec_size"
    by (auto simp: add.assoc)
  show "distinct (map (\<lambda>i. p + krec_size * i) [0..<nat iters])"
    by (simp add: distinct_map inj_on_def krec_size_def RECORD_SIZE_def)
qed

lemma heap_loop_no_memory: "malloc (nat ((iters * int krec_size) mod 2 ^ 64)) = None \<Longrightarrow> 0 < iters \<Longrightarrow> heap_loop malloc iters = Undef"
proof -
  assume a: "malloc (nat ((iters * int krec_size) mod 2 ^ 64)) = None" "0 < iters"
  then have "[0..<nat iters] = 0 # [1..<nat iters]" using upt_conv_Cons[of 0 "nat iters"] by simp
  then show ?thesis using a(1) by (simp add: heap_loop_def)
qed

end
