(* ===== verification/Spec2Isabelle.thy ===== *)
theory Spec2Isabelle
  imports Interceptor_Props Sim_Props Data_Props Ext2_Props Ext2_Cp_Props Ext2_Dir_Props
    Matmul_Props Sim_Report_Props Ext2_Main Ext2_Dump_Props Tester_Props Fastslim_Props Simpleloop
begin

text \<open>
  Verification development for the three assignments of an operating systems course: a system
  call interceptor (\<^verbatim>\<open>a1\<close>), a virtual memory simulator (\<^verbatim>\<open>a2\<close>) and tools that
  change ext2 images (\<^verbatim>\<open>a3\<close>). The programs share no code except the growing list of
  \<^verbatim>\<open>a2/starter/opt.c\<close> and \<^verbatim>\<open>a3/list.h\<close>. Machine integers are words of their
  width, failures are values of \<open>outcome\<close> (\<open>Prelude\<close>): \<open>Ok\<close> a result, \<open>Exit\<close>
  with a code, \<open>Abort\<close> for a failed assertion, \<open>Undef\<close> for what C leaves undefined (an index
  out of range, a null pointer, a division by zero). A theorem with the result \<open>Ok\<close> therefore
  says that none of these happens.

  \<^bold>\<open>The interceptor (a1).\<close> \<open>Interceptor\<close> translates
  \<^verbatim>\<open>a1/starter_code/starter_code/interceptor.c\<close> function by function: \<open>krow\<close> is a row
  of \<open>table\<close> (flags, counter, list of pids), \<open>kmod\<close> the module data with the system call
  table and the two spin locks; \<open>my_syscall\<close> with its checks and four handlers, the exit hook
  \<open>my_exit_group\<close>, \<open>interceptor\<close>, \<open>init_function\<close>, \<open>exit_function\<close>.
  \<open>Interceptor_Inv\<close> has the module invariant and its preservation, \<open>Interceptor_Spec\<close> the
  abstract command on a set of intercepted calls and sets of monitored pids and the refinement,
  \<open>Interceptor_Life\<close> loading, exiting processes, logging and unloading as a step relation on
  the whole life of the module, \<open>Interceptor_Locks\<close> the two locks under any interleaving of
  any number of threads, \<open>Interceptor_Props\<close> the properties. The kernel (its constants, the
  process that calls, whether memory is available) is a parameter. Each spin lock section is one
  atomic step of the model; that sections can block each other is what \<open>Interceptor_Locks\<close>
  is about. \<open>Tester\<close> models the two test programs, \<^verbatim>\<open>test_full.c\<close> and
  \<^verbatim>\<open>test_intercept.c\<close>, as user processes whose system calls go through the system call
  table to the module, with the guests they start and the exits of these; \<open>Tester_Ok\<close> has a
  Hoare triple for their statements, and \<open>Tester_Props\<close> shows that every test passes.

  \<^bold>\<open>The simulator (a2).\<close> The containers come first, each with its own contract as a locale
  interpreted on the C operations: \<open>Dyn_List\<close> (the growing array of \<^verbatim>\<open>opt.c\<close>; locale
  \<open>stack_list\<close>), \<open>Hash_Table\<close> (of \<^verbatim>\<open>opt.c\<close>; locale \<open>map_table\<close>),
  \<open>Ring_Queue\<close> (of \<^verbatim>\<open>fifo.c\<close>; locale \<open>fifo_queue\<close>) and \<open>Bitmap\<close> (of
  \<^verbatim>\<open>swap.c\<close>; locale \<open>slot_allocator\<close>). \<open>Sim_State\<close> has the types of
  \<^verbatim>\<open>pagetable.h\<close> and the global variables, \<open>Swap\<close> the swap file,
  \<open>Page_Table\<close> the functions of \<^verbatim>\<open>pagetable.c\<close> and \<open>access_mem\<close> and the replay
  loop of \<^verbatim>\<open>sim.c\<close>, with the function pointers of the replacement algorithm as arguments.

  \<open>Paging_Inv\<close> and \<open>Paging_Steps\<close> have the invariant (frames, entries and swap slots
  belong together) and the effect on it of each step of a reference; the abstraction
  \<open>abs_mem\<close> gives the bytes of every page wherever they are. \<open>Replacement\<close> states what
  paging relies on as the locale \<open>replacement\<close>: \<open>ref\<close> and \<open>evict\<close> leave memory alone
  and \<open>evict\<close> returns a frame that holds a page. In it, \<open>Translation\<close> and \<open>Access\<close> prove
  that a reference, and a whole trace, acts as on a memory without paging, and
  \<open>Cache_Spec\<close> that the misses are those of an abstract cache when the algorithm follows its
  rule. \<open>Sim_Globals\<close> adds the variables of the algorithms; \<open>Fifo\<close>, \<open>Lru\<close>,
  \<open>Clock_Rand\<close> and \<open>Opt\<close> translate \<^verbatim>\<open>fifo.c\<close>, \<^verbatim>\<open>lru.c\<close>,
  \<^verbatim>\<open>clock.c\<close> and \<^verbatim>\<open>rand.c\<close>, \<^verbatim>\<open>opt.c\<close> and interpret the locale on
  them; \<open>Trace\<close> has the two readers of the trace file, \<open>Simulator\<close> the table of
  algorithms and \<open>main\<close> with its options parsed. \<open>Sim_Report\<close> has the options, the
  printing of the page tables and of the counters, and the whole program, with \<open>Printing\<close> for
  what it uses of the C library (decimal numbers, \<open>strtoul\<close>, \<open>getopt\<close>). \<open>Sim_Props\<close>,
  \<open>Sim_Report_Props\<close> and \<open>Data_Props\<close> hold the properties. \<open>Matmul\<close> models two of
  the programs whose traces feed the simulator, \<^verbatim>\<open>matmul.c\<close> and \<^verbatim>\<open>blocked.c\<close>, with
  the arithmetic of \<open>double\<close> as a parameter; \<open>Matmul_Props\<close> shows that they print the same
  product. \<open>Simpleloop\<close> models \<^verbatim>\<open>simpleloop.c\<close> by the addresses it writes to. \<open>Fastslim\<close>
  is the filter \<^verbatim>\<open>fastslim.py\<close> between valgrind and the simulator; \<open>Fastslim_Props\<close>
  says what of a trace reaches \<open>replay_trace\<close>.

  \<^bold>\<open>The ext2 tools (a3).\<close> An image is a function from addresses to bytes, a pointer into it an
  offset, an access outside the 128 KiB of the mapping a \<open>Fault\<close>; \<open>exit\<close> leaves the
  image as it was changed so far (\<open>Quit\<close>). \<open>Ext2_Disk\<close> has the structures of
  \<^verbatim>\<open>a3/ext2.h\<close> as field offsets and the functions of \<^verbatim>\<open>a3/ext2_helper.h\<close> that
  read and write them, \<open>Ext2_Alloc\<close> those that allocate and free, \<open>Ext2_Dir\<close> those on
  directory entries, \<open>Ext2_Cmd\<close> paths and the five commands, \<open>Ext2_Main\<close> their main
  functions, \<open>Ext2_Dump\<close> the program \<^verbatim>\<open>read_images.c\<close>. The growing list of
  \<^verbatim>\<open>a3/list.h\<close> is that of \<^verbatim>\<open>opt.c\<close>, and \<open>split_path\<close> uses it.

  The proofs go up in layers. \<open>Ext2_Inv\<close>, \<open>Ext2_Inode_Inv\<close> and \<open>Ext2_Alloc_Inv\<close>
  say what one access or allocation changes, with frames as sets of addresses on which two images
  agree (\<open>agree\<close>; locale \<open>bit_store\<close> for the two bitmaps). \<open>Ext2_Chain\<close> and
  \<open>Ext2_Chain_Ops\<close> read a block as a list of entries, and the loops over it as list operations.
  \<open>Ext2_Tree\<close> reads an image as a tree: \<open>dir_map d n\<close> is the directory with inode number
  \<open>n\<close>, \<open>follow\<close> the abstract path walk that \<open>traverse_path\<close> refines;
  \<open>Ext2_Path\<close> does paths and \<open>ext2_ls\<close>. \<open>Ext2_Dir_Add\<close> and \<open>Ext2_Dir_Make\<close>
  are about a new entry in a directory, \<open>Ext2_Fs\<close> has the invariant \<open>fs_ok\<close> of a consistent
  image (a well-formed tree, counters that the bitmaps can keep, one owner for every block, live inodes
  behind every name) with its frame rule. On it rest \<open>Ext2_Mkdir\<close>; \<open>Ext2_Remove\<close>,
  \<open>Ext2_Free\<close> and \<open>Ext2_Rm\<close>; \<open>Ext2_Copy\<close> and \<open>Ext2_Cp\<close>; \<open>Ext2_Ln\<close> and
  \<open>Ext2_Symlink\<close>: which paths a command refuses, and that it otherwise does to the tree what it
  promises and keeps \<open>fs_ok\<close>. \<open>Ext2_Session\<close> puts them together for any sequence of
  commands. \<open>Ext2_Demo\<close> is a small image for the witnesses; the properties are in
  \<open>Ext2_Props\<close>, \<open>Ext2_Cp_Props\<close>, \<open>Ext2_Dir_Props\<close> and \<open>Ext2_Dump_Props\<close>.

  \<^bold>\<open>Bounds.\<close> The theorems about whole runs assume (\<open>fits\<close>): at most \<open>2^20\<close> frames
  (a frame number is shifted by 12 in 32 bits), a swap file with a slot for every page of the
  trace whose size is below \<open>2^31\<close> (offsets are \<open>int\<close>), room on the disk and for the page
  tables, and addresses of the directory's range. The counters are \<open>int\<close>s in the code: an
  increment beyond \<open>2^31 - 1\<close> is \<open>Undef\<close> (\<open>incr_int\<close>), and the runs have fewer than
  \<open>2^31\<close> references, with opt, whose list and hash table are indexed by \<open>int\<close>s, fewer than
  \<open>2^30\<close>. The hash table has fewer than \<open>2^31\<close> buckets. The indexes in the loops of
  \<open>Dyn_List\<close> and the reference times of opt are natural numbers: the first are \<open>int\<close>s that
  stay below the length of an array of fewer than \<open>2^31\<close> pointers, the second come from a checked
  conversion to \<open>int\<close>. The loop of the clock algorithm has no bound in
  the code; it is a partial function, shown to return. Allocation fails only where the code
  tests for it. Of the numbers of \<open>%lx\<close>, those of hex digits are modelled.

  The theorems about ext2 assume the geometry of the images of the assignment (one group, 128 blocks,
  32 inodes, bitmaps in blocks 3 and 4, inode table in block 5), inodes without an indirect block
  (the tools never allocate one), entries with the room \<open>total_entry_length\<close> asks for (a name
  that fills its entry is overwritten by the next one, which \<open>Ext2_Dir_Props\<close> shows), names
  shorter than 256, and enough free blocks and inodes; \<open>demo\<close> satisfies all of it. Removing the
  last link of an inode assumes in addition that no other name leads to it and that it and its
  blocks are among those the tools give out (from 12 and from 23 on); any removal, that each block
  below 23 of the parent directory holds another name. The walk of \<open>read_images\<close> over a directory block has no bound in the code and is a
  partial function, shown to return on a consistent image and never to return on a block with an
  entry of length 0. The matrix programs assume orders whose square is below
  \<open>2^31\<close>.

  The testers start themselves once, so a fuel of 2 is enough; the call they test is not the exit
  call and not the last of the table. A buffer of the filter has at least one entry.

  \<^bold>\<open>Not modelled:\<close> the script \<^verbatim>\<open>runit\<close> and the timer of
  \<^verbatim>\<open>a2/starter/traceprogs\<close>, which only call other programs and the clock. Error messages
  are left out, their exit codes are not. The addresses printed with \<open>%p\<close>, the quotients
  printed with \<open>%.4f\<close>, time stamps, the results of \<open>open\<close> and \<open>mmap\<close> and
  the files of the host are parameters.
\<close>

end
